(* ===== verification/Nowp_Prelude.thy ===== *)
theory Nowp_Prelude
  imports Main "HOL-Library.Word"
begin

text \<open>
  Shared vocabulary of the development: machine integers, error results, and the little-endian
  reading of a list of words, on which both the limb arithmetic of \<^verbatim>\<open>base_uint\<close> and the byte
  codecs of the serializer rest.
\<close>

unbundle bit_operations_syntax

subsection \<open>Machine types\<close>

type_synonym u8 = "8 word"
type_synonym u16 = "16 word"
type_synonym u32 = "32 word"
type_synonym u64 = "64 word"
type_synonym bytes = "u8 list"

text \<open>\<^verbatim>\<open>int64_t\<close> quantities are modelled by \<^typ>\<open>int\<close>; the predicate states that a value fits.\<close>

definition fits_int64 :: "int \<Rightarrow> bool" where
  "fits_int64 n \<longleftrightarrow> - (2 ^ 63) \<le> n \<and> n < 2 ^ 63"

text \<open>C++ integer division truncates towards zero.\<close>

definition cdiv :: "int \<Rightarrow> int \<Rightarrow> int" where
  "cdiv a b = (if (0 \<le> a) = (0 \<le> b) then \<bar>a\<bar> div \<bar>b\<bar> else - (\<bar>a\<bar> div \<bar>b\<bar>))"

lemma cdiv_nonneg: "0 \<le> a \<Longrightarrow> 0 \<le> b \<Longrightarrow> cdiv a b = a div b"
  by (simp add: cdiv_def)

lemma cdiv_ge_0: "0 \<le> a \<Longrightarrow> 0 \<le> b \<Longrightarrow> 0 \<le> cdiv a b"
  by (simp add: cdiv_def pos_imp_zdiv_nonneg_iff div_int_pos_iff)

subsection \<open>Automation collections\<close>

named_theorems val_simps \<open>values of limb and byte lists\<close>
named_theorems len_simps \<open>lengths of limb and byte lists\<close>

subsection \<open>Words read as naturals\<close>

lemma unat_lt_pow: "unat (x :: 'a::len word) < 2 ^ LENGTH('a)"
  by (rule unsigned_less)

lemma unat_u32_lt: "unat (x :: u32) < 4294967296"
  using unat_lt_pow [of x] by simp

lemma unat_u8_lt: "unat (x :: u8) < 256"
  using unat_lt_pow [of x] by simp

lemma unat_u64_lt: "unat (x :: u64) < 18446744073709551616"
  using unat_lt_pow [of x] by simp

lemma unat_ucast_mod:
  "unat (ucast (x :: 'a::len word) :: 'b::len word) = unat x mod 2 ^ LENGTH('b)"
  by (simp add: unsigned_ucast_eq take_bit_eq_mod)

lemma unat_ucast_up:
  "LENGTH('a) \<le> LENGTH('b) \<Longrightarrow> unat (ucast (x :: 'a::len word) :: 'b::len word) = unat x"
proof -
  assume le: "LENGTH('a) \<le> LENGTH('b)"
  have "unat x < 2 ^ LENGTH('a)" by (rule unsigned_less)
  also have "\<dots> \<le> 2 ^ LENGTH('b)" using le by simp
  finally show ?thesis by (simp add: unat_ucast_mod)
qed

lemma unat_drop_bit: "unat (drop_bit n (x :: 'a::len word)) = unat x div 2 ^ n"
  unfolding unsigned_drop_bit_eq by (simp add: drop_bit_eq_div take_bit_eq_mod unat_lt_pow)

lemma unat_push_bit: "unat (push_bit n (x :: 'a::len word)) = (unat x * 2 ^ n) mod 2 ^ LENGTH('a)"
  unfolding unsigned_push_bit_eq by (simp add: take_bit_eq_mod push_bit_eq_mult)

lemma not_bit_high:
  assumes "unat (c :: 'a::len word) < 2 ^ k" "k \<le> n"
  shows "\<not> bit c n"
proof -
  have "(2::nat) ^ k \<le> 2 ^ n" using assms(2) by (intro power_increasing) simp_all
  then have "unat c < 2 ^ n" using assms(1) by linarith
  then have "unat c div 2 ^ n = 0" by simp
  then have "\<not> bit (unat c) n" by (simp only: bit_iff_odd) simp
  then show ?thesis by (auto simp: bit_unsigned_iff)
qed

lemma unat_word_of_nat: "n < 2 ^ LENGTH('a) \<Longrightarrow> unat (word_of_nat n :: 'a::len word) = n"
  by (simp add: unsigned_of_nat take_bit_eq_mod)

lemma unat_plus_mod: "unat (x + y :: 'a::len word) = (unat x + unat y) mod 2 ^ LENGTH('a)"
  by (simp add: unat_word_ariths)

lemma unat_times_mod: "unat (x * y :: 'a::len word) = (unat x * unat y) mod 2 ^ LENGTH('a)"
  by (simp add: unat_word_ariths)

lemma unat_not: "unat (NOT x :: 'a::len word) = 2 ^ LENGTH('a) - 1 - unat x"
proof -
  have "NOT x = (- 1) - x" by (simp add: not_eq_complement)
  moreover have "unat ((- 1 :: 'a word) - x) = unat (- 1 :: 'a word) - unat x"
    by (rule unat_sub) simp
  moreover have "unat (- 1 :: 'a word) = 2 ^ LENGTH('a) - 1"
    by (simp add: unsigned_minus_1_eq_mask mask_eq_exp_minus_1)
  ultimately show ?thesis by simp
qed

subsection \<open>Little-endian value of a list of words\<close>

primrec le_value :: "'a::len word list \<Rightarrow> nat" where
  "le_value [] = 0"
| "le_value (x # xs) = unat x + 2 ^ LENGTH('a) * le_value xs"

primrec le_digits :: "nat \<Rightarrow> nat \<Rightarrow> 'a::len word list" where
  "le_digits 0 v = []"
| "le_digits (Suc k) v = word_of_nat v # le_digits k (v div 2 ^ LENGTH('a))"

lemma le_value_append:
  "le_value (xs @ ys :: 'a::len word list) =
     le_value xs + 2 ^ (LENGTH('a) * length xs) * le_value ys"
  by (induction xs) (simp_all add: algebra_simps power_add)

lemma le_value_bound: "le_value (xs :: 'a::len word list) < 2 ^ (LENGTH('a) * length xs)"
proof (induction xs)
  case Nil
  show ?case by simp
next
  case (Cons x xs)
  have "le_value (x # xs) < 2 ^ LENGTH('a) + 2 ^ LENGTH('a) * le_value xs"
    using unat_lt_pow [of x] by simp
  also have "\<dots> = 2 ^ LENGTH('a) * Suc (le_value xs)" by simp
  also have "\<dots> \<le> 2 ^ LENGTH('a) * 2 ^ (LENGTH('a) * length xs)"
    using Cons by (intro mult_le_mono2) simp
  finally show ?case by (simp add: power_add)
qed

lemma le_value_replicate_0 [simp]: "le_value (replicate n 0) = 0"
  by (induction n) simp_all

lemma le_value_inj:
  "length xs = length ys \<Longrightarrow> le_value xs = le_value ys \<longleftrightarrow> xs = (ys :: 'a::len word list)"
proof (induction xs ys rule: list_induct2)
  case Nil
  show ?case by simp
next
  case (Cons x xs y ys)
  have "le_value (x # xs) = le_value (y # ys) \<longleftrightarrow> unat x = unat y \<and> le_value xs = le_value ys"
  proof
    assume eq: "le_value (x # xs) = le_value (y # ys)"
    have "le_value (x # xs) mod 2 ^ LENGTH('a) = le_value (y # ys) mod 2 ^ LENGTH('a)"
      and "le_value (x # xs) div 2 ^ LENGTH('a) = le_value (y # ys) div 2 ^ LENGTH('a)"
      by (simp_all only: eq)
    then show "unat x = unat y \<and> le_value xs = le_value ys"
      using unat_lt_pow [of x] unat_lt_pow [of y] by simp
  qed simp
  then show ?case using Cons.IH by (simp add: word_unat_eq_iff)
qed

lemma le_value_eq_0_iff: "le_value xs = 0 \<longleftrightarrow> (\<forall>x \<in> set xs. x = 0)"
  by (induction xs) (auto simp: unat_eq_0)

lemma length_le_digits [simp, len_simps]: "length (le_digits k v) = k"
  by (induction k arbitrary: v) simp_all

lemma le_value_le_digits [val_simps]:
  "le_value (le_digits k v :: 'a::len word list) = v mod 2 ^ (LENGTH('a) * k)"
proof (induction k arbitrary: v)
  case 0
  show ?case by simp
next
  case (Suc k)
  then show ?case
    by (simp add: unsigned_of_nat take_bit_eq_mod power_add mod_mult2_eq)
qed

lemma le_digits_le_value [simp]: "le_digits (length xs) (le_value xs) = xs"
  using le_value_inj [of "le_digits (length xs) (le_value xs)" xs] le_value_bound [of xs]
  by (simp add: le_value_le_digits)

end
