(* ===== verification/Arith_Uint.thy ===== *)
theory Arith_Uint
  imports Nowp_Prelude
begin

text \<open>
  \<^verbatim>\<open>base_uint<BITS>\<close> of \<^verbatim>\<open>src/src/arith_uint256.h\<close> and \<^verbatim>\<open>src/src/arith_uint256.cpp\<close>: fixed-width
  unsigned integers stored as an array \<^verbatim>\<open>pn\<close> of 32-bit limbs, least significant first. A value is
  the list of its limbs, so \<^verbatim>\<open>WIDTH\<close> is the length of the list and one definition serves both
  \<^verbatim>\<open>arith_uint256\<close> (8 limbs) and \<^verbatim>\<open>arith_uint512\<close> (16 limbs). Every loop over limbs of the source
  is a recursion or a fold over the same limbs in the same order, with the 64-bit carry written
  out. The lemmas show that each operation computes the arithmetic operation modulo
  \<open>2 ^ (32 * WIDTH)\<close>, that \<^verbatim>\<open>operator/=\<close> is exact division and that \<^verbatim>\<open>bits()\<close> is the binary length.
\<close>

subsection \<open>Representation, constructors\<close>

type_synonym base_uint = "u32 list"

abbreviation WIDTH :: "base_uint \<Rightarrow> nat" where
  "WIDTH \<equiv> length"

definition uint_null :: "nat \<Rightarrow> base_uint" where
  "uint_null W = replicate W 0"

definition uint_of_u64 :: "nat \<Rightarrow> u64 \<Rightarrow> base_uint" where
  "uint_of_u64 W b = ucast b # ucast (drop_bit 32 b) # replicate (W - 2) 0"

definition GetLow64 :: "base_uint \<Rightarrow> u64" where
  "GetLow64 pn = ucast (pn ! 0) OR push_bit 32 (ucast (pn ! 1))"

subsection \<open>Complement, increment, negation\<close>

definition uint_not :: "base_uint \<Rightarrow> base_uint" where
  "uint_not pn = map (\<lambda>x. NOT x) pn"

fun uint_inc :: "base_uint \<Rightarrow> base_uint" where
  "uint_inc [] = []"
| "uint_inc (x # xs) = (let y = x + 1 in if y = 0 then y # uint_inc xs else y # xs)"

fun uint_dec :: "base_uint \<Rightarrow> base_uint" where
  "uint_dec [] = []"
| "uint_dec (x # xs) = (let y = x - 1 in if y = 0xffffffff then y # uint_dec xs else y # xs)"

definition uint_neg :: "base_uint \<Rightarrow> base_uint" where
  "uint_neg pn = uint_inc (uint_not pn)"

subsection \<open>Addition and subtraction\<close>

fun add_loop :: "u64 \<Rightarrow> base_uint \<Rightarrow> base_uint \<Rightarrow> base_uint" where
  "add_loop carry (x # xs) (y # ys) =
     (let n = carry + ucast x + ucast y
      in ucast (n AND 0xffffffff) # add_loop (drop_bit 32 n) xs ys)"
| "add_loop carry _ _ = []"

definition uint_add :: "base_uint \<Rightarrow> base_uint \<Rightarrow> base_uint" where
  "uint_add a b = add_loop 0 a b"

definition uint_sub :: "base_uint \<Rightarrow> base_uint \<Rightarrow> base_uint" where
  "uint_sub a b = uint_add a (uint_neg b)"

subsection \<open>Multiplication\<close>

fun mul32_loop :: "u64 \<Rightarrow> u32 \<Rightarrow> base_uint \<Rightarrow> base_uint" where
  "mul32_loop carry b32 [] = []"
| "mul32_loop carry b32 (x # xs) =
     (let n = carry + ucast b32 * ucast x
      in ucast (n AND 0xffffffff) # mul32_loop (drop_bit 32 n) b32 xs)"

definition uint_mul32 :: "base_uint \<Rightarrow> u32 \<Rightarrow> base_uint" where
  "uint_mul32 a b32 = mul32_loop 0 b32 a"

text \<open>The inner loop of \<^verbatim>\<open>operator*=(const base_uint&)\<close>: it runs over the limbs \<open>a.pn[j..]\<close>.\<close>

fun mul_row :: "u64 \<Rightarrow> base_uint \<Rightarrow> u32 \<Rightarrow> base_uint \<Rightarrow> base_uint" where
  "mul_row carry (r # rs) pnj (y # ys) =
     (let n = carry + ucast r + ucast pnj * ucast y
      in ucast (n AND 0xffffffff) # mul_row (drop_bit 32 n) rs pnj ys)"
| "mul_row carry _ pnj _ = []"

definition uint_mul :: "base_uint \<Rightarrow> base_uint \<Rightarrow> base_uint" where
  "uint_mul pn b =
     foldl (\<lambda>a j. take j a @ mul_row 0 (drop j a) (pn ! j) b) (uint_null (WIDTH pn)) [0..<WIDTH pn]"

subsection \<open>Shifts\<close>

definition shl_step :: "base_uint \<Rightarrow> nat \<Rightarrow> nat \<Rightarrow> base_uint \<Rightarrow> nat \<Rightarrow> base_uint" where
  "shl_step a k s pn i =
     (let pn1 = (if i + k + 1 < WIDTH a \<and> s \<noteq> 0
                 then pn[i + k + 1 := (pn ! (i + k + 1)) OR drop_bit (32 - s) (a ! i)] else pn)
      in if i + k < WIDTH a then pn1[i + k := (pn1 ! (i + k)) OR push_bit s (a ! i)] else pn1)"

definition uint_shl :: "base_uint \<Rightarrow> nat \<Rightarrow> base_uint" where
  "uint_shl a shift =
     foldl (shl_step a (shift div 32) (shift mod 32)) (uint_null (WIDTH a)) [0..<WIDTH a]"

definition shr_step :: "base_uint \<Rightarrow> nat \<Rightarrow> nat \<Rightarrow> base_uint \<Rightarrow> nat \<Rightarrow> base_uint" where
  "shr_step a k s pn i =
     (let pn1 = (if k + 1 \<le> i \<and> s \<noteq> 0
                 then pn[i - k - 1 := (pn ! (i - k - 1)) OR push_bit (32 - s) (a ! i)] else pn)
      in if k \<le> i then pn1[i - k := (pn1 ! (i - k)) OR drop_bit s (a ! i)] else pn1)"

definition uint_shr :: "base_uint \<Rightarrow> nat \<Rightarrow> base_uint" where
  "uint_shr a shift =
     foldl (shr_step a (shift div 32) (shift mod 32)) (uint_null (WIDTH a)) [0..<WIDTH a]"

subsection \<open>Comparison, bit length\<close>

fun compare_from_top :: "base_uint \<Rightarrow> base_uint \<Rightarrow> int" where
  "compare_from_top (x # xs) (y # ys) =
     (if x < y then - 1 else if y < x then 1 else compare_from_top xs ys)"
| "compare_from_top _ _ = 0"

definition CompareTo :: "base_uint \<Rightarrow> base_uint \<Rightarrow> int" where
  "CompareTo a b = compare_from_top (rev a) (rev b)"

definition EqualTo :: "base_uint \<Rightarrow> u64 \<Rightarrow> bool" where
  "EqualTo pn b =
     (if \<exists>i \<in> set [2..<WIDTH pn]. pn ! i \<noteq> 0 then False
      else if ucast (pn ! 1) \<noteq> drop_bit 32 b then False
      else if ucast (pn ! 0) \<noteq> b AND 0xffffffff then False
      else True)"

fun top_bit :: "u32 \<Rightarrow> nat \<Rightarrow> nat" where
  "top_bit x 0 = 1"
| "top_bit x (Suc n) = (if x AND push_bit (Suc n) 1 \<noteq> 0 then Suc n + 1 else top_bit x n)"

fun bits_below :: "base_uint \<Rightarrow> nat \<Rightarrow> nat" where
  "bits_below pn 0 = 0"
| "bits_below pn (Suc pos) =
     (if pn ! pos \<noteq> 0 then 32 * pos + top_bit (pn ! pos) 31 else bits_below pn pos)"

definition bits :: "base_uint \<Rightarrow> nat" where
  "bits pn = bits_below pn (WIDTH pn)"

subsection \<open>Division\<close>

datatype uint_error = Division_by_zero

fun div_loop :: "base_uint \<Rightarrow> base_uint \<Rightarrow> base_uint \<Rightarrow> nat \<Rightarrow> base_uint" where
  "div_loop q num d 0 = q"
| "div_loop q num d (Suc shift) =
     (if CompareTo num d \<ge> 0
      then div_loop (q[shift div 32 := (q ! (shift div 32)) OR push_bit (shift mod 32) 1])
             (uint_sub num d) (uint_shr d 1) shift
      else div_loop q num (uint_shr d 1) shift)"

definition uint_div :: "base_uint \<Rightarrow> base_uint \<Rightarrow> uint_error + base_uint" where
  "uint_div a b =
     (let num_bits = bits a; div_bits = bits b
      in if div_bits = 0 then Inl Division_by_zero
         else if div_bits > num_bits then Inr (uint_null (WIDTH a))
         else let shift = num_bits - div_bits
              in Inr (div_loop (uint_null (WIDTH a)) a (uint_shl b shift) (Suc shift)))"

subsection \<open>Widths are kept\<close>

lemma length_uint_null [simp, len_simps]: "length (uint_null W) = W"
  by (simp add: uint_null_def)

lemma length_uint_of_u64 [simp, len_simps]: "2 \<le> W \<Longrightarrow> length (uint_of_u64 W b) = W"
  by (simp add: uint_of_u64_def)

lemma length_uint_not [simp, len_simps]: "length (uint_not a) = length a"
  by (simp add: uint_not_def)

lemma length_uint_inc [simp, len_simps]: "length (uint_inc a) = length a"
  by (induction a rule: uint_inc.induct) (simp_all add: Let_def)

lemma length_uint_dec [simp, len_simps]: "length (uint_dec a) = length a"
  by (induction a rule: uint_dec.induct) (simp_all add: Let_def)

lemma length_uint_neg [simp, len_simps]: "length (uint_neg a) = length a"
  by (simp add: uint_neg_def)

lemma length_add_loop: "length (add_loop c a b) = min (length a) (length b)"
  by (induction c a b rule: add_loop.induct) (simp_all add: Let_def)

lemma length_uint_add [simp, len_simps]:
  "length a = length b \<Longrightarrow> length (uint_add a b) = length b"
  by (simp add: uint_add_def length_add_loop)

lemma length_uint_sub [simp, len_simps]:
  "length a = length b \<Longrightarrow> length (uint_sub a b) = length b"
  by (simp add: uint_sub_def)

lemma length_uint_mul32 [simp, len_simps]: "length (uint_mul32 a b) = length a"
proof -
  have "length (mul32_loop c b a) = length a" for c
    by (induction c b a rule: mul32_loop.induct) (simp_all add: Let_def)
  then show ?thesis by (simp add: uint_mul32_def)
qed

lemma length_mul_row [len_simps]: "length (mul_row c a x b) = min (length a) (length b)"
  by (induction c a x b rule: mul_row.induct) (simp_all add: Let_def)

lemma length_foldl_inv:
  "(\<And>x i. i \<in> set is \<Longrightarrow> length (f x i) = length x) \<Longrightarrow> length (foldl f a is) = length a"
  by (induction "is" arbitrary: a) simp_all

lemma length_uint_shl [simp, len_simps]: "length (uint_shl a s) = length a"
  unfolding uint_shl_def by (subst length_foldl_inv) (simp_all add: shl_step_def Let_def)

lemma length_uint_shr [simp, len_simps]: "length (uint_shr a s) = length a"
  unfolding uint_shr_def by (subst length_foldl_inv) (simp_all add: shr_step_def Let_def)

lemma length_div_loop [simp, len_simps]: "length (div_loop q num d n) = length q"
  by (induction n arbitrary: q num d) simp_all

subsection \<open>Values\<close>

lemma le_value_uint_null [simp, val_simps]: "le_value (uint_null W) = 0"
  by (simp add: uint_null_def)

lemma and_mask32: "(n :: u64) AND 0xffffffff = take_bit 32 n"
  by (simp add: take_bit_eq_mask mask_eq_exp_minus_1)

lemma unat_low32: "unat (ucast ((n :: u64) AND 0xffffffff) :: u32) = unat n mod 2 ^ 32"
proof -
  have "unat (take_bit 32 n) = unat n mod 2 ^ 32"
    unfolding unsigned_take_bit_eq by (simp add: take_bit_eq_mod)
  then show ?thesis by (simp add: and_mask32 unat_ucast_mod)
qed

lemma low_high_split: "n mod 2 ^ 32 + 2 ^ 32 * ((n div 2 ^ 32 + v) mod M) = (n + 2 ^ 32 * v) mod (2 ^ 32 * M)"
  for n v M :: nat
proof -
  have "(n + 2 ^ 32 * v) mod (2 ^ 32 * M)
      = 2 ^ 32 * ((n + 2 ^ 32 * v) div 2 ^ 32 mod M) + (n + 2 ^ 32 * v) mod 2 ^ 32"
    by (rule mod_mult2_eq)
  then show ?thesis by (simp add: add.commute)
qed

lemma val_uint_of_u64 [val_simps]: "le_value (uint_of_u64 W b) = unat b"
proof -
  have "unat b < 2 ^ 64" using unat_lt_pow [of b] by simp
  then have "unat b div 2 ^ 32 < 2 ^ 32" by (simp add: less_mult_imp_div_less)
  then show ?thesis
    by (simp add: uint_of_u64_def unat_ucast_mod unat_drop_bit)
qed

lemma pow_limb_Cons: "(2::nat) ^ (32 * length (x # xs)) = 2 ^ 32 * 2 ^ (32 * length xs)"
  by (simp only: length_Cons mult_Suc_right power_add)

lemma val_uint_inc: "le_value (uint_inc a) = (le_value a + 1) mod 2 ^ (32 * length a)"
proof (induction a rule: uint_inc.induct)
  case 1
  show ?case by simp
next
  case (2 x xs)
  show ?case
  proof (cases "x + 1 = 0")
    case True
    then have "x = - 1" by (simp add: eq_neg_iff_add_eq_0)
    then have ux: "unat x = 2 ^ 32 - 1"
      by (simp add: unsigned_minus_1_eq_mask mask_eq_exp_minus_1)
    have "le_value (uint_inc (x # xs)) = 2 ^ 32 * ((le_value xs + 1) mod 2 ^ (32 * length xs))"
      using True 2 by simp
    also have "\<dots> = (2 ^ 32 * (le_value xs + 1)) mod (2 ^ 32 * 2 ^ (32 * length xs))"
      by (simp only: mult_mod_right)
    also have "2 ^ 32 * (le_value xs + 1) = le_value (x # xs) + 1" using ux by simp
    finally show ?thesis by (simp only: pow_limb_Cons)
  next
    case False
    then have ux: "unat (x + 1) = unat x + 1"
      by (metis Suc_eq_plus1 add.commute unatSuc)
    have "le_value (x # xs) + 1 = le_value ((x + 1) # xs)" using ux by simp
    also have "\<dots> < 2 ^ (32 * length (x # xs))" using le_value_bound [of "(x + 1) # xs"] by simp
    finally show ?thesis using False ux by simp
  qed
qed

lemma val_uint_dec: "le_value (uint_dec a) = (le_value a + (2 ^ (32 * length a) - 1)) mod 2 ^ (32 * length a)"
proof (induction a rule: uint_dec.induct)
  case 1
  show ?case by simp
next
  case (2 x xs)
  let ?P = "2 ^ (32 * length xs) :: nat"
  obtain p where p: "?P = Suc p" using gr0_implies_Suc by force
  show ?case
  proof (cases "x = 0")
    case True
    have "le_value (uint_dec (x # xs)) = 2 ^ 32 - 1 + 2 ^ 32 * ((le_value xs + (?P - 1)) mod ?P)"
      using True 2 by (simp add: unsigned_minus_1_eq_mask mask_eq_exp_minus_1)
    also have "\<dots> = (2 ^ 32 - 1) mod 2 ^ 32 + 2 ^ 32 * (((2 ^ 32 - 1) div 2 ^ 32 + (le_value xs + (?P - 1))) mod ?P)"
      by simp
    also have "\<dots> = (2 ^ 32 - 1 + 2 ^ 32 * (le_value xs + (?P - 1))) mod (2 ^ 32 * ?P)"
      by (rule low_high_split)
    also have "2 ^ 32 - 1 + 2 ^ 32 * (le_value xs + (?P - 1)) = le_value (x # xs) + (2 ^ 32 * ?P - 1)"
      using True by (simp add: p)
    finally show ?thesis by (simp only: pow_limb_Cons)
  next
    case False
    then have ux: "unat (x - 1) = unat x - 1" "0 < unat x"
      by (simp_all add: unat_minus_one unat_gt_0)
    have "x - 1 \<noteq> 0xffffffff"
    proof
      assume "x - 1 = 0xffffffff"
      then have "x = 0xffffffff + 1" by (simp only: diff_eq_eq)
      then show False using False by simp
    qed
    then have "le_value (uint_dec (x # xs)) = le_value (x # xs) - 1" using ux by simp
    moreover have "(le_value (x # xs) + (2 ^ (32 * length (x # xs)) - 1)) = (le_value (x # xs) - 1) + 2 ^ (32 * length (x # xs))"
      using ux by simp
    moreover have "le_value (x # xs) - 1 < 2 ^ (32 * length (x # xs))"
      using le_value_bound [of "x # xs"] by simp
    ultimately show ?thesis by (simp only: mod_add_self2 mod_less)
  qed
qed

lemma val_uint_not_add: "le_value (uint_not a) + le_value a + 1 = 2 ^ (32 * length a)"
proof (induction a)
  case Nil
  show ?case by (simp add: uint_not_def)
next
  case (Cons x xs)
  have x: "unat (NOT x) + unat x + 1 = 2 ^ 32"
    using unat_u32_lt [of x] by (simp add: unat_not)
  have "le_value (uint_not (x # xs)) + le_value (x # xs) + 1
      = (unat (NOT x) + unat x + 1) + 2 ^ 32 * (le_value (uint_not xs) + le_value xs)"
    by (simp add: uint_not_def)
  also have "\<dots> = 2 ^ 32 * (le_value (uint_not xs) + le_value xs + 1)"
    by (simp only: x) simp
  finally show ?case using Cons by (simp only: length_Cons mult_Suc_right power_add)
qed

lemma val_uint_not: "le_value (uint_not a) = 2 ^ (32 * length a) - 1 - le_value a"
  using val_uint_not_add [of a] by simp

lemma val_uint_neg: "le_value (uint_neg a) = (2 ^ (32 * length a) - le_value a) mod 2 ^ (32 * length a)"
  using le_value_bound [of a] by (simp add: uint_neg_def val_uint_inc val_uint_not Suc_diff_Suc)

lemma add_loop_carry:
  assumes "unat (c :: u64) \<le> 1"
  shows "unat (c + ucast (x :: u32) + ucast (y :: u32)) = unat c + unat x + unat y"
proof -
  have "unat c + unat x + unat y < 2 ^ 64"
    using assms unat_u32_lt [of x] unat_u32_lt [of y] by simp
  then show ?thesis by (simp add: unat_plus_mod unat_ucast_up)
qed

lemma val_add_loop:
  "length a = length b \<Longrightarrow> unat c \<le> 1 \<Longrightarrow>
   le_value (add_loop c a b) = (unat c + le_value a + le_value b) mod 2 ^ (32 * length a)"
proof (induction c a b rule: add_loop.induct)
  case (1 c x xs y ys)
  let ?n = "c + ucast x + ucast y :: u64"
  have n: "unat ?n = unat c + unat x + unat y" using 1 by (simp add: add_loop_carry)
  have "unat ?n div 2 ^ 32 \<le> 1"
    unfolding n using 1 unat_u32_lt [of x] unat_u32_lt [of y] by simp
  then have "le_value (add_loop (drop_bit 32 ?n) xs ys)
      = (unat ?n div 2 ^ 32 + (le_value xs + le_value ys)) mod 2 ^ (32 * length xs)"
    using 1 by (simp add: unat_drop_bit Let_def add.assoc)
  then have "le_value (add_loop c (x # xs) (y # ys))
     = unat ?n mod 2 ^ 32 + 2 ^ 32 * ((unat ?n div 2 ^ 32 + (le_value xs + le_value ys)) mod 2 ^ (32 * length xs))"
    by (simp add: Let_def unat_low32)
  also have "\<dots> = (unat ?n + 2 ^ 32 * (le_value xs + le_value ys)) mod (2 ^ 32 * 2 ^ (32 * length xs))"
    by (rule low_high_split)
  also have "unat ?n + 2 ^ 32 * (le_value xs + le_value ys)
      = unat c + le_value (x # xs) + le_value (y # ys)"
    unfolding n by (simp add: distrib_left)
  finally show ?case by (simp only: pow_limb_Cons)
qed simp_all

theorem val_uint_add [val_simps]:
  "length a = length b \<Longrightarrow>
   le_value (uint_add a b) = (le_value a + le_value b) mod 2 ^ (32 * length b)"
  by (simp add: uint_add_def val_add_loop)

lemma val_uint_sub:
  "length a = length b \<Longrightarrow>
   le_value (uint_sub a b) = (le_value a + (2 ^ (32 * length b) - le_value b)) mod 2 ^ (32 * length b)"
  by (simp add: uint_sub_def val_uint_add val_uint_neg mod_add_right_eq)

lemma val_uint_sub_le [val_simps]:
  assumes "length a = length b" "le_value b \<le> le_value a"
  shows "le_value (uint_sub a b) = le_value a - le_value b"
proof -
  have "le_value a < 2 ^ (32 * length b)" using le_value_bound [of a] assms by simp
  then have eq: "le_value a + (2 ^ (32 * length b) - le_value b) = (le_value a - le_value b) + 2 ^ (32 * length b)"
    and lt: "le_value a - le_value b < 2 ^ (32 * length b)"
    using assms by simp_all
  show ?thesis
    by (simp only: val_uint_sub [OF assms(1)] eq mod_add_self2 mod_less [OF lt])
qed

lemma limb_mac_bound:
  assumes "r < 2 ^ 32" "x < 2 ^ 32" "y < 2 ^ 32" "c < (2 ^ 32 :: nat)"
  shows "c + r + x * y < 2 ^ 64"
proof -
  have "x * y \<le> (2 ^ 32 - 1) * (2 ^ 32 - 1)"
    by (rule mult_le_mono) (use assms in linarith)+
  moreover have "(2 ^ 32 - 1) * (2 ^ 32 - 1) = (18446744065119617025 :: nat)" by simp
  ultimately have "x * y \<le> 18446744065119617025" by simp
  then show ?thesis using assms by simp
qed

lemma mul_row_step:
  assumes "unat (c :: u64) < 2 ^ 32"
  shows "unat (c + ucast (r :: u32) + ucast (x :: u32) * ucast (y :: u32))
       = unat c + unat r + unat x * unat y" (is ?eq)
    and "(unat c + unat r + unat x * unat y) div 2 ^ 32 < 2 ^ 32" (is ?bound)
proof -
  have b: "unat c + unat r + unat x * unat y < 2 ^ 64"
    using assms unat_lt_pow [of r] unat_lt_pow [of x] unat_lt_pow [of y] by (intro limb_mac_bound) simp_all
  then have "unat x * unat y < 2 ^ 64" "unat c + unat r < 2 ^ 64" by linarith+
  then show ?eq using b by (simp add: unat_plus_mod unat_times_mod unat_ucast_up)
  show ?bound using b by (simp add: less_mult_imp_div_less)
qed

lemma val_mul_row:
  "length a \<le> length b \<Longrightarrow> unat c < 2 ^ 32 \<Longrightarrow>
   le_value (mul_row c a x b) = (unat c + le_value a + unat x * le_value b) mod 2 ^ (32 * length a)"
proof (induction c a x b rule: mul_row.induct)
  case (1 c r rs x y ys)
  let ?n = "c + ucast r + ucast x * ucast y :: u64"
  have c: "unat c < 2 ^ 32" using 1 by simp
  note n = mul_row_step [OF c, of r x y]
  have lt: "unat (drop_bit 32 ?n) < 2 ^ 32" unfolding unat_drop_bit n(1) by (rule n(2))
  have len: "length rs \<le> length ys" using 1 by simp
  have "le_value (mul_row (drop_bit 32 ?n) rs x ys)
      = (unat ?n div 2 ^ 32 + (le_value rs + unat x * le_value ys)) mod 2 ^ (32 * length rs)"
    using "1.IH" [OF refl len lt] by (simp only: unat_drop_bit add.assoc)
  then have "le_value (mul_row c (r # rs) x (y # ys))
     = unat ?n mod 2 ^ 32 + 2 ^ 32 * ((unat ?n div 2 ^ 32 + (le_value rs + unat x * le_value ys)) mod 2 ^ (32 * length rs))"
    by (simp add: Let_def unat_low32)
  also have "\<dots> = (unat ?n + 2 ^ 32 * (le_value rs + unat x * le_value ys)) mod (2 ^ 32 * 2 ^ (32 * length rs))"
    by (rule low_high_split)
  also have "unat ?n + 2 ^ 32 * (le_value rs + unat x * le_value ys)
      = unat c + le_value (r # rs) + unat x * le_value (y # ys)"
    unfolding n(1) by (simp add: distrib_left)
  finally show ?case by (simp only: pow_limb_Cons)
qed (simp_all)

lemma val_mul32_loop:
  "unat c < 2 ^ 32 \<Longrightarrow>
   le_value (mul32_loop c b a) = (unat c + unat b * le_value a) mod 2 ^ (32 * length a)"
proof (induction c b a rule: mul32_loop.induct)
  case (1 c b)
  then show ?case by simp
next
  case (2 c b x xs)
  have c: "unat c < 2 ^ 32" using 2 by simp
  let ?n = "c + ucast b * ucast x :: u64"
  have n: "unat ?n = unat c + unat b * unat x" and n2: "unat ?n div 2 ^ 32 < 2 ^ 32"
    using mul_row_step [OF c, of 0 b x] by simp_all
  have lt: "unat (drop_bit 32 ?n) < 2 ^ 32" unfolding unat_drop_bit by (rule n2)
  have "le_value (mul32_loop (drop_bit 32 ?n) b xs)
      = (unat ?n div 2 ^ 32 + unat b * le_value xs) mod 2 ^ (32 * length xs)"
    using "2.IH" [OF refl lt] by (simp only: unat_drop_bit)
  then have "le_value (mul32_loop c b (x # xs))
     = unat ?n mod 2 ^ 32 + 2 ^ 32 * ((unat ?n div 2 ^ 32 + unat b * le_value xs) mod 2 ^ (32 * length xs))"
    by (simp add: Let_def unat_low32)
  also have "\<dots> = (unat ?n + 2 ^ 32 * (unat b * le_value xs)) mod (2 ^ 32 * 2 ^ (32 * length xs))"
    by (rule low_high_split)
  also have "unat ?n + 2 ^ 32 * (unat b * le_value xs) = unat c + unat b * le_value (x # xs)"
    unfolding n by (simp add: distrib_left)
  finally show ?case by (simp only: pow_limb_Cons)
qed

theorem val_uint_mul32 [val_simps]:
  "le_value (uint_mul32 a b) = (le_value a * unat b) mod 2 ^ (32 * length a)"
  by (simp add: uint_mul32_def val_mul32_loop mult.commute)

lemma mul_row_at:
  assumes "length a = W" "length b = W" "j < W"
  shows "le_value (take j a @ mul_row 0 (drop j a) x b) mod 2 ^ (32 * W)
       = (le_value a + 2 ^ (32 * j) * (unat x * le_value b)) mod 2 ^ (32 * W)"
proof -
  have W: "(2::nat) ^ (32 * W) = 2 ^ (32 * j) * 2 ^ (32 * (W - j))"
    using assms by (simp add: distrib_left [symmetric] power_add [symmetric])
  have split: "le_value a = le_value (take j a) + 2 ^ (32 * j) * le_value (drop j a)"
    using le_value_append [of "take j a" "drop j a"] assms by simp
  have "le_value (take j a @ mul_row 0 (drop j a) x b)
      = le_value (take j a) + 2 ^ (32 * j) * ((le_value (drop j a) + unat x * le_value b) mod 2 ^ (32 * (W - j)))"
    using assms by (simp add: le_value_append val_mul_row)
  also have "\<dots> = le_value (take j a) + (2 ^ (32 * j) * (le_value (drop j a) + unat x * le_value b)) mod 2 ^ (32 * W)"
    unfolding W by (simp only: mult_mod_right)
  finally have "le_value (take j a @ mul_row 0 (drop j a) x b) mod 2 ^ (32 * W)
      = (le_value (take j a) + 2 ^ (32 * j) * (le_value (drop j a) + unat x * le_value b)) mod 2 ^ (32 * W)"
    by (simp add: mod_add_right_eq)
  then show ?thesis by (simp add: split distrib_left add.assoc)
qed

lemma uint_mul_prefix:
  fixes pn b :: base_uint
  defines "f \<equiv> \<lambda>a j. take j a @ mul_row 0 (drop j a) (pn ! j) b"
  defines "M \<equiv> 2 ^ (32 * length pn) :: nat"
  assumes b: "length b = length pn"
  shows "n \<le> length pn \<Longrightarrow>
     length (foldl f (uint_null (length pn)) [0..<n]) = length pn \<and>
     le_value (foldl f (uint_null (length pn)) [0..<n]) mod M = (le_value (take n pn) * le_value b) mod M"
proof (induction n)
  case 0
  show ?case by simp
next
  case (Suc n)
  let ?a = "foldl f (uint_null (length pn)) [0..<n]"
  have len: "length ?a = length pn" and val: "le_value ?a mod M = (le_value (take n pn) * le_value b) mod M"
    and n: "n < length pn"
    using Suc by simp_all
  have "le_value (f ?a n) mod M = (le_value ?a + 2 ^ (32 * n) * (unat (pn ! n) * le_value b)) mod M"
    unfolding f_def M_def using len n b by (intro mul_row_at) (simp_all add: f_def)
  also have "\<dots> = (le_value (take n pn) * le_value b + 2 ^ (32 * n) * (unat (pn ! n) * le_value b)) mod M"
    using val by (rule mod_add_cong) simp
  also have "le_value (take n pn) * le_value b + 2 ^ (32 * n) * (unat (pn ! n) * le_value b)
      = le_value (take (Suc n) pn) * le_value b"
    using n by (simp add: take_Suc_conv_app_nth le_value_append distrib_right mult.assoc)
  finally have "le_value (f ?a n) mod M = (le_value (take (Suc n) pn) * le_value b) mod M" .
  moreover have "length (f ?a n) = length pn"
    using len n b by (simp add: f_def length_mul_row)
  ultimately show ?case by simp
qed

theorem val_uint_mul [val_simps]:
  assumes "length b = length a"
  shows "le_value (uint_mul a b) = (le_value a * le_value b) mod 2 ^ (32 * length a)"
proof -
  have "length (uint_mul a b) = length a"
    and eq: "le_value (uint_mul a b) mod 2 ^ (32 * length a) = (le_value a * le_value b) mod 2 ^ (32 * length a)"
    using uint_mul_prefix [OF assms, of "length a"] by (simp_all add: uint_mul_def)
  then have "le_value (uint_mul a b) < 2 ^ (32 * length a)"
    using le_value_bound [of "uint_mul a b"] by simp
  with eq show ?thesis by simp
qed

lemma length_uint_mul [simp, len_simps]: "length b = length a \<Longrightarrow> length (uint_mul a b) = length a"
  using uint_mul_prefix [of b a "length a"] by (simp add: uint_mul_def)

subsubsection \<open>Bits and shifts\<close>

lemma bit_le_value:
  "bit (le_value (xs :: 'a::len word list)) i \<longleftrightarrow>
     i < LENGTH('a) * length xs \<and> bit (xs ! (i div LENGTH('a))) (i mod LENGTH('a))"
proof (induction xs arbitrary: i)
  case Nil
  show ?case by simp
next
  case (Cons x xs)
  let ?L = "LENGTH('a)"
  have or: "le_value (x # xs) = unat x OR push_bit ?L (le_value xs)"
  proof -
    have "unat x AND push_bit ?L (le_value xs) = 0"
    proof (rule bit_eqI)
      fix n
      show "bit (unat x AND push_bit ?L (le_value xs)) n = bit (0::nat) n"
        by (auto simp: bit_simps dest: bit_imp_le_length)
    qed
    then show ?thesis
      by (simp add: disjunctive_add_eq_or [symmetric] push_bit_eq_mult mult.commute)
  qed
  show ?case
  proof (cases "i < ?L")
    case True
    then show ?thesis unfolding or
      by (auto simp: bit_simps)
  next
    case False
    then have d: "i div ?L = Suc ((i - ?L) div ?L)" and m: "i mod ?L = (i - ?L) mod ?L"
      by (simp_all add: le_div_geq le_mod_geq)
    have "bit (le_value (x # xs)) i \<longleftrightarrow> bit (le_value xs) (i - ?L)"
      unfolding or using False by (auto simp: bit_simps dest: bit_imp_le_length)
    also have "\<dots> \<longleftrightarrow> i < ?L * length (x # xs) \<and> bit ((x # xs) ! (i div ?L)) (i mod ?L)"
      unfolding Cons.IH d m using False by auto
    finally show ?thesis .
  qed
qed

lemma shl_loop:
  assumes "n \<le> length a" "s < 32"
  shows "length (foldl (shl_step a k s) (uint_null (length a)) [0..<n]) = length a \<and>
    (\<forall>j < length a. foldl (shl_step a k s) (uint_null (length a)) [0..<n] ! j =
      (if k \<le> j \<and> j - k < n then push_bit s (a ! (j - k)) else 0) OR
      (if s \<noteq> 0 \<and> k + 1 \<le> j \<and> j - k - 1 < n then drop_bit (32 - s) (a ! (j - k - 1)) else 0))"
  using assms(1)
proof (induction n)
  case 0
  show ?case by (simp add: uint_null_def)
next
  case (Suc n)
  let ?p = "foldl (shl_step a k s) (uint_null (length a)) [0..<n]"
  have len: "length ?p = length a" and IH: "\<And>j. j < length a \<Longrightarrow> ?p ! j =
      (if k \<le> j \<and> j - k < n then push_bit s (a ! (j - k)) else 0) OR
      (if s \<noteq> 0 \<and> k + 1 \<le> j \<and> j - k - 1 < n then drop_bit (32 - s) (a ! (j - k - 1)) else 0)"
    using Suc by simp_all
  have "shl_step a k s ?p n ! j =
      (if k \<le> j \<and> j - k < Suc n then push_bit s (a ! (j - k)) else 0) OR
      (if s \<noteq> 0 \<and> k + 1 \<le> j \<and> j - k - 1 < Suc n then drop_bit (32 - s) (a ! (j - k - 1)) else 0)"
    if j: "j < length a" for j
  proof -
    consider "j = n + k" | "j = n + k + 1" | "j \<noteq> n + k" "j \<noteq> n + k + 1" by blast
    then show ?thesis
    proof cases
      case 1
      then show ?thesis using j len IH [of j] by (auto simp: shl_step_def Let_def nth_list_update or.commute)
    next
      case 2
      then show ?thesis using j len IH [of j] by (auto simp: shl_step_def Let_def nth_list_update)
    next
      case 3
      then show ?thesis using j len IH [of j] by (auto simp: shl_step_def Let_def nth_list_update less_Suc_eq)
    qed
  qed
  moreover have "length (shl_step a k s ?p n) = length a"
    using len by (simp add: shl_step_def Let_def)
  ultimately show ?case by simp
qed

lemma uint_shl_nth:
  assumes "j < length a"
  shows "uint_shl a sh ! j =
     (if sh div 32 \<le> j then push_bit (sh mod 32) (a ! (j - sh div 32)) else 0) OR
     (if sh mod 32 \<noteq> 0 \<and> sh div 32 + 1 \<le> j then drop_bit (32 - sh mod 32) (a ! (j - sh div 32 - 1)) else 0)"
proof -
  have "j - sh div 32 < length a" "j - sh div 32 - 1 < length a" using assms by simp_all
  then show ?thesis
    using shl_loop [of "length a" a "sh mod 32" "sh div 32"] assms by (simp add: uint_shl_def)
qed

text \<open>Where bit \<open>i - s\<close> and bit \<open>i + s\<close> of a number lie among its limbs.\<close>

lemma div_mod32I: "n = 32 * q + m \<Longrightarrow> m < 32 \<Longrightarrow> n div 32 = q \<and> n mod 32 = (m :: nat)"
  by simp

lemma sub_limb_index:
  fixes i s :: nat
  defines "j \<equiv> i div 32" and "r \<equiv> i mod 32" and "k \<equiv> s div 32" and "t \<equiv> s mod 32"
  shows "t \<le> r \<Longrightarrow> s \<le> i \<longleftrightarrow> k \<le> j"
    and "t \<le> r \<Longrightarrow> k \<le> j \<Longrightarrow> (i - s) div 32 = j - k \<and> (i - s) mod 32 = r - t"
    and "r < t \<Longrightarrow> s \<le> i \<longleftrightarrow> k + 1 \<le> j"
    and "r < t \<Longrightarrow> k + 1 \<le> j \<Longrightarrow> (i - s) div 32 = j - k - 1 \<and> (i - s) mod 32 = r + 32 - t"
proof -
  have i: "i = 32 * j + r" "r < 32" and s: "s = 32 * k + t" "t < 32"
    by (simp_all add: j_def r_def k_def t_def)
  show "s \<le> i \<longleftrightarrow> k \<le> j" if "t \<le> r" using that i s by linarith
  show "s \<le> i \<longleftrightarrow> k + 1 \<le> j" if "r < t" using that i s by linarith
  show "(i - s) div 32 = j - k \<and> (i - s) mod 32 = r - t" if "t \<le> r" "k \<le> j"
  proof -
    have "i - s = 32 * (j - k) + (r - t)" using that by (simp add: i(1) s(1) diff_mult_distrib2)
    then show ?thesis using i(2) by simp
  qed
  show "(i - s) div 32 = j - k - 1 \<and> (i - s) mod 32 = r + 32 - t" if "r < t" "k + 1 \<le> j"
  proof -
    have "i - s = 32 * (j - k - 1) + (r + 32 - t)" using that i s by (simp add: diff_mult_distrib2)
    then show ?thesis using that i(2) by simp
  qed
qed

lemma add_limb_index:
  fixes i s :: nat
  defines "j \<equiv> i div 32" and "r \<equiv> i mod 32" and "k \<equiv> s div 32" and "t \<equiv> s mod 32"
  shows "r + t < 32 \<Longrightarrow> (i + s) div 32 = j + k \<and> (i + s) mod 32 = r + t"
    and "32 \<le> r + t \<Longrightarrow> (i + s) div 32 = j + k + 1 \<and> (i + s) mod 32 = r + t - 32"
proof -
  have i: "i = 32 * j + r" "r < 32" and s: "s = 32 * k + t" "t < 32"
    by (simp_all add: j_def r_def k_def t_def)
  show "(i + s) div 32 = j + k \<and> (i + s) mod 32 = r + t" if "r + t < 32"
  proof -
    have "i + s = 32 * (j + k) + (r + t)" by (simp add: i(1) s(1))
    then show ?thesis using that by (rule div_mod32I)
  qed
  show "(i + s) div 32 = j + k + 1 \<and> (i + s) mod 32 = r + t - 32" if "32 \<le> r + t"
  proof -
    have "i + s = 32 * (j + k + 1) + (r + t - 32)" using that by (simp add: i(1) s(1))
    moreover have "r + t - 32 < 32" using i(2) s(2) by simp
    ultimately show ?thesis by (rule div_mod32I)
  qed
qed

lemma bit_uint_shl:
  assumes "i < 32 * length a"
  shows "bit (le_value (uint_shl a s)) i \<longleftrightarrow> s \<le> i \<and> bit (le_value a) (i - s)"
proof -
  let ?j = "i div 32" and ?r = "i mod 32" and ?k = "s div 32" and ?t = "s mod 32"
  have j: "?j < length a" using assms by (simp add: less_mult_imp_div_less)
  have rt: "?r < 32" "?t < 32" by simp_all
  have "bit (le_value (uint_shl a s)) i = bit (uint_shl a s ! ?j) ?r"
    using assms by (simp add: bit_le_value)
  also have "\<dots> \<longleftrightarrow> (?k \<le> ?j \<and> ?t \<le> ?r \<and> bit (a ! (?j - ?k)) (?r - ?t)) \<or>
      (?t \<noteq> 0 \<and> ?k + 1 \<le> ?j \<and> bit (a ! (?j - ?k - 1)) (?r + 32 - ?t))"
    unfolding uint_shl_nth [OF j] using rt by (auto simp: bit_simps add.commute [of ?r])
  also have "\<dots> \<longleftrightarrow> s \<le> i \<and> bit (le_value a) (i - s)"
  proof (cases "?t \<le> ?r")
    case True
    then have "\<not> bit (a ! (?j - ?k - 1)) (?r + 32 - ?t)"
      by (auto dest: bit_imp_le_length)
    then show ?thesis
      using True assms sub_limb_index(1,2) [of s i] by (auto simp: bit_le_value)
  next
    case False
    then show ?thesis
      using assms sub_limb_index(3,4) [of i s] by (auto simp: bit_le_value)
  qed
  finally show ?thesis .
qed

theorem val_uint_shl [val_simps]:
  "le_value (uint_shl a s) = (le_value a * 2 ^ s) mod 2 ^ (32 * length a)"
proof -
  have "le_value (uint_shl a s) = take_bit (32 * length a) (push_bit s (le_value a))"
  proof (rule bit_eqI)
    fix i
    show "bit (le_value (uint_shl a s)) i = bit (take_bit (32 * length a) (push_bit s (le_value a))) i"
      using bit_uint_shl [of i a s] bit_le_value [of "uint_shl a s" i]
      by (cases "i < 32 * length a") (simp_all add: bit_simps)
  qed
  then show ?thesis by (simp add: take_bit_eq_mod push_bit_eq_mult)
qed

lemma shr_loop:
  assumes "n \<le> length a" "s < 32"
  shows "length (foldl (shr_step a k s) (uint_null (length a)) [0..<n]) = length a \<and>
    (\<forall>j < length a. foldl (shr_step a k s) (uint_null (length a)) [0..<n] ! j =
      (if j + k < n then drop_bit s (a ! (j + k)) else 0) OR
      (if s \<noteq> 0 \<and> j + k + 1 < n then push_bit (32 - s) (a ! (j + k + 1)) else 0))"
  using assms(1)
proof (induction n)
  case 0
  show ?case by (simp add: uint_null_def)
next
  case (Suc n)
  let ?p = "foldl (shr_step a k s) (uint_null (length a)) [0..<n]"
  have len: "length ?p = length a" and IH: "\<And>j. j < length a \<Longrightarrow> ?p ! j =
      (if j + k < n then drop_bit s (a ! (j + k)) else 0) OR
      (if s \<noteq> 0 \<and> j + k + 1 < n then push_bit (32 - s) (a ! (j + k + 1)) else 0)"
    using Suc by simp_all
  have "shr_step a k s ?p n ! j =
      (if j + k < Suc n then drop_bit s (a ! (j + k)) else 0) OR
      (if s \<noteq> 0 \<and> j + k + 1 < Suc n then push_bit (32 - s) (a ! (j + k + 1)) else 0)"
    if j: "j < length a" for j
  proof -
    consider "n = j + k" | "n = j + k + 1" | "n \<noteq> j + k" "n \<noteq> j + k + 1" by blast
    then show ?thesis
    proof cases
      case 1
      then show ?thesis using j len IH [of j]
        by (auto simp: shr_step_def Let_def nth_list_update or.commute)
    next
      case 2
      then show ?thesis using j len IH [of j] by (auto simp: shr_step_def Let_def nth_list_update)
    next
      case 3
      then have "k \<le> n \<Longrightarrow> n - k \<noteq> j" "k + 1 \<le> n \<Longrightarrow> n - k - 1 \<noteq> j" by auto
      then show ?thesis using 3 j len IH [of j]
        by (auto simp: shr_step_def Let_def nth_list_update less_Suc_eq)
    qed
  qed
  moreover have "length (shr_step a k s ?p n) = length a"
    using len by (simp add: shr_step_def Let_def)
  ultimately show ?case by simp
qed

lemma uint_shr_nth:
  assumes "j < length a"
  shows "uint_shr a sh ! j =
     (if j + sh div 32 < length a then drop_bit (sh mod 32) (a ! (j + sh div 32)) else 0) OR
     (if sh mod 32 \<noteq> 0 \<and> j + sh div 32 + 1 < length a
      then push_bit (32 - sh mod 32) (a ! (j + sh div 32 + 1)) else 0)"
  using shr_loop [of "length a" a "sh mod 32" "sh div 32"] assms by (simp add: uint_shr_def)

lemma bit_uint_shr: "bit (le_value (uint_shr a s)) i \<longleftrightarrow> bit (le_value a) (i + s)"
proof (cases "i < 32 * length a")
  case False
  then show ?thesis by (simp add: bit_le_value)
next
  case True
  let ?j = "i div 32" and ?r = "i mod 32" and ?k = "s div 32" and ?t = "s mod 32"
  have j: "?j < length a" using True by (simp add: less_mult_imp_div_less)
  have rt: "?r < 32" "?t < 32" by simp_all
  have lt: "i + s < 32 * length a \<longleftrightarrow> (i + s) div 32 < length a"
    by (simp add: div_less_iff_less_mult mult.commute)
  have "bit (le_value (uint_shr a s)) i = bit (uint_shr a s ! ?j) ?r"
    using True by (simp add: bit_le_value)
  also have "\<dots> \<longleftrightarrow> (?j + ?k < length a \<and> bit (a ! (?j + ?k)) (?r + ?t)) \<or>
      (?t \<noteq> 0 \<and> ?j + ?k + 1 < length a \<and> 32 \<le> ?r + ?t \<and> bit (a ! (?j + ?k + 1)) (?r + ?t - 32))"
    unfolding uint_shr_nth [OF j] using rt by (auto simp: bit_simps add.commute [of ?r])
  also have "\<dots> \<longleftrightarrow> bit (le_value a) (i + s)"
  proof (cases "?r + ?t < 32")
    case True
    then show ?thesis
      using add_limb_index(1) [of i s] by (auto simp: bit_le_value lt)
  next
    case False
    then have "\<not> bit (a ! (?j + ?k)) (?r + ?t)" by (auto dest: bit_imp_le_length)
    moreover have "?t \<noteq> 0" using False rt by linarith
    ultimately show ?thesis
      using False add_limb_index(2) [of i s] by (auto simp: bit_le_value lt)
  qed
  finally show ?thesis .
qed

theorem val_uint_shr [val_simps]: "le_value (uint_shr a s) = le_value a div 2 ^ s"
proof -
  have "le_value (uint_shr a s) = drop_bit s (le_value a)"
    by (rule bit_eqI) (simp add: bit_uint_shr bit_simps add.commute)
  then show ?thesis by (simp add: drop_bit_eq_div)
qed

subsubsection \<open>Comparison\<close>

lemma compare_from_top:
  "length a = length b \<Longrightarrow>
   compare_from_top a b = (if le_value (rev a) < le_value (rev b) then - 1
     else if le_value (rev b) < le_value (rev a) then 1 else 0)"
proof (induction a b rule: list_induct2)
  case Nil
  show ?case by simp
next
  case (Cons x xs y ys)
  let ?P = "2 ^ (32 * length ys) :: nat"
  let ?u = "le_value (rev xs)" and ?v = "le_value (rev ys)"
  have uv: "?u < ?P" "?v < ?P"
    using le_value_bound [of "rev xs"] le_value_bound [of "rev ys"] Cons by simp_all
  have top: "u + ?P * unat x < v + ?P * unat y" if "x < y" "u < ?P" for x y :: u32 and u v
  proof -
    have "u + ?P * unat x < ?P * Suc (unat x)" using that by simp
    also have "\<dots> \<le> ?P * unat y"
      using that by (intro mult_le_mono2) (simp add: Suc_le_eq word_less_nat_alt)
    finally show ?thesis by simp
  qed
  consider "x < y" | "y < x" | "x = y" by (meson linorder_less_linear)
  then show ?case
    using Cons uv top [of x y ?u ?v] top [of y x ?v ?u]
    by cases (auto simp: le_value_append)
qed

theorem CompareTo_value:
  "length a = length b \<Longrightarrow>
   CompareTo a b = (if le_value a < le_value b then - 1 else if le_value b < le_value a then 1 else 0)"
  by (simp add: CompareTo_def compare_from_top)

lemma CompareTo_simps:
  assumes "length a = length b"
  shows "0 \<le> CompareTo a b \<longleftrightarrow> le_value b \<le> le_value a"
    and "0 < CompareTo a b \<longleftrightarrow> le_value b < le_value a"
    and "CompareTo a b \<le> 0 \<longleftrightarrow> le_value a \<le> le_value b"
    and "CompareTo a b < 0 \<longleftrightarrow> le_value a < le_value b"
  using assms by (auto simp: CompareTo_value)

lemma le_value_two: "2 \<le> length pn \<Longrightarrow>
  le_value pn = unat (pn ! 0) + 2 ^ 32 * unat (pn ! 1) + 2 ^ 64 * le_value (drop 2 pn)"
  for pn :: base_uint
proof -
  assume "2 \<le> length pn"
  then obtain x y zs where "pn = x # y # zs"
    by (cases pn; cases "tl pn") auto
  then show ?thesis by (simp add: distrib_left)
qed

lemma unat_GetLow64:
  assumes "2 \<le> length pn"
  shows "unat (GetLow64 pn) = le_value pn mod 2 ^ 64"
proof -
  have and0: "(ucast (pn ! 0) :: u64) AND push_bit 32 (ucast (pn ! 1)) = 0"
    by (rule bit_eqI) (auto simp: bit_simps dest: bit_imp_le_length)
  have lt: "unat (pn ! 0) < 2 ^ 32" "unat (pn ! 1) < 2 ^ 32"
    using unat_lt_pow [of "pn ! 0"] unat_lt_pow [of "pn ! 1"] by simp_all
  have "unat (push_bit 32 (ucast (pn ! 1) :: u64)) = 2 ^ 32 * unat (pn ! 1)"
    using lt(2) by (simp add: push_bit_eq_mult unat_times_mod unat_ucast_up mult.commute)
  then have "unat (GetLow64 pn) = unat (pn ! 0) + 2 ^ 32 * unat (pn ! 1)"
    unfolding GetLow64_def disjunctive_add_eq_or [OF and0, symmetric]
    using lt by (simp add: unat_plus_mod unat_ucast_up)
  also have "\<dots> = le_value pn mod 2 ^ 64"
    using lt assms by (simp add: le_value_two)
  finally show ?thesis .
qed

lemma two_limbs:
  fixes x y z b :: nat
  assumes "x < 2 ^ 32" "y < 2 ^ 32" "b div 2 ^ 32 < 2 ^ 32" "b < 18446744073709551616"
  shows "z = 0 \<and> y = b div 2 ^ 32 \<and> x = b mod 2 ^ 32 \<longleftrightarrow> x + 2 ^ 32 * y + 2 ^ 64 * z = b"
proof
  assume eq: "x + 2 ^ 32 * y + 2 ^ 64 * z = b"
  then have z: "z = 0" using assms(4) by simp
  then have "b = 2 ^ 32 * y + x" using eq by simp
  then show "z = 0 \<and> y = b div 2 ^ 32 \<and> x = b mod 2 ^ 32" using assms(1) z by simp
qed (use assms in auto)

lemma EqualTo_value:
  assumes "2 \<le> length pn"
  shows "EqualTo pn b \<longleftrightarrow> le_value pn = unat b"
proof -
  have lt: "unat (pn ! 0) < 2 ^ 32" "unat (pn ! 1) < 2 ^ 32" "unat b div 2 ^ 32 < 2 ^ 32"
    using unat_lt_pow [of "pn ! 0"] unat_lt_pow [of "pn ! 1"] unat_u64_lt [of b]
    by (simp_all add: less_mult_imp_div_less)
  have high: "(\<exists>i \<in> set [2..<length pn]. pn ! i \<noteq> 0) \<longleftrightarrow> le_value (drop 2 pn) \<noteq> 0"
  proof -
    have "set (drop 2 pn) = (!) pn ` {2..<length pn}"
      by (metis drop_map map_nth set_map set_upt drop_upt add_0)
    then show ?thesis unfolding le_value_eq_0_iff by auto
  qed
  have l1: "ucast (pn ! 1) = drop_bit 32 b \<longleftrightarrow> unat (pn ! 1) = unat b div 2 ^ 32"
    unfolding word_unat_eq_iff by (simp add: unat_ucast_up unat_drop_bit)
  have l0: "ucast (pn ! 0) = b AND 0xffffffff \<longleftrightarrow> unat (pn ! 0) = unat b mod 2 ^ 32"
    unfolding word_unat_eq_iff and_mask32
    by (simp add: unat_ucast_up unsigned_take_bit_eq) (simp add: take_bit_eq_mod)
  have "EqualTo pn b \<longleftrightarrow> le_value (drop 2 pn) = 0 \<and> unat (pn ! 1) = unat b div 2 ^ 32 \<and> unat (pn ! 0) = unat b mod 2 ^ 32"
    unfolding EqualTo_def high l1 l0 by simp
  also have "\<dots> \<longleftrightarrow> le_value pn = unat b"
    unfolding le_value_two [OF assms] using lt unat_u64_lt [of b]
    by (rule two_limbs)
  finally show ?thesis .
qed

subsubsection \<open>Bit length\<close>

lemma top_bit_bounds:
  "x \<noteq> 0 \<Longrightarrow> unat x < 2 ^ Suc n \<Longrightarrow> 2 ^ (top_bit x n - 1) \<le> unat x \<and> unat x < 2 ^ top_bit x n \<and> 0 < top_bit x n"
proof (induction n)
  case 0
  then show ?case using unat_gt_0 [of x] by simp
next
  case (Suc n)
  have iff: "x AND push_bit (Suc n) 1 \<noteq> 0 \<longleftrightarrow> bit (unat x) (Suc n)"
    unfolding push_bit_of_1 and_exp_eq_0_iff_not_bit by (auto simp: bit_unsigned_iff)
  have b: "bit (unat x) (Suc n) \<longleftrightarrow> 2 ^ Suc n \<le> unat x"
  proof -
    have "unat x div 2 ^ Suc n < 2" using Suc.prems(2) by (simp add: less_mult_imp_div_less)
    then have "odd (unat x div 2 ^ Suc n) \<longleftrightarrow> unat x div 2 ^ Suc n \<noteq> 0" by (auto simp: less_2_cases_iff)
    then show ?thesis by (simp add: bit_iff_odd div_eq_0_iff not_less)
  qed
  have "top_bit x (Suc n) = (if 2 ^ Suc n \<le> unat x then Suc n + 1 else top_bit x n)"
    by (simp only: top_bit.simps iff b)
  then show ?case using Suc by (auto simp del: top_bit.simps)
qed

lemma bits_below_bounds:
  "n \<le> length pn \<Longrightarrow> le_value (take n pn) < 2 ^ bits_below pn n \<and>
     (bits_below pn n \<noteq> 0 \<longrightarrow> 2 ^ (bits_below pn n - 1) \<le> le_value (take n pn))"
proof (induction n)
  case 0
  show ?case by simp
next
  case (Suc n)
  have split: "le_value (take (Suc n) pn) = le_value (take n pn) + 2 ^ (32 * n) * unat (pn ! n)"
    using Suc.prems by (simp add: take_Suc_conv_app_nth le_value_append)
  have lo: "le_value (take n pn) < 2 ^ (32 * n)"
    using le_value_bound [of "take n pn"] Suc.prems by simp
  show ?case
  proof (cases "pn ! n = 0")
    case True
    then show ?thesis using Suc split by simp
  next
    case False
    let ?t = "top_bit (pn ! n) 31"
    have t: "2 ^ (?t - 1) \<le> unat (pn ! n)" "unat (pn ! n) < 2 ^ ?t" "0 < ?t"
      using top_bit_bounds [OF False, of 31] unat_u32_lt [of "pn ! n"] by simp_all
    have "le_value (take (Suc n) pn) < 2 ^ (32 * n) * Suc (unat (pn ! n))" using split lo by simp
    also have "\<dots> \<le> 2 ^ (32 * n) * 2 ^ ?t" using t(2) by (intro mult_le_mono2) simp
    finally have up: "le_value (take (Suc n) pn) < 2 ^ (32 * n + ?t)" by (simp add: power_add)
    have "2 ^ (32 * n) * 2 ^ (?t - 1) \<le> le_value (take (Suc n) pn)"
      using split t(1) by (simp add: trans_le_add2)
    then have "2 ^ (32 * n + ?t - 1) \<le> le_value (take (Suc n) pn)"
      using t(3) by (simp add: power_add [symmetric])
    then show ?thesis using up False t(3) by simp
  qed
qed

theorem bits_bounds:
  "le_value pn < 2 ^ bits pn" "bits pn \<noteq> 0 \<Longrightarrow> 2 ^ (bits pn - 1) \<le> le_value pn"
  using bits_below_bounds [of "length pn" pn] by (simp_all add: bits_def)

lemma bits_le: "bits pn \<le> 32 * length pn"
proof (cases "bits pn = 0")
  case False
  then have "(2::nat) ^ (bits pn - 1) < 2 ^ (32 * length pn)"
    using bits_bounds(2) [of pn] le_value_bound [of pn] by (simp add: le_less_trans)
  then show ?thesis by simp
qed simp

lemma bits_eq_0_iff: "bits pn = 0 \<longleftrightarrow> le_value pn = 0"
proof
  assume "bits pn = 0" then show "le_value pn = 0" using bits_bounds(1) [of pn] by simp
next
  assume "le_value pn = 0" then show "bits pn = 0" using bits_bounds(2) [of pn] by (cases "bits pn") auto
qed

subsubsection \<open>Division\<close>

lemma uint_set_bit:
  fixes q :: base_uint
  assumes "i < 32 * length q" "\<not> bit (le_value q) i"
  shows "le_value (q[i div 32 := (q ! (i div 32)) OR push_bit (i mod 32) 1]) = le_value q + 2 ^ i"
proof -
  let ?q = "q[i div 32 := (q ! (i div 32)) OR push_bit (i mod 32) 1]"
  have i: "i div 32 < length q" using assms(1) by (simp add: less_mult_imp_div_less)
  have eq: "i' = i \<longleftrightarrow> i' div 32 = i div 32 \<and> i' mod 32 = i mod 32" for i' :: nat
    by (metis div_mult_mod_eq)
  have "le_value ?q = le_value q OR 2 ^ i"
  proof (rule bit_eqI)
    fix n
    show "bit (le_value ?q) n = bit (le_value q OR 2 ^ i) n"
      using i assms(1) eq [of n]
      by (cases "n div 32 = i div 32") (auto simp: bit_le_value bit_simps nth_list_update)
  qed
  also have "le_value q AND 2 ^ i = 0"
    using assms(2) by (simp only: and_exp_eq_0_iff_not_bit not_False_eq_True)
  then have "le_value q OR 2 ^ i = le_value q + 2 ^ i"
    by (rule disjunctive_add_eq_or [symmetric])
  finally show ?thesis .
qed

lemma not_bit_multiple: "\<not> bit (m * 2 ^ Suc i :: nat) i"
  by (simp add: bit_iff_odd)

lemma div_loop_correct:
  assumes "length q = W" "length num = W" "length d = W" "n \<le> 32 * W" "0 < D"
    and "le_value q = m * 2 ^ n"
    and "n > 0 \<Longrightarrow> le_value d = D * 2 ^ (n - 1)"
    and "le_value num < D * 2 ^ n"
  shows "le_value (div_loop q num d n) = le_value q + le_value num div D"
  using assms
proof (induction n arbitrary: q num d m)
  case 0
  then show ?case by simp
next
  case (Suc n)
  have d: "le_value d = D * 2 ^ n" using Suc.prems(7) by simp
  have d': "n > 0 \<Longrightarrow> le_value (uint_shr d 1) = D * 2 ^ (n - 1)"
    using d by (cases n) (simp_all add: val_uint_shr)
  have m2: "m * 2 ^ Suc n = (2 * m) * 2 ^ n" by simp
  have ge: "CompareTo num d \<ge> 0 \<longleftrightarrow> D * 2 ^ n \<le> le_value num"
    using Suc.prems by (simp add: CompareTo_simps d)
  show ?case
  proof (cases "D * 2 ^ n \<le> le_value num")
    case True
    let ?q = "q[n div 32 := (q ! (n div 32)) OR push_bit (n mod 32) 1]"
    have q: "le_value ?q = le_value q + 2 ^ n"
      using Suc.prems not_bit_multiple [of m n] by (intro uint_set_bit) (simp_all del: power_Suc)
    have num: "le_value (uint_sub num d) = le_value num - D * 2 ^ n"
      using Suc.prems True by (simp add: val_uint_sub_le d)
    have "le_value (div_loop ?q (uint_sub num d) (uint_shr d 1) n)
        = le_value ?q + le_value (uint_sub num d) div D"
    proof (rule Suc.IH)
      show "le_value ?q = (2 * m + 1) * 2 ^ n" using q Suc.prems(6) by simp
      show "le_value (uint_sub num d) < D * 2 ^ n" using num Suc.prems(8) by simp
    qed (use Suc.prems d' in simp_all)
    moreover have "le_value num div D = 2 ^ n + (le_value num - D * 2 ^ n) div D"
    proof -
      have "le_value num = (le_value num - D * 2 ^ n) + 2 ^ n * D" using True by (simp add: mult.commute)
      then show ?thesis using Suc.prems(5) by (metis add.commute div_mult_self1 less_irrefl)
    qed
    ultimately show ?thesis using True ge q num by simp
  next
    case False
    have "le_value (div_loop q num (uint_shr d 1) n) = le_value q + le_value num div D"
      using Suc.prems d' False by (intro Suc.IH [where m = "2 * m"]) simp_all
    then show ?thesis using False ge by simp
  qed
qed

theorem uint_div_correct:
  assumes len: "length a = length b"
  shows "uint_div a b = Inl Division_by_zero \<and> le_value b = 0 \<or>
     (\<exists>q. uint_div a b = Inr q \<and> length q = length a \<and> 0 < le_value b \<and> le_value q = le_value a div le_value b)"
proof (cases "le_value b = 0")
  case True
  then show ?thesis by (simp add: uint_div_def bits_eq_0_iff)
next
  case False
  then have pos: "0 < le_value b" and bb: "bits b \<noteq> 0" by (simp_all add: bits_eq_0_iff)
  note b2 = bits_bounds(2) [OF bb]
  show ?thesis
  proof (cases "bits b > bits a")
    case True
    have "le_value a < 2 ^ bits a" by (rule bits_bounds)
    also have "\<dots> \<le> 2 ^ (bits b - 1)" using True by simp
    finally have "le_value a < le_value b" using b2 by simp
    then show ?thesis using True bb pos by (simp add: uint_div_def)
  next
    case nlt: False
    let ?s = "bits a - bits b"
    have ba: "bits a \<noteq> 0" using nlt bb by simp
    have "le_value b * 2 ^ ?s < 2 ^ bits b * 2 ^ ?s" using bits_bounds(1) [of b] by simp
    also have "\<dots> = 2 ^ bits a" using nlt by (simp add: power_add [symmetric])
    also have "\<dots> \<le> 2 ^ (32 * length b)" using bits_le [of a] len by simp
    finally have shl: "le_value (uint_shl b ?s) = le_value b * 2 ^ ?s"
      by (simp add: val_uint_shl)
    have "bits b - 1 + Suc ?s = bits a" using nlt bb by simp
    then have "le_value a < 2 ^ (bits b - 1) * 2 ^ Suc ?s"
      using bits_bounds(1) [of a] by (simp only: power_add [symmetric])
    also have "\<dots> \<le> le_value b * 2 ^ Suc ?s" using b2 by (rule mult_le_mono1)
    finally have num: "le_value a < le_value b * 2 ^ Suc ?s" .
    have "le_value (div_loop (uint_null (length a)) a (uint_shl b ?s) (Suc ?s))
        = le_value (uint_null (length a)) + le_value a div le_value b"
    proof (rule div_loop_correct [where W = "length a" and m = 0])
      show "Suc ?s \<le> 32 * length a" using bits_le [of a] bb ba by linarith
    qed (use len pos num shl in \<open>simp_all del: power_Suc\<close>)
    then show ?thesis using nlt bb pos by (simp add: uint_div_def Let_def)
  qed
qed

subsection \<open>Properties\<close>

text \<open>
  C26: division of two numbers of the same width throws exactly when the divisor is zero; otherwise
  the shift-and-subtract loop returns the exact quotient, at the same width.
\<close>

theorem uint_div_exact:
  assumes "length a = length b"
  shows "case uint_div a b of
      Inl e \<Rightarrow> e = Division_by_zero \<and> le_value b = 0
    | Inr q \<Rightarrow> le_value b \<noteq> 0 \<and> length q = length a \<and> le_value q = le_value a div le_value b"
  using uint_div_correct [OF assms] by auto

theorem uint_div_exact_witness:
  "length [5, 7 :: u32] = length [3, 0 :: u32] \<and>
   (case uint_div [5, 7] [3, 0 :: u32] of
      Inl e \<Rightarrow> e = Division_by_zero \<and> le_value [3, 0 :: u32] = 0
    | Inr q \<Rightarrow> le_value [3, 0 :: u32] \<noteq> 0 \<and> length q = length [5, 7 :: u32] \<and>
        le_value q = le_value [5, 7 :: u32] div le_value [3, 0 :: u32])"
  using uint_div_exact [of "[5, 7]" "[3, 0]"] by simp

text \<open>
  C27: addition, subtraction, multiplication, negation and the shifts of \<^verbatim>\<open>base_uint\<close> are arithmetic
  modulo two to the width, and \<^verbatim>\<open>CompareTo\<close> is the order of the values.
\<close>

theorem uint_arithmetic:
  assumes "length b = length a"
  defines "M \<equiv> 2 ^ (32 * length a)"
  shows "le_value (uint_add a b) = (le_value a + le_value b) mod M \<and>
     le_value (uint_sub a b) = (le_value a + (M - le_value b)) mod M \<and>
     le_value (uint_mul a b) = (le_value a * le_value b) mod M \<and>
     le_value (uint_shl a s) = (le_value a * 2 ^ s) mod M \<and>
     le_value (uint_shr a s) = le_value a div 2 ^ s \<and>
     CompareTo a b = (if le_value a < le_value b then - 1 else if le_value a > le_value b then 1 else 0)"
  using assms by (simp add: val_uint_add val_uint_sub val_uint_mul val_uint_shl val_uint_shr CompareTo_value)

theorem uint_arithmetic_witness:
  "le_value (uint_mul [0xffffffff, 1] [2, 3 :: u32]) = (le_value [0xffffffff, 1 :: u32] * le_value [2, 3 :: u32]) mod 2 ^ 64 \<and>
   CompareTo [0xffffffff, 1] [2, 3] = (- 1 :: int)"
  using uint_arithmetic [of "[2, 3]" "[0xffffffff, 1]" 0] by simp

end
