(* ===== verification/Compact_Bits.thy ===== *)
theory Compact_Bits
  imports Arith_Uint
begin

text \<open>
  The \<^verbatim>\<open>compact\<close> encoding of difficulty targets, \<^verbatim>\<open>arith_uint256::SetCompact\<close> and
  \<^verbatim>\<open>arith_uint256::GetCompact\<close>, and the conversions between \<^verbatim>\<open>uint256\<close> byte blobs and limb arrays.
\<close>

subsection \<open>uint256 and arith_uint256\<close>

text \<open>A \<^verbatim>\<open>base_blob\<close> is its bytes \<^verbatim>\<open>m_data\<close>, in memory order.\<close>

type_synonym uint256 = bytes

definition ReadLE32 :: "bytes \<Rightarrow> u32" where
  "ReadLE32 p = ucast (p ! 0) OR push_bit 8 (ucast (p ! 1)) OR push_bit 16 (ucast (p ! 2)) OR push_bit 24 (ucast (p ! 3))"

definition WriteLE32 :: "u32 \<Rightarrow> bytes" where
  "WriteLE32 x = [ucast x, ucast (drop_bit 8 x), ucast (drop_bit 16 x), ucast (drop_bit 24 x)]"

definition ArithToUint256 :: "base_uint \<Rightarrow> uint256" where
  "ArithToUint256 a = concat (map (\<lambda>x. WriteLE32 (a ! x)) [0..<WIDTH a])"

definition UintToArith256 :: "uint256 \<Rightarrow> base_uint" where
  "UintToArith256 a = map (\<lambda>x. ReadLE32 (take 4 (drop (x * 4) a))) [0..<8]"

subsection \<open>The compact format\<close>

definition SetCompact :: "u32 \<Rightarrow> base_uint \<times> bool \<times> bool" where
  "SetCompact nCompact =
     (let nSize = unat (drop_bit 24 nCompact);
          nWord0 = nCompact AND 0x007fffff;
          nWord = (if nSize \<le> 3 then drop_bit (8 * (3 - nSize)) nWord0 else nWord0);
          this = (if nSize \<le> 3 then uint_of_u64 8 (ucast nWord)
                  else uint_shl (uint_of_u64 8 (ucast nWord)) (8 * (nSize - 3)));
          fNegative = (nWord \<noteq> 0 \<and> nCompact AND 0x00800000 \<noteq> 0);
          fOverflow = (nWord \<noteq> 0 \<and> (nSize > 34 \<or> (nWord > 0xff \<and> nSize > 33) \<or> (nWord > 0xffff \<and> nSize > 32)))
      in (this, fNegative, fOverflow))"

text \<open>The two assertions of \<^verbatim>\<open>GetCompact\<close> are the case \<^term>\<open>None\<close>.\<close>

definition GetCompact :: "base_uint \<Rightarrow> bool \<Rightarrow> u32 option" where
  "GetCompact pn fNegative =
     (let nSize = (bits pn + 7) div 8;
          nCompact = (if nSize \<le> 3 then ucast (push_bit (8 * (3 - nSize)) (GetLow64 pn))
                      else ucast (GetLow64 (uint_shr pn (8 * (nSize - 3)))));
          carry = (nCompact AND 0x00800000 \<noteq> 0);
          nCompact1 = (if carry then drop_bit 8 nCompact else nCompact);
          nSize1 = (if carry then nSize + 1 else nSize)
      in if nCompact1 AND NOT 0x007fffff \<noteq> 0 then None
         else if \<not> nSize1 < 256 then None
         else let nCompact2 = nCompact1 OR push_bit 24 (word_of_nat nSize1)
              in Some (nCompact2 OR (if fNegative \<and> nCompact2 AND 0x007fffff \<noteq> 0 then 0x00800000 else 0)))"

subsection \<open>Blob conversions\<close>

lemma ReadLE32_WriteLE32 [simp]: "ReadLE32 (WriteLE32 x) = x"
proof (rule bit_eqI)
  fix n
  assume "possible_bit TYPE(u32) n"
  then have n: "n < 32" by simp
  consider "n < 8" | "8 \<le> n" "n < 16" | "16 \<le> n" "n < 24" | "24 \<le> n" by linarith
  then show "bit (ReadLE32 (WriteLE32 x)) n = bit x n"
    using n by cases (auto simp: ReadLE32_def WriteLE32_def bit_simps)
qed

lemma WriteLE32_ReadLE32 [simp]: "WriteLE32 (ReadLE32 [a, b, c, d]) = [a, b, c, d]"
proof -
  have "ucast (ReadLE32 [a, b, c, d]) = a"
    by (rule bit_eqI) (auto simp: ReadLE32_def bit_simps dest: bit_imp_le_length)
  moreover have "ucast (drop_bit 8 (ReadLE32 [a, b, c, d])) = b"
    by (rule bit_eqI) (auto simp: ReadLE32_def bit_simps dest: bit_imp_le_length)
  moreover have "ucast (drop_bit 16 (ReadLE32 [a, b, c, d])) = c"
    by (rule bit_eqI) (auto simp: ReadLE32_def bit_simps dest: bit_imp_le_length)
  moreover have "ucast (drop_bit 24 (ReadLE32 [a, b, c, d])) = d"
    by (rule bit_eqI) (auto simp: ReadLE32_def bit_simps dest: bit_imp_le_length)
  ultimately show ?thesis by (simp add: WriteLE32_def)
qed

lemma length_WriteLE32 [simp]: "length (WriteLE32 x) = 4"
  by (simp add: WriteLE32_def)

lemma word_of_nat_div_pow: "word_of_nat (unat x div 2 ^ n) = ucast (drop_bit n x)"
  unfolding unat_drop_bit [symmetric] by (rule of_nat_unat)

lemma le_digits_4: "le_digits 4 v = le_digits (Suc (Suc (Suc (Suc 0)))) v"
  by (rule arg_cong [where f = "\<lambda>n. le_digits n v"]) simp

lemma WriteLE32_digits: "WriteLE32 x = le_digits 4 (unat x)"
proof -
  have "le_digits 4 (unat x) = [word_of_nat (unat x), word_of_nat (unat x div 2 ^ 8),
      word_of_nat (unat x div 2 ^ 16), word_of_nat (unat x div 2 ^ 24) :: u8]"
    by (simp only: le_digits_4) (simp add: div_mult2_eq [symmetric])
  then show ?thesis by (simp only: word_of_nat_div_pow WriteLE32_def of_nat_unat)
qed

lemma le_value_WriteLE32: "le_value (WriteLE32 x) = unat x"
  using unat_lt_pow [of x] by (simp add: WriteLE32_digits le_value_le_digits)

lemma unat_ReadLE32: "length p = 4 \<Longrightarrow> unat (ReadLE32 p) = le_value p"
proof -
  assume "length p = 4"
  then obtain a b c d where "p = [a, b, c, d]"
    by (auto simp: length_Suc_conv numeral_eq_Suc)
  then show ?thesis using le_value_WriteLE32 [of "ReadLE32 p"] by simp
qed

lemma length_UintToArith256 [simp, len_simps]: "length (UintToArith256 a) = 8"
  by (simp add: UintToArith256_def)

lemma ArithToUint256_concat: "ArithToUint256 a = concat (map WriteLE32 a)"
  unfolding ArithToUint256_def by (metis (no_types, lifting) map_map comp_apply map_nth map_eq_conv)

lemma length_ArithToUint256 [simp, len_simps]: "length (ArithToUint256 a) = 4 * length a"
  by (simp add: ArithToUint256_concat length_concat sum_list_triv comp_def)

theorem le_value_ArithToUint256: "le_value (ArithToUint256 a) = le_value a"
  by (induction a) (simp_all add: ArithToUint256_concat le_value_append le_value_WriteLE32)

lemma UintToArith256_chunks:
  "length a = 4 * n \<Longrightarrow>
   le_value (map (\<lambda>x. ReadLE32 (take 4 (drop (x * 4) a))) [0..<n]) = le_value a"
proof (induction n arbitrary: a)
  case 0
  then show ?case by simp
next
  case (Suc n)
  have map: "map (\<lambda>x. ReadLE32 (take 4 (drop (x * 4) a))) [0..<Suc n]
      = ReadLE32 (take 4 a) # map (\<lambda>x. ReadLE32 (take 4 (drop (x * 4) (drop 4 a)))) [0..<n]"
    by (simp add: upt_conv_Cons map_Suc_upt [symmetric] add.commute del: upt_Suc)
  have "le_value a = le_value (take 4 a) + 2 ^ 32 * le_value (drop 4 a)"
    using le_value_append [of "take 4 a" "drop 4 a"] Suc.prems by simp
  then show ?case
    unfolding map using Suc.IH [of "drop 4 a"] Suc.prems by (simp add: unat_ReadLE32)
qed

theorem le_value_UintToArith256: "length a = 32 \<Longrightarrow> le_value (UintToArith256 a) = le_value a"
  using UintToArith256_chunks [of a 8] by (simp add: UintToArith256_def)

lemma UintToArith256_ArithToUint256: "length a = 8 \<Longrightarrow> UintToArith256 (ArithToUint256 a) = a"
  using le_value_inj [of "UintToArith256 (ArithToUint256 a)" a]
  by (simp add: le_value_UintToArith256 le_value_ArithToUint256)

lemma ArithToUint256_UintToArith256: "length a = 32 \<Longrightarrow> ArithToUint256 (UintToArith256 a) = a"
  using le_value_inj [of "ArithToUint256 (UintToArith256 a)" a]
  by (simp add: le_value_UintToArith256 le_value_ArithToUint256)

subsection \<open>The compact format on naturals\<close>

definition compact_size :: "nat \<Rightarrow> nat \<Rightarrow> bool" where
  "compact_size x n \<longleftrightarrow> x < 256 ^ n \<and> (n \<noteq> 0 \<longrightarrow> 256 ^ (n - 1) \<le> x)"

lemma pow256: "(256::nat) ^ n = 2 ^ (8 * n)"
  by (simp add: power_mult)

lemma compact_size_bits: "compact_size (le_value pn) ((bits pn + 7) div 8)"
proof -
  let ?n = "(bits pn + 7) div 8"
  have "le_value pn < 2 ^ bits pn" by (rule bits_bounds)
  also have "\<dots> \<le> (2::nat) ^ (8 * ?n)" by (rule power_increasing) simp_all
  finally have "le_value pn < 256 ^ ?n" by (simp only: pow256)
  moreover have "256 ^ (?n - 1) \<le> le_value pn" if "?n \<noteq> 0"
  proof -
    have b: "bits pn \<noteq> 0" using that by (cases "bits pn") auto
    have "256 ^ (?n - 1) = (2::nat) ^ (8 * (?n - 1))" by (rule pow256)
    also have "\<dots> \<le> 2 ^ (bits pn - 1)" using that by (intro power_increasing) linarith+
    also have "\<dots> \<le> le_value pn" using b by (rule bits_bounds)
    finally show ?thesis .
  qed
  ultimately show ?thesis by (simp add: compact_size_def)
qed

text \<open>The mantissa shifted to three bytes, and the code of a natural number.\<close>

definition mant3 :: "nat \<Rightarrow> nat \<Rightarrow> nat" where
  "mant3 x n = (if n \<le> 3 then x * 256 ^ (3 - n) else x div 256 ^ (n - 3))"

definition unmant3 :: "nat \<Rightarrow> nat \<Rightarrow> nat" where
  "unmant3 m n = (if n \<le> 3 then m div 256 ^ (3 - n) else m * 256 ^ (n - 3))"

lemma mant3_bound: "compact_size x n \<Longrightarrow> mant3 x n < 2 ^ 24"
proof (cases "n \<le> 3")
  case True
  assume "compact_size x n"
  then have "x * 256 ^ (3 - n) < 256 ^ n * 256 ^ (3 - n)" by (simp add: compact_size_def)
  also have "\<dots> = 2 ^ 24" using True by (simp add: power_add [symmetric])
  finally show ?thesis using True by (simp add: mant3_def)
next
  case False
  assume "compact_size x n"
  moreover obtain k where n: "n = 3 + k" using False le_Suc_ex nat_le_linear by blast
  ultimately have "x < 256 ^ 3 * 256 ^ (n - 3)" by (simp add: compact_size_def power_add)
  then have "x div 256 ^ (n - 3) < 256 ^ 3" by (rule less_mult_imp_div_less)
  then show ?thesis using False by (simp add: mant3_def)
qed

lemma mant3_lower: "compact_size x n \<Longrightarrow> n \<noteq> 0 \<Longrightarrow> 2 ^ 16 \<le> mant3 x n"
proof (cases "n \<le> 3")
  case True
  assume s: "compact_size x n" and "n \<noteq> 0"
  have "(2::nat) ^ 16 = 256 ^ (n - 1) * 256 ^ (3 - n)" using True \<open>n \<noteq> 0\<close> by (simp add: power_add [symmetric])
  also have "\<dots> \<le> x * 256 ^ (3 - n)" using s \<open>n \<noteq> 0\<close> by (simp add: compact_size_def)
  finally show ?thesis using True by (simp add: mant3_def)
next
  case False
  assume s: "compact_size x n" and "n \<noteq> 0"
  obtain k where n: "n = 3 + k" using False le_Suc_ex nat_le_linear by blast
  have "256 ^ 2 * 256 ^ (n - 3) = (256::nat) ^ (n - 1)" by (simp add: n power_add)
  also have "\<dots> \<le> x" using s \<open>n \<noteq> 0\<close> by (simp add: compact_size_def)
  finally have "256 ^ 2 \<le> x div 256 ^ (n - 3)" by (simp add: less_eq_div_iff_mult_less_eq)
  then show ?thesis using False by (simp add: mant3_def)
qed

definition compact_code :: "nat \<Rightarrow> nat \<Rightarrow> nat \<times> nat" where
  "compact_code x n = (if 2 ^ 23 \<le> mant3 x n then (mant3 x n div 256, n + 1) else (mant3 x n, n))"

lemma mant3_exact: "n \<le> 3 \<Longrightarrow> unmant3 (mant3 x n) n = x"
  by (simp add: mant3_def unmant3_def)

lemma mant3_exact_carry: "n \<le> 2 \<Longrightarrow> unmant3 (mant3 x n div 256) (n + 1) = x"
proof -
  assume n: "n \<le> 2"
  then have "3 - n = Suc (2 - n)" by simp
  then have "mant3 x n div 256 = x * 256 ^ (2 - n)" using n by (simp add: mant3_def)
  then show ?thesis using n by (simp add: unmant3_def)
qed

lemma compact_code_cases:
  assumes s: "compact_size x n" and c: "compact_code x n = (m, s)"
  obtains (exact) "s \<le> 3" "unmant3 m s = x"
    | (trunc) q where "3 < s" "q = 256 ^ (s - 3)" "m = x div q" "unmant3 m s = (x div q) * q" "2 ^ 15 \<le> m"
proof (cases "2 ^ 23 \<le> mant3 x n")
  case carry: True
  then have m: "m = mant3 x n div 256" "s = n + 1" using c by (auto simp: compact_code_def)
  have "2 ^ 23 div 256 \<le> mant3 x n div 256" using carry by (rule div_le_mono)
  then have ge: "2 ^ 15 \<le> m" using m by simp
  show ?thesis
  proof (cases "n \<le> 2")
    case True
    then show ?thesis using m exact mant3_exact_carry [of n x] by simp
  next
    case False
    then obtain k where n: "n = 3 + k" by (metis add.commute le_Suc_ex not_less_eq_eq numeral_2_eq_2 numeral_3_eq_3)
    then have "m = x div 256 ^ (s - 3)"
      using m by (cases k) (simp_all add: mant3_def div_mult2_eq [symmetric] mult.commute)
    then show ?thesis using trunc False m ge by (simp add: unmant3_def)
  qed
next
  case False
  then have m: "m = mant3 x n" "s = n" using c by (auto simp: compact_code_def)
  show ?thesis
  proof (cases "n \<le> 3")
    case True
    then show ?thesis using m exact mant3_exact by simp
  next
    case big: False
    have "2 ^ 16 \<le> m" using mant3_lower [OF s] big m by simp
    then show ?thesis using trunc big m by (simp add: mant3_def unmant3_def)
  qed
qed

lemma compact_code_bounds:
  assumes "compact_size x n" "compact_code x n = (m, s)"
  shows "m < 2 ^ 23" "s \<le> n + 1" "s = n + 1 \<Longrightarrow> m < 2 ^ 16" "m = 0 \<longleftrightarrow> x = 0"
proof -
  have b: "mant3 x n < 2 ^ 24" using assms(1) by (rule mant3_bound)
  then have "mant3 x n div 256 < 2 ^ 16" by (simp add: less_mult_imp_div_less)
  then show "m < 2 ^ 23" "s \<le> n + 1" "s = n + 1 \<Longrightarrow> m < 2 ^ 16"
    using assms(2) by (auto simp: compact_code_def split: if_splits)
  show "m = 0 \<longleftrightarrow> x = 0"
    using assms
  proof (cases rule: compact_code_cases)
    case exact
    show ?thesis
    proof
      assume "m = 0" then show "x = 0" using exact by (simp add: unmant3_def)
    next
      assume "x = 0" then show "m = 0" using assms(2) by (auto simp: compact_code_def mant3_def split: if_splits)
    qed
  next
    case (trunc q)
    then show ?thesis by (cases "x = 0") auto
  qed
qed

lemma compact_truncates:
  assumes "compact_size x n" "compact_code x n = (m, s)"
  shows "unmant3 m s \<le> x" "(x - unmant3 m s) * 2 ^ 15 \<le> x"
proof -
  have "unmant3 m s \<le> x \<and> (x - unmant3 m s) * 2 ^ 15 \<le> x"
    using assms
  proof (cases rule: compact_code_cases)
    case exact
    then show ?thesis by simp
  next
    case (trunc q)
    have q: "0 < q" using trunc by simp
    have "x - unmant3 m s = x mod q" using trunc by (simp add: minus_div_mult_eq_mod)
    also have "\<dots> \<le> q" using q by (simp add: less_imp_le)
    finally have "(x - unmant3 m s) * 2 ^ 15 \<le> q * 2 ^ 15" by (rule mult_le_mono1)
    also have "\<dots> \<le> q * (x div q)" using trunc by (intro mult_le_mono2) simp
    also have "\<dots> \<le> x" by simp
    finally show ?thesis using trunc by simp
  qed
  then show "unmant3 m s \<le> x" "(x - unmant3 m s) * 2 ^ 15 \<le> x" by simp_all
qed

lemma compact_size_unique: "compact_size x n \<Longrightarrow> compact_size x n' \<Longrightarrow> n = n'"
proof (induction n n' rule: linorder_wlog)
  case (le a b)
  show ?case
  proof (rule ccontr)
    assume "a \<noteq> b"
    then have "256 ^ a \<le> (256::nat) ^ (b - 1)" using le by (intro power_increasing) simp_all
    moreover have "x < 256 ^ a" "256 ^ (b - 1) \<le> x" using le \<open>a \<noteq> b\<close> by (simp_all add: compact_size_def)
    ultimately show False by linarith
  qed
qed simp


lemma pow256_split: "3 \<le> n \<Longrightarrow> (256::nat) ^ (n - 1) = 256 ^ 2 * 256 ^ (n - 3)"
  by (auto simp: le_iff_add power_add)

lemma compact_code_idem:
  assumes s: "compact_size x n" and c: "compact_code x n = (m, s)"
    and v: "compact_size (unmant3 m s) n'"
  shows "compact_code (unmant3 m s) n' = (m, s)"
  using s c
proof (cases rule: compact_code_cases)
  case exact
  then have "n' = n" using s v by (simp add: compact_size_unique)
  then show ?thesis using exact c by simp
next
  case (trunc q)
  let ?v = "unmant3 m s"
  have q: "q > 0" using trunc by simp
  have vq: "?v div q = m" using trunc q by simp
  show ?thesis
  proof (cases "s = n")
    case True
    have nc: "m = mant3 x n" "m < 2 ^ 23"
      using c True by (auto simp: compact_code_def split: if_splits)
    have "256 ^ 2 * q = 256 ^ (n - 1)" using trunc True pow256_split [of n] by simp
    moreover have "256 ^ 2 \<le> m" using mant3_lower [OF s] trunc True nc by simp
    ultimately have "256 ^ (n - 1) \<le> ?v" using trunc by (metis mult_le_mono1)
    then have "compact_size ?v n"
      using s compact_truncates(1) [OF s c] by (auto simp: compact_size_def)
    then have "n' = n" using v by (simp add: compact_size_unique)
    moreover have "mant3 ?v n = m" using trunc True vq by (simp add: mant3_def)
    ultimately show ?thesis using nc True by (simp add: compact_code_def)
  next
    case False
    then have sn: "s = n + 1" and carry: "2 ^ 23 \<le> mant3 x n" and m: "m = mant3 x n div 256"
      using c by (auto simp: compact_code_def split: if_splits)
    define r :: nat where "r = 256 ^ (n - 3)"
    have "s - 3 = Suc (n - 3)" using trunc sn by simp
    then have qr: "q = 256 * r" using trunc(2) by (simp only: r_def power_Suc)
    have "256 ^ (n - 1) = 256 ^ 2 * r" using trunc sn pow256_split [of n] by (simp add: r_def)
    also have "\<dots> \<le> 2 ^ 15 * q" using qr by simp
    also have "\<dots> \<le> m * q" using trunc(5) by (rule mult_le_mono1)
    finally have "256 ^ (n - 1) \<le> ?v" using trunc by simp
    then have "compact_size ?v n"
      using s compact_truncates(1) [OF s c] by (auto simp: compact_size_def)
    then have n': "n' = n" using v by (simp add: compact_size_unique)
    have "mant3 ?v n = ?v div r"
      using trunc(1) sn by (cases "n = 3") (simp_all add: mant3_def r_def)
    moreover have "?v = (m * 256) * r" using trunc(3,4) qr by simp
    moreover have "(m * 256) * r div r = m * 256" by (simp add: r_def)
    ultimately have "mant3 ?v n = m * 256" by simp
    then show ?thesis using n' sn trunc by (simp add: compact_code_def)
  qed
qed

subsection \<open>The compact format on limbs\<close>

lemma and_bit23: "unat (c :: u32) < 2 ^ 24 \<Longrightarrow> c AND 0x00800000 \<noteq> 0 \<longleftrightarrow> 2 ^ 23 \<le> unat c"
proof -
  assume lt: "unat c < 2 ^ 24"
  have "(0x00800000 :: u32) = 2 ^ 23" by simp
  then have "c AND 0x00800000 \<noteq> 0 \<longleftrightarrow> bit c 23" by (simp only: and_exp_eq_0_iff_not_bit not_not)
  also have "\<dots> \<longleftrightarrow> bit (unat c) 23" by (simp add: bit_unsigned_iff)
  also have "\<dots> \<longleftrightarrow> odd (unat c div 2 ^ 23)" by (rule bit_iff_odd)
  also have "\<dots> \<longleftrightarrow> 2 ^ 23 \<le> unat c"
  proof -
    have "unat c div 2 ^ 23 < 2" using lt by (simp add: less_mult_imp_div_less)
    then show ?thesis by (auto simp: less_2_cases_iff div_eq_0_iff)
  qed
  finally show ?thesis .
qed

lemma low23: "(c :: u32) AND 0x007fffff = take_bit 23 c"
  by (simp add: take_bit_eq_mask mask_eq_exp_minus_1)

lemma unat_low23: "unat ((c :: u32) AND 0x007fffff) = unat c mod 2 ^ 23"
  unfolding low23 unsigned_take_bit_eq by (simp add: take_bit_eq_mod)

lemma high_clear:
  assumes "unat (c :: u32) < 2 ^ 23"
  shows "c AND NOT 0x007fffff = 0"
proof -
  have m: "(0x007fffff :: u32) = mask 23" by (simp add: mask_eq_exp_minus_1)
  show ?thesis unfolding m
    by (rule bit_eqI) (use not_bit_high [OF assms] in \<open>auto simp: bit_simps not_less [symmetric]\<close>)
qed

lemma unat_or_size:
  assumes "unat (c :: u32) < 2 ^ 24" "s < 256"
  shows "unat (c OR push_bit 24 (word_of_nat s)) = unat c + s * 2 ^ 24"
proof -
  have and0: "c AND push_bit 24 (word_of_nat s) = 0"
    by (rule bit_eqI) (use not_bit_high [OF assms(1)] in \<open>auto simp: bit_simps\<close>)
  have "unat (push_bit 24 (word_of_nat s) :: u32) = s * 2 ^ 24"
    using assms(2) by (simp add: push_bit_eq_mult unat_times_mod unsigned_of_nat take_bit_eq_mod)
  moreover have "unat c + s * 2 ^ 24 < 2 ^ 32" using assms by simp
  ultimately show ?thesis
    unfolding disjunctive_add_eq_or [OF and0, symmetric] by (simp add: unat_plus_mod)
qed

text \<open>What \<^verbatim>\<open>GetCompact\<close> computes before the carry test.\<close>

lemma GetCompact_mantissa:
  assumes len: "length pn = 8"
  defines "n \<equiv> (bits pn + 7) div 8"
  shows "unat (if n \<le> 3 then ucast (push_bit (8 * (3 - n)) (GetLow64 pn))
     else ucast (GetLow64 (uint_shr pn (8 * (n - 3)))) :: u32) = mant3 (le_value pn) n"
proof -
  have s: "compact_size (le_value pn) n" unfolding n_def by (rule compact_size_bits)
  have b: "mant3 (le_value pn) n < 2 ^ 24" using s by (rule mant3_bound)
  show ?thesis
  proof (cases "n \<le> 3")
    case True
    then have m: "le_value pn * 2 ^ (8 * (3 - n)) < 2 ^ 24"
      using b by (simp add: mant3_def pow256)
    have "le_value pn \<le> le_value pn * 2 ^ (8 * (3 - n))" by simp
    then have "le_value pn < 2 ^ 24" using m by linarith
    then have "le_value pn < 2 ^ 64" by simp
    then have "unat (GetLow64 pn) = le_value pn" using len by (simp add: unat_GetLow64)
    then have "unat (push_bit (8 * (3 - n)) (GetLow64 pn)) = le_value pn * 2 ^ (8 * (3 - n))"
      using m by (simp add: unat_push_bit)
    then show ?thesis using True m by (simp add: unat_ucast_mod mant3_def pow256)
  next
    case False
    have "unat (GetLow64 (uint_shr pn (8 * (n - 3)))) = mant3 (le_value pn) n"
      using len False b by (simp add: unat_GetLow64 val_uint_shr mant3_def pow256)
    then show ?thesis using False b by (simp add: unat_ucast_mod)
  qed
qed

lemma GetCompact_code:
  assumes len: "length pn = 8" and c: "compact_code (le_value pn) ((bits pn + 7) div 8) = (m, s)"
  shows "\<exists>c. GetCompact pn False = Some c \<and> unat c = m + s * 2 ^ 24"
proof -
  define n where "n = (bits pn + 7) div 8"
  have sz: "compact_size (le_value pn) n" unfolding n_def by (rule compact_size_bits)
  have n32: "n \<le> 32" using bits_le [of pn] len by (simp add: n_def)
  define w :: u32 where "w = (if n \<le> 3 then ucast (push_bit (8 * (3 - n)) (GetLow64 pn))
     else ucast (GetLow64 (uint_shr pn (8 * (n - 3)))))"
  have w: "unat w = mant3 (le_value pn) n"
    unfolding w_def n_def using len by (rule GetCompact_mantissa)
  have w24: "unat w < 2 ^ 24" unfolding w using sz by (rule mant3_bound)
  define w1 where "w1 = (if w AND 0x00800000 \<noteq> 0 then drop_bit 8 w else w)"
  have carry: "w AND 0x00800000 \<noteq> 0 \<longleftrightarrow> 2 ^ 23 \<le> mant3 (le_value pn) n"
    using and_bit23 [OF w24] w by simp
  have s: "s = (if w AND 0x00800000 \<noteq> 0 then n + 1 else n)" and w1: "unat w1 = m"
    using c w unfolding carry w1_def n_def [symmetric] by (auto simp: compact_code_def unat_drop_bit split: if_splits)
  have m: "m < 2 ^ 23" using compact_code_bounds(1) [OF sz] c by (simp add: n_def)
  have s256: "s < 256" using s n32 by simp
  have "GetCompact pn False = Some (w1 OR push_bit 24 (word_of_nat s))"
    unfolding GetCompact_def Let_def n_def [symmetric] w_def [symmetric] w1_def [symmetric] s [symmetric]
    using high_clear [of w1] m w1 s256 by simp
  moreover have "unat (w1 OR push_bit 24 (word_of_nat s)) = m + s * 2 ^ 24"
    using unat_or_size [of w1 s] w1 m s256 by simp
  ultimately show ?thesis by blast
qed

lemma compact_fits:
  assumes m: "m < 2 ^ 23" and no: "m \<noteq> 0 \<Longrightarrow> s \<le> 32 \<or> s = 33 \<and> m < 2 ^ 16"
  shows "m * 2 ^ (8 * (s - 3)) < (2 ^ 256 :: nat)"
proof (cases "m = 0 \<or> s = 33")
  case True
  then show ?thesis using no by (cases "m = 0") auto
next
  case False
  then have "8 * (s - 3) \<le> 232" using no by auto
  then have "(2::nat) ^ (8 * (s - 3)) \<le> 2 ^ 232" by (rule power_increasing) simp
  then have "m * 2 ^ (8 * (s - 3)) \<le> m * 2 ^ 232" by (rule mult_le_mono2)
  also have "\<dots> < 2 ^ 23 * 2 ^ 232" using m by simp
  also have "\<dots> < 2 ^ 256" by simp
  finally show ?thesis .
qed

lemma SetCompact_code:
  assumes c: "unat c = m + s * 2 ^ 24" and m: "m < 2 ^ 23"
    and no: "m \<noteq> 0 \<Longrightarrow> s \<le> 32 \<or> s = 33 \<and> m < 2 ^ 16"
  shows "\<exists>v. SetCompact c = (v, False, False) \<and> length v = 8 \<and> le_value v = unmant3 m s"
proof -
  have size: "unat (drop_bit 24 c) = s" using c m by (simp add: unat_drop_bit)
  have split: "m + s * 2 ^ 24 = m + (2 * s) * 2 ^ 23" by simp
  have neg: "c AND 0x00800000 = 0"
  proof -
    from split have "(m + s * 2 ^ 24) div 2 ^ 23 = 2 * s" using m by (simp only: div_mult_self1) simp
    then have "\<not> bit (unat c) 23" unfolding bit_iff_odd c by simp
    then have "\<not> bit c 23" by (simp add: bit_unsigned_iff)
    then have "c AND 2 ^ 23 = 0" unfolding and_exp_eq_0_iff_not_bit .
    then show ?thesis by simp
  qed
  define w where "w = (if s \<le> 3 then drop_bit (8 * (3 - s)) (c AND 0x007fffff) else c AND 0x007fffff)"
  have low: "unat (c AND 0x007fffff) = m" unfolding unat_low23 c split using m by (simp only: mod_mult_self1) simp
  have w: "unat w = (if s \<le> 3 then m div 2 ^ (8 * (3 - s)) else m)"
    using low unfolding w_def by (cases "s \<le> 3") (simp_all only: unat_drop_bit if_True if_False)
  define v where "v = (if s \<le> 3 then uint_of_u64 8 (ucast w) else uint_shl (uint_of_u64 8 (ucast w)) (8 * (s - 3)))"
  have ovf: "\<not> (w \<noteq> 0 \<and> (s > 34 \<or> (w > 0xff \<and> s > 33) \<or> (w > 0xffff \<and> s > 32)))"
  proof
    assume a: "w \<noteq> 0 \<and> (s > 34 \<or> (w > 0xff \<and> s > 33) \<or> (w > 0xffff \<and> s > 32))"
    then have s: "s > 32" and "m \<noteq> 0" using w by (auto simp: unat_eq_0 [symmetric] split: if_splits)
    then have s33: "s = 33" "m < 2 ^ 16" using no by auto
    then have "w > 0xffff" using a by simp
    then have "0xffff < unat w" by (simp add: word_less_nat_alt)
    then show False using w s33 by simp
  qed
  have v8: "length v = 8" by (simp add: v_def)
  have ucast: "unat (ucast w :: u64) = unat w" by (simp add: unat_ucast_up)
  have val: "le_value v = unmant3 m s"
  proof (cases "s \<le> 3")
    case True
    then show ?thesis by (simp add: v_def val_uint_of_u64 ucast w unmant3_def pow256)
  next
    case False
    have "m * 2 ^ (8 * (s - 3)) < 2 ^ 256" using m no by (rule compact_fits)
    then show ?thesis using False by (simp add: v_def val_uint_shl val_uint_of_u64 ucast w unmant3_def pow256)
  qed
  have "SetCompact c = (v, False, False)"
    unfolding SetCompact_def Let_def size w_def [symmetric] v_def [symmetric] using neg ovf by simp
  then show ?thesis using v8 val by blast
qed

text \<open>
  Encoding a 256-bit target never aborts; decoding the code gives back a target that is not larger
  and differs by less than one part in \<open>2 ^ 15\<close>, with neither flag set; and encoding again gives
  the same code.
\<close>

theorem GetCompact_SetCompact:
  assumes "length pn = 8"
  shows "\<exists>c v. GetCompact pn False = Some c \<and> SetCompact c = (v, False, False) \<and> length v = 8 \<and>
     le_value v \<le> le_value pn \<and> (le_value pn - le_value v) * 2 ^ 15 \<le> le_value pn \<and>
     GetCompact v False = Some c"
proof -
  let ?x = "le_value pn" and ?n = "(bits pn + 7) div 8"
  have sz: "compact_size ?x ?n" by (rule compact_size_bits)
  obtain m s where ms: "compact_code ?x ?n = (m, s)" by fastforce
  note b = compact_code_bounds [OF sz ms]
  obtain c where c: "GetCompact pn False = Some c" "unat c = m + s * 2 ^ 24"
    using GetCompact_code [OF assms ms] by blast
  have "?n \<le> 32" using bits_le [of pn] assms by simp
  then have "s \<le> 32 \<or> s = 33 \<and> m < 2 ^ 16" using b(2,3) by (cases "s = ?n + 1") auto
  then obtain v where v: "SetCompact c = (v, False, False)" "length v = 8" "le_value v = unmant3 m s"
    using SetCompact_code [OF c(2) b(1)] by blast
  have "compact_code (le_value v) ((bits v + 7) div 8) = (m, s)"
    unfolding v(3) using sz ms by (rule compact_code_idem) (use compact_size_bits [of v] v(3) in simp)
  then obtain c' where "GetCompact v False = Some c'" "unat c' = m + s * 2 ^ 24"
    using GetCompact_code [OF v(2)] by blast
  then have "GetCompact v False = Some c" using c(2) by (simp add: word_unat_eq_iff)
  then show ?thesis using c v compact_truncates [OF sz ms] by auto
qed

subsection \<open>Properties\<close>

text \<open>
  C28: encoding a 256-bit target in the compact format never trips an assertion, the encoding is
  read back as a non-negative number without overflow, the number read back is at most the target
  and loses less than one part in \<^term>\<open>2 ^ 15 :: nat\<close> of it, and encoding it again gives the same bits.
\<close>

theorem compact_encoding:
  assumes "length pn = 8"
  shows "\<exists>c v. GetCompact pn False = Some c \<and> SetCompact c = (v, False, False) \<and> length v = 8 \<and>
     le_value v \<le> le_value pn \<and> (le_value pn - le_value v) * 2 ^ 15 \<le> le_value pn \<and>
     GetCompact v False = Some c"
  by (rule GetCompact_SetCompact [OF assms])

theorem compact_encoding_witness:
  "\<exists>c v. GetCompact [0x12345678, 0x9abcdef0, 0, 0, 0, 0, 0, 1] False = Some c \<and> SetCompact c = (v, False, False) \<and>
     GetCompact v False = Some c"
  using compact_encoding [of "[0x12345678, 0x9abcdef0, 0, 0, 0, 0, 0, 1]"] by auto

end
