(* ===== verification/Serialize.thy ===== *)
theory Serialize
  imports Nowp_Prelude
begin

text \<open>
  The wire format of \<^verbatim>\<open>src/src/serialize.h\<close>: fixed-width little-endian integers, CompactSize,
  VarInt, byte vectors read in bounded blocks, and vectors of elements read in bounded batches. A
  writer maps a value to its bytes; a reader maps the unread bytes of the stream to an error or to
  a value and the bytes left. The locale \<open>serializer\<close> is the contract a type's
  \<^verbatim>\<open>Serialize\<close>/\<^verbatim>\<open>Unserialize\<close> pair promises (reading back what was written), and \<open>codec\<close> adds that
  only canonical encodings are accepted; both are interpreted for every format.
\<close>

subsection \<open>Streams and errors\<close>

datatype ser_error =
    End_of_data
  | Non_canonical_size
  | Size_too_large
  | VarInt_too_large
  | Value_out_of_range
  | Exceeds_type_limit
  | String_limit_exceeded
  | Superfluous_witness
  | Unknown_optional_data
  | Assertion_failed

type_synonym 'a reader = "bytes \<Rightarrow> ser_error + 'a \<times> bytes"

definition ebind :: "'e + 'a \<Rightarrow> ('a \<Rightarrow> 'e + 'b) \<Rightarrow> 'e + 'b" where
  "ebind m f = (case m of Inl e \<Rightarrow> Inl e | Inr x \<Rightarrow> f x)"

lemma ebind_simps [simp]: "ebind (Inl e) f = Inl e" "ebind (Inr x) f = f x"
  by (simp_all add: ebind_def)

lemma ebind_cong [fundef_cong]:
  "m = m' \<Longrightarrow> (\<And>x. m' = Inr x \<Longrightarrow> f x = g x) \<Longrightarrow> ebind m f = ebind m' g"
  by (cases m') simp_all

lemma ebind_eq_Inr [simp]: "ebind m f = Inr y \<longleftrightarrow> (\<exists>x. m = Inr x \<and> f x = Inr y)"
  by (cases m) simp_all

definition stream_read :: "nat \<Rightarrow> bytes reader" where
  "stream_read n s = (if n = 0 then Inr ([], s)
                      else if n > length s then Inl End_of_data
                      else Inr (take n s, drop n s))"

subsection \<open>Fixed-width integers\<close>

definition ser_writedata8 :: "u8 \<Rightarrow> bytes" where
  "ser_writedata8 obj = [obj]"

definition ser_writedata16 :: "u16 \<Rightarrow> bytes" where
  "ser_writedata16 obj = le_digits 2 (unat obj)"

definition ser_writedata16be :: "u16 \<Rightarrow> bytes" where
  "ser_writedata16be obj = rev (le_digits 2 (unat obj))"

definition ser_writedata32 :: "u32 \<Rightarrow> bytes" where
  "ser_writedata32 obj = le_digits 4 (unat obj)"

definition ser_writedata32be :: "u32 \<Rightarrow> bytes" where
  "ser_writedata32be obj = rev (le_digits 4 (unat obj))"

definition ser_writedata64 :: "u64 \<Rightarrow> bytes" where
  "ser_writedata64 obj = le_digits 8 (unat obj)"

definition ser_readdata8 :: "u8 reader" where
  "ser_readdata8 s = ebind (stream_read 1 s) (\<lambda>(obj, s). Inr (obj ! 0, s))"

definition ser_readdata16 :: "u16 reader" where
  "ser_readdata16 s = ebind (stream_read 2 s) (\<lambda>(obj, s). Inr (word_of_nat (le_value obj), s))"

definition ser_readdata16be :: "u16 reader" where
  "ser_readdata16be s = ebind (stream_read 2 s) (\<lambda>(obj, s). Inr (word_of_nat (le_value (rev obj)), s))"

definition ser_readdata32 :: "u32 reader" where
  "ser_readdata32 s = ebind (stream_read 4 s) (\<lambda>(obj, s). Inr (word_of_nat (le_value obj), s))"

definition ser_readdata32be :: "u32 reader" where
  "ser_readdata32be s = ebind (stream_read 4 s) (\<lambda>(obj, s). Inr (word_of_nat (le_value (rev obj)), s))"

definition ser_readdata64 :: "u64 reader" where
  "ser_readdata64 s = ebind (stream_read 8 s) (\<lambda>(obj, s). Inr (word_of_nat (le_value obj), s))"

definition ser_bool :: "bool \<Rightarrow> bytes" where
  "ser_bool a = ser_writedata8 (if a then 1 else 0)"

definition unser_bool :: "bool reader" where
  "unser_bool s = ebind (ser_readdata8 s) (\<lambda>(f, s). Inr (f \<noteq> 0, s))"

subsection \<open>CompactSize\<close>

definition MAX_SIZE :: u64 where
  "MAX_SIZE = 0x02000000"

definition GetSizeOfCompactSize :: "u64 \<Rightarrow> nat" where
  "GetSizeOfCompactSize nSize =
     (if nSize < 253 then 1
      else if nSize \<le> 0xffff then 1 + 2
      else if nSize \<le> 0xffffffff then 1 + 4
      else 1 + 8)"

definition WriteCompactSize :: "u64 \<Rightarrow> bytes" where
  "WriteCompactSize nSize =
     (if nSize < 253 then ser_writedata8 (ucast nSize)
      else if nSize \<le> 0xffff then ser_writedata8 253 @ ser_writedata16 (ucast nSize)
      else if nSize \<le> 0xffffffff then ser_writedata8 254 @ ser_writedata32 (ucast nSize)
      else ser_writedata8 255 @ ser_writedata64 nSize)"

text \<open>The payload announced by the first byte \<open>chSize\<close>, with the canonicity checks.\<close>

definition read_compact_payload :: "u8 \<Rightarrow> u64 reader" where
  "read_compact_payload chSize is =
     (if chSize < 253 then Inr (ucast chSize, is)
      else if chSize = 253 then
        ebind (ser_readdata16 is) (\<lambda>(n, is).
          let nSizeRet = ucast n in if nSizeRet < 253 then Inl Non_canonical_size else Inr (nSizeRet, is))
      else if chSize = 254 then
        ebind (ser_readdata32 is) (\<lambda>(n, is).
          let nSizeRet = ucast n in if nSizeRet < 0x10000 then Inl Non_canonical_size else Inr (nSizeRet, is))
      else
        ebind (ser_readdata64 is) (\<lambda>(nSizeRet, is).
          if nSizeRet < 0x100000000 then Inl Non_canonical_size else Inr (nSizeRet, is)))"

definition ReadCompactSize :: "bool \<Rightarrow> u64 reader" where
  "ReadCompactSize range_check is =
     ebind (ser_readdata8 is) (\<lambda>(chSize, is).
     ebind (read_compact_payload chSize is) (\<lambda>(nSizeRet, is).
       if range_check \<and> nSizeRet > MAX_SIZE then Inl Size_too_large else Inr (nSizeRet, is)))"

subsection \<open>VarInt\<close>

text \<open>The loops are written for an unsigned type of any width; the instances used are 32 and 64 bits.\<close>

lemma varint_step_less: "(n :: 'a::len word) > 0x7F \<Longrightarrow> unat (drop_bit 7 n - 1) < unat n"
proof -
  assume n: "n > 0x7F"
  show ?thesis
  proof (cases "LENGTH('a) \<le> 7")
    case True
    have "(0x7F :: 'a word) = mask 7" by (simp add: mask_eq_exp_minus_1)
    also have "\<dots> = - 1" using True by (intro bit_word_eqI) (simp add: bit_mask_iff)
    finally have "(0x7F :: 'a word) = - 1" .
    with n have "- 1 < n" by (simp only:)
    then show ?thesis by simp
  next
    case False
    then have "(128::nat) \<le> 2 ^ LENGTH('a)" using power_increasing [of 7 "LENGTH('a)" "2::nat"] by simp
    then have "unat (0x7F :: 'a word) = 127" by (simp add: unsigned_numeral take_bit_eq_mod)
    then have big: "128 \<le> unat n" using n by (simp add: word_less_nat_alt)
    then have d: "1 \<le> unat n div 128" by simp
    have "unat (drop_bit 7 n - 1) = unat n div 128 - 1"
    proof -
      have "unat (drop_bit 7 n) = unat n div 128" by (simp add: unat_drop_bit)
      moreover have "(1 :: 'a word) \<le> drop_bit 7 n" using d False
        by (simp add: word_le_nat_alt unat_drop_bit)
      ultimately show ?thesis by (simp add: unat_sub)
    qed
    also have "\<dots> < unat n" using big by simp
    finally show ?thesis .
  qed
qed

function GetSizeOfVarInt :: "'a::len word \<Rightarrow> nat" where
  "GetSizeOfVarInt n = 1 + (if n \<le> 0x7F then 0 else GetSizeOfVarInt (drop_bit 7 n - 1))"
  by pat_completeness auto
termination by (relation "measure unat") (use varint_step_less in \<open>auto simp: not_le\<close>)

declare GetSizeOfVarInt.simps [simp del]

text \<open>The buffer \<^verbatim>\<open>tmp\<close>, filled from the least significant group on and written out backwards.\<close>

function varint_tmp :: "bool \<Rightarrow> 'a::len word \<Rightarrow> bytes" where
  "varint_tmp more n =
     (let b = ucast (n AND 0x7F) OR (if more then 0x80 else 0x00)
      in if n \<le> 0x7F then [b] else b # varint_tmp True (drop_bit 7 n - 1))"
  by pat_completeness auto
termination by (relation "measure (\<lambda>(more, n). unat n)") (use varint_step_less in \<open>auto simp: not_le\<close>)

declare varint_tmp.simps [simp del]

definition WriteVarInt :: "'a::len word \<Rightarrow> bytes" where
  "WriteVarInt n = rev (varint_tmp False n)"

fun read_varint_loop :: "'a::len word \<Rightarrow> ('a word) reader" where
  "read_varint_loop n [] = Inl End_of_data"
| "read_varint_loop n (chData # is) =
     (if n > drop_bit 7 (- 1) then Inl VarInt_too_large
      else let n = push_bit 7 n OR ucast (chData AND 0x7F)
           in if chData AND 0x80 \<noteq> 0
              then if n = - 1 then Inl VarInt_too_large else read_varint_loop (n + 1) is
              else Inr (n, is))"

definition ReadVarInt :: "('a::len word) reader" where
  "ReadVarInt is = read_varint_loop 0 is"

subsection \<open>Custom integers\<close>

definition CustomUint_ser :: "nat \<Rightarrow> bool \<Rightarrow> u64 \<Rightarrow> ser_error + bytes" where
  "CustomUint_ser Bytes BigEndian v =
     (if v > drop_bit (8 * (8 - Bytes)) 0xffffffffffffffff then Inl Value_out_of_range
      else if BigEndian then Inr (drop (8 - Bytes) (rev (le_digits 8 (unat v))))
      else Inr (take Bytes (le_digits 8 (unat v))))"

definition CustomUint_unser :: "nat \<Rightarrow> bool \<Rightarrow> u64 reader" where
  "CustomUint_unser Bytes BigEndian s =
     ebind (stream_read Bytes s) (\<lambda>(raw, s).
       if BigEndian then Inr (word_of_nat (le_value (rev (replicate (8 - Bytes) 0 @ raw))), s)
       else Inr (word_of_nat (le_value (raw @ replicate (8 - Bytes) 0)), s))"

subsection \<open>Vectors\<close>

definition VectorFormatter_ser :: "('a \<Rightarrow> bytes) \<Rightarrow> 'a list \<Rightarrow> bytes" where
  "VectorFormatter_ser ser v = WriteCompactSize (word_of_nat (length v)) @ concat (map ser v)"

text \<open>The inner loop of \<^verbatim>\<open>VectorFormatter::Unser\<close>: emplace and read until \<open>allocated\<close> elements are there.\<close>

fun read_elems :: "'a reader \<Rightarrow> nat \<Rightarrow> 'a list reader" where
  "read_elems unser 0 s = Inr ([], s)"
| "read_elems unser (Suc n) s =
     ebind (unser s) (\<lambda>(x, s). ebind (read_elems unser n s) (\<lambda>(xs, s). Inr (x # xs, s)))"

lemma length_read_elems: "read_elems unser n s = Inr (xs, s') \<Longrightarrow> length xs = n"
  by (induction n arbitrary: s xs s') auto

text \<open>
  The outer loop, with \<open>batch\<close> standing for \<^verbatim>\<open>MAX_VECTOR_ALLOCATE / sizeof(value_type)\<close>, which the
  \<^verbatim>\<open>static_assert\<close> makes positive.
\<close>

function unser_batches :: "'a reader \<Rightarrow> nat \<Rightarrow> nat \<Rightarrow> 'a list \<Rightarrow> 'a list reader" where
  "unser_batches unser batch nSize v s =
     (if length v < nSize \<and> 0 < batch
      then let allocated = min nSize (length v + batch)
           in ebind (read_elems unser (allocated - length v) s)
                (\<lambda>(xs, s). unser_batches unser batch nSize (v @ xs) s)
      else Inr (v, s))"
  by pat_completeness auto
termination
  by (relation "measure (\<lambda>(unser, batch, nSize, v, s). nSize - length v)") (auto dest: length_read_elems)

declare unser_batches.simps [simp del]

definition VectorFormatter_unser :: "'a reader \<Rightarrow> nat \<Rightarrow> 'a list reader" where
  "VectorFormatter_unser unser batch s =
     ebind (ReadCompactSize True s) (\<lambda>(size, s). unser_batches unser batch (unat size) [] s)"

definition ser_bytes :: "bytes \<Rightarrow> bytes" where
  "ser_bytes v = WriteCompactSize (word_of_nat (length v)) @ (if v \<noteq> [] then v else [])"

text \<open>The block loop of \<^verbatim>\<open>Unserialize_impl\<close> for vectors of bytes; \<open>n\<close> is \<open>nSize - i\<close>.\<close>

function unser_blocks :: "nat \<Rightarrow> bytes reader" where
  "unser_blocks n s =
     (if 0 < n
      then let blk = min n (1 + 4999999)
           in ebind (stream_read blk s) (\<lambda>(b, s).
              ebind (unser_blocks (n - blk) s) (\<lambda>(bs, s). Inr (b @ bs, s)))
      else Inr ([], s))"
  by pat_completeness auto
termination by (relation "measure (\<lambda>(n, s). n)") auto

declare unser_blocks.simps [simp del]

definition unser_bytes :: "bytes reader" where
  "unser_bytes is = ebind (ReadCompactSize True is) (\<lambda>(nSize, is). unser_blocks (unat (ucast nSize :: u32)) is)"

text \<open>\<^verbatim>\<open>std::string\<close>s, read in one piece, and \<^verbatim>\<open>LimitedStringFormatter\<close>.\<close>

definition unser_string :: "bytes reader" where
  "unser_string is = ebind (ReadCompactSize True is) (\<lambda>(nSize, is).
     if (ucast nSize :: u32) \<noteq> 0 then stream_read (unat (ucast nSize :: u32)) is else Inr ([], is))"

definition LimitedString_unser :: "u64 \<Rightarrow> bytes reader" where
  "LimitedString_unser Limit s = ebind (ReadCompactSize True s) (\<lambda>(size, s).
     if size > Limit then Inl String_limit_exceeded
     else if size \<noteq> 0 then stream_read (unat size) s else Inr ([], s))"

definition ser_pair :: "('a \<Rightarrow> bytes) \<Rightarrow> ('b \<Rightarrow> bytes) \<Rightarrow> 'a \<times> 'b \<Rightarrow> bytes" where
  "ser_pair ser1 ser2 = (\<lambda>(x, y). ser1 x @ ser2 y)"

definition unser_pair :: "'a reader \<Rightarrow> 'b reader \<Rightarrow> ('a \<times> 'b) reader" where
  "unser_pair unser1 unser2 s =
     ebind (unser1 s) (\<lambda>(x, s). ebind (unser2 s) (\<lambda>(y, s). Inr ((x, y), s)))"

subsection \<open>Streams\<close>

lemma stream_read_append: "length b = n \<Longrightarrow> stream_read n (b @ s) = Inr (b, s)"
  by (auto simp: stream_read_def)

lemma stream_read_eq_Inr: "stream_read n s = Inr (b, s') \<longleftrightarrow> s = b @ s' \<and> length b = n"
  by (auto simp: stream_read_def)

lemma stream_read_add:
  "stream_read (m + n) s = ebind (stream_read m s) (\<lambda>(a, s). ebind (stream_read n s) (\<lambda>(b, s). Inr (a @ b, s)))"
  by (auto simp: stream_read_def take_add add.commute)

subsection \<open>The contract of a serialization\<close>

named_theorems codec_ser \<open>reading back what was written\<close>
named_theorems codec_iff \<open>the encodings a reader accepts\<close>

locale serializer =
  fixes ser :: "'a \<Rightarrow> bytes" and unser :: "bytes \<Rightarrow> ser_error + 'a \<times> bytes" and ok :: "'a \<Rightarrow> bool"
  assumes unser_ser [codec_ser]: "ok x \<Longrightarrow> unser (ser x @ s) = Inr (x, s)"
begin

lemma unser_ser_all: "ok x \<Longrightarrow> unser (ser x) = Inr (x, [])"
  using unser_ser [of x "[]"] by simp

lemma prefix_free: "ok x \<Longrightarrow> ok y \<Longrightarrow> ser x @ s = ser y @ t \<Longrightarrow> x = y \<and> s = t"
proof -
  assume ok: "ok x" "ok y" and eq: "ser x @ s = ser y @ t"
  have "Inr (x, s) = (Inr (y, t) :: ser_error + 'a \<times> bytes)"
    unfolding unser_ser [OF ok(1), symmetric] unser_ser [OF ok(2), symmetric] eq ..
  then show ?thesis by simp
qed

lemma ser_inj: "ok x \<Longrightarrow> ok y \<Longrightarrow> ser x = ser y \<Longrightarrow> x = y"
  using prefix_free [of x y "[]" "[]"] by simp

lemma read_elems_ser:
  "\<forall>x \<in> set xs. ok x \<Longrightarrow> read_elems unser (length xs) (concat (map ser xs) @ s) = Inr (xs, s)"
  by (induction xs) (simp_all add: unser_ser)

end

locale codec = serializer +
  assumes ser_unser: "unser s = Inr (x, s') \<Longrightarrow> ok x \<and> s = ser x @ s'"
begin

lemma unser_iff [codec_iff]: "unser s = Inr (x, s') \<longleftrightarrow> ok x \<and> s = ser x @ s'"
  using ser_unser unser_ser by auto

lemma read_elems_iff:
  "read_elems unser n s = Inr (xs, s') \<longleftrightarrow>
     length xs = n \<and> (\<forall>x \<in> set xs. ok x) \<and> s = concat (map ser xs) @ s'"
  by (induction n arbitrary: s xs) (auto simp: unser_iff length_Suc_conv)

end

lemma serializer_pair:
  assumes "serializer ser1 unser1 ok1" "serializer ser2 unser2 ok2"
  shows "serializer (ser_pair ser1 ser2) (unser_pair unser1 unser2) (\<lambda>(x, y). ok1 x \<and> ok2 y)"
  using assms by unfold_locales (auto simp: ser_pair_def unser_pair_def serializer.unser_ser)

lemma codec_pair:
  assumes "codec ser1 unser1 ok1" "codec ser2 unser2 ok2"
  shows "codec (ser_pair ser1 ser2) (unser_pair unser1 unser2) (\<lambda>(x, y). ok1 x \<and> ok2 y)"
  by unfold_locales (auto simp: ser_pair_def unser_pair_def codec.unser_iff [OF assms(1)] codec.unser_iff [OF assms(2)])

subsection \<open>Fixed-width integers\<close>

lemma codec_le:
  assumes "LENGTH('a::len) = 8 * k"
  shows "codec (\<lambda>w :: 'a word. le_digits k (unat w))
     (\<lambda>s. ebind (stream_read k s) (\<lambda>(b, s). Inr (word_of_nat (le_value b), s))) (\<lambda>_. True)"
proof unfold_locales
  fix w :: "'a word" and s
  have "unat w < 2 ^ (8 * k)" using unat_lt_pow [of w] assms by simp
  then show "ebind (stream_read k (le_digits k (unat w) @ s)) (\<lambda>(b, s). Inr (word_of_nat (le_value b), s)) = Inr (w, s)"
    by (simp add: stream_read_append le_value_le_digits)
next
  fix s and w :: "'a word" and s'
  assume "ebind (stream_read k s) (\<lambda>(b, s). Inr (word_of_nat (le_value b), s)) = Inr (w, s')"
  then obtain b where b: "s = b @ s'" "length b = k" "w = word_of_nat (le_value b)"
    by (auto simp: stream_read_eq_Inr)
  have "unat w = le_value b"
    using le_value_bound [of b] b assms by (simp add: unsigned_of_nat take_bit_eq_mod)
  then show "True \<and> s = le_digits k (unat w) @ s'" using b by auto
qed

interpretation codec8: codec ser_writedata8 ser_readdata8 "\<lambda>_. True"
  by unfold_locales
    (auto simp: ser_writedata8_def ser_readdata8_def stream_read_def neq_Nil_conv split: if_splits)

interpretation codec16: codec ser_writedata16 ser_readdata16 "\<lambda>_. True"
  using codec_le [of 2, where ?'a = 16] unfolding ser_writedata16_def [abs_def] ser_readdata16_def [abs_def] by simp

interpretation codec32: codec ser_writedata32 ser_readdata32 "\<lambda>_. True"
  using codec_le [of 4, where ?'a = 32] unfolding ser_writedata32_def [abs_def] ser_readdata32_def [abs_def] by simp

interpretation codec64: codec ser_writedata64 ser_readdata64 "\<lambda>_. True"
  using codec_le [of 8, where ?'a = 64] unfolding ser_writedata64_def [abs_def] ser_readdata64_def [abs_def] by simp

lemma codec_be:
  assumes "LENGTH('a::len) = 8 * k"
  shows "codec (\<lambda>w :: 'a word. rev (le_digits k (unat w)))
     (\<lambda>s. ebind (stream_read k s) (\<lambda>(b, s). Inr (word_of_nat (le_value (rev b)), s))) (\<lambda>_. True)"
proof unfold_locales
  fix w :: "'a word" and s
  have "unat w < 2 ^ (8 * k)" using unat_lt_pow [of w] assms by simp
  then show "ebind (stream_read k (rev (le_digits k (unat w)) @ s)) (\<lambda>(b, s). Inr (word_of_nat (le_value (rev b)), s)) = Inr (w, s)"
    by (simp add: stream_read_append le_value_le_digits)
next
  fix s and w :: "'a word" and s'
  assume "ebind (stream_read k s) (\<lambda>(b, s). Inr (word_of_nat (le_value (rev b)), s)) = Inr (w, s')"
  then obtain b where b: "s = b @ s'" "length b = k" "w = word_of_nat (le_value (rev b))"
    by (auto simp: stream_read_eq_Inr)
  have "unat w = le_value (rev b)"
    using le_value_bound [of "rev b"] b assms by (simp add: unsigned_of_nat take_bit_eq_mod)
  moreover have "le_digits k (le_value (rev b)) = rev b" using le_digits_le_value [of "rev b"] b by simp
  ultimately show "True \<and> s = rev (le_digits k (unat w)) @ s'" using b by simp
qed

interpretation codec16be: codec ser_writedata16be ser_readdata16be "\<lambda>_. True"
  using codec_be [of 2, where ?'a = 16] unfolding ser_writedata16be_def [abs_def] ser_readdata16be_def [abs_def] by simp

interpretation codec32be: codec ser_writedata32be ser_readdata32be "\<lambda>_. True"
  using codec_be [of 4, where ?'a = 32] unfolding ser_writedata32be_def [abs_def] ser_readdata32be_def [abs_def] by simp

interpretation ser_bool: serializer ser_bool unser_bool "\<lambda>_. True"
  by unfold_locales (simp add: ser_bool_def unser_bool_def codec8.unser_ser)

subsection \<open>CompactSize\<close>

lemma ReadCompactSize_Write:
  "range_check \<longrightarrow> n \<le> MAX_SIZE \<Longrightarrow> ReadCompactSize range_check (WriteCompactSize n @ s) = Inr (n, s)"
proof -
  assume rc: "range_check \<longrightarrow> n \<le> MAX_SIZE"
  consider "unat n < 253" | "253 \<le> unat n" "unat n < 2 ^ 16" | "2 ^ 16 \<le> unat n" "unat n < 2 ^ 32" | "2 ^ 32 \<le> unat n"
    by linarith
  then show ?thesis
  proof cases
    case 1
    have "unat (ucast n :: u8) = unat n" using 1 by (simp add: unat_ucast_mod)
    moreover then have "(ucast (ucast n :: u8) :: u64) = n" by (simp add: word_unat_eq_iff unat_ucast_up)
    ultimately show ?thesis using 1 rc
      by (simp add: WriteCompactSize_def ReadCompactSize_def read_compact_payload_def codec8.unser_ser word_less_nat_alt word_le_nat_alt not_less)
  next
    case 2
    have "(ucast (ucast n :: u16) :: u64) = n" using 2 by (simp add: word_unat_eq_iff unat_ucast_up unat_ucast_mod)
    then show ?thesis using 2 rc
      by (simp add: WriteCompactSize_def ReadCompactSize_def read_compact_payload_def codec8.unser_ser codec16.unser_ser word_less_nat_alt word_le_nat_alt not_less)
  next
    case 3
    have "(ucast (ucast n :: u32) :: u64) = n" using 3 by (simp add: word_unat_eq_iff unat_ucast_up unat_ucast_mod)
    then show ?thesis using 3 rc
      by (simp add: WriteCompactSize_def ReadCompactSize_def read_compact_payload_def codec8.unser_ser codec32.unser_ser word_less_nat_alt word_le_nat_alt not_less)
  next
    case 4
    then show ?thesis using rc
      by (simp add: WriteCompactSize_def ReadCompactSize_def read_compact_payload_def codec8.unser_ser codec64.unser_ser word_less_nat_alt word_le_nat_alt not_less)
  qed
qed

lemma WriteCompactSize_Read:
  assumes "ReadCompactSize range_check s = Inr (n, s')"
  shows "(range_check \<longrightarrow> n \<le> MAX_SIZE) \<and> s = WriteCompactSize n @ s'"
proof -
  obtain ch r where ch: "s = ser_writedata8 ch @ r"
    and body: "read_compact_payload ch r = Inr (n, s')"
    and rc: "range_check \<longrightarrow> n \<le> MAX_SIZE"
    using assms unfolding ReadCompactSize_def by (auto simp: codec8.unser_iff not_less split: if_splits)
  consider "ch < 253" | "ch = 253" | "ch = 254" | "ch = 255"
  proof -
    have "ch \<noteq> 253 \<Longrightarrow> ch \<noteq> 254 \<Longrightarrow> ch \<noteq> 255 \<Longrightarrow> ch < 253"
      using unat_u8_lt [of ch] by (simp add: word_less_nat_alt word_unat_eq_iff)
    then show ?thesis using that by blast
  qed
  then have "s = WriteCompactSize n @ s'"
  proof cases
    case 1
    then have n: "n = ucast ch" "r = s'" using body by (auto simp: read_compact_payload_def)
    have un: "unat n = unat ch" using n by (simp add: unat_ucast_up)
    have "unat n < 253" using 1 un by (simp add: word_less_nat_alt)
    moreover have "(ucast n :: u8) = ch" using un unat_u8_lt [of ch] by (simp add: word_unat_eq_iff unat_ucast_mod)
    ultimately show ?thesis using ch n by (simp add: WriteCompactSize_def word_less_nat_alt)
  next
    case 2
    then obtain w :: u16 where w: "r = ser_writedata16 w @ s'" "n = ucast w" "\<not> n < 253"
      using body by (auto simp: read_compact_payload_def codec16.unser_iff Let_def split: if_splits)
    have "unat n < 2 ^ 16" using w unat_lt_pow [of w] by (simp add: unat_ucast_up)
    moreover have "(ucast n :: u16) = w" using w unat_lt_pow [of w]
      by (simp add: word_unat_eq_iff unat_ucast_up unat_ucast_mod)
    ultimately show ?thesis using ch w 2 by (simp add: WriteCompactSize_def word_le_nat_alt word_less_nat_alt)
  next
    case 3
    then obtain w :: u32 where w: "r = ser_writedata32 w @ s'" "n = ucast w" "\<not> n < 0x10000"
      using body by (auto simp: read_compact_payload_def codec32.unser_iff Let_def split: if_splits)
    have "unat n < 2 ^ 32" using w unat_lt_pow [of w] by (simp add: unat_ucast_up)
    moreover have "(ucast n :: u32) = w" using w unat_lt_pow [of w]
      by (simp add: word_unat_eq_iff unat_ucast_up unat_ucast_mod)
    ultimately show ?thesis using ch w 3 by (simp add: WriteCompactSize_def word_le_nat_alt word_less_nat_alt)
  next
    case 4
    then have w: "r = ser_writedata64 n @ s'" "\<not> n < 0x100000000"
      using body by (auto simp: read_compact_payload_def codec64.unser_iff split: if_splits)
    then show ?thesis using ch 4 by (simp add: WriteCompactSize_def word_le_nat_alt word_less_nat_alt)
  qed
  then show ?thesis using rc by blast
qed

interpretation compact_size: codec WriteCompactSize "ReadCompactSize range_check" "\<lambda>n. range_check \<longrightarrow> n \<le> MAX_SIZE"
  for range_check
  by unfold_locales (simp_all add: ReadCompactSize_Write WriteCompactSize_Read)

lemma length_WriteCompactSize: "length (WriteCompactSize n) = GetSizeOfCompactSize n"
  by (simp add: WriteCompactSize_def GetSizeOfCompactSize_def ser_writedata8_def ser_writedata16_def
      ser_writedata32_def ser_writedata64_def)

subsection \<open>Vectors\<close>

lemma read_elems_add:
  "read_elems unser (m + n) s =
     ebind (read_elems unser m s) (\<lambda>(xs, s). ebind (read_elems unser n s) (\<lambda>(ys, s). Inr (xs @ ys, s)))"
proof (induction m arbitrary: s)
  case 0
  show ?case by (cases "read_elems unser n s") auto
next
  case (Suc m)
  show ?case
  proof (cases "unser s")
    case (Inl e)
    then show ?thesis by simp
  next
    case (Inr p)
    obtain x r where p: "p = (x, r)" by (cases p)
    show ?thesis
    proof (cases "read_elems unser m r")
      case (Inl e)
      then show ?thesis using Inr p Suc by simp
    next
      case Inr2: (Inr q)
      obtain xs r' where q: "q = (xs, r')" by (cases q)
      show ?thesis using Inr p Inr2 q Suc by (cases "read_elems unser n r'") auto
    qed
  qed
qed

text \<open>Reading in batches reads the announced number of elements.\<close>

lemma unser_batches_eq:
  "0 < batch \<Longrightarrow> length v \<le> nSize \<Longrightarrow>
   unser_batches unser batch nSize v s =
     ebind (read_elems unser (nSize - length v) s) (\<lambda>(xs, s). Inr (v @ xs, s))"
proof (induction unser batch nSize v s rule: unser_batches.induct)
  case (1 unser batch nSize v s)
  show ?case
  proof (cases "length v < nSize")
    case False
    then show ?thesis using "1.prems" by (simp add: unser_batches.simps)
  next
    case True
    define k where "k = min nSize (length v + batch) - length v"
    have k: "nSize - length v = k + (nSize - length v - k)" using True by (simp add: k_def)
    show ?thesis
    proof (cases "read_elems unser k s")
      case (Inl e)
      then show ?thesis using True "1.prems"
        by (subst unser_batches.simps, subst k, subst read_elems_add) (simp add: k_def Let_def)
    next
      case (Inr p)
      obtain xs r where p: "p = (xs, r)" by (cases p)
      have len: "length xs = k" using length_read_elems Inr p by blast
      have IH: "unser_batches unser batch nSize (v @ xs) r =
          ebind (read_elems unser (nSize - length (v @ xs)) r) (\<lambda>(ys, s). Inr ((v @ xs) @ ys, s))"
        by (rule "1.IH") (use True "1.prems" Inr p len in \<open>auto simp: k_def\<close>)
      have "unser_batches unser batch nSize v s = unser_batches unser batch nSize (v @ xs) r"
        using True "1.prems" Inr p by (subst unser_batches.simps) (simp add: k_def Let_def)
      also have "\<dots> = ebind (read_elems unser (nSize - length v - k) r) (\<lambda>(ys, s). Inr (v @ xs @ ys, s))"
        using IH len by (simp add: diff_diff_left)
      also have "\<dots> = ebind (read_elems unser (k + (nSize - length v - k)) s) (\<lambda>(xs, s). Inr (v @ xs, s))"
        unfolding read_elems_add using Inr p by (cases "read_elems unser (nSize - length v - k) r") auto
      finally show ?thesis unfolding k [symmetric] .
    qed
  qed
qed

lemma VectorFormatter_unser_eq:
  "0 < batch \<Longrightarrow> VectorFormatter_unser unser batch s =
     ebind (ReadCompactSize True s) (\<lambda>(nSize, s). read_elems unser (unat nSize) s)"
proof -
  assume "0 < batch"
  then have "unser_batches unser batch (unat n) [] r = read_elems unser (unat n) r" for n :: u64 and r
    by (cases "read_elems unser (unat n) r") (auto simp: unser_batches_eq)
  then show ?thesis by (simp add: VectorFormatter_unser_def)
qed

definition vector_ok :: "('a \<Rightarrow> bool) \<Rightarrow> 'a list \<Rightarrow> bool" where
  "vector_ok ok v \<longleftrightarrow> length v \<le> unat MAX_SIZE \<and> list_all ok v"

lemma size_word: "length v \<le> unat MAX_SIZE \<Longrightarrow> unat (word_of_nat (length v) :: u64) = length v"
  by (simp add: MAX_SIZE_def unsigned_of_nat take_bit_eq_mod)

lemma codec_vector:
  assumes "codec ser unser ok" and batch: "0 < batch"
  shows "codec (VectorFormatter_ser ser) (VectorFormatter_unser unser batch) (vector_ok ok)"
proof -
  have *: "VectorFormatter_unser unser batch s = Inr (v, s') \<longleftrightarrow> vector_ok ok v \<and> s = VectorFormatter_ser ser v @ s'" for s v s'
  proof
    assume "VectorFormatter_unser unser batch s = Inr (v, s')"
    then obtain n r where n: "n \<le> MAX_SIZE" "s = WriteCompactSize n @ r" "read_elems unser (unat n) r = Inr (v, s')"
      by (auto simp: VectorFormatter_unser_eq [OF batch] compact_size.unser_iff)
    have v: "length v = unat n" "\<forall>x \<in> set v. ok x" "r = concat (map ser v) @ s'"
      using n(3) by (simp_all add: codec.read_elems_iff [OF assms(1)])
    have "word_of_nat (length v) = n" using v(1) by simp
    then show "vector_ok ok v \<and> s = VectorFormatter_ser ser v @ s'"
      using n v by (simp add: vector_ok_def VectorFormatter_ser_def word_le_nat_alt list_all_iff)
  next
    assume v: "vector_ok ok v \<and> s = VectorFormatter_ser ser v @ s'"
    then have n: "unat (word_of_nat (length v) :: u64) = length v" by (simp add: vector_ok_def size_word)
    then have "word_of_nat (length v) \<le> MAX_SIZE" using v by (simp add: vector_ok_def word_le_nat_alt)
    then show "VectorFormatter_unser unser batch s = Inr (v, s')" using v n
      by (simp add: VectorFormatter_unser_eq [OF batch] VectorFormatter_ser_def compact_size.unser_ser
          codec.read_elems_iff [OF assms(1)] vector_ok_def list_all_iff)
  qed
  show ?thesis by unfold_locales (simp_all add: *)
qed

text \<open>Reading a byte vector in blocks of five million is one read.\<close>

lemma unser_blocks_eq: "unser_blocks n s = stream_read n s"
proof (induction n s rule: unser_blocks.induct)
  case (1 n s)
  show ?case
  proof (cases "0 < n")
    case False
    then show ?thesis by (simp add: unser_blocks.simps stream_read_def)
  next
    case True
    define blk where "blk = min n (1 + 4999999)"
    have "unser_blocks n s =
        ebind (stream_read blk s) (\<lambda>(b, s). ebind (unser_blocks (n - blk) s) (\<lambda>(bs, s). Inr (b @ bs, s)))"
      using True unfolding blk_def by (subst unser_blocks.simps) (simp only: if_True Let_def)
    also have "\<dots> = ebind (stream_read blk s) (\<lambda>(b, s). ebind (stream_read (n - blk) s) (\<lambda>(bs, s). Inr (b @ bs, s)))"
      by (rule ebind_cong [OF refl]) (use True in \<open>auto simp: "1.IH" [OF True blk_def _ refl]\<close>)
    also have "\<dots> = stream_read (blk + (n - blk)) s" by (rule stream_read_add [symmetric])
    also have "blk + (n - blk) = n" by (simp add: blk_def)
    finally show ?thesis .
  qed
qed

definition blob_ok :: "bytes \<Rightarrow> bool" where
  "blob_ok v \<longleftrightarrow> length v \<le> unat MAX_SIZE"

lemma unser_bytes_iff: "unser_bytes s = Inr (v, s') \<longleftrightarrow> blob_ok v \<and> s = ser_bytes v @ s'"
proof -
  have trunc: "unat (ucast n :: u32) = unat n" if "n \<le> MAX_SIZE" for n :: u64
    using that by (simp add: unat_ucast_mod MAX_SIZE_def word_le_nat_alt)
  show ?thesis
  proof
    assume "unser_bytes s = Inr (v, s')"
    then obtain n where n: "n \<le> MAX_SIZE" "s = WriteCompactSize n @ v @ s'" "length v = unat n"
      by (auto simp: unser_bytes_def compact_size.unser_iff unser_blocks_eq stream_read_eq_Inr trunc)
    moreover then have "word_of_nat (length v) = n" by simp
    ultimately show "blob_ok v \<and> s = ser_bytes v @ s'"
      by (simp add: blob_ok_def ser_bytes_def word_le_nat_alt)
  next
    assume v: "blob_ok v \<and> s = ser_bytes v @ s'"
    then have n: "unat (word_of_nat (length v) :: u64) = length v" by (simp add: blob_ok_def size_word)
    then have le: "word_of_nat (length v) \<le> MAX_SIZE" using v by (simp add: blob_ok_def word_le_nat_alt)
    have "s = WriteCompactSize (word_of_nat (length v)) @ v @ s'" using v by (simp add: ser_bytes_def)
    then show "unser_bytes s = Inr (v, s')" using n le
      by (simp add: unser_bytes_def compact_size.unser_ser unser_blocks_eq stream_read_eq_Inr trunc)
  qed
qed

interpretation byte_vector: codec ser_bytes unser_bytes blob_ok
  by unfold_locales (simp_all add: unser_bytes_iff)

lemma unser_string_eq: "unser_string s = unser_bytes s"
  by (auto simp: unser_string_def unser_bytes_def unser_blocks_eq stream_read_def unat_eq_0 intro!: ebind_cong)

interpretation limited_string: serializer ser_bytes "LimitedString_unser Limit" "\<lambda>v. blob_ok v \<and> length v \<le> unat Limit"
  for Limit
proof unfold_locales
  fix v :: bytes and s
  assume v: "blob_ok v \<and> length v \<le> unat Limit"
  then have n: "unat (word_of_nat (length v) :: u64) = length v" by (simp add: blob_ok_def size_word)
  then have le: "word_of_nat (length v) \<le> MAX_SIZE" "\<not> word_of_nat (length v) > Limit"
    using v by (simp_all add: blob_ok_def word_le_nat_alt not_less)
  have "ser_bytes v @ s = WriteCompactSize (word_of_nat (length v)) @ v @ s" by (simp add: ser_bytes_def)
  then show "LimitedString_unser Limit (ser_bytes v @ s) = Inr (v, s)" using n le
    by (simp add: LimitedString_unser_def compact_size.unser_ser stream_read_append) (auto simp: unat_eq_0 [symmetric])
qed

subsection \<open>VarInt\<close>

lemma mask7: "(0x7F :: 'a::len word) = mask 7"
  by (simp add: mask_eq_exp_minus_1)

lemma flag7: "(0x80 :: u8) = push_bit 7 1"
  by (simp add: push_bit_eq_mult)

lemma le_7F_iff: "8 \<le> LENGTH('a) \<Longrightarrow> (n :: 'a::len word) \<le> 0x7F \<longleftrightarrow> drop_bit 7 n = 0"
proof -
  assume "8 \<le> LENGTH('a)"
  then have "(256::nat) \<le> 2 ^ LENGTH('a)" using power_increasing [of 8 "LENGTH('a)" "2::nat"] by simp
  then have "unat (0x7F :: 'a word) = 127" by (simp add: unsigned_numeral take_bit_eq_mod)
  then have "n \<le> 0x7F \<longleftrightarrow> unat n div 128 = 0" by (simp add: word_le_nat_alt div_eq_0_iff less_Suc_eq_le [symmetric])
  also have "\<dots> \<longleftrightarrow> drop_bit 7 n = 0" unfolding unat_eq_0 [symmetric] unat_drop_bit by simp
  finally show ?thesis .
qed

lemma unat_max_shift: "unat (drop_bit 7 (- 1 :: 'a::len word)) = (2 ^ LENGTH('a) - 1) div 2 ^ 7"
  unfolding unat_drop_bit unsigned_minus_1_eq_mask mask_eq_exp_minus_1 ..

lemma not_max_if_less: "unat (x :: 'a::len word) < unat (y :: 'a word) \<Longrightarrow> x \<noteq> - 1"
  using word_less_nat_alt [of x y] by auto

lemma shift_fits:
  assumes "(n :: 'a::len word) \<le> drop_bit 7 (- 1)" "bit n k"
  shows "7 + k < LENGTH('a)"
proof (rule ccontr)
  assume k: "\<not> 7 + k < LENGTH('a)"
  have "unat n \<le> (2 ^ LENGTH('a) - 1) div 2 ^ 7" using assms(1)
    unfolding word_le_nat_alt unat_max_shift .
  also have "\<dots> < 2 ^ (LENGTH('a) - 7)"
  proof (cases "LENGTH('a) \<le> 7")
    case True
    then have "(2::nat) ^ LENGTH('a) \<le> 2 ^ 7" by (intro power_increasing) simp_all
    then show ?thesis by simp
  next
    case False
    then obtain j where j: "LENGTH('a) = j + 7" by (metis add.commute le_Suc_ex nat_le_linear)
    have "(2::nat) ^ (j + 7) - 1 < 2 ^ j * 2 ^ 7" by (simp add: power_add)
    then show ?thesis unfolding j by (subst div_less_iff_less_mult) simp_all
  qed
  finally have "\<not> bit n k" by (rule not_bit_high) (use k in simp)
  then show False using assms(2) by blast
qed

lemma low7_byte: "f = 0 \<or> f = 0x80 \<Longrightarrow> (ucast ((n :: 'a::len word) AND 0x7F) OR f :: u8) AND 0x7F = ucast (n AND 0x7F)"
  unfolding mask7 by (intro bit_word_eqI, simp add: bit_simps) (auto simp: less_Suc_eq numeral_eq_Suc)

lemma low7_back: "ucast (ucast ((n :: 'a::len word) AND 0x7F) :: u8) = n AND 0x7F"
  unfolding mask7 by (intro bit_word_eqI, simp add: bit_simps) auto

lemma varint_join:
  assumes "f = 0 \<or> f = 0x80"
  shows "push_bit 7 (drop_bit 7 n) OR ucast ((ucast (n AND 0x7F) OR f :: u8) AND 0x7F) = (n :: 'a::len word)"
proof -
  have "push_bit 7 (drop_bit 7 n) OR (n AND mask 7) = n"
    by (intro bit_word_eqI, simp add: bit_simps) (metis add.commute le_add_diff_inverse2 not_le)
  then show ?thesis unfolding low7_byte [OF assms] low7_back unfolding mask7 .
qed

lemma varint_shift_le: "\<not> drop_bit 7 (- 1) < drop_bit 7 (n :: 'a::len word)"
proof -
  have "unat n \<le> 2 ^ LENGTH('a) - 1" using unat_lt_pow [of n] by linarith
  then show ?thesis unfolding word_less_nat_alt unat_max_shift not_less
    unfolding unat_drop_bit by (rule div_le_mono)
qed

lemma flag_bit: "(x :: u8) AND 0x80 = 0 \<longleftrightarrow> \<not> bit x 7"
  using and_exp_eq_0_iff_not_bit [of x 7] by simp

lemma flagged: "(ucast x OR 0x80 :: u8) AND 0x80 \<noteq> 0"
  unfolding flag_bit by (simp add: bit_simps)

lemma unflagged: "(ucast ((n :: 'a::len word) AND 0x7F) :: u8) AND 0x80 = 0"
  unfolding flag_bit mask7 by (simp add: bit_simps)

lemma read_varint_tmp:
  assumes "8 \<le> LENGTH('a)" and "n \<noteq> - 1"
  shows "read_varint_loop 0 (rev (varint_tmp True (n :: 'a::len word)) @ s) = read_varint_loop (n + 1) s"
  using assms(2)
proof (induction n arbitrary: s rule: measure_induct_rule [where f = unat])
  case (less n)
  let ?b = "ucast (n AND 0x7F) OR 0x80 :: u8"
  show ?case
  proof (cases "n \<le> 0x7F")
    case True
    then have "drop_bit 7 n = 0" by (simp add: le_7F_iff [OF assms(1)])
    then have "ucast (?b AND 0x7F) = n" using varint_join [of "0x80" n] by simp
    then show ?thesis using True less.prems flagged by (subst varint_tmp.simps) (simp add: Let_def)
  next
    case False
    let ?m = "drop_bit 7 n - 1"
    have lt: "unat ?m < unat n" using False by (intro varint_step_less) (simp add: not_le)
    then have "?m \<noteq> - 1" by (rule not_max_if_less)
    then have IH: "read_varint_loop 0 (rev (varint_tmp True ?m) @ ?b # s) = read_varint_loop (drop_bit 7 n) (?b # s)"
      using less.IH [OF lt, of "?b # s"] by simp
    have "read_varint_loop (drop_bit 7 n) (?b # s) = read_varint_loop (n + 1) s"
      using less.prems flagged varint_join [of "0x80" n] varint_shift_le [of n] by (simp add: Let_def)
    then show ?thesis using IH False by (subst varint_tmp.simps) (simp add: Let_def)
  qed
qed

lemma ReadVarInt_WriteVarInt:
  assumes "8 \<le> LENGTH('a)"
  shows "ReadVarInt (WriteVarInt n @ s) = Inr (n :: 'a::len word, s)"
proof -
  let ?b = "ucast (n AND 0x7F) :: u8"
  have join: "push_bit 7 (drop_bit 7 n) OR ucast (?b AND 0x7F) = n" using varint_join [of 0 n] by simp
  show ?thesis
  proof (cases "n \<le> 0x7F")
    case True
    then have "drop_bit 7 n = 0" by (simp add: le_7F_iff [OF assms(1)])
    then have "ucast (?b AND 0x7F) = n" using join by simp
    then show ?thesis using True unflagged [of n] by (simp add: ReadVarInt_def WriteVarInt_def varint_tmp.simps [of False])
  next
    case False
    let ?m = "drop_bit 7 n - 1"
    have lt: "unat ?m < unat n" using False by (intro varint_step_less) (simp add: not_le)
    then have "?m \<noteq> - 1" by (rule not_max_if_less)
    then have "read_varint_loop 0 (rev (varint_tmp True ?m) @ ?b # s) = read_varint_loop (drop_bit 7 n) (?b # s)"
      using read_varint_tmp [OF assms, of ?m] by simp
    also have "\<dots> = Inr (n, s)" using join unflagged [of n] varint_shift_le [of n] by (simp add: Let_def)
    finally show ?thesis using False
      by (simp add: ReadVarInt_def WriteVarInt_def varint_tmp.simps [of False])
  qed
qed

text \<open>The bytes already consumed when the loop variable is \<open>n\<close>.\<close>

definition varint_consumed :: "'a::len word \<Rightarrow> bytes" where
  "varint_consumed n = (if n = 0 then [] else rev (varint_tmp True (n - 1)))"

lemma varint_split:
  fixes n :: "'a::len word" and ch :: u8
  assumes len: "8 \<le> LENGTH('a)" and n: "n \<le> drop_bit 7 (- 1)"
  defines "m \<equiv> push_bit 7 n OR ucast (ch AND 0x7F)"
  shows "drop_bit 7 m = n" and "ucast (m AND 0x7F) = ch AND 0x7F" and "m \<le> 0x7F \<longleftrightarrow> n = 0"
proof -
  show d: "drop_bit 7 m = n"
    unfolding m_def mask7 using shift_fits [OF n]
    by (intro bit_word_eqI) (auto simp: bit_simps dest: bit_imp_le_length)
  show "ucast (m AND 0x7F) = ch AND 0x7F"
    unfolding m_def mask7 using len by (intro bit_word_eqI) (auto simp: bit_simps)
  show "m \<le> 0x7F \<longleftrightarrow> n = 0" by (simp add: le_7F_iff [OF len] d)
qed

lemma byte_flag: "(ch :: u8) AND 0x7F OR (if ch AND 0x80 \<noteq> 0 then 0x80 else 0) = ch"
proof -
  show ?thesis unfolding flag_bit mask7
    by (intro bit_word_eqI) (auto simp: bit_simps less_Suc_eq numeral_eq_Suc)
qed

lemma read_varint_canonical:
  assumes len: "8 \<le> LENGTH('a)"
  shows "read_varint_loop n0 s = Inr (n :: 'a::len word, s') \<Longrightarrow> varint_consumed n0 @ s = WriteVarInt n @ s'"
proof (induction n0 s rule: read_varint_loop.induct)
  case (1 n0)
  then show ?case by simp
next
  case (2 n0 ch r)
  define m where "m = push_bit 7 n0 OR ucast (ch AND 0x7F)"
  have n0: "n0 \<le> drop_bit 7 (- 1)" using "2.prems" by (auto split: if_splits)
  note sp = varint_split [OF len n0, of ch, folded m_def]
  have tmp: "varint_tmp f m = (ch AND 0x7F OR (if f then 0x80 else 0)) # (if n0 = 0 then [] else varint_tmp True (n0 - 1))" for f
    by (subst varint_tmp.simps) (simp add: Let_def sp)
  have cons: "rev (varint_tmp f m) = varint_consumed n0 @ [ch AND 0x7F OR (if f then 0x80 else 0)]" for f
    by (simp add: tmp varint_consumed_def)
  show ?case
  proof (cases "ch AND 0x80 = 0")
    case True
    then have "n = m" "s' = r" using "2.prems" n0 by (simp_all add: m_def Let_def leD)
    then show ?thesis using cons [of False] byte_flag [of ch] True by (simp add: WriteVarInt_def)
  next
    case False
    then have m1: "m \<noteq> - 1" and rd: "read_varint_loop (m + 1) r = Inr (n, s')"
      using "2.prems" n0 by (simp_all add: m_def Let_def leD split: if_splits)
    have "varint_consumed (m + 1) @ r = WriteVarInt n @ s'"
      using "2.IH" [OF _ m_def] n0 False m1 rd by (auto simp: m_def not_less)
    moreover have "varint_consumed (m + 1) = varint_consumed n0 @ [ch]"
    proof -
      have "m + 1 \<noteq> 0" using m1 by (simp add: eq_neg_iff_add_eq_0)
      then show ?thesis using cons [of True] byte_flag [of ch] False by (simp add: varint_consumed_def)
    qed
    ultimately show ?thesis by simp
  qed
qed

lemma codec_varint: "8 \<le> LENGTH('a) \<Longrightarrow> codec (WriteVarInt :: 'a::len word \<Rightarrow> bytes) ReadVarInt (\<lambda>_. True)"
proof unfold_locales
  fix n :: "'a word" and s s'
  assume "8 \<le> LENGTH('a)" and "ReadVarInt s = Inr (n, s')"
  then show "True \<and> s = WriteVarInt n @ s'"
    using read_varint_canonical [of 0 s n s'] by (simp add: ReadVarInt_def varint_consumed_def)
qed (rule ReadVarInt_WriteVarInt)

interpretation varint32: codec "WriteVarInt :: u32 \<Rightarrow> bytes" ReadVarInt "\<lambda>_. True"
  by (rule codec_varint) simp

interpretation varint64: codec "WriteVarInt :: u64 \<Rightarrow> bytes" ReadVarInt "\<lambda>_. True"
  by (rule codec_varint) simp

lemma length_varint_tmp: "length (varint_tmp f n) = GetSizeOfVarInt n"
proof (induction f n rule: varint_tmp.induct)
  case (1 f n)
  then show ?case by (subst varint_tmp.simps, subst GetSizeOfVarInt.simps) (simp add: Let_def)
qed

lemma length_WriteVarInt: "length (WriteVarInt n) = GetSizeOfVarInt n"
  by (simp add: WriteVarInt_def length_varint_tmp)

subsection \<open>Custom integers\<close>

lemma CustomUint_roundtrip:
  assumes "Bytes \<le> 8" and w: "CustomUint_ser Bytes BigEndian v = Inr b"
  shows "CustomUint_unser Bytes BigEndian (b @ s) = Inr (v, s)"
proof -
  let ?L = "le_digits 8 (unat v) :: bytes"
  have "unat v \<le> (2 ^ 64 - 1) div 2 ^ (8 * (8 - Bytes))"
    using w by (simp add: CustomUint_ser_def word_less_nat_alt unat_drop_bit not_less split: if_splits)
  also have "\<dots> < 2 ^ (8 * Bytes)"
  proof -
    have "8 * Bytes + 8 * (8 - Bytes) = 64" using assms(1) by simp
    then have "(2::nat) ^ (8 * Bytes) * 2 ^ (8 * (8 - Bytes)) = 2 ^ 64" by (simp only: power_add [symmetric])
    then show ?thesis by (subst div_less_iff_less_mult) simp_all
  qed
  finally have small: "unat v < 2 ^ (8 * Bytes)" .
  have L: "le_value ?L = unat v" using unat_lt_pow [of v] by (simp add: le_value_le_digits)
  have "le_value ?L = le_value (take Bytes ?L) + 2 ^ (8 * Bytes) * le_value (drop Bytes ?L)"
    using le_value_append [of "take Bytes ?L" "drop Bytes ?L"] assms(1) by simp
  then have "le_value (take Bytes ?L) = unat v"
    using small unfolding L by (cases "le_value (drop Bytes ?L)") auto
  then have val: "le_value (take Bytes ?L @ replicate (8 - Bytes) 0) = unat v"
    by (simp add: le_value_append)
  have b: "b = (if BigEndian then rev (take Bytes ?L) else take Bytes ?L)"
    using w assms(1) by (auto simp: CustomUint_ser_def drop_rev split: if_splits)
  then have "length b = Bytes" using assms(1) by simp
  then show ?thesis using b val by (simp add: CustomUint_unser_def stream_read_append)
qed

subsection \<open>Properties\<close>

text \<open>
  A variable-length integer is read back from its encoding, and the only bytes from which the
  reader returns \<open>n\<close> are that encoding, whose length is the one \<^verbatim>\<open>GetSizeOfVarInt\<close> computes.
\<close>

theorem varint_canonical:
  "(ReadVarInt s = Inr (n :: u64, s') \<longleftrightarrow> s = WriteVarInt n @ s') \<and> length (WriteVarInt n) = GetSizeOfVarInt n"
  by (simp add: varint64.unser_iff length_WriteVarInt)

text \<open>
  A compact size is read back from its encoding and from nothing else, the range check rejects
  exactly the sizes above \<^verbatim>\<open>MAX_SIZE\<close>, and the length is the one \<^verbatim>\<open>GetSizeOfCompactSize\<close> computes.
\<close>

theorem compact_size_canonical:
  "(ReadCompactSize range_check s = Inr (n, s') \<longleftrightarrow>
      (if range_check then n \<le> MAX_SIZE else True) \<and> s = WriteCompactSize n @ s') \<and>
   length (WriteCompactSize n) = GetSizeOfCompactSize n"
  by (simp add: compact_size.unser_iff length_WriteCompactSize)

text \<open>
  Reading a vector in bounded batches, so that a claimed size alone never makes the reader
  allocate much, gives what reading the elements one after the other gives, errors included.
\<close>

theorem vector_batches:
  assumes "0 < batch"
  shows "VectorFormatter_unser unser batch s =
     ebind (ReadCompactSize True s) (\<lambda>(nSize, s). read_elems unser (unat nSize) s)"
  by (rule VectorFormatter_unser_eq [OF assms])

theorem vector_batches_witness:
  "VectorFormatter_unser ser_readdata16 2 [3, 1, 0, 2, 0, 3, 0] =
     ebind (ReadCompactSize True [3, 1, 0, 2, 0, 3, 0]) (\<lambda>(nSize, s). read_elems ser_readdata16 (unat nSize) s)"
  using vector_batches [of 2 ser_readdata16 "[3, 1, 0, 2, 0, 3, 0]"] by simp

end
