(* ===== verification/Primitives.thy ===== *)
theory Primitives
  imports Compact_Bits Serialize
begin

text \<open>
  Transactions and blocks, \<^verbatim>\<open>src/src/primitives/transaction.h\<close> and \<^verbatim>\<open>src/src/primitives/block.h\<close>,
  with their predicates and their wire formats. \<^verbatim>\<open>int32_t\<close> fields are 32-bit words read with
  \<^term>\<open>sint\<close>; an amount is an \<^typ>\<open>int\<close> written as a 64-bit two's complement word. The main lemmas
  show that the extended transaction format, the block header and the block are codecs: what is
  written is read back, and only canonical encodings are read.
\<close>

subsection \<open>Data\<close>

definition blob_IsNull :: "bytes \<Rightarrow> bool" where
  "blob_IsNull m_data = list_all (\<lambda>b. b = 0) m_data"

definition uint256_null :: uint256 where
  "uint256_null = replicate 32 0"

record COutPoint =
  op_hash :: uint256
  op_n :: u32

definition NULL_INDEX :: u32 where
  "NULL_INDEX = 0xffffffff"

definition COutPoint_null :: COutPoint where
  "COutPoint_null = \<lparr>op_hash = uint256_null, op_n = NULL_INDEX\<rparr>"

definition COutPoint_IsNull :: "COutPoint \<Rightarrow> bool" where
  "COutPoint_IsNull p \<longleftrightarrow> blob_IsNull (op_hash p) \<and> op_n p = NULL_INDEX"

record CTxIn =
  prevout :: COutPoint
  scriptSig :: bytes
  nSequence :: u32
  scriptWitness :: "bytes list"

record CTxOut =
  nValue :: int
  scriptPubKey :: bytes

definition CTxOut_null :: CTxOut where
  "CTxOut_null = \<lparr>nValue = - 1, scriptPubKey = []\<rparr>"

definition CTxOut_IsNull :: "CTxOut \<Rightarrow> bool" where
  "CTxOut_IsNull out \<longleftrightarrow> nValue out = - 1"

definition CTxOut_IsEmpty :: "CTxOut \<Rightarrow> bool" where
  "CTxOut_IsEmpty out \<longleftrightarrow> nValue out = 0 \<and> scriptPubKey out = []"

record CTransaction =
  vin :: "CTxIn list"
  vout :: "CTxOut list"
  tx_nVersion :: u32
  tx_nTime :: u32
  nLockTime :: u32

definition IsCoinBase :: "CTransaction \<Rightarrow> bool" where
  "IsCoinBase tx \<longleftrightarrow> length (vin tx) = 1 \<and> COutPoint_IsNull (prevout (vin tx ! 0)) \<and> length (vout tx) \<ge> 1"

definition IsCoinStake :: "CTransaction \<Rightarrow> bool" where
  "IsCoinStake tx \<longleftrightarrow> length (vin tx) > 0 \<and> \<not> COutPoint_IsNull (prevout (vin tx ! 0)) \<and>
     length (vout tx) \<ge> 2 \<and> CTxOut_IsEmpty (vout tx ! 0)"

definition HasWitness :: "CTransaction \<Rightarrow> bool" where
  "HasWitness tx = list_ex (\<lambda>i. scriptWitness i \<noteq> []) (vin tx)"

record CBlockHeader =
  hdr_nVersion :: u32
  hashPrevBlock :: uint256
  hashMerkleRoot :: uint256
  hdr_nTime :: u32
  hdr_nBits :: u32
  hdr_nNonce :: u32
  hdr_nFlags :: u32

record CBlock =
  header :: CBlockHeader
  vtx :: "CTransaction list"
  vchBlockSig :: bytes

definition CBlockHeader_IsNull :: "CBlockHeader \<Rightarrow> bool" where
  "CBlockHeader_IsNull h \<longleftrightarrow> hdr_nBits h = 0"

definition block_IsProofOfStake :: "CBlock \<Rightarrow> bool" where
  "block_IsProofOfStake b \<longleftrightarrow> length (vtx b) > 1 \<and> IsCoinStake (vtx b ! 1)"

definition GetProofOfStake :: "CBlock \<Rightarrow> COutPoint \<times> u32" where
  "GetProofOfStake b = (if block_IsProofOfStake b then (prevout (vin (vtx b ! 1) ! 0), tx_nTime (vtx b ! 1))
                        else (COutPoint_null, 0))"

definition GetMaxTransactionTime :: "CBlock \<Rightarrow> int" where
  "GetMaxTransactionTime b = foldl (\<lambda>m tx. max m (uint (tx_nTime tx))) 0 (vtx b)"

subsection \<open>Wire formats\<close>

definition ser_uint256 :: "uint256 \<Rightarrow> bytes" where
  "ser_uint256 h = h"

definition unser_uint256 :: "uint256 reader" where
  "unser_uint256 s = stream_read 32 s"

definition ser_COutPoint :: "COutPoint \<Rightarrow> bytes" where
  "ser_COutPoint p = ser_uint256 (op_hash p) @ ser_writedata32 (op_n p)"

definition unser_COutPoint :: "COutPoint reader" where
  "unser_COutPoint s =
     ebind (unser_uint256 s) (\<lambda>(h, s).
     ebind (ser_readdata32 s) (\<lambda>(i, s). Inr (\<lparr>op_hash = h, op_n = i\<rparr>, s)))"

definition ser_CTxIn :: "CTxIn \<Rightarrow> bytes" where
  "ser_CTxIn i = ser_COutPoint (prevout i) @ ser_bytes (scriptSig i) @ ser_writedata32 (nSequence i)"

definition unser_CTxIn :: "CTxIn reader" where
  "unser_CTxIn s =
     ebind (unser_COutPoint s) (\<lambda>(p, s).
     ebind (unser_bytes s) (\<lambda>(sig, s).
     ebind (ser_readdata32 s) (\<lambda>(q, s).
       Inr (\<lparr>prevout = p, scriptSig = sig, nSequence = q, scriptWitness = []\<rparr>, s))))"

definition ser_CAmount :: "int \<Rightarrow> bytes" where
  "ser_CAmount v = ser_writedata64 (word_of_int v)"

definition unser_CAmount :: "int reader" where
  "unser_CAmount s = ebind (ser_readdata64 s) (\<lambda>(w, s). Inr (sint w, s))"

definition ser_CTxOut :: "CTxOut \<Rightarrow> bytes" where
  "ser_CTxOut out = ser_CAmount (nValue out) @ ser_bytes (scriptPubKey out)"

definition unser_CTxOut :: "CTxOut reader" where
  "unser_CTxOut s =
     ebind (unser_CAmount s) (\<lambda>(v, s).
     ebind (unser_bytes s) (\<lambda>(k, s). Inr (\<lparr>nValue = v, scriptPubKey = k\<rparr>, s)))"

text \<open>
  Elements per batch of \<^verbatim>\<open>VectorFormatter::Unser\<close>: \<^verbatim>\<open>MAX_VECTOR_ALLOCATE\<close> over the sizes of
  \<^verbatim>\<open>CTxIn\<close>, \<^verbatim>\<open>CTxOut\<close>, \<^verbatim>\<open>std::vector\<close>, \<^verbatim>\<open>std::shared_ptr\<close> and \<^verbatim>\<open>uint256\<close> on a 64-bit target. The value
  read does not depend on them.
\<close>

definition batch_of :: "nat \<Rightarrow> nat" where
  "batch_of sizeof = 5000000 div sizeof"

definition unser_vin :: "CTxIn list reader" where
  "unser_vin = VectorFormatter_unser unser_CTxIn (batch_of 104)"

definition unser_vout :: "CTxOut list reader" where
  "unser_vout = VectorFormatter_unser unser_CTxOut (batch_of 40)"

definition unser_stack :: "bytes list reader" where
  "unser_stack = VectorFormatter_unser unser_bytes (batch_of 24)"

text \<open>The loop that reads one witness stack per input, in place.\<close>

fun unser_witnesses :: "CTxIn list \<Rightarrow> CTxIn list reader" where
  "unser_witnesses [] s = Inr ([], s)"
| "unser_witnesses (i # is) s =
     ebind (unser_stack s) (\<lambda>(st, s).
     ebind (unser_witnesses is s) (\<lambda>(is, s). Inr (i\<lparr>scriptWitness := st\<rparr> # is, s)))"

definition SerializeTransaction :: "bool \<Rightarrow> CTransaction \<Rightarrow> bytes" where
  "SerializeTransaction fAllowWitness tx =
     (let flags = (if fAllowWitness \<and> HasWitness tx then 1 else 0 :: u8)
      in ser_writedata32 (tx_nVersion tx) @
         (if sint (tx_nVersion tx) < 3 then ser_writedata32 (tx_nTime tx) else []) @
         (if flags \<noteq> 0 then VectorFormatter_ser ser_CTxIn [] @ ser_writedata8 flags else []) @
         VectorFormatter_ser ser_CTxIn (vin tx) @
         VectorFormatter_ser ser_CTxOut (vout tx) @
         (if flags AND 1 \<noteq> 0 then concat (map (\<lambda>i. VectorFormatter_ser ser_bytes (scriptWitness i)) (vin tx)) else []) @
         ser_writedata32 (nLockTime tx))"

text \<open>Reading the inputs and outputs, with the dummy empty vector and the flag byte.\<close>

definition unser_ins_outs :: "bool \<Rightarrow> (CTxIn list \<times> CTxOut list \<times> u8) reader" where
  "unser_ins_outs fAllowWitness s =
     ebind (unser_vin s) (\<lambda>(ins, s).
       if length ins = 0 \<and> fAllowWitness then
         ebind (ser_readdata8 s) (\<lambda>(flags, s).
           if flags \<noteq> 0 then
             ebind (unser_vin s) (\<lambda>(ins, s).
             ebind (unser_vout s) (\<lambda>(outs, s). Inr ((ins, outs, flags), s)))
           else Inr ((ins, [], flags), s))
       else ebind (unser_vout s) (\<lambda>(outs, s). Inr ((ins, outs, 0), s)))"

text \<open>The witness section, the check for superfluous witnesses and the check for unknown flags.\<close>

definition unser_witness_section :: "bool \<Rightarrow> CTxIn list \<Rightarrow> u8 \<Rightarrow> CTxIn list reader" where
  "unser_witness_section fAllowWitness ins flags s =
     ebind (if flags AND 1 \<noteq> 0 \<and> fAllowWitness
            then ebind (unser_witnesses ins s) (\<lambda>(ins, s).
                   if \<not> list_ex (\<lambda>i. scriptWitness i \<noteq> []) ins then Inl Superfluous_witness
                   else Inr ((ins, flags XOR 1), s))
            else Inr ((ins, flags), s)) (\<lambda>((ins, flags), s).
       if flags \<noteq> 0 then Inl Unknown_optional_data else Inr (ins, s))"

definition UnserializeTransaction :: "bool \<Rightarrow> CTransaction reader" where
  "UnserializeTransaction fAllowWitness s =
     ebind (ser_readdata32 s) (\<lambda>(ver, s).
     ebind (if sint ver < 3 then ser_readdata32 s else Inr (0, s)) (\<lambda>(time, s).
     ebind (unser_ins_outs fAllowWitness s) (\<lambda>((ins, outs, flags), s).
     ebind (unser_witness_section fAllowWitness ins flags s) (\<lambda>(ins, s).
     ebind (ser_readdata32 s) (\<lambda>(lock, s).
       Inr (\<lparr>vin = ins, vout = outs, tx_nVersion = ver, tx_nTime = time, nLockTime = lock\<rparr>, s))))))"

definition SER_GETHASH :: u32 where
  "SER_GETHASH = push_bit 2 1"

definition SER_POSMARKER :: u32 where
  "SER_POSMARKER = push_bit 18 1"

definition header_has_flags :: "u32 \<Rightarrow> bool" where
  "header_has_flags nType \<longleftrightarrow> nType AND SER_GETHASH = 0 \<and> nType AND SER_POSMARKER \<noteq> 0"

definition ser_CBlockHeader :: "u32 \<Rightarrow> CBlockHeader \<Rightarrow> bytes" where
  "ser_CBlockHeader nType h =
     ser_writedata32 (hdr_nVersion h) @ ser_uint256 (hashPrevBlock h) @ ser_uint256 (hashMerkleRoot h) @
     ser_writedata32 (hdr_nTime h) @ ser_writedata32 (hdr_nBits h) @ ser_writedata32 (hdr_nNonce h) @
     (if header_has_flags nType then ser_writedata32 (hdr_nFlags h) else [])"

definition unser_CBlockHeader :: "u32 \<Rightarrow> CBlockHeader reader" where
  "unser_CBlockHeader nType s =
     ebind (ser_readdata32 s) (\<lambda>(ver, s).
     ebind (unser_uint256 s) (\<lambda>(prev, s).
     ebind (unser_uint256 s) (\<lambda>(root, s).
     ebind (ser_readdata32 s) (\<lambda>(time, s).
     ebind (ser_readdata32 s) (\<lambda>(nbits, s).
     ebind (ser_readdata32 s) (\<lambda>(nonce, s).
     ebind (if header_has_flags nType then ser_readdata32 s else Inr (0, s)) (\<lambda>(flags, s).
       Inr (\<lparr>hdr_nVersion = ver, hashPrevBlock = prev, hashMerkleRoot = root, hdr_nTime = time,
             hdr_nBits = nbits, hdr_nNonce = nonce, hdr_nFlags = flags\<rparr>, s))))))))"

definition ser_CBlock :: "u32 \<Rightarrow> bool \<Rightarrow> CBlock \<Rightarrow> bytes" where
  "ser_CBlock nType fAllowWitness b =
     ser_CBlockHeader nType (header b) @
     VectorFormatter_ser (SerializeTransaction fAllowWitness) (vtx b) @ ser_bytes (vchBlockSig b)"

definition unser_CBlock :: "u32 \<Rightarrow> bool \<Rightarrow> CBlock reader" where
  "unser_CBlock nType fAllowWitness s =
     ebind (unser_CBlockHeader nType s) (\<lambda>(h, s).
     ebind (VectorFormatter_unser (UnserializeTransaction fAllowWitness) (batch_of 16) s) (\<lambda>(txs, s).
     ebind (unser_bytes s) (\<lambda>(sig, s). Inr (\<lparr>header = h, vtx = txs, vchBlockSig = sig\<rparr>, s))))"

text \<open>\<^verbatim>\<open>CBlockHeader::GetHash\<close>: the flags are cleared and not serialized; the hash function is a parameter.\<close>

definition header_GetHash :: "(bytes \<Rightarrow> uint256) \<Rightarrow> CBlockHeader \<Rightarrow> uint256" where
  "header_GetHash Hash h = Hash (ser_CBlockHeader SER_GETHASH (h\<lparr>hdr_nFlags := 0\<rparr>))"

definition tx_ComputeHash :: "(bytes \<Rightarrow> uint256) \<Rightarrow> CTransaction \<Rightarrow> uint256" where
  "tx_ComputeHash Hash tx = Hash (SerializeTransaction False tx)"

definition ComputeWitnessHash :: "(bytes \<Rightarrow> uint256) \<Rightarrow> CTransaction \<Rightarrow> uint256" where
  "ComputeWitnessHash Hash tx =
     (if \<not> HasWitness tx then tx_ComputeHash Hash tx else Hash (SerializeTransaction True tx))"

subsection \<open>The formats are codecs\<close>

definition uint256_ok :: "uint256 \<Rightarrow> bool" where
  "uint256_ok h \<longleftrightarrow> length h = 32"

interpretation codec_uint256: codec ser_uint256 unser_uint256 uint256_ok
  by unfold_locales
    (simp_all add: ser_uint256_def unser_uint256_def uint256_ok_def stream_read_append stream_read_eq_Inr)

definition COutPoint_ok :: "COutPoint \<Rightarrow> bool" where
  "COutPoint_ok p \<longleftrightarrow> uint256_ok (op_hash p)"

interpretation codec_COutPoint: codec ser_COutPoint unser_COutPoint COutPoint_ok
  by unfold_locales
    (simp add: ser_COutPoint_def unser_COutPoint_def COutPoint_ok_def codec_ser,
     auto simp: ser_COutPoint_def unser_COutPoint_def COutPoint_ok_def codec_iff)

definition CTxIn_ok :: "CTxIn \<Rightarrow> bool" where
  "CTxIn_ok i \<longleftrightarrow> COutPoint_ok (prevout i) \<and> blob_ok (scriptSig i) \<and> scriptWitness i = []"

interpretation codec_CTxIn: codec ser_CTxIn unser_CTxIn CTxIn_ok
  by unfold_locales
    (simp add: ser_CTxIn_def unser_CTxIn_def CTxIn_ok_def codec_ser,
     auto simp: ser_CTxIn_def unser_CTxIn_def CTxIn_ok_def codec_iff)

lemma CAmount_word: "fits_int64 v \<Longrightarrow> sint (word_of_int v :: u64) = v"
  by (simp add: fits_int64_def sint_sbintrunc' signed_take_bit_int_eq_self)

interpretation codec_CAmount: codec ser_CAmount unser_CAmount fits_int64
proof unfold_locales
  fix v s assume "fits_int64 v"
  then show "unser_CAmount (ser_CAmount v @ s) = Inr (v, s)"
    by (simp add: unser_CAmount_def ser_CAmount_def codec64.unser_ser CAmount_word)
next
  fix s v s' assume "unser_CAmount s = Inr (v, s')"
  then show "fits_int64 v \<and> s = ser_CAmount v @ s'"
    using sint_ge [where ?'a = 64] sint_lt [where ?'a = 64] by (auto simp: unser_CAmount_def ser_CAmount_def codec64.unser_iff fits_int64_def)
qed

definition CTxOut_ok :: "CTxOut \<Rightarrow> bool" where
  "CTxOut_ok out \<longleftrightarrow> fits_int64 (nValue out) \<and> blob_ok (scriptPubKey out)"

interpretation codec_CTxOut: codec ser_CTxOut unser_CTxOut CTxOut_ok
  by unfold_locales
    (simp add: ser_CTxOut_def unser_CTxOut_def CTxOut_ok_def codec_ser,
     auto simp: ser_CTxOut_def unser_CTxOut_def CTxOut_ok_def codec_iff)

interpretation codec_vin: codec "VectorFormatter_ser ser_CTxIn" unser_vin "vector_ok CTxIn_ok"
  unfolding unser_vin_def by (rule codec_vector [OF codec_CTxIn.codec_axioms]) (simp add: batch_of_def)

interpretation codec_vout: codec "VectorFormatter_ser ser_CTxOut" unser_vout "vector_ok CTxOut_ok"
  unfolding unser_vout_def by (rule codec_vector [OF codec_CTxOut.codec_axioms]) (simp add: batch_of_def)

interpretation codec_stack: codec "VectorFormatter_ser ser_bytes" unser_stack "vector_ok blob_ok"
  unfolding unser_stack_def by (rule codec_vector [OF byte_vector.codec_axioms]) (simp add: batch_of_def)

abbreviation strip :: "CTxIn \<Rightarrow> CTxIn" where
  "strip i \<equiv> i\<lparr>scriptWitness := []\<rparr>"

lemma ser_CTxIn_strip [simp]: "ser_CTxIn (strip i) = ser_CTxIn i"
  by (simp add: ser_CTxIn_def)

lemma ser_vin_strip [simp]: "VectorFormatter_ser ser_CTxIn (map strip is) = VectorFormatter_ser ser_CTxIn is"
  by (simp add: VectorFormatter_ser_def comp_def)

lemma unser_witnesses_iff:
  "unser_witnesses is s = Inr (js, s') \<longleftrightarrow>
     length js = length is \<and> map strip js = map strip is \<and>
     list_all (\<lambda>j. vector_ok blob_ok (scriptWitness j)) js \<and>
     s = concat (map (\<lambda>j. VectorFormatter_ser ser_bytes (scriptWitness j)) js) @ s'"
proof (induction "is" arbitrary: js s)
  case Nil
  show ?case by auto
next
  case (Cons i "is")
  show ?case
  proof
    assume "unser_witnesses (i # is) s = Inr (js, s')"
    then show "length js = length (i # is) \<and> map strip js = map strip (i # is) \<and>
        list_all (\<lambda>j. vector_ok blob_ok (scriptWitness j)) js \<and>
        s = concat (map (\<lambda>j. VectorFormatter_ser ser_bytes (scriptWitness j)) js) @ s'"
      by (auto simp: codec_stack.unser_iff Cons)
  next
    assume r: "length js = length (i # is) \<and> map strip js = map strip (i # is) \<and>
        list_all (\<lambda>j. vector_ok blob_ok (scriptWitness j)) js \<and>
        s = concat (map (\<lambda>j. VectorFormatter_ser ser_bytes (scriptWitness j)) js) @ s'"
    then obtain j ks where js: "js = j # ks" by (cases js) auto
    have "i\<lparr>scriptWitness := scriptWitness j\<rparr> = j" using r js
      by (metis (mono_tags, lifting) CTxIn.surjective CTxIn.update_convs(4) list.map(2) list.inject old.unit.exhaust)
    then show "unser_witnesses (i # is) s = Inr (js, s')"
      using r js by (simp add: codec_stack.unser_ser Cons)
  qed
qed

definition tx_ok :: "bool \<Rightarrow> CTransaction \<Rightarrow> bool" where
  "tx_ok fAllowWitness tx \<longleftrightarrow>
     vector_ok (\<lambda>i. CTxIn_ok (strip i) \<and> vector_ok blob_ok (scriptWitness i)) (vin tx) \<and>
     vector_ok CTxOut_ok (vout tx) \<and>
     (sint (tx_nVersion tx) \<ge> 3 \<longrightarrow> tx_nTime tx = 0) \<and>
     (if fAllowWitness then vin tx = [] \<longrightarrow> vout tx = [] else \<not> HasWitness tx)"

lemma ser_vector_Nil: "VectorFormatter_ser ser [] = [0]"
  by (simp add: VectorFormatter_ser_def WriteCompactSize_def ser_writedata8_def)

lemma vector_ok_Nil [simp]: "vector_ok ok []"
  by (simp add: vector_ok_def)

lemma unser_ins_outs_iff:
  "unser_ins_outs allow s = Inr ((ins, outs, flags), s') \<longleftrightarrow>
     vector_ok CTxIn_ok ins \<and> vector_ok CTxOut_ok outs \<and>
     (if flags = 0 then (allow \<and> ins = [] \<longrightarrow> outs = []) \<and>
           s = VectorFormatter_ser ser_CTxIn ins @ VectorFormatter_ser ser_CTxOut outs @ s'
      else allow \<and> s = VectorFormatter_ser ser_CTxIn [] @ ser_writedata8 flags @
             VectorFormatter_ser ser_CTxIn ins @ VectorFormatter_ser ser_CTxOut outs @ s')"
  (is "?lhs \<longleftrightarrow> ?rhs")
proof
  assume ?lhs
  then show ?rhs
    by (auto simp: unser_ins_outs_def codec_iff ser_vector_Nil ser_writedata8_def split: if_splits)
next
  assume r: ?rhs
  show ?lhs
  proof (cases "flags = 0")
    case False
    then show ?thesis using r by (simp add: unser_ins_outs_def codec_ser)
  next
    case True
    then show ?thesis
    proof (cases "allow \<and> ins = []")
      case True
      then have "s = VectorFormatter_ser ser_CTxIn [] @ ser_writedata8 0 @ s'"
        using r \<open>flags = 0\<close> by (simp add: ser_vector_Nil ser_writedata8_def)
      then show ?thesis using r True \<open>flags = 0\<close> by (simp add: unser_ins_outs_def codec_ser)
    next
      case False
      then show ?thesis using r \<open>flags = 0\<close> by (auto simp: unser_ins_outs_def codec_ser)
    qed
  qed
qed

lemma xor_1_eq_0: "(flags :: u8) XOR 1 = 0 \<longleftrightarrow> flags = 1"
proof
  assume "flags XOR 1 = 0"
  then have "(flags XOR 1) XOR 1 = 1" by simp
  then show "flags = 1" by (simp add: xor.assoc)
qed simp

lemma strip_no_witness:
  "\<not> list_ex (\<lambda>i. scriptWitness i \<noteq> []) js \<Longrightarrow> map strip js = js"
  by (rule map_idI) (simp add: list_ex_iff)

lemma no_witness_iff:
  "vector_ok CTxIn_ok ins \<Longrightarrow>
   map strip js = ins \<and> list_all (\<lambda>j. vector_ok blob_ok (scriptWitness j)) js \<and>
     \<not> list_ex (\<lambda>i. scriptWitness i \<noteq> []) js \<longleftrightarrow> js = ins"
proof -
  assume "vector_ok CTxIn_ok ins"
  then have "\<not> list_ex (\<lambda>i. scriptWitness i \<noteq> []) ins" "list_all (\<lambda>j. vector_ok blob_ok (scriptWitness j)) ins"
    by (auto simp: vector_ok_def CTxIn_ok_def list_all_iff list_ex_iff)
  then show ?thesis using strip_no_witness by auto
qed

lemma unser_witness_section_iff:
  assumes "vector_ok CTxIn_ok ins" and "flags \<noteq> 0 \<Longrightarrow> allow"
  shows "unser_witness_section allow ins flags s = Inr (js, s') \<longleftrightarrow>
      map strip js = ins \<and> list_all (\<lambda>j. vector_ok blob_ok (scriptWitness j)) js \<and>
      (if flags = 0 then \<not> list_ex (\<lambda>i. scriptWitness i \<noteq> []) js \<and> s = s'
       else flags = 1 \<and> list_ex (\<lambda>i. scriptWitness i \<noteq> []) js \<and>
         s = concat (map (\<lambda>j. VectorFormatter_ser ser_bytes (scriptWitness j)) js) @ s')"
proof (cases "flags AND 1 = 0")
  case True
  then show ?thesis using no_witness_iff [OF assms(1), of js] by (auto simp: unser_witness_section_def)
next
  case False
  then have nz: "flags \<noteq> 0" by auto
  have ins: "map strip ins = ins" using assms(1)
    by (intro map_idI) (auto simp: vector_ok_def CTxIn_ok_def list_all_iff)
  show ?thesis using False nz assms(2) ins
    by (auto simp: unser_witness_section_def unser_witnesses_iff xor_1_eq_0 split: if_splits dest: map_eq_imp_length_eq)
qed

lemma vector_ok_strip:
  "vector_ok (\<lambda>i. CTxIn_ok (strip i) \<and> vector_ok blob_ok (scriptWitness i)) is \<longleftrightarrow>
     vector_ok CTxIn_ok (map strip is) \<and> list_all (\<lambda>i. vector_ok blob_ok (scriptWitness i)) is"
  by (auto simp: vector_ok_def list_all_iff)

lemma UnserializeTransaction_iff:
  "UnserializeTransaction allow s = Inr (tx, s') \<longleftrightarrow> tx_ok allow tx \<and> s = SerializeTransaction allow tx @ s'"
  (is "?lhs \<longleftrightarrow> ?rhs")
proof
  assume ?lhs
  then obtain r1 r2 ins flags r3
    where s: "s = ser_writedata32 (tx_nVersion tx) @ r1"
      and t: "(if sint (tx_nVersion tx) < 3 then ser_readdata32 r1 else Inr (0, r1)) = Inr (tx_nTime tx, r2)"
      and io: "unser_ins_outs allow r2 = Inr ((ins, vout tx, flags), r3)"
      and w: "unser_witness_section allow ins flags r3 = Inr (vin tx, ser_writedata32 (nLockTime tx) @ s')"
    by (auto simp: UnserializeTransaction_def codec_iff)
  note io = io [unfolded unser_ins_outs_iff]
  then have al: "flags \<noteq> 0 \<Longrightarrow> allow" by simp
  note w = iffD1 [OF unser_witness_section_iff [OF conjunct1 [OF io] al] w]
  have flags: "flags = (if allow \<and> HasWitness tx then 1 else 0)"
    using io w by (auto simp: HasWitness_def split: if_splits)
  have ins: "ins = map strip (vin tx)" using w by simp
  have time: "r1 = (if sint (tx_nVersion tx) < 3 then ser_writedata32 (tx_nTime tx) else []) @ r2"
    "sint (tx_nVersion tx) \<ge> 3 \<longrightarrow> tx_nTime tx = 0"
    using t by (auto simp: codec_iff split: if_splits)
  have "vector_ok CTxIn_ok ins" "vector_ok CTxOut_ok (vout tx)" using io by blast+
  moreover have "list_all (\<lambda>j. vector_ok blob_ok (scriptWitness j)) (vin tx)" using w by blast
  moreover have "if allow then vin tx = [] \<longrightarrow> vout tx = [] else \<not> HasWitness tx"
  proof (cases "flags = 0")
    case True
    then have "allow \<and> ins = [] \<longrightarrow> vout tx = []" "\<not> HasWitness tx" using io w by (simp_all add: HasWitness_def)
    then show ?thesis by (simp add: ins)
  next
    case False
    then have "allow" "vin tx \<noteq> []" using al w by (auto simp: HasWitness_def)
    then show ?thesis by simp
  qed
  ultimately have "tx_ok allow tx" using time(2) unfolding tx_ok_def vector_ok_strip ins by blast
  moreover have "r2 = (if flags \<noteq> 0 then VectorFormatter_ser ser_CTxIn [] @ ser_writedata8 flags else []) @
      VectorFormatter_ser ser_CTxIn (vin tx) @ VectorFormatter_ser ser_CTxOut (vout tx) @ r3"
    using io by (simp add: ins split: if_splits)
  moreover have "r3 = (if flags AND 1 \<noteq> 0 then concat (map (\<lambda>i. VectorFormatter_ser ser_bytes (scriptWitness i)) (vin tx)) else []) @
      ser_writedata32 (nLockTime tx) @ s'"
    using w by (simp split: if_splits)
  ultimately show ?rhs unfolding SerializeTransaction_def Let_def flags [symmetric] s time(1) by simp
next
  assume r: ?rhs
  let ?flags = "if allow \<and> HasWitness tx then 1 else 0 :: u8"
  let ?ins = "map strip (vin tx)"
  have ok: "vector_ok CTxIn_ok ?ins" "list_all (\<lambda>j. vector_ok blob_ok (scriptWitness j)) (vin tx)"
    using r by (simp_all add: tx_ok_def vector_ok_strip)
  have w: "unser_witness_section allow ?ins ?flags
      ((if ?flags AND 1 \<noteq> 0 then concat (map (\<lambda>i. VectorFormatter_ser ser_bytes (scriptWitness i)) (vin tx)) else []) @ r') =
      Inr (vin tx, r')" for r'
    by (subst unser_witness_section_iff [OF ok(1)]) (use ok r in \<open>auto simp: HasWitness_def tx_ok_def split: if_splits\<close>)
  have io: "unser_ins_outs allow
      ((if ?flags \<noteq> 0 then VectorFormatter_ser ser_CTxIn [] @ ser_writedata8 ?flags else []) @
         VectorFormatter_ser ser_CTxIn (vin tx) @ VectorFormatter_ser ser_CTxOut (vout tx) @ r') =
      Inr ((?ins, vout tx, ?flags), r')" for r'
    by (subst unser_ins_outs_iff) (use ok r in \<open>auto simp: tx_ok_def\<close>)
  show ?lhs
    using r w io by (simp add: UnserializeTransaction_def SerializeTransaction_def Let_def codec_ser tx_ok_def)
qed

interpretation codec_tx: codec "SerializeTransaction allow" "UnserializeTransaction allow" "tx_ok allow" for allow
  by unfold_locales (simp_all add: UnserializeTransaction_iff)

definition header_ok :: "u32 \<Rightarrow> CBlockHeader \<Rightarrow> bool" where
  "header_ok nType h \<longleftrightarrow> uint256_ok (hashPrevBlock h) \<and> uint256_ok (hashMerkleRoot h) \<and>
     (\<not> header_has_flags nType \<longrightarrow> hdr_nFlags h = 0)"

interpretation codec_header: codec "ser_CBlockHeader nType" "unser_CBlockHeader nType" "header_ok nType" for nType
  by unfold_locales
    (simp add: ser_CBlockHeader_def unser_CBlockHeader_def header_ok_def codec_ser,
     auto simp: ser_CBlockHeader_def unser_CBlockHeader_def header_ok_def codec_iff split: if_splits)

interpretation codec_vtx: codec "VectorFormatter_ser (SerializeTransaction allow)"
    "VectorFormatter_unser (UnserializeTransaction allow) (batch_of 16)" "vector_ok (tx_ok allow)" for allow
  by (rule codec_vector [OF codec_tx.codec_axioms]) (simp add: batch_of_def)

definition block_ok :: "u32 \<Rightarrow> bool \<Rightarrow> CBlock \<Rightarrow> bool" where
  "block_ok nType allow b \<longleftrightarrow>
     header_ok nType (header b) \<and> vector_ok (tx_ok allow) (vtx b) \<and> blob_ok (vchBlockSig b)"

interpretation codec_block: codec "ser_CBlock nType allow" "unser_CBlock nType allow" "block_ok nType allow"
  for nType allow
  by unfold_locales
    (simp add: ser_CBlock_def unser_CBlock_def block_ok_def codec_ser,
     auto simp: ser_CBlock_def unser_CBlock_def block_ok_def codec_iff)

subsection \<open>Identifiers\<close>

lemma not_has_flags_GETHASH [simp]: "\<not> header_has_flags SER_GETHASH"
  by (simp add: header_has_flags_def SER_GETHASH_def)

lemma length_header_hashed: "uint256_ok (hashPrevBlock h) \<Longrightarrow> uint256_ok (hashMerkleRoot h) \<Longrightarrow>
    length (ser_CBlockHeader SER_GETHASH h) = 80"
  by (simp add: ser_CBlockHeader_def ser_writedata32_def ser_uint256_def uint256_ok_def)

lemma tx_ComputeHash_strip: "tx_ComputeHash Hash (tx\<lparr>vin := map strip (vin tx)\<rparr>) = tx_ComputeHash Hash tx"
  by (simp add: tx_ComputeHash_def SerializeTransaction_def)

subsection \<open>Properties\<close>

text \<open>
  C25: the transaction format is canonical. Reading returns a transaction exactly when the bytes are its
  serialization, witness form or not; in particular a superfluous witness record, an unknown flag and
  an over-long size are rejected, and no two byte strings decode to the same transaction.
\<close>

theorem transaction_wire_canonical:
  "UnserializeTransaction allow s = Inr (tx, s') \<longleftrightarrow> tx_ok allow tx \<and> s = SerializeTransaction allow tx @ s'"
  by (rule UnserializeTransaction_iff)

text \<open>The block format, header flags, transactions and block signature included, is canonical.\<close>

theorem block_wire_canonical:
  "unser_CBlock nType allow s = Inr (b, s') \<longleftrightarrow> block_ok nType allow b \<and> s = ser_CBlock nType allow b @ s'"
  by (rule codec_block.unser_iff)

end
