(* ===== verification/Script.thy ===== *)
theory Script
  imports Serialize
begin

text \<open>
  Scripts, \<^verbatim>\<open>src/src/script/script.h\<close> and \<^verbatim>\<open>src/src/script/script.cpp\<close>: opcodes, script numbers, the
  push operators, the instruction decoder and the predicates and counters that walk over a script.
  A script is its bytes; an iterator \<^verbatim>\<open>pc\<close> is the list of bytes from it to the end.
\<close>

type_synonym CScript = bytes
type_synonym opcodetype = u8

subsection \<open>Opcodes\<close>

abbreviation (input) OP_0 :: opcodetype where "OP_0 \<equiv> 0x00"
abbreviation (input) OP_FALSE :: opcodetype where "OP_FALSE \<equiv> OP_0"
abbreviation (input) OP_PUSHDATA1 :: opcodetype where "OP_PUSHDATA1 \<equiv> 0x4c"
abbreviation (input) OP_PUSHDATA2 :: opcodetype where "OP_PUSHDATA2 \<equiv> 0x4d"
abbreviation (input) OP_PUSHDATA4 :: opcodetype where "OP_PUSHDATA4 \<equiv> 0x4e"
abbreviation (input) OP_1NEGATE :: opcodetype where "OP_1NEGATE \<equiv> 0x4f"
abbreviation (input) OP_RESERVED :: opcodetype where "OP_RESERVED \<equiv> 0x50"
abbreviation (input) OP_1 :: opcodetype where "OP_1 \<equiv> 0x51"
abbreviation (input) OP_TRUE :: opcodetype where "OP_TRUE \<equiv> OP_1"
abbreviation (input) OP_2 :: opcodetype where "OP_2 \<equiv> 0x52"
abbreviation (input) OP_3 :: opcodetype where "OP_3 \<equiv> 0x53"
abbreviation (input) OP_4 :: opcodetype where "OP_4 \<equiv> 0x54"
abbreviation (input) OP_5 :: opcodetype where "OP_5 \<equiv> 0x55"
abbreviation (input) OP_6 :: opcodetype where "OP_6 \<equiv> 0x56"
abbreviation (input) OP_7 :: opcodetype where "OP_7 \<equiv> 0x57"
abbreviation (input) OP_8 :: opcodetype where "OP_8 \<equiv> 0x58"
abbreviation (input) OP_9 :: opcodetype where "OP_9 \<equiv> 0x59"
abbreviation (input) OP_10 :: opcodetype where "OP_10 \<equiv> 0x5a"
abbreviation (input) OP_11 :: opcodetype where "OP_11 \<equiv> 0x5b"
abbreviation (input) OP_12 :: opcodetype where "OP_12 \<equiv> 0x5c"
abbreviation (input) OP_13 :: opcodetype where "OP_13 \<equiv> 0x5d"
abbreviation (input) OP_14 :: opcodetype where "OP_14 \<equiv> 0x5e"
abbreviation (input) OP_15 :: opcodetype where "OP_15 \<equiv> 0x5f"
abbreviation (input) OP_16 :: opcodetype where "OP_16 \<equiv> 0x60"
abbreviation (input) OP_NOP :: opcodetype where "OP_NOP \<equiv> 0x61"
abbreviation (input) OP_VER :: opcodetype where "OP_VER \<equiv> 0x62"
abbreviation (input) OP_IF :: opcodetype where "OP_IF \<equiv> 0x63"
abbreviation (input) OP_NOTIF :: opcodetype where "OP_NOTIF \<equiv> 0x64"
abbreviation (input) OP_VERIF :: opcodetype where "OP_VERIF \<equiv> 0x65"
abbreviation (input) OP_VERNOTIF :: opcodetype where "OP_VERNOTIF \<equiv> 0x66"
abbreviation (input) OP_ELSE :: opcodetype where "OP_ELSE \<equiv> 0x67"
abbreviation (input) OP_ENDIF :: opcodetype where "OP_ENDIF \<equiv> 0x68"
abbreviation (input) OP_VERIFY :: opcodetype where "OP_VERIFY \<equiv> 0x69"
abbreviation (input) OP_RETURN :: opcodetype where "OP_RETURN \<equiv> 0x6a"
abbreviation (input) OP_TOALTSTACK :: opcodetype where "OP_TOALTSTACK \<equiv> 0x6b"
abbreviation (input) OP_FROMALTSTACK :: opcodetype where "OP_FROMALTSTACK \<equiv> 0x6c"
abbreviation (input) OP_2DROP :: opcodetype where "OP_2DROP \<equiv> 0x6d"
abbreviation (input) OP_2DUP :: opcodetype where "OP_2DUP \<equiv> 0x6e"
abbreviation (input) OP_3DUP :: opcodetype where "OP_3DUP \<equiv> 0x6f"
abbreviation (input) OP_2OVER :: opcodetype where "OP_2OVER \<equiv> 0x70"
abbreviation (input) OP_2ROT :: opcodetype where "OP_2ROT \<equiv> 0x71"
abbreviation (input) OP_2SWAP :: opcodetype where "OP_2SWAP \<equiv> 0x72"
abbreviation (input) OP_IFDUP :: opcodetype where "OP_IFDUP \<equiv> 0x73"
abbreviation (input) OP_DEPTH :: opcodetype where "OP_DEPTH \<equiv> 0x74"
abbreviation (input) OP_DROP :: opcodetype where "OP_DROP \<equiv> 0x75"
abbreviation (input) OP_DUP :: opcodetype where "OP_DUP \<equiv> 0x76"
abbreviation (input) OP_NIP :: opcodetype where "OP_NIP \<equiv> 0x77"
abbreviation (input) OP_OVER :: opcodetype where "OP_OVER \<equiv> 0x78"
abbreviation (input) OP_PICK :: opcodetype where "OP_PICK \<equiv> 0x79"
abbreviation (input) OP_ROLL :: opcodetype where "OP_ROLL \<equiv> 0x7a"
abbreviation (input) OP_ROT :: opcodetype where "OP_ROT \<equiv> 0x7b"
abbreviation (input) OP_SWAP :: opcodetype where "OP_SWAP \<equiv> 0x7c"
abbreviation (input) OP_TUCK :: opcodetype where "OP_TUCK \<equiv> 0x7d"
abbreviation (input) OP_CAT :: opcodetype where "OP_CAT \<equiv> 0x7e"
abbreviation (input) OP_SUBSTR :: opcodetype where "OP_SUBSTR \<equiv> 0x7f"
abbreviation (input) OP_LEFT :: opcodetype where "OP_LEFT \<equiv> 0x80"
abbreviation (input) OP_RIGHT :: opcodetype where "OP_RIGHT \<equiv> 0x81"
abbreviation (input) OP_SIZE :: opcodetype where "OP_SIZE \<equiv> 0x82"
abbreviation (input) OP_INVERT :: opcodetype where "OP_INVERT \<equiv> 0x83"
abbreviation (input) OP_AND :: opcodetype where "OP_AND \<equiv> 0x84"
abbreviation (input) OP_OR :: opcodetype where "OP_OR \<equiv> 0x85"
abbreviation (input) OP_XOR :: opcodetype where "OP_XOR \<equiv> 0x86"
abbreviation (input) OP_EQUAL :: opcodetype where "OP_EQUAL \<equiv> 0x87"
abbreviation (input) OP_EQUALVERIFY :: opcodetype where "OP_EQUALVERIFY \<equiv> 0x88"
abbreviation (input) OP_RESERVED1 :: opcodetype where "OP_RESERVED1 \<equiv> 0x89"
abbreviation (input) OP_RESERVED2 :: opcodetype where "OP_RESERVED2 \<equiv> 0x8a"
abbreviation (input) OP_1ADD :: opcodetype where "OP_1ADD \<equiv> 0x8b"
abbreviation (input) OP_1SUB :: opcodetype where "OP_1SUB \<equiv> 0x8c"
abbreviation (input) OP_2MUL :: opcodetype where "OP_2MUL \<equiv> 0x8d"
abbreviation (input) OP_2DIV :: opcodetype where "OP_2DIV \<equiv> 0x8e"
abbreviation (input) OP_NEGATE :: opcodetype where "OP_NEGATE \<equiv> 0x8f"
abbreviation (input) OP_ABS :: opcodetype where "OP_ABS \<equiv> 0x90"
abbreviation (input) OP_NOT :: opcodetype where "OP_NOT \<equiv> 0x91"
abbreviation (input) OP_0NOTEQUAL :: opcodetype where "OP_0NOTEQUAL \<equiv> 0x92"
abbreviation (input) OP_ADD :: opcodetype where "OP_ADD \<equiv> 0x93"
abbreviation (input) OP_SUB :: opcodetype where "OP_SUB \<equiv> 0x94"
abbreviation (input) OP_MUL :: opcodetype where "OP_MUL \<equiv> 0x95"
abbreviation (input) OP_DIV :: opcodetype where "OP_DIV \<equiv> 0x96"
abbreviation (input) OP_MOD :: opcodetype where "OP_MOD \<equiv> 0x97"
abbreviation (input) OP_LSHIFT :: opcodetype where "OP_LSHIFT \<equiv> 0x98"
abbreviation (input) OP_RSHIFT :: opcodetype where "OP_RSHIFT \<equiv> 0x99"
abbreviation (input) OP_BOOLAND :: opcodetype where "OP_BOOLAND \<equiv> 0x9a"
abbreviation (input) OP_BOOLOR :: opcodetype where "OP_BOOLOR \<equiv> 0x9b"
abbreviation (input) OP_NUMEQUAL :: opcodetype where "OP_NUMEQUAL \<equiv> 0x9c"
abbreviation (input) OP_NUMEQUALVERIFY :: opcodetype where "OP_NUMEQUALVERIFY \<equiv> 0x9d"
abbreviation (input) OP_NUMNOTEQUAL :: opcodetype where "OP_NUMNOTEQUAL \<equiv> 0x9e"
abbreviation (input) OP_LESSTHAN :: opcodetype where "OP_LESSTHAN \<equiv> 0x9f"
abbreviation (input) OP_GREATERTHAN :: opcodetype where "OP_GREATERTHAN \<equiv> 0xa0"
abbreviation (input) OP_LESSTHANOREQUAL :: opcodetype where "OP_LESSTHANOREQUAL \<equiv> 0xa1"
abbreviation (input) OP_GREATERTHANOREQUAL :: opcodetype where "OP_GREATERTHANOREQUAL \<equiv> 0xa2"
abbreviation (input) OP_MIN :: opcodetype where "OP_MIN \<equiv> 0xa3"
abbreviation (input) OP_MAX :: opcodetype where "OP_MAX \<equiv> 0xa4"
abbreviation (input) OP_WITHIN :: opcodetype where "OP_WITHIN \<equiv> 0xa5"
abbreviation (input) OP_RIPEMD160 :: opcodetype where "OP_RIPEMD160 \<equiv> 0xa6"
abbreviation (input) OP_SHA1 :: opcodetype where "OP_SHA1 \<equiv> 0xa7"
abbreviation (input) OP_SHA256 :: opcodetype where "OP_SHA256 \<equiv> 0xa8"
abbreviation (input) OP_HASH160 :: opcodetype where "OP_HASH160 \<equiv> 0xa9"
abbreviation (input) OP_HASH256 :: opcodetype where "OP_HASH256 \<equiv> 0xaa"
abbreviation (input) OP_CODESEPARATOR :: opcodetype where "OP_CODESEPARATOR \<equiv> 0xab"
abbreviation (input) OP_CHECKSIG :: opcodetype where "OP_CHECKSIG \<equiv> 0xac"
abbreviation (input) OP_CHECKSIGVERIFY :: opcodetype where "OP_CHECKSIGVERIFY \<equiv> 0xad"
abbreviation (input) OP_CHECKMULTISIG :: opcodetype where "OP_CHECKMULTISIG \<equiv> 0xae"
abbreviation (input) OP_CHECKMULTISIGVERIFY :: opcodetype where "OP_CHECKMULTISIGVERIFY \<equiv> 0xaf"
abbreviation (input) OP_NOP1 :: opcodetype where "OP_NOP1 \<equiv> 0xb0"
abbreviation (input) OP_CHECKLOCKTIMEVERIFY :: opcodetype where "OP_CHECKLOCKTIMEVERIFY \<equiv> 0xb1"
abbreviation (input) OP_NOP2 :: opcodetype where "OP_NOP2 \<equiv> OP_CHECKLOCKTIMEVERIFY"
abbreviation (input) OP_CHECKSEQUENCEVERIFY :: opcodetype where "OP_CHECKSEQUENCEVERIFY \<equiv> 0xb2"
abbreviation (input) OP_NOP3 :: opcodetype where "OP_NOP3 \<equiv> OP_CHECKSEQUENCEVERIFY"
abbreviation (input) OP_NOP4 :: opcodetype where "OP_NOP4 \<equiv> 0xb3"
abbreviation (input) OP_NOP5 :: opcodetype where "OP_NOP5 \<equiv> 0xb4"
abbreviation (input) OP_NOP6 :: opcodetype where "OP_NOP6 \<equiv> 0xb5"
abbreviation (input) OP_NOP7 :: opcodetype where "OP_NOP7 \<equiv> 0xb6"
abbreviation (input) OP_NOP8 :: opcodetype where "OP_NOP8 \<equiv> 0xb7"
abbreviation (input) OP_NOP9 :: opcodetype where "OP_NOP9 \<equiv> 0xb8"
abbreviation (input) OP_NOP10 :: opcodetype where "OP_NOP10 \<equiv> 0xb9"
abbreviation (input) OP_CHECKSIGADD :: opcodetype where "OP_CHECKSIGADD \<equiv> 0xba"
abbreviation (input) OP_INVALIDOPCODE :: opcodetype where "OP_INVALIDOPCODE \<equiv> 0xff"

definition MAX_OPCODE :: opcodetype where
  "MAX_OPCODE = OP_NOP10"

definition MAX_SCRIPT_ELEMENT_SIZE :: nat where "MAX_SCRIPT_ELEMENT_SIZE = 520"
definition MAX_OPS_PER_SCRIPT :: nat where "MAX_OPS_PER_SCRIPT = 201"
definition MAX_PUBKEYS_PER_MULTISIG :: nat where "MAX_PUBKEYS_PER_MULTISIG = 20"
definition MAX_SCRIPT_SIZE :: nat where "MAX_SCRIPT_SIZE = 10000"
definition MAX_STACK_SIZE :: nat where "MAX_STACK_SIZE = 1000"

definition IsOpSuccess :: "opcodetype \<Rightarrow> bool" where
  "IsOpSuccess opcode \<longleftrightarrow> opcode = 80 \<or> opcode = 98 \<or> (opcode \<ge> 126 \<and> opcode \<le> 129) \<or>
     (opcode \<ge> 131 \<and> opcode \<le> 134) \<or> (opcode \<ge> 137 \<and> opcode \<le> 138) \<or>
     (opcode \<ge> 141 \<and> opcode \<le> 142) \<or> (opcode \<ge> 149 \<and> opcode \<le> 153) \<or>
     (opcode \<ge> 187 \<and> opcode \<le> 254)"

subsection \<open>Script numbers\<close>

datatype scriptnum_error = Scriptnum_overflow | Non_minimal

text \<open>The loop of \<^verbatim>\<open>CScriptNum::serialize\<close> that peels off the bytes of the magnitude.\<close>

lemma drop8_less: "(a :: u64) \<noteq> 0 \<Longrightarrow> unat (drop_bit 8 a) < unat a"
  by (simp add: unat_drop_bit unat_gt_0)

function abs_bytes :: "u64 \<Rightarrow> bytes" where
  "abs_bytes absvalue =
     (if absvalue \<noteq> 0 then ucast (absvalue AND 0xff) # abs_bytes (drop_bit 8 absvalue) else [])"
  by pat_completeness auto
termination by (relation "measure unat") (simp_all add: drop8_less)

declare abs_bytes.simps [simp del]

definition scriptnum_serialize :: "int \<Rightarrow> bytes" where
  "scriptnum_serialize v =
     (if v = 0 then []
      else let neg = v < 0;
               absvalue = (if neg then NOT (word_of_int v) + 1 else word_of_int v :: u64);
               result = abs_bytes absvalue
           in if last result AND 0x80 \<noteq> 0 then result @ [if neg then 0x80 else 0]
              else if neg then butlast result @ [last result OR 0x80]
              else result)"

definition set_vch :: "bytes \<Rightarrow> int" where
  "set_vch vch =
     (if vch = [] then 0
      else let result = foldl (\<lambda>r i. r OR push_bit (8 * i) (ucast (vch ! i))) (0 :: u64) [0..<length vch]
           in if last vch AND 0x80 \<noteq> 0
              then - sint (result AND NOT (push_bit (8 * (length vch - 1)) 0x80))
              else sint result)"

definition CScriptNum :: "bytes \<Rightarrow> bool \<Rightarrow> nat \<Rightarrow> scriptnum_error + int" where
  "CScriptNum vch fRequireMinimal nMaxNumSize =
     (if length vch > nMaxNumSize then Inl Scriptnum_overflow
      else if fRequireMinimal \<and> length vch > 0 \<and> last vch AND 0x7f = 0 \<and>
              (length vch \<le> 1 \<or> (vch ! (length vch - 2)) AND 0x80 = 0)
      then Inl Non_minimal
      else Inr (set_vch vch))"

definition getint :: "int \<Rightarrow> int" where
  "getint m_value = (if m_value > 2 ^ 31 - 1 then 2 ^ 31 - 1
                     else if m_value < - (2 ^ 31) then - (2 ^ 31) else m_value)"

subsection \<open>Building scripts\<close>

definition push_data :: "bytes \<Rightarrow> bytes" where
  "push_data b =
     (if length b < unat OP_PUSHDATA1 then [word_of_nat (length b)]
      else if length b \<le> 0xff then [OP_PUSHDATA1, word_of_nat (length b)]
      else if length b \<le> 0xffff then OP_PUSHDATA2 # le_digits 2 (length b)
      else OP_PUSHDATA4 # le_digits 4 (length b)) @ b"

definition push_int64 :: "int \<Rightarrow> bytes" where
  "push_int64 n =
     (if n = - 1 \<or> (n \<ge> 1 \<and> n \<le> 16) then [word_of_int (n + (uint OP_1 - 1))]
      else if n = 0 then [OP_0]
      else push_data (scriptnum_serialize n))"

definition DecodeOP_N :: "opcodetype \<Rightarrow> nat option" where
  "DecodeOP_N opcode =
     (if opcode = OP_0 then Some 0
      else if opcode \<ge> OP_1 \<and> opcode \<le> OP_16 then Some (unat opcode - (unat OP_1 - 1))
      else None)"

definition EncodeOP_N :: "nat \<Rightarrow> opcodetype option" where
  "EncodeOP_N n = (if n \<le> 16 then if n = 0 then Some OP_0 else Some (OP_1 + word_of_nat n - 1) else None)"

definition SetMultisig :: "nat \<Rightarrow> bytes list \<Rightarrow> CScript option" where
  "SetMultisig nRequired keys =
     (case (EncodeOP_N nRequired, EncodeOP_N (length keys)) of
        (Some m, Some n) \<Rightarrow> Some (m # concat (map push_data keys) @ [n, OP_CHECKMULTISIG])
      | _ \<Rightarrow> None)"

subsection \<open>Decoding instructions\<close>

text \<open>The size of the immediate operand and the position behind it.\<close>

definition read_push_size :: "opcodetype \<Rightarrow> bytes \<Rightarrow> (nat \<times> bytes) option" where
  "read_push_size opcode pc =
     (if opcode < OP_PUSHDATA1 then Some (unat opcode, pc)
      else if opcode = OP_PUSHDATA1 then if length pc < 1 then None else Some (unat (pc ! 0), drop 1 pc)
      else if opcode = OP_PUSHDATA2 then if length pc < 2 then None else Some (le_value (take 2 pc), drop 2 pc)
      else if length pc < 4 then None else Some (le_value (take 4 pc), drop 4 pc))"

text \<open>\<^term>\<open>None\<close> is the result \<^verbatim>\<open>false\<close>; otherwise the opcode, the pushed data and the new position.\<close>

definition GetScriptOp :: "bytes \<Rightarrow> (opcodetype \<times> bytes \<times> bytes) option" where
  "GetScriptOp pc =
     (case pc of [] \<Rightarrow> None
      | opcode # pc \<Rightarrow>
          if opcode \<le> OP_PUSHDATA4
          then case read_push_size opcode pc of
                 None \<Rightarrow> None
               | Some (nSize, pc) \<Rightarrow> if length pc < nSize then None
                                     else Some (opcode, take nSize pc, drop nSize pc)
          else Some (opcode, [], pc))"

lemma read_push_size_le: "read_push_size opcode pc = Some (n, pc') \<Longrightarrow> length pc' \<le> length pc"
  by (auto simp: read_push_size_def split: if_splits)

lemma GetScriptOp_less: "GetScriptOp pc = Some (opcode, vch, pc') \<Longrightarrow> length pc' < length pc"
  by (cases pc) (auto simp: GetScriptOp_def dest!: read_push_size_le split: if_splits option.splits)

subsection \<open>Walks over a script\<close>

definition sigop_step :: "bool \<Rightarrow> opcodetype \<Rightarrow> nat \<Rightarrow> opcodetype \<Rightarrow> nat" where
  "sigop_step fAccurate lastOpcode n opcode =
     (if opcode = OP_CHECKSIG \<or> opcode = OP_CHECKSIGVERIFY then n + 1
      else if opcode = OP_CHECKMULTISIG \<or> opcode = OP_CHECKMULTISIGVERIFY
      then if fAccurate \<and> lastOpcode \<ge> OP_1 \<and> lastOpcode \<le> OP_16 then n + the (DecodeOP_N lastOpcode)
           else n + MAX_PUBKEYS_PER_MULTISIG
      else n)"

function sigop_loop :: "bool \<Rightarrow> opcodetype \<Rightarrow> nat \<Rightarrow> bytes \<Rightarrow> nat" where
  "sigop_loop fAccurate lastOpcode n pc =
     (case GetScriptOp pc of None \<Rightarrow> n
      | Some (opcode, vch, pc') \<Rightarrow> sigop_loop fAccurate opcode (sigop_step fAccurate lastOpcode n opcode) pc')"
  by pat_completeness auto
termination by (relation "measure (\<lambda>(a, l, n, pc). length pc)") (auto dest: GetScriptOp_less)

declare sigop_loop.simps [simp del]

definition GetSigOpCount :: "CScript \<Rightarrow> bool \<Rightarrow> nat" where
  "GetSigOpCount script fAccurate = sigop_loop fAccurate OP_INVALIDOPCODE 0 script"

definition IsPayToScriptHash :: "CScript \<Rightarrow> bool" where
  "IsPayToScriptHash s \<longleftrightarrow> length s = 23 \<and> s ! 0 = OP_HASH160 \<and> s ! 1 = 0x14 \<and> s ! 22 = OP_EQUAL"

definition IsPayToWitnessScriptHash :: "CScript \<Rightarrow> bool" where
  "IsPayToWitnessScriptHash s \<longleftrightarrow> length s = 34 \<and> s ! 0 = OP_0 \<and> s ! 1 = 0x20"

definition IsWitnessProgram :: "CScript \<Rightarrow> (nat \<times> bytes) option" where
  "IsWitnessProgram s =
     (if length s < 4 \<or> length s > 42 then None
      else if s ! 0 \<noteq> OP_0 \<and> (s ! 0 < OP_1 \<or> s ! 0 > OP_16) then None
      else if unat (s ! 1) + 2 = length s then Some (the (DecodeOP_N (s ! 0)), drop 2 s)
      else None)"

text \<open>The last item pushed by a push-only script, \<^term>\<open>None\<close> for an early \<^verbatim>\<open>return 0\<close>.\<close>

function last_push :: "bytes \<Rightarrow> bytes \<Rightarrow> bytes option" where
  "last_push vData pc =
     (if pc = [] then Some vData
      else case GetScriptOp pc of None \<Rightarrow> None
           | Some (opcode, vData, pc') \<Rightarrow> if opcode > OP_16 then None else last_push vData pc')"
  by pat_completeness auto
termination by (relation "measure (\<lambda>(v, pc). length pc)") (auto dest: GetScriptOp_less)

declare last_push.simps [simp del]

definition GetSigOpCount_P2SH :: "CScript \<Rightarrow> CScript \<Rightarrow> nat" where
  "GetSigOpCount_P2SH this scriptSig =
     (if \<not> IsPayToScriptHash this then GetSigOpCount this True
      else case last_push [] scriptSig of None \<Rightarrow> 0 | Some subscript \<Rightarrow> GetSigOpCount subscript True)"

function IsPushOnly :: "bytes \<Rightarrow> bool" where
  "IsPushOnly pc =
     (if pc = [] then True
      else case GetScriptOp pc of None \<Rightarrow> False
           | Some (opcode, vch, pc') \<Rightarrow> if opcode > OP_16 then False else IsPushOnly pc')"
  by pat_completeness auto
termination by (relation "measure length") (auto dest: GetScriptOp_less)

declare IsPushOnly.simps [simp del]

function HasValidOps :: "bytes \<Rightarrow> bool" where
  "HasValidOps pc =
     (if pc = [] then True
      else case GetScriptOp pc of None \<Rightarrow> False
           | Some (opcode, item, pc') \<Rightarrow>
               if opcode > MAX_OPCODE \<or> length item > MAX_SCRIPT_ELEMENT_SIZE then False else HasValidOps pc')"
  by pat_completeness auto
termination by (relation "measure length") (auto dest: GetScriptOp_less)

declare HasValidOps.simps [simp del]

definition IsUnspendable :: "CScript \<Rightarrow> bool" where
  "IsUnspendable s \<longleftrightarrow> (length s > 0 \<and> s ! 0 = OP_RETURN) \<or> length s > MAX_SCRIPT_SIZE"

subsection \<open>Script numbers\<close>

lemma unat_low8: "unat (ucast (a AND 0xff :: u64) :: u8) = unat a mod 256"
proof -
  have "a AND 0xff = take_bit 8 a" by (simp add: take_bit_eq_mask mask_eq_exp_minus_1)
  moreover have "unat (take_bit 8 a) = unat a mod 2 ^ 8" unfolding unsigned_take_bit_eq by (simp add: take_bit_eq_mod)
  ultimately have "unat (a AND 0xff) = unat a mod 2 ^ 8" by (simp only:)
  then show ?thesis by (simp add: unat_ucast_mod)
qed

lemma le_value_abs_bytes: "le_value (abs_bytes a) = unat a"
proof (induction a rule: abs_bytes.induct)
  case (1 a)
  then show ?case by (subst abs_bytes.simps) (simp add: unat_low8 unat_drop_bit unat_eq_0)
qed

lemma abs_bytes_eq_Nil: "abs_bytes a = [] \<longleftrightarrow> a = 0"
  by (subst abs_bytes.simps) simp

lemma abs_bytes_le_value:
  "xs \<noteq> [] \<Longrightarrow> last xs \<noteq> 0 \<Longrightarrow> length xs \<le> 8 \<Longrightarrow> abs_bytes (word_of_nat (le_value xs)) = xs"
proof (induction xs)
  case Nil
  then show ?case by simp
next
  case (Cons x xs)
  define w where "w = (word_of_nat (le_value (x # xs)) :: u64)"
  have "le_value (x # xs) < 2 ^ (8 * length (x # xs))" using le_value_bound [of "x # xs"] by simp
  also have "\<dots> \<le> 2 ^ 64" using Cons.prems by (intro power_increasing) simp_all
  finally have w: "unat w = le_value (x # xs)" unfolding w_def by (intro unat_word_of_nat) simp
  have "le_value (x # xs) \<noteq> 0"
    unfolding le_value_eq_0_iff using Cons.prems by (metis last_in_set)
  then have nz: "w \<noteq> 0" using w by (metis unsigned_0)
  have "ucast (w AND 0xff) = x"
    using w unat_u8_lt [of x] by (simp add: word_unat_eq_iff unat_low8)
  moreover have "drop_bit 8 w = word_of_nat (le_value xs)"
  proof -
    have "drop_bit 8 w = word_of_nat (unat (drop_bit 8 w))" by simp
    also have "unat (drop_bit 8 w) = le_value xs" using w unat_u8_lt [of x] by (simp add: unat_drop_bit)
    finally show ?thesis .
  qed
  moreover have "abs_bytes (word_of_nat (le_value xs)) = xs"
  proof (cases xs)
    case Nil
    then show ?thesis by (simp add: abs_bytes_eq_Nil)
  next
    case c: (Cons y ys)
    then show ?thesis using Cons.IH Cons.prems by simp
  qed
  ultimately show ?case using nz unfolding w_def [symmetric] by (subst abs_bytes.simps) simp
qed

lemma last_abs_bytes: "a \<noteq> 0 \<Longrightarrow> last (abs_bytes a) \<noteq> 0"
proof (induction a rule: abs_bytes.induct)
  case (1 a)
  show ?case
  proof (cases "drop_bit 8 a = 0")
    case True
    then have "unat a div 256 = 0" by (simp add: unat_drop_bit [of 8, symmetric, simplified])
    then have "unat (ucast (a AND 0xff) :: u8) = unat a" by (simp add: unat_low8 div_eq_0_iff)
    moreover have "unat a \<noteq> 0" using "1.prems" by (simp add: unat_eq_0)
    ultimately have "(ucast (a AND 0xff) :: u8) \<noteq> 0" by (metis unsigned_0)
    moreover have "abs_bytes a = [ucast (a AND 0xff)]"
      using True "1.prems" by (simp add: abs_bytes.simps [of a] abs_bytes_eq_Nil)
    ultimately show ?thesis by simp
  next
    case False
    then show ?thesis using "1.IH" "1.prems" by (simp add: abs_bytes.simps [of a] abs_bytes_eq_Nil)
  qed
qed

lemma or_disjoint_shift: "unat (r :: u64) < 2 ^ k \<Longrightarrow> r OR push_bit k x = r + push_bit k x"
  by (rule disjunctive_add_eq_or [symmetric], rule bit_eqI)
    (auto simp: bit_simps dest: not_bit_high)

text \<open>Magnitude of a byte string in sign-and-magnitude form.\<close>

definition magnitude :: "bytes \<Rightarrow> nat" where
  "magnitude vch = le_value (butlast vch) + 2 ^ (8 * (length vch - 1)) * (unat (last vch) mod 128)"

lemma vch_fold:
  fixes vch :: bytes
  assumes "length vch \<le> 8"
  shows "n \<le> length vch \<Longrightarrow>
    unat (foldl (\<lambda>r i. r OR push_bit (8 * i) (ucast (vch ! i))) (0 :: u64) [0..<n]) = le_value (take n vch)"
proof (induction n)
  case 0
  show ?case by simp
next
  case (Suc n)
  let ?r = "foldl (\<lambda>r i. r OR push_bit (8 * i) (ucast (vch ! i))) (0 :: u64) [0..<n]"
  have IH: "unat ?r = le_value (take n vch)" using Suc by simp
  have lt: "le_value (take n vch) < 2 ^ (8 * n)" using le_value_bound [of "take n vch"] Suc.prems by simp
  have n8: "8 * n + 8 \<le> 64" using Suc.prems assms by simp
  have small: "unat (vch ! n) * 2 ^ (8 * n) + 2 ^ (8 * n) \<le> 2 ^ 64"
  proof -
    have "unat (vch ! n) + 1 \<le> 2 ^ 8" using unat_u8_lt [of "vch ! n"] by simp
    then have "(unat (vch ! n) + 1) * 2 ^ (8 * n) \<le> 2 ^ 8 * 2 ^ (8 * n)" by (rule mult_le_mono1)
    also have "\<dots> = 2 ^ (8 + 8 * n)" by (rule power_add [symmetric])
    also have "\<dots> \<le> 2 ^ 64" using n8 by (intro power_increasing) simp_all
    finally show ?thesis by (simp only: distrib_right mult_1)
  qed
  have "unat (vch ! n) * 2 ^ (8 * n) < 2 ^ 64" using small zero_less_power [of "2::nat" "8 * n"] by linarith
  then have pb: "unat (push_bit (8 * n) (ucast (vch ! n) :: u64)) = unat (vch ! n) * 2 ^ (8 * n)"
    by (simp add: unat_push_bit unat_ucast_up)
  have "unat (?r OR push_bit (8 * n) (ucast (vch ! n))) = unat ?r + unat (vch ! n) * 2 ^ (8 * n)"
    using lt small IH by (simp add: or_disjoint_shift unat_plus_mod pb)
  moreover have "le_value (take (Suc n) vch) = le_value (take n vch) + 2 ^ (8 * n) * unat (vch ! n)"
    using Suc.prems by (simp add: take_Suc_conv_app_nth le_value_append)
  ultimately show ?case using IH by simp
qed

lemma high_flag: "(b :: u8) AND 0x80 \<noteq> 0 \<longleftrightarrow> 128 \<le> unat b"
proof -
  have "b AND 0x80 \<noteq> 0 \<longleftrightarrow> bit b 7" by (simp add: flag_bit)
  also have "\<dots> \<longleftrightarrow> odd (unat b div 2 ^ 7)" by (metis bit_iff_odd bit_unsigned_iff bit_imp_le_length possible_bit_nat)
  also have "\<dots> \<longleftrightarrow> 128 \<le> unat b"
  proof -
    have "unat b div 2 ^ 7 < 2" using unat_u8_lt [of b] by (simp add: less_mult_imp_div_less)
    then have "unat b div 2 ^ 7 = 0 \<or> unat b div 2 ^ 7 = 1" by linarith
    then show ?thesis by (auto simp: div_eq_0_iff)
  qed
  finally show ?thesis .
qed

lemma le_value_last:
  fixes vch :: bytes
  assumes "vch \<noteq> []"
  shows "le_value vch = le_value (butlast vch) + 2 ^ (8 * (length vch - 1)) * unat (last vch)"
  using le_value_append [of "butlast vch" "[last vch]"] assms by simp

lemma magnitude_lt: "magnitude vch < 2 ^ (8 * (length vch - 1) + 7)"
proof -
  let ?k = "8 * (length vch - 1)"
  have "le_value (butlast vch) < 2 ^ ?k" using le_value_bound [of "butlast vch"] by simp
  moreover have "2 ^ ?k * (unat (last vch) mod 128) \<le> 2 ^ ?k * 127" by (intro mult_le_mono2) simp
  ultimately have "magnitude vch < 2 ^ ?k * 128" unfolding magnitude_def by linarith
  also have "\<dots> = 2 ^ (?k + 7)" by (simp add: power_add)
  finally show ?thesis .
qed

lemma magnitude_lt_63:
  assumes "vch \<noteq> []" and "length vch \<le> 8"
  shows "magnitude vch < 2 ^ 63"
proof -
  have "8 * (length vch - 1) + 7 \<le> 63" using assms by (cases vch) simp_all
  then have "(2::nat) ^ (8 * (length vch - 1) + 7) \<le> 2 ^ 63" by (intro power_increasing) simp_all
  then show ?thesis using magnitude_lt [of vch] by linarith
qed

lemma sint_of_small: "unat (w :: u64) < 2 ^ 63 \<Longrightarrow> sint w = int (unat w)"
proof -
  assume "unat w < 2 ^ 63"
  then have "uint w < 2 ^ 63" by (metis of_nat_less_iff of_nat_numeral of_nat_power of_nat_unat)
  moreover have "- (2 ^ 63) \<le> uint w" by (rule order_trans [OF _ uint_ge_0]) simp
  ultimately have "sint w = uint w" by (simp add: sint_uint signed_take_bit_int_eq_self)
  then show ?thesis by simp
qed

lemma clear_flag: "unat (m :: u64) < 2 ^ k \<Longrightarrow> (m OR push_bit k 1) AND NOT (push_bit k 1) = m"
  by (intro bit_word_eqI) (auto simp: bit_simps dest: not_bit_high)

lemma set_vch_value:
  assumes ne: "vch \<noteq> []" and len: "length vch \<le> 8"
  shows "set_vch vch = (if 128 \<le> unat (last vch) then - int (magnitude vch) else int (magnitude vch))"
proof -
  let ?k = "8 * (length vch - 1)"
  define r where "r = foldl (\<lambda>r i. r OR push_bit (8 * i) (ucast (vch ! i))) (0 :: u64) [0..<length vch]"
  have r: "unat r = le_value vch" unfolding r_def using vch_fold [OF len order_refl] by simp
  show ?thesis
  proof (cases "128 \<le> unat (last vch)")
    case False
    then have "unat r = magnitude vch" unfolding r magnitude_def le_value_last [OF ne] by simp
    then have "sint r = int (magnitude vch)" using sint_of_small [of r] magnitude_lt_63 [OF ne len] by simp
    then show ?thesis using False ne high_flag [of "last vch"] by (simp add: set_vch_def r_def [symmetric])
  next
    case True
    let ?P = "push_bit (?k + 7) 1 :: u64" and ?M = "word_of_nat (magnitude vch) :: u64"
    have "unat (last vch) = 128 + unat (last vch) mod 128" using True unat_u8_lt [of "last vch"]
      by (simp add: le_mod_geq)
    then have "2 ^ ?k * unat (last vch) = 2 ^ ?k * 128 + 2 ^ ?k * (unat (last vch) mod 128)"
      by (metis distrib_left)
    then have rv: "unat r = magnitude vch + 2 ^ (?k + 7)"
      unfolding r magnitude_def le_value_last [OF ne] by (simp add: power_add)
    have M: "unat ?M = magnitude vch" using magnitude_lt_63 [OF ne len] by (intro unat_word_of_nat) simp
    have k: "?k + 7 \<le> 63" using ne len by (cases vch) simp_all
    have "(2::nat) ^ (?k + 7) < 2 ^ 64" using k by (intro power_strict_increasing) simp_all
    then have P: "unat ?P = 2 ^ (?k + 7)" unfolding unat_push_bit by simp
    have "unat (?M + ?P) = unat r"
      using M P rv unat_lt_pow [of r] by (simp add: unat_plus_mod)
    then have "r = ?M OR ?P" using or_disjoint_shift [of ?M "?k + 7" 1] M magnitude_lt [of vch]
      by (simp add: word_unat_eq_iff)
    moreover have "(?M OR ?P) AND NOT ?P = ?M"
      using M magnitude_lt [of vch] by (intro clear_flag) simp
    ultimately have "r AND NOT ?P = ?M" by simp
    moreover have "push_bit ?k 0x80 = ?P"
      by (simp add: push_bit_eq_mult power_add)
    ultimately have "sint (r AND NOT (push_bit ?k 0x80)) = int (magnitude vch)"
      using sint_of_small [of ?M] M magnitude_lt_63 [OF ne len] by simp
    then show ?thesis using True ne high_flag [of "last vch"]
      unfolding set_vch_def r_def [symmetric] Let_def by simp
  qed
qed

definition sign_bytes :: "bool \<Rightarrow> bytes \<Rightarrow> bytes" where
  "sign_bytes neg result =
     (if last result AND 0x80 \<noteq> 0 then result @ [if neg then 0x80 else 0]
      else if neg then butlast result @ [last result OR 0x80]
      else result)"

lemma unat_or_flag: "unat (b :: u8) < 128 \<Longrightarrow> unat (b OR 0x80) = unat b + 128"
proof -
  assume b: "unat b < 128"
  have "b AND 0x80 = 0" using b high_flag [of b] by auto
  then have "b OR 0x80 = b + 0x80" by (rule disjunctive_add_eq_or [symmetric])
  then show ?thesis using b by (simp add: unat_plus_mod)
qed

lemma sign_bytes_facts:
  assumes "result \<noteq> []"
  shows "sign_bytes neg result \<noteq> []"
    and "magnitude (sign_bytes neg result) = le_value result"
    and "128 \<le> unat (last (sign_bytes neg result)) \<longleftrightarrow> neg"
    and "length (sign_bytes neg result) = length result + (if 128 \<le> unat (last result) then 1 else 0)"
proof -
  have lv: "le_value result = le_value (butlast result) + 2 ^ (8 * (length result - 1)) * unat (last result)"
    by (rule le_value_last [OF assms])
  show "sign_bytes neg result \<noteq> []" using assms by (simp add: sign_bytes_def)
  show "magnitude (sign_bytes neg result) = le_value result"
    using lv assms by (auto simp: sign_bytes_def magnitude_def high_flag unat_or_flag mod_add_self2)
  show "128 \<le> unat (last (sign_bytes neg result)) \<longleftrightarrow> neg"
    by (auto simp: sign_bytes_def high_flag unat_or_flag)
  show "length (sign_bytes neg result) = length result + (if 128 \<le> unat (last result) then 1 else 0)"
    using assms by (auto simp: sign_bytes_def high_flag)
qed

lemma serialize_eq:
  assumes "v \<noteq> 0" "\<bar>v\<bar> < 2 ^ 63"
  shows "scriptnum_serialize v = sign_bytes (v < 0) (abs_bytes (word_of_nat (nat \<bar>v\<bar>)))"
proof -
  have eq: "(if v < 0 then NOT (word_of_int v) + 1 else word_of_int v :: u64) = word_of_nat (nat \<bar>v\<bar>)"
  proof (cases "v < 0")
    case True
    then have "word_of_nat (nat \<bar>v\<bar>) = (- word_of_int v :: u64)" by (simp add: of_nat_nat)
    then show ?thesis using True by (simp add: minus_eq_not_plus_1)
  qed (simp add: of_nat_nat)
  show ?thesis unfolding scriptnum_serialize_def sign_bytes_def Let_def by (simp only: eq assms(1) if_False)
qed

lemma serialize_length:
  assumes ne: "result \<noteq> []" and last: "last result \<noteq> 0" and lt: "le_value result < 2 ^ 63"
  shows "length (sign_bytes neg result) \<le> 8"
proof -
  let ?k = "8 * (length result - 1)"
  have ge: "2 ^ ?k * unat (last result) \<le> le_value result" using le_value_last [OF ne] by simp
  have "1 \<le> unat (last result)" using last by (simp add: unat_gt_0 Suc_le_eq)
  then have "2 ^ ?k * 1 \<le> 2 ^ ?k * unat (last result)" by (intro mult_le_mono2)
  then have "(2::nat) ^ ?k < 2 ^ 63" using ge lt by linarith
  then have k: "?k < 63" by (rule power_less_imp_less_exp [rotated]) simp
  have "?k + 7 < 63" if "128 \<le> unat (last result)"
  proof -
    have "2 ^ ?k * 128 \<le> 2 ^ ?k * unat (last result)" using that by (intro mult_le_mono2)
    moreover have "2 ^ (?k + 7) = 2 ^ ?k * (128::nat)" by (simp add: power_add)
    ultimately have "(2::nat) ^ (?k + 7) < 2 ^ 63" using ge lt by linarith
    then show ?thesis by (rule power_less_imp_less_exp [rotated]) simp
  qed
  then show ?thesis using k sign_bytes_facts(4) [OF ne] by (auto split: if_splits)
qed

lemma serialize_facts:
  assumes "v \<noteq> 0" "\<bar>v\<bar> < 2 ^ 63"
  shows "scriptnum_serialize v \<noteq> []" "length (scriptnum_serialize v) \<le> 8"
    "magnitude (scriptnum_serialize v) = nat \<bar>v\<bar>" "128 \<le> unat (last (scriptnum_serialize v)) \<longleftrightarrow> v < 0"
proof -
  define a where "a = (word_of_nat (nat \<bar>v\<bar>) :: u64)"
  have "nat \<bar>v\<bar> < 2 ^ 63" using assms(2) by (simp add: nat_less_iff)
  then have a: "unat a = nat \<bar>v\<bar>" unfolding a_def by (intro unat_word_of_nat) simp
  then have nz: "a \<noteq> 0" using assms(1) by auto
  note eq = serialize_eq [OF assms, folded a_def]
  have ne: "abs_bytes a \<noteq> []" using nz by (simp add: abs_bytes_eq_Nil)
  have lt: "le_value (abs_bytes a) < 2 ^ 63" using a \<open>nat \<bar>v\<bar> < 2 ^ 63\<close> by (simp add: le_value_abs_bytes)
  show "scriptnum_serialize v \<noteq> []" "128 \<le> unat (last (scriptnum_serialize v)) \<longleftrightarrow> v < 0"
    "magnitude (scriptnum_serialize v) = nat \<bar>v\<bar>"
    using sign_bytes_facts [OF ne, of "v < 0"] a by (simp_all add: eq le_value_abs_bytes)
  show "length (scriptnum_serialize v) \<le> 8" unfolding eq by (rule serialize_length [OF ne last_abs_bytes [OF nz] lt])
qed

lemma set_vch_serialize: "\<bar>v\<bar> < 2 ^ 63 \<Longrightarrow> set_vch (scriptnum_serialize v) = v"
proof (cases "v = 0")
  case True
  then show ?thesis by (simp add: scriptnum_serialize_def set_vch_def)
next
  case False
  assume "\<bar>v\<bar> < 2 ^ 63"
  note f = serialize_facts [OF False this]
  show ?thesis using set_vch_value [OF f(1,2)] f(3,4) by auto
qed

definition minimal_vch :: "bytes \<Rightarrow> bool" where
  "minimal_vch vch \<longleftrightarrow>
     \<not> (length vch > 0 \<and> last vch AND 0x7f = 0 \<and> (length vch \<le> 1 \<or> (vch ! (length vch - 2)) AND 0x80 = 0))"

lemma low7_eq_0: "(b :: u8) AND 0x7f = 0 \<longleftrightarrow> unat b mod 128 = 0"
proof -
  have "b AND 0x7f = take_bit 7 b" by (simp add: take_bit_eq_mask mask_eq_exp_minus_1)
  moreover have "unat (take_bit 7 b) = unat b mod 2 ^ 7" unfolding unsigned_take_bit_eq by (simp add: take_bit_eq_mod)
  ultimately have "unat (b AND 0x7f) = unat b mod 2 ^ 7" by (simp only:)
  then show ?thesis unfolding unat_eq_0 [symmetric] by simp
qed

lemma last_serialize_cases:
  assumes "unat (b :: u8) mod 128 = unat c" and "unat c < 128"
  shows "b = (if 128 \<le> unat b then c OR 0x80 else c)"
proof (cases "128 \<le> unat b")
  case True
  then have "unat b = unat c + 128" using assms unat_u8_lt [of b] by (simp add: le_mod_geq)
  then show ?thesis using True unat_or_flag [OF assms(2)] by (simp add: word_unat_eq_iff)
next
  case False
  then show ?thesis using assms by (simp add: word_unat_eq_iff)
qed

lemma serialize_set_vch:
  assumes len: "length vch \<le> 8" and min: "minimal_vch vch"
  shows "scriptnum_serialize (set_vch vch) = vch"
proof (cases "vch = []")
  case True
  then show ?thesis by (simp add: scriptnum_serialize_def set_vch_def)
next
  case ne: False
  let ?neg = "128 \<le> unat (last vch)"
  define result where "result =
    (if unat (last vch) mod 128 = 0 then butlast vch else butlast vch @ [word_of_nat (unat (last vch) mod 128)])"
  have c: "unat (word_of_nat (unat (last vch) mod 128) :: u8) = unat (last vch) mod 128" by (intro unat_word_of_nat) simp
  have second: "butlast vch \<noteq> [] \<and> last (butlast vch) AND 0x80 \<noteq> 0" if "unat (last vch) mod 128 = 0"
  proof -
    have l: "length vch > 1" "(vch ! (length vch - 2)) AND 0x80 \<noteq> 0"
      using min ne that by (auto simp: minimal_vch_def low7_eq_0)
    then have "butlast vch \<noteq> []" by (cases vch) auto
    moreover then have "last (butlast vch) = vch ! (length vch - 2)"
      using l(1) by (simp add: last_conv_nth nth_butlast numeral_2_eq_2)
    ultimately show ?thesis using l by simp
  qed
  have rne: "result \<noteq> []" and rlast: "last result \<noteq> 0" and rlen: "length result \<le> 8"
    using second c len ne by (auto simp: result_def)
  have mag: "le_value result = magnitude vch"
    using c by (simp add: result_def magnitude_def le_value_append)
  have sgn: "sign_bytes ?neg result = vch"
  proof (cases "unat (last vch) mod 128 = 0")
    case True
    then have "last vch = (if ?neg then 0x80 else 0)" using unat_u8_lt [of "last vch"]
      by (auto simp: word_unat_eq_iff mod_eq_0_iff_dvd elim!: dvdE)
    then show ?thesis using True second ne by (simp add: sign_bytes_def result_def)
  next
    case False
    have "last vch = (if ?neg then word_of_nat (unat (last vch) mod 128) OR 0x80 else word_of_nat (unat (last vch) mod 128))"
      by (rule last_serialize_cases) (simp_all add: c)
    then show ?thesis using False ne c high_flag
      by (simp add: sign_bytes_def result_def) (metis append_butlast_last_id mod_less_divisor not_less zero_less_numeral)
  qed
  have mnz: "magnitude vch \<noteq> 0" using mag rne rlast le_value_eq_0_iff [of result] last_in_set by metis
  have v: "set_vch vch \<noteq> 0" "\<bar>set_vch vch\<bar> < 2 ^ 63" "set_vch vch < 0 \<longleftrightarrow> ?neg" "nat \<bar>set_vch vch\<bar> = le_value result"
    using set_vch_value [OF ne len] mnz magnitude_lt_63 [OF ne len] mag by auto
  show ?thesis unfolding serialize_eq [OF v(1,2)] v(3,4) abs_bytes_le_value [OF rne rlast rlen] by (rule sgn)
qed

lemma CScriptNum_minimal: "n \<le> 8 \<Longrightarrow> CScriptNum vch True n = Inr v \<Longrightarrow> scriptnum_serialize v = vch"
proof -
  assume n: "n \<le> 8" and c: "CScriptNum vch True n = Inr v"
  then have "minimal_vch vch" "length vch \<le> 8" "v = set_vch vch"
    by (auto simp: CScriptNum_def minimal_vch_def split: if_splits)
  then show ?thesis by (simp add: serialize_set_vch)
qed

lemma minimal_serialize: "\<bar>v\<bar> < 2 ^ 63 \<Longrightarrow> minimal_vch (scriptnum_serialize v)"
proof (cases "v = 0")
  case True
  then show ?thesis by (simp add: scriptnum_serialize_def minimal_vch_def)
next
  case False
  assume v: "\<bar>v\<bar> < 2 ^ 63"
  define a where "a = (word_of_nat (nat \<bar>v\<bar>) :: u64)"
  have "nat \<bar>v\<bar> < 2 ^ 64" using v by (simp add: nat_less_iff)
  then have "unat a = nat \<bar>v\<bar>" unfolding a_def by (intro unat_word_of_nat) simp
  then have nz: "a \<noteq> 0" using False by auto
  then have ne: "abs_bytes a \<noteq> []" and nzl: "last (abs_bytes a) \<noteq> 0" by (simp_all add: abs_bytes_eq_Nil last_abs_bytes)
  then have pos: "0 < unat (last (abs_bytes a))" by (simp add: unat_gt_0)
  have "minimal_vch (sign_bytes neg (abs_bytes a))" for neg
  proof (cases "128 \<le> unat (last (abs_bytes a))")
    case True
    have "(abs_bytes a @ [x]) ! (length (abs_bytes a) - 1) = last (abs_bytes a)" for x
      using ne by (simp add: nth_append last_conv_nth)
    then show ?thesis using True ne by (simp add: sign_bytes_def minimal_vch_def high_flag)
  next
    case False
    then have "unat (last (sign_bytes neg (abs_bytes a))) mod 128 \<noteq> 0"
      using pos by (auto simp: sign_bytes_def high_flag unat_or_flag)
    then show ?thesis by (simp add: minimal_vch_def low7_eq_0)
  qed
  then show ?thesis unfolding serialize_eq [OF False v] a_def .
qed

lemma CScriptNum_serialize:
  "\<bar>v\<bar> < 2 ^ 63 \<Longrightarrow> length (scriptnum_serialize v) \<le> n \<Longrightarrow> CScriptNum (scriptnum_serialize v) fMin n = Inr v"
  using minimal_serialize [of v] by (auto simp: CScriptNum_def minimal_vch_def set_vch_serialize)

text \<open>Operands of at most four bytes lie strictly within \<open>\<plusminus> 2 ^ 31\<close>, so no arithmetic operator can overflow an \<^verbatim>\<open>int64_t\<close>.\<close>

lemma CScriptNum_range: "n \<le> 8 \<Longrightarrow> 0 < n \<Longrightarrow> CScriptNum vch fMin n = Inr v \<Longrightarrow> \<bar>v\<bar> < 2 ^ (8 * n - 1)"
proof -
  assume n: "n \<le> 8" "0 < n" and c: "CScriptNum vch fMin n = Inr v"
  then have v: "v = set_vch vch" and len: "length vch \<le> n" by (auto simp: CScriptNum_def split: if_splits)
  show ?thesis
  proof (cases "vch = []")
    case True
    then show ?thesis using v by (simp add: set_vch_def)
  next
    case False
    have "8 * (length vch - 1) + 7 \<le> 8 * n - 1" using len n(2) by simp
    then have "(2::nat) ^ (8 * (length vch - 1) + 7) \<le> 2 ^ (8 * n - 1)" by (intro power_increasing) simp_all
    then have "magnitude vch < 2 ^ (8 * n - 1)" using magnitude_lt [of vch] by linarith
    then have "int (magnitude vch) < 2 ^ (8 * n - 1)" by (metis of_nat_less_iff of_nat_numeral of_nat_power)
    then show ?thesis using v set_vch_value [OF False] len n(1) by auto
  qed
qed

subsection \<open>Pushes are decoded back\<close>

lemma GetScriptOp_push_data:
  assumes "length b < 2 ^ 32"
  shows "\<exists>opcode. opcode \<le> OP_PUSHDATA4 \<and> GetScriptOp (push_data b @ rest) = Some (opcode, b, rest)"
proof -
  consider "length b < 76" | "76 \<le> length b" "length b < 256" | "256 \<le> length b" "length b < 65536" | "65536 \<le> length b"
    by linarith
  then show ?thesis
  proof cases
    case 1
    have "unat (word_of_nat (length b) :: u8) = length b" using 1 by (intro unat_word_of_nat) simp
    then show ?thesis using 1
      by (intro exI [of _ "word_of_nat (length b)"])
        (simp add: push_data_def GetScriptOp_def read_push_size_def word_less_nat_alt word_le_nat_alt)
  next
    case 2
    have "unat (word_of_nat (length b) :: u8) = length b" using 2 by (intro unat_word_of_nat) simp
    then show ?thesis using 2
      by (intro exI [of _ OP_PUSHDATA1]) (simp add: push_data_def GetScriptOp_def read_push_size_def)
  next
    case 3
    then show ?thesis
      by (intro exI [of _ OP_PUSHDATA2])
        (simp add: push_data_def GetScriptOp_def read_push_size_def le_value_le_digits)
  next
    case 4
    then show ?thesis using assms
      by (intro exI [of _ OP_PUSHDATA4])
        (simp add: push_data_def GetScriptOp_def read_push_size_def le_value_le_digits)
  qed
qed

lemma push_data_ne [simp]: "push_data b \<noteq> []"
  by (simp add: push_data_def)

lemma push_op_le_16: "(opcode :: u8) \<le> OP_PUSHDATA4 \<Longrightarrow> \<not> opcode > OP_16"
  by (simp add: word_le_nat_alt word_less_nat_alt)

definition pushes_ok :: "bytes list \<Rightarrow> bool" where
  "pushes_ok ds \<longleftrightarrow> list_all (\<lambda>d. length d < 2 ^ 32) ds"

lemma IsPushOnly_pushes: "pushes_ok ds \<Longrightarrow> IsPushOnly (concat (map push_data ds))"
proof (induction ds)
  case Nil
  show ?case by (simp add: IsPushOnly.simps)
next
  case (Cons d ds)
  then obtain opcode where o: "opcode \<le> OP_PUSHDATA4"
    "GetScriptOp (push_data d @ concat (map push_data ds)) = Some (opcode, d, concat (map push_data ds))"
    using GetScriptOp_push_data [of d] by (auto simp: pushes_ok_def)
  then show ?case using Cons push_op_le_16 [OF o(1)] by (subst IsPushOnly.simps) (simp add: pushes_ok_def)
qed

lemma last_push_pushes: "pushes_ok ds \<Longrightarrow> last_push v (concat (map push_data ds)) = Some (last (v # ds))"
proof (induction ds arbitrary: v)
  case Nil
  show ?case by (simp add: last_push.simps)
next
  case (Cons d ds)
  then obtain opcode where o: "opcode \<le> OP_PUSHDATA4"
    "GetScriptOp (push_data d @ concat (map push_data ds)) = Some (opcode, d, concat (map push_data ds))"
    using GetScriptOp_push_data [of d] by (auto simp: pushes_ok_def)
  then show ?case using Cons push_op_le_16 [OF o(1)] by (subst last_push.simps) (simp add: pushes_ok_def)
qed

lemma unat_small_opcode: "0 < n \<Longrightarrow> n \<le> 16 \<Longrightarrow> unat (OP_1 + word_of_nat n - 1 :: opcodetype) = 80 + n"
proof -
  assume n: "0 < n" "n \<le> 16"
  have "unat (word_of_nat n :: opcodetype) = n" using n by (intro unat_word_of_nat) simp
  then have "unat (80 + word_of_nat n :: opcodetype) = 80 + n" using n by (simp add: unat_plus_mod)
  moreover have "OP_1 + word_of_nat n - 1 = (80 + word_of_nat n :: opcodetype)" by simp
  ultimately show ?thesis by (simp only:)
qed

lemma DecodeOP_N_EncodeOP_N: "EncodeOP_N n = Some opcode \<Longrightarrow> DecodeOP_N opcode = Some n"
proof (cases "n = 0")
  case False
  assume "EncodeOP_N n = Some opcode"
  then have "unat opcode = 80 + n" "n \<le> 16" using False unat_small_opcode [of n]
    by (auto simp: EncodeOP_N_def split: if_splits)
  then show ?thesis using False by (auto simp: DecodeOP_N_def word_le_nat_alt)
qed (auto simp: EncodeOP_N_def DecodeOP_N_def)

lemma EncodeOP_N_DecodeOP_N: "DecodeOP_N opcode = Some n \<Longrightarrow> EncodeOP_N n = Some opcode"
proof (cases "n = 0")
  case False
  assume d: "DecodeOP_N opcode = Some n"
  then have n: "unat opcode = 80 + n" "n \<le> 16" using False
    by (auto simp: DecodeOP_N_def word_le_nat_alt split: if_splits)
  then have "OP_1 + word_of_nat n - 1 = opcode" using False unat_small_opcode [of n] by (simp add: word_unat_eq_iff)
  then show ?thesis using n False by (simp add: EncodeOP_N_def)
qed (auto simp: EncodeOP_N_def DecodeOP_N_def word_le_nat_alt split: if_splits)

subsection \<open>Signature operations\<close>

lemma sigop_step_le: "n \<le> m \<Longrightarrow> sigop_step True lastOpcode n opcode \<le> sigop_step False lastOpcode m opcode"
  by (auto simp: sigop_step_def DecodeOP_N_def MAX_PUBKEYS_PER_MULTISIG_def word_le_nat_alt)

lemma sigop_accurate_le:
  "n \<le> m \<Longrightarrow> sigop_loop True lastOpcode n pc \<le> sigop_loop False lastOpcode m pc"
proof (induction "length pc" arbitrary: lastOpcode n m pc rule: less_induct)
  case less
  show ?case
  proof (cases "GetScriptOp pc")
    case None
    then show ?thesis using less.prems by (simp add: sigop_loop.simps [of _ _ _ pc])
  next
    case (Some r)
    obtain opcode vch pc' where r: "r = (opcode, vch, pc')" by (cases r)
    have "length pc' < length pc" using Some r GetScriptOp_less by blast
    then show ?thesis using less.hyps sigop_step_le [OF less.prems] Some r
      by (simp add: sigop_loop.simps [of _ _ _ pc])
  qed
qed

lemma IsPushOnly_no_sigops: "IsPushOnly pc \<Longrightarrow> sigop_loop fAccurate lastOpcode n pc = n"
proof (induction pc arbitrary: lastOpcode rule: IsPushOnly.induct)
  case (1 pc)
  show ?case
  proof (cases "GetScriptOp pc")
    case None
    then show ?thesis by (simp add: sigop_loop.simps)
  next
    case (Some r)
    obtain opcode vch pc' where r: "r = (opcode, vch, pc')" by (cases r)
    have ne: "pc \<noteq> []" using Some by (auto simp: GetScriptOp_def)
    have "\<not> opcode > OP_16" and po: "IsPushOnly pc'"
      using "1.prems" Some r ne by (auto simp: IsPushOnly.simps [of pc] split: if_splits)
    then have "opcode \<noteq> OP_CHECKSIG" "opcode \<noteq> OP_CHECKSIGVERIFY" "opcode \<noteq> OP_CHECKMULTISIG" "opcode \<noteq> OP_CHECKMULTISIGVERIFY"
      by (auto simp: word_less_nat_alt)
    then have "sigop_step fAccurate lastOpcode n opcode = n" by (simp add: sigop_step_def)
    then show ?thesis using "1.IH" [OF ne Some r [symmetric] refl _ po] \<open>\<not> opcode > OP_16\<close> Some r
      by (simp add: sigop_loop.simps [of _ _ _ pc])
  qed
qed

lemma GetScriptOp_nonpush: "opcode > OP_PUSHDATA4 \<Longrightarrow> GetScriptOp (opcode # pc) = Some (opcode, [], pc)"
  by (simp add: GetScriptOp_def not_le [symmetric])

lemma GetScriptOp_OP_0: "GetScriptOp (OP_0 # pc) = Some (OP_0, [], pc)"
  by (simp add: GetScriptOp_def read_push_size_def)

lemma GetScriptOp_small: "EncodeOP_N n = Some opcode \<Longrightarrow> GetScriptOp (opcode # pc) = Some (opcode, [], pc)"
  using unat_small_opcode [of n]
  by (auto simp: EncodeOP_N_def GetScriptOp_OP_0 word_less_nat_alt intro!: GetScriptOp_nonpush split: if_splits)

lemma sigop_step_low: "\<not> opcode > OP_16 \<Longrightarrow> sigop_step fAccurate lastOpcode n opcode = n"
  by (auto simp: sigop_step_def word_less_nat_alt)

lemma sigop_loop_pushes:
  "pushes_ok ds \<Longrightarrow> \<exists>l. sigop_loop fAccurate lastOpcode n (concat (map push_data ds) @ rest) = sigop_loop fAccurate l n rest"
proof (induction ds arbitrary: lastOpcode)
  case Nil
  show ?case by auto
next
  case (Cons d ds)
  let ?r = "concat (map push_data ds) @ rest"
  obtain opcode where o: "opcode \<le> OP_PUSHDATA4" "GetScriptOp (push_data d @ ?r) = Some (opcode, d, ?r)"
    using Cons.prems GetScriptOp_push_data [of d ?r] by (auto simp: pushes_ok_def)
  have "sigop_loop fAccurate lastOpcode n (push_data d @ ?r) = sigop_loop fAccurate opcode n ?r"
    using o(2) sigop_step_low [OF push_op_le_16 [OF o(1)]] by (subst sigop_loop.simps) simp
  then show ?case using Cons by (simp add: pushes_ok_def)
qed

lemma GetSigOpCount_multisig:
  assumes s: "SetMultisig nRequired keys = Some script" and "keys \<noteq> []" "pushes_ok keys"
  shows "GetSigOpCount script True = length keys"
proof -
  obtain m k where mk: "EncodeOP_N nRequired = Some m" "EncodeOP_N (length keys) = Some k"
    and script: "script = m # concat (map push_data keys) @ [k, OP_CHECKMULTISIG]"
    using s by (auto simp: SetMultisig_def split: option.splits)
  have low: "\<not> m > OP_16" "\<not> k > OP_16"
    using mk unat_small_opcode by (auto simp: EncodeOP_N_def word_less_nat_alt split: if_splits)
  have k1: "k \<ge> OP_1" "k \<le> OP_16"
    using mk(2) assms(2) unat_small_opcode [of "length keys"]
    by (auto simp: EncodeOP_N_def word_le_nat_alt Suc_le_eq split: if_splits)
  obtain l where l: "sigop_loop True m 0 (concat (map push_data keys) @ [k, OP_CHECKMULTISIG]) =
      sigop_loop True l 0 [k, OP_CHECKMULTISIG]" using sigop_loop_pushes [OF assms(3)] by blast
  have "sigop_loop True l 0 [k, OP_CHECKMULTISIG] = sigop_loop True k 0 [OP_CHECKMULTISIG]"
    using GetScriptOp_small [OF mk(2)] sigop_step_low [OF low(2)] by (subst sigop_loop.simps) simp
  also have "\<dots> = sigop_loop True OP_CHECKMULTISIG (sigop_step True k 0 OP_CHECKMULTISIG) []"
    by (subst sigop_loop.simps) (simp add: GetScriptOp_nonpush)
  also have "\<dots> = length keys"
    using DecodeOP_N_EncodeOP_N [OF mk(2)] k1 by (subst sigop_loop.simps) (simp add: sigop_step_def GetScriptOp_def)
  finally show ?thesis
    using l GetScriptOp_small [OF mk(1)] sigop_step_low [OF low(1)]
    unfolding GetSigOpCount_def script by (subst sigop_loop.simps) simp
qed

lemma IsWitnessProgram_iff:
  "IsWitnessProgram s = Some (version, program) \<longleftrightarrow>
     (\<exists>opcode. EncodeOP_N version = Some opcode \<and> 2 \<le> length program \<and> length program \<le> 40 \<and> s = opcode # push_data program)"
  (is "?lhs \<longleftrightarrow> ?rhs")
proof
  assume l: ?lhs
  then have len: "4 \<le> length s" "length s \<le> 42" "unat (s ! 1) + 2 = length s" "program = drop 2 s"
    and dec: "DecodeOP_N (s ! 0) = Some version"
    by (auto simp: IsWitnessProgram_def DecodeOP_N_def not_less split: if_splits)
  obtain a t where at: "s = a # t" using len(1) by (cases s) auto
  obtain b r where br: "t = b # r" using len(1) at by (cases t) auto
  have s: "s = a # b # program" using at br len(4) by simp
  have "length program = unat b" using len(3,4) at br by simp
  then have wb: "word_of_nat (length program) = b" by simp
  have plen: "2 \<le> length program" "length program \<le> 40" using len(1,2,4) by simp_all
  have "push_data program = b # program" using wb plen by (simp add: push_data_def)
  then have "s = a # push_data program" by (simp only: s)
  moreover have "EncodeOP_N version = Some a" using EncodeOP_N_DecodeOP_N [OF dec] at by simp
  ultimately show ?rhs using plen by (intro exI [of _ a] conjI)
next
  assume ?rhs
  then obtain opcode where o: "EncodeOP_N version = Some opcode" "2 \<le> length program" "length program \<le> 40"
    "s = opcode # word_of_nat (length program) # program" by (auto simp: push_data_def)
  have "unat (word_of_nat (length program) :: u8) = length program" using o(3) by (intro unat_word_of_nat) simp
  moreover have "opcode = OP_0 \<or> (opcode \<ge> OP_1 \<and> opcode \<le> OP_16)"
    using DecodeOP_N_EncodeOP_N [OF o(1)] by (auto simp: DecodeOP_N_def split: if_splits)
  ultimately show ?lhs using o DecodeOP_N_EncodeOP_N [OF o(1)] by (auto simp: IsWitnessProgram_def not_less)
qed

subsection \<open>Properties\<close>

text \<open>
  C29: a script number that fits its size limit is read back from its serialization, and under the
  minimality flag the serialization is the only encoding that is accepted; a number that is accepted
  lies in the range its size limit allows.
\<close>

theorem script_number_canonical:
  assumes "0 < n" "n \<le> 8"
  shows "(CScriptNum vch True n = Inr v \<longleftrightarrow> \<bar>v\<bar> < 2 ^ 63 \<and> vch = scriptnum_serialize v \<and> length vch \<le> n) \<and>
     (CScriptNum vch fMin n = Inr v \<longrightarrow> \<bar>v\<bar> < 2 ^ (8 * n - 1))"
proof -
  have "\<bar>v\<bar> < 2 ^ 63 \<and> length vch \<le> n" if "CScriptNum vch True n = Inr v"
  proof -
    have "\<bar>v\<bar> < 2 ^ (8 * n - 1)" by (rule CScriptNum_range [OF assms(2,1) that])
    also have "(2 :: int) ^ (8 * n - 1) \<le> 2 ^ 63" using assms by (intro power_increasing) auto
    finally show ?thesis using that by (simp add: CScriptNum_def split: if_splits)
  qed
  then show ?thesis
    using CScriptNum_minimal [OF assms(2), of vch v] CScriptNum_serialize [of v n True] CScriptNum_range [OF assms(2,1), of vch fMin v]
    by auto
qed

theorem script_number_canonical_witness:
  "CScriptNum [0x80, 0x80] True 4 = Inr (- 128) \<longleftrightarrow> [0x80, 0x80] = scriptnum_serialize (- 128)"
  using script_number_canonical [of 4 "[0x80, 0x80]" "- 128" True] by simp

text \<open>
  A script that \<^verbatim>\<open>SetMultisig\<close> builds counts as many signature operations as it has keys when
  counted accurately, and the inaccurate count is never below the accurate one.
\<close>

theorem multisig_sigops:
  assumes "SetMultisig nRequired keys = Some script" "keys \<noteq> []" "pushes_ok keys"
  shows "GetSigOpCount script True = length keys \<and> GetSigOpCount script True \<le> GetSigOpCount script False"
  using GetSigOpCount_multisig [OF assms] sigop_accurate_le [of 0 0 OP_INVALIDOPCODE script] by (simp add: GetSigOpCount_def)

text \<open>
  A script is a witness program exactly when it is a version opcode followed by one direct push of
  2 to 40 bytes, and then the version and the program returned are these.
\<close>

theorem witness_program_shape:
  "IsWitnessProgram s = Some (version, program) \<longleftrightarrow>
     (\<exists>opcode. EncodeOP_N version = Some opcode \<and> 2 \<le> length program \<and> length program \<le> 40 \<and> s = opcode # push_data program)"
  by (rule IsWitnessProgram_iff)

theorem multisig_sigops_witness:
  "GetSigOpCount (the (SetMultisig 1 [[2, 7], [3, 9]])) True = length [[2, 7], [3, 9 :: u8]]"
  using multisig_sigops [of 1 "[[2, 7], [3, 9]]" "the (SetMultisig 1 [[2, 7], [3, 9]])"]
  by (simp add: SetMultisig_def EncodeOP_N_def pushes_ok_def)

end
