(* ===== verification/Compressor.thy ===== *)
theory Compressor
  imports Primitives Script
begin

text \<open>
  The compact encodings of the UTXO database and the undo files: \<^verbatim>\<open>src/src/compressor.cpp\<close>,
  \<^verbatim>\<open>src/src/compressor.h\<close>, the serialization of \<^verbatim>\<open>Coin\<close> in \<^verbatim>\<open>src/src/coins.h\<close> and the undo records of
  \<^verbatim>\<open>src/src/undo.h\<close>. Elliptic curve points come from libsecp256k1: its parser and its uncompressed
  serializer are the parameters \<open>parse\<close> and \<open>unc\<close>, and \<open>pubkey_laws\<close> states what the encoding of
  points promises.
\<close>

subsection \<open>Amounts\<close>

definition COIN :: int where "COIN = 1000000"
definition CENT :: int where "CENT = 10000"
definition MAX_MONEY :: int where "MAX_MONEY = 210000000 * COIN"

definition MoneyRange :: "int \<Rightarrow> bool" where
  "MoneyRange v \<longleftrightarrow> v \<ge> 0 \<and> v \<le> MAX_MONEY"

function compress_loop :: "u64 \<Rightarrow> nat \<Rightarrow> u64 \<times> nat" where
  "compress_loop n e = (if n mod 10 = 0 \<and> e < 9 then compress_loop (n div 10) (e + 1) else (n, e))"
  by pat_completeness auto
termination by (relation "measure (\<lambda>(n, e). 9 - e)") auto

declare compress_loop.simps [simp del]

text \<open>The assertion \<^verbatim>\<open>d >= 1 && d <= 9\<close> is the case \<^term>\<open>None\<close>.\<close>

definition CompressAmount :: "u64 \<Rightarrow> u64 option" where
  "CompressAmount n =
     (if n = 0 then Some 0
      else let (n, e) = compress_loop n 0
           in if e < 9 then
                let d = n mod 10
                in if \<not> (d \<ge> 1 \<and> d \<le> 9) then None
                   else Some (1 + (n div 10 * 9 + d - 1) * 10 + word_of_nat e)
              else Some (1 + (n - 1) * 10 + 9))"

fun mul10_loop :: "u64 \<Rightarrow> nat \<Rightarrow> u64" where
  "mul10_loop n 0 = n"
| "mul10_loop n (Suc e) = mul10_loop (n * 10) e"

definition DecompressAmount :: "u64 \<Rightarrow> u64" where
  "DecompressAmount x =
     (if x = 0 then 0
      else let x = x - 1; e = unat (x mod 10); x = x div 10;
               n = (if e < 9 then x div 9 * 10 + (x mod 9 + 1) else x + 1)
           in mul10_loop n e)"

subsection \<open>Scripts\<close>

definition IsToKeyID :: "CScript \<Rightarrow> bytes option" where
  "IsToKeyID s =
     (if length s = 25 \<and> s ! 0 = OP_DUP \<and> s ! 1 = OP_HASH160 \<and> s ! 2 = 20 \<and>
         s ! 23 = OP_EQUALVERIFY \<and> s ! 24 = OP_CHECKSIG
      then Some (take 20 (drop 3 s)) else None)"

definition IsToScriptID :: "CScript \<Rightarrow> bytes option" where
  "IsToScriptID s =
     (if length s = 23 \<and> s ! 0 = OP_HASH160 \<and> s ! 1 = 20 \<and> s ! 22 = OP_EQUAL
      then Some (take 20 (drop 2 s)) else None)"

text \<open>\<^verbatim>\<open>CPubKey::IsValid\<close> holds for the 65-byte keys built here, so \<^verbatim>\<open>IsFullyValid\<close> is the parser's answer.\<close>

definition IsToPubKey :: "(bytes \<Rightarrow> 'p option) \<Rightarrow> CScript \<Rightarrow> bytes option" where
  "IsToPubKey parse s =
     (if length s = 35 \<and> s ! 0 = 33 \<and> s ! 34 = OP_CHECKSIG \<and> (s ! 1 = 0x02 \<or> s ! 1 = 0x03)
      then Some (take 33 (drop 1 s))
      else if length s = 67 \<and> s ! 0 = 65 \<and> s ! 66 = OP_CHECKSIG \<and> s ! 1 = 0x04
      then let pubkey = take 65 (drop 1 s) in if parse pubkey \<noteq> None then Some pubkey else None
      else None)"

definition CompressScript :: "(bytes \<Rightarrow> 'p option) \<Rightarrow> CScript \<Rightarrow> bytes option" where
  "CompressScript parse script =
     (case IsToKeyID script of Some keyID \<Rightarrow> Some (0x00 # keyID)
      | None \<Rightarrow>
     (case IsToScriptID script of Some scriptID \<Rightarrow> Some (0x01 # scriptID)
      | None \<Rightarrow>
     (case IsToPubKey parse script of
        Some pubkey \<Rightarrow>
          if pubkey ! 0 = 0x02 \<or> pubkey ! 0 = 0x03 then Some (pubkey ! 0 # take 32 (drop 1 pubkey))
          else if pubkey ! 0 = 0x04 then Some ((0x04 OR (pubkey ! 64 AND 0x01)) # take 32 (drop 1 pubkey))
          else None
      | None \<Rightarrow> None)))"

definition GetSpecialScriptSize :: "u32 \<Rightarrow> nat" where
  "GetSpecialScriptSize nSize =
     (if nSize = 0 \<or> nSize = 1 then 20
      else if nSize = 2 \<or> nSize = 3 \<or> nSize = 4 \<or> nSize = 5 then 32 else 0)"

text \<open>\<^term>\<open>None\<close> is the result \<^verbatim>\<open>false\<close>, which leaves the script as it was.\<close>

definition DecompressScript :: "(bytes \<Rightarrow> 'p option) \<Rightarrow> ('p \<Rightarrow> bytes) \<Rightarrow> u32 \<Rightarrow> bytes \<Rightarrow> CScript option" where
  "DecompressScript parse unc nSize inp =
     (if nSize = 0 then Some ([OP_DUP, OP_HASH160, 20] @ take 20 inp @ [OP_EQUALVERIFY, OP_CHECKSIG])
      else if nSize = 1 then Some ([OP_HASH160, 20] @ take 20 inp @ [OP_EQUAL])
      else if nSize = 2 \<or> nSize = 3 then Some ([33, ucast nSize] @ take 32 inp @ [OP_CHECKSIG])
      else if nSize = 4 \<or> nSize = 5 then
        (case parse (ucast (nSize - 2) # take 32 inp) of None \<Rightarrow> None
         | Some P \<Rightarrow> Some ([65] @ unc P @ [OP_CHECKSIG]))
      else None)"

definition ScriptCompression_ser :: "(bytes \<Rightarrow> 'p option) \<Rightarrow> CScript \<Rightarrow> bytes" where
  "ScriptCompression_ser parse script =
     (case CompressScript parse script of
        Some compr \<Rightarrow> compr
      | None \<Rightarrow> WriteVarInt (word_of_nat (length script) + 6 :: u32) @ script)"

definition stream_ignore :: "nat \<Rightarrow> unit reader" where
  "stream_ignore n s = (if n > length s then Inl End_of_data else Inr ((), drop n s))"

definition ScriptCompression_unser :: "(bytes \<Rightarrow> 'p option) \<Rightarrow> ('p \<Rightarrow> bytes) \<Rightarrow> CScript reader" where
  "ScriptCompression_unser parse unc s =
     ebind (ReadVarInt s) (\<lambda>(nSize :: u32, s).
       if nSize < 6 then
         ebind (stream_read (GetSpecialScriptSize nSize) s) (\<lambda>(vch, s).
           Inr (case DecompressScript parse unc nSize vch of None \<Rightarrow> [] | Some script \<Rightarrow> script, s))
       else let nSize = nSize - 6
            in if unat nSize > MAX_SCRIPT_SIZE
               then ebind (stream_ignore (unat nSize) s) (\<lambda>(_, s). Inr ([OP_RETURN], s))
               else stream_read (unat nSize) s)"

definition AmountCompression_ser :: "int \<Rightarrow> ser_error + bytes" where
  "AmountCompression_ser val =
     (case CompressAmount (word_of_int val) of None \<Rightarrow> Inl Assertion_failed | Some x \<Rightarrow> Inr (WriteVarInt x))"

definition AmountCompression_unser :: "int reader" where
  "AmountCompression_unser s = ebind (ReadVarInt s) (\<lambda>(v :: u64, s). Inr (sint (DecompressAmount v), s))"

definition TxOutCompression_ser :: "(bytes \<Rightarrow> 'p option) \<Rightarrow> CTxOut \<Rightarrow> ser_error + bytes" where
  "TxOutCompression_ser parse out =
     ebind (AmountCompression_ser (nValue out)) (\<lambda>a. Inr (a @ ScriptCompression_ser parse (scriptPubKey out)))"

definition TxOutCompression_unser :: "(bytes \<Rightarrow> 'p option) \<Rightarrow> ('p \<Rightarrow> bytes) \<Rightarrow> CTxOut reader" where
  "TxOutCompression_unser parse unc s =
     ebind (AmountCompression_unser s) (\<lambda>(v, s).
     ebind (ScriptCompression_unser parse unc s) (\<lambda>(k, s). Inr (\<lparr>nValue = v, scriptPubKey = k\<rparr>, s)))"

subsection \<open>Coins and undo records\<close>

record Coin =
  coin_out :: CTxOut
  fCoinBase :: bool
  coin_nHeight :: u32
  fCoinStake :: bool
  coin_nTime :: u32

definition Coin_empty :: Coin where
  "Coin_empty = \<lparr>coin_out = CTxOut_null, fCoinBase = False, coin_nHeight = 0, fCoinStake = False, coin_nTime = 0\<rparr>"

definition IsSpent :: "Coin \<Rightarrow> bool" where
  "IsSpent c = CTxOut_IsNull (coin_out c)"

definition bit_of :: "bool \<Rightarrow> u32" where
  "bit_of b = (if b then 1 else 0)"

definition Coin_Serialize :: "(bytes \<Rightarrow> 'p option) \<Rightarrow> Coin \<Rightarrow> ser_error + bytes" where
  "Coin_Serialize parse c =
     (if IsSpent c then Inl Assertion_failed
      else let code = coin_nHeight c * 2 + bit_of (fCoinBase c)
           in ebind (TxOutCompression_ser parse (coin_out c)) (\<lambda>out.
                Inr (WriteVarInt code @ out @ WriteVarInt (bit_of (fCoinStake c)) @ WriteVarInt (coin_nTime c))))"

definition Coin_Unserialize :: "(bytes \<Rightarrow> 'p option) \<Rightarrow> ('p \<Rightarrow> bytes) \<Rightarrow> Coin reader" where
  "Coin_Unserialize parse unc s =
     ebind (ReadVarInt s) (\<lambda>(code :: u32, s).
     ebind (TxOutCompression_unser parse unc s) (\<lambda>(out, s).
     ebind (ReadVarInt s) (\<lambda>(nFlag :: u32, s).
     ebind (ReadVarInt s) (\<lambda>(time :: u32, s).
       Inr (\<lparr>coin_out = out, fCoinBase = code AND 1 \<noteq> 0, coin_nHeight = drop_bit 1 code,
             fCoinStake = nFlag AND 1 \<noteq> 0, coin_nTime = time\<rparr>, s)))))"

definition TxInUndo_ser :: "(bytes \<Rightarrow> 'p option) \<Rightarrow> Coin \<Rightarrow> ser_error + bytes" where
  "TxInUndo_ser parse c =
     ebind (TxOutCompression_ser parse (coin_out c)) (\<lambda>out.
       Inr (WriteVarInt (coin_nHeight c * 4 + bit_of (fCoinBase c) + (if fCoinStake c then 2 else 0)) @
            WriteVarInt (coin_nTime c) @
            (if coin_nHeight c > 0 then ser_writedata8 0 else []) @ out))"

definition TxInUndo_unser :: "(bytes \<Rightarrow> 'p option) \<Rightarrow> ('p \<Rightarrow> bytes) \<Rightarrow> Coin reader" where
  "TxInUndo_unser parse unc s =
     ebind (ReadVarInt s) (\<lambda>(nCode :: u32, s).
     ebind (ReadVarInt s) (\<lambda>(time :: u32, s).
     ebind (if drop_bit 2 nCode > 0 then ReadVarInt s else Inr (0 :: u32, s)) (\<lambda>(nVersionDummy, s).
     ebind (TxOutCompression_unser parse unc s) (\<lambda>(out, s).
       Inr (\<lparr>coin_out = out, fCoinBase = nCode AND 1 \<noteq> 0, coin_nHeight = drop_bit 2 nCode,
             fCoinStake = nCode AND 2 \<noteq> 0, coin_nTime = time\<rparr>, s)))))"

subsection \<open>Amounts are recovered\<close>

lemma unat_div_10: "unat (n div 10 :: u64) = unat n div 10" "unat (n mod 10 :: u64) = unat n mod 10"
  by (simp_all add: unat_div unat_mod)

lemma compress_loop_spec:
  "compress_loop n e0 = (m, e) \<Longrightarrow> e0 \<le> 9 \<Longrightarrow>
     e0 \<le> e \<and> e \<le> 9 \<and> unat n = unat m * 10 ^ (e - e0) \<and> (e < 9 \<longrightarrow> unat m mod 10 \<noteq> 0)"
proof (induction n e0 rule: compress_loop.induct)
  case (1 n e0)
  show ?case
  proof (cases "n mod 10 = 0 \<and> e0 < 9")
    case False
    then have "m = n" "e = e0" using "1.prems" by (auto simp: compress_loop.simps split: if_splits)
    moreover have "unat n mod 10 \<noteq> 0" if "e0 < 9"
      using False that by (metis unat_div_10(2) unat_eq_0)
    ultimately show ?thesis using "1.prems" by simp
  next
    case True
    then have "compress_loop (n div 10) (e0 + 1) = (m, e)" using "1.prems" by (simp add: compress_loop.simps [of n])
    then have IH: "e0 + 1 \<le> e" "e \<le> 9" "unat (n div 10) = unat m * 10 ^ (e - (e0 + 1))" "e < 9 \<longrightarrow> unat m mod 10 \<noteq> 0"
      using "1.IH" [OF True] True by auto
    have "unat n mod 10 = 0" using True by (metis unat_div_10(2) unat_eq_0)
    then have "unat n = 10 * (unat n div 10)" by (metis mult_div_mod_eq add.right_neutral)
    also have "\<dots> = unat m * (10 * 10 ^ (e - (e0 + 1)))" using IH(3) by (simp add: unat_div_10)
    also have "10 * 10 ^ (e - (e0 + 1)) = (10::nat) ^ (e - e0)" using IH(1) by (metis Suc_diff_le Suc_eq_plus1 diff_Suc_Suc power_Suc)
    finally show ?thesis using IH by simp
  qed
qed

lemma mul10_loop_value: "unat n * 10 ^ e < 2 ^ 64 \<Longrightarrow> unat (mul10_loop n e) = unat n * 10 ^ e"
proof (induction e arbitrary: n)
  case 0
  show ?case by simp
next
  case (Suc e)
  have "(1::nat) \<le> 10 ^ e" by simp
  then have "unat n * 10 * 1 \<le> unat n * 10 * 10 ^ e" by (rule mult_le_mono2)
  also have "\<dots> < 2 ^ 64" using Suc.prems by (simp add: mult.assoc)
  finally have "unat (n * 10) = unat n * 10" by (simp add: unat_times_mod)
  then show ?case using Suc by simp
qed

text \<open>What the encoder computes, as a number.\<close>

definition compress_quot :: "nat \<Rightarrow> nat \<Rightarrow> nat" where
  "compress_quot M e = (if e < 9 then M div 10 * 9 + (M mod 10 - 1) else M - 1)"

definition compress_nat :: "nat \<Rightarrow> nat \<Rightarrow> nat" where
  "compress_nat M e = 1 + compress_quot M e * 10 + e"

lemma compress_nat_less: "M < 2 ^ 60 \<Longrightarrow> e \<le> 9 \<Longrightarrow> compress_nat M e < 2 ^ 64"
  by (auto simp: compress_nat_def compress_quot_def)

lemma CompressAmount_value:
  assumes "n \<noteq> 0" "unat n < 2 ^ 60" and l: "compress_loop n 0 = (m, e)"
  shows "CompressAmount n = Some (word_of_nat (compress_nat (unat m) e))"
proof -
  have sp: "e \<le> 9" "unat n = unat m * 10 ^ e" "e < 9 \<longrightarrow> unat m mod 10 \<noteq> 0" using compress_loop_spec [OF l] by auto
  have m0: "1 \<le> unat m" using sp(2) assms(1) by (cases "unat m") (auto simp: unat_eq_0)
  define M where "M = unat m"
  have m: "m = word_of_nat M" by (simp add: M_def)
  have dm: "m div 10 = word_of_nat (M div 10)" "m mod 10 = word_of_nat (M mod 10)"
    unfolding M_def unat_div_10 [symmetric] by simp_all
  show ?thesis
  proof (cases "e < 9")
    case True
    then have d: "1 \<le> M mod 10" "M mod 10 \<le> 9" using sp(3) by (auto simp: M_def)
    have ud: "unat (m mod 10) = M mod 10" by (simp add: unat_div_10 M_def)
    then have "(1::u64) \<le> m mod 10 \<and> m mod 10 \<le> 9" using d by (simp add: word_le_nat_alt)
    then have "CompressAmount n = Some (1 + (m div 10 * 9 + m mod 10 - 1) * 10 + word_of_nat e)"
      using l True assms(1) by (simp add: CompressAmount_def)
    also have "m div 10 * 9 + m mod 10 - 1 = word_of_nat (M div 10 * 9 + (M mod 10 - 1))"
      unfolding dm using d(1) by (simp add: of_nat_diff)
    finally show ?thesis using True by (simp add: compress_nat_def compress_quot_def M_def)
  next
    case False
    then have "CompressAmount n = Some (1 + (m - 1) * 10 + 9)" using l assms(1) by (simp add: CompressAmount_def)
    also have "m - 1 = word_of_nat (unat m - 1)" using m0 by (simp add: of_nat_diff)
    finally show ?thesis using False sp(1) by (simp add: compress_nat_def compress_quot_def)
  qed
qed

lemma Decompress_compress_nat:
  assumes "1 \<le> M" "e \<le> 9" "e < 9 \<longrightarrow> M mod 10 \<noteq> 0" "M * 10 ^ e < 2 ^ 60"
  shows "unat (DecompressAmount (word_of_nat (compress_nat M e))) = M * 10 ^ e"
proof -
  define x where "x = (word_of_nat (compress_nat M e - 1) :: u64)"
  have "M * 1 \<le> M * 10 ^ e" by (rule mult_le_mono2) simp
  then have M: "M < 2 ^ 60" using assms(4) by linarith
  note lt = compress_nat_less [OF M assms(2)]
  have pos: "1 \<le> compress_nat M e" by (simp add: compress_nat_def)
  have x: "word_of_nat (compress_nat M e) - 1 = x" using pos by (simp add: x_def of_nat_diff)
  have "unat x = compress_nat M e - 1" unfolding x_def using lt by (intro unat_word_of_nat) simp
  then have ux: "unat x = compress_quot M e * 10 + e" by (simp add: compress_nat_def)
  have e: "unat (x mod 10) = e" and q: "unat (x div 10) = compress_quot M e" unfolding unat_div_10 ux using assms(2) by simp_all
  have nz: "(word_of_nat (compress_nat M e) :: u64) \<noteq> 0" using pos lt unat_word_of_nat [of "compress_nat M e", where ?'a = 64] by auto
  have v: "unat (if e < 9 then x div 10 div 9 * 10 + (x div 10 mod 9 + 1) else x div 10 + 1) = M"
  proof (cases "e < 9")
    case True
    define r where "r = M mod 10 - 1"
    have d: "r < 9" "M mod 10 = r + 1" using True assms(3) by (auto simp: r_def)
    have "unat (x div 10) = M div 10 * 9 + r" using q True by (simp add: compress_quot_def r_def)
    then have "unat (x div 10 div 9) = M div 10" "unat (x div 10 mod 9) = r"
      using d by (simp_all only: unat_div unat_mod) (simp_all add: d)
    moreover have "M = M div 10 * 10 + (r + 1)" using d(2) by (metis div_mult_mod_eq)
    ultimately show ?thesis using True d M by (simp add: unat_plus_mod unat_times_mod)
  next
    case False
    then have "unat (x div 10) = M - 1" using q by (simp add: compress_quot_def)
    then show ?thesis using False assms(1) M by (simp add: unat_plus_mod)
  qed
  show ?thesis
    unfolding DecompressAmount_def Let_def x using nz e v assms(4) by (simp add: mul10_loop_value)
qed

lemma DecompressAmount_CompressAmount:
  assumes "unat n < 2 ^ 60"
  shows "\<exists>x. CompressAmount n = Some x \<and> DecompressAmount x = n"
proof (cases "n = 0")
  case True
  then show ?thesis by (simp add: CompressAmount_def DecompressAmount_def)
next
  case False
  obtain m e where l: "compress_loop n 0 = (m, e)" by (cases "compress_loop n 0")
  have sp: "e \<le> 9" "unat n = unat m * 10 ^ e" "e < 9 \<longrightarrow> unat m mod 10 \<noteq> 0" using compress_loop_spec [OF l] by auto
  moreover have "1 \<le> unat m" using sp(2) False by (cases "unat m") (auto simp: unat_eq_0)
  ultimately have "unat (DecompressAmount (word_of_nat (compress_nat (unat m) e))) = unat n"
    using Decompress_compress_nat [of "unat m" e] assms by simp
  then have "DecompressAmount (word_of_nat (compress_nat (unat m) e)) = n" by (simp add: word_unat_eq_iff)
  then show ?thesis using CompressAmount_value [OF False assms l] by blast
qed

subsection \<open>Scripts are recovered\<close>

text \<open>
  What the encoding of curve points promises: a valid uncompressed key \<open>04 x y\<close> is the serialization of
  its point, and the same point is read from \<open>x\<close> and the parity of \<open>y\<close>.
\<close>

definition pubkey_laws :: "(bytes \<Rightarrow> 'p option) \<Rightarrow> ('p \<Rightarrow> bytes) \<Rightarrow> bool" where
  "pubkey_laws parse unc \<longleftrightarrow>
     (\<forall>x y P. length x = 32 \<longrightarrow> length y = 32 \<longrightarrow> parse (0x04 # x @ y) = Some P \<longrightarrow>
        unc P = 0x04 # x @ y \<and> parse ((0x02 OR (y ! 31 AND 0x01)) # x) = Some P)"

lemma drop_step: "i < length s \<Longrightarrow> drop i s = s ! i # drop (Suc i) s"
  by (rule Cons_nth_drop_Suc [symmetric])

lemma IsToKeyID_iff:
  "IsToKeyID s = Some h \<longleftrightarrow> length h = 20 \<and> s = [OP_DUP, OP_HASH160, 20] @ h @ [OP_EQUALVERIFY, OP_CHECKSIG]"
proof
  assume "IsToKeyID s = Some h"
  then have l: "length s = 25" "s ! 0 = OP_DUP" "s ! 1 = OP_HASH160" "s ! 2 = 20" "s ! 23 = OP_EQUALVERIFY"
    "s ! 24 = OP_CHECKSIG" "h = take 20 (drop 3 s)" by (auto simp: IsToKeyID_def split: if_splits)
  have "drop 23 s = [OP_EQUALVERIFY, OP_CHECKSIG]"
    using drop_step [of 23 s] drop_step [of 24 s] l by simp
  then have "drop 3 s = h @ [OP_EQUALVERIFY, OP_CHECKSIG]"
    using append_take_drop_id [of 20 "drop 3 s"] l by simp
  then show "length h = 20 \<and> s = [OP_DUP, OP_HASH160, 20] @ h @ [OP_EQUALVERIFY, OP_CHECKSIG]"
    using drop_step [of 0 s] drop_step [of 1 s] drop_step [of 2 s] l by (simp add: numeral_2_eq_2 numeral_3_eq_3)
qed (auto simp: IsToKeyID_def nth_append)

lemma IsToScriptID_iff:
  "IsToScriptID s = Some h \<longleftrightarrow> length h = 20 \<and> s = [OP_HASH160, 20] @ h @ [OP_EQUAL]"
proof
  assume "IsToScriptID s = Some h"
  then have l: "length s = 23" "s ! 0 = OP_HASH160" "s ! 1 = 20" "s ! 22 = OP_EQUAL" "h = take 20 (drop 2 s)"
    by (auto simp: IsToScriptID_def split: if_splits)
  have "drop 22 s = [OP_EQUAL]" using drop_step [of 22 s] l by simp
  then have "drop 2 s = h @ [OP_EQUAL]" using append_take_drop_id [of 20 "drop 2 s"] l by simp
  then show "length h = 20 \<and> s = [OP_HASH160, 20] @ h @ [OP_EQUAL]"
    using drop_step [of 0 s] drop_step [of 1 s] l by (simp add: numeral_2_eq_2)
qed (auto simp: IsToScriptID_def nth_append)

lemma IsToPubKey_Some:
  assumes "IsToPubKey parse s = Some k"
  shows "(\<exists>c x. length x = 32 \<and> (c = 0x02 \<or> c = 0x03) \<and> k = c # x \<and> s = [33, c] @ x @ [OP_CHECKSIG]) \<or>
    (\<exists>x y. length x = 32 \<and> length y = 32 \<and> k = 0x04 # x @ y \<and> parse k \<noteq> None \<and> s = [65] @ k @ [OP_CHECKSIG])"
proof -
  consider (c) "length s = 35" "s ! 0 = 33" "s ! 34 = OP_CHECKSIG" "s ! 1 = 0x02 \<or> s ! 1 = 0x03" "k = take 33 (drop 1 s)"
    | (u) "length s = 67" "s ! 0 = 65" "s ! 66 = OP_CHECKSIG" "s ! 1 = 0x04" "k = take 65 (drop 1 s)" "parse k \<noteq> None"
    using assms by (auto simp: IsToPubKey_def Let_def split: if_splits)
  then show ?thesis
  proof cases
    case c
    have "drop 34 s = [OP_CHECKSIG]" using drop_step [of 34 s] c by simp
    then have "drop 1 s = k @ [OP_CHECKSIG]" using append_take_drop_id [of 33 "drop 1 s"] c by simp
    then have s: "s = [33] @ k @ [OP_CHECKSIG]" using drop_step [of 0 s] c by simp
    have d1: "drop 1 s = s ! 1 # drop 2 s" using drop_step [of 1 s] c(1) by (simp add: numeral_2_eq_2)
    define x where "x = take 32 (drop 2 s)"
    have k: "k = s ! 1 # x" unfolding c(5) d1 x_def by simp
    have "s = [33, s ! 1] @ x @ [OP_CHECKSIG]" using s unfolding k by (rule trans) simp
    moreover have "length x = 32" using c(1) by (simp add: x_def)
    ultimately show ?thesis using k c(4) by blast
  next
    case u
    have "drop 66 s = [OP_CHECKSIG]" using drop_step [of 66 s] u by simp
    then have "drop 1 s = k @ [OP_CHECKSIG]" using append_take_drop_id [of 65 "drop 1 s"] u by simp
    then have s: "s = [65] @ k @ [OP_CHECKSIG]" using drop_step [of 0 s] u by simp
    have d1: "drop 1 s = s ! 1 # drop 2 s" using drop_step [of 1 s] u(1) by (simp add: numeral_2_eq_2)
    define x y where "x = take 32 (drop 2 s)" and "y = take 32 (drop 34 s)"
    have "k = s ! 1 # take 64 (drop 2 s)" unfolding u(5) d1 by simp
    moreover have "take 64 (drop 2 s) = x @ y"
      using take_add [of 32 32 "drop 2 s"] by (simp add: x_def y_def)
    moreover have "length x = 32" "length y = 32" using u(1) by (simp_all add: x_def y_def)
    ultimately show ?thesis using s u(4,6) by auto
  qed
qed

lemma parity_cases: "(w :: u8) AND 1 = 0 \<or> w AND 1 = 1"
  by (simp add: and_one_eq mod_2_eq_odd)

lemma CompressScript_Some:
  assumes "CompressScript parse script = Some out" and "pubkey_laws parse unc"
  shows "\<exists>c r. out = c # r \<and> c \<in> {0, 1, 2, 3, 4, 5} \<and> length r = GetSpecialScriptSize (ucast c) \<and>
     DecompressScript parse unc (ucast c) r = Some script"
proof -
  consider (key) h where "IsToKeyID script = Some h" "out = 0x00 # h"
    | (sid) h where "IsToScriptID script = Some h" "out = 0x01 # h"
    | (pub) k where "IsToPubKey parse script = Some k"
       "(if k ! 0 = 0x02 \<or> k ! 0 = 0x03 then Some (k ! 0 # take 32 (drop 1 k))
          else if k ! 0 = 0x04 then Some ((0x04 OR (k ! 64 AND 0x01)) # take 32 (drop 1 k)) else None) = Some out"
    using assms(1) unfolding CompressScript_def by (auto split: option.splits)
  then show ?thesis
  proof cases
    case key
    then show ?thesis by (auto simp: IsToKeyID_iff GetSpecialScriptSize_def DecompressScript_def)
  next
    case sid
    then show ?thesis by (auto simp: IsToScriptID_iff GetSpecialScriptSize_def DecompressScript_def)
  next
    case pub
    from IsToPubKey_Some [OF pub(1)] consider
        (comp) c x where "length x = 32" "k = c # x" "script = [33, c] @ x @ [OP_CHECKSIG]" "c = 0x02 \<or> c = 0x03"
      | (unc) x y where "length x = 32" "length y = 32" "k = 0x04 # x @ y" "parse k \<noteq> None" "script = [65] @ k @ [OP_CHECKSIG]"
      by blast
    then show ?thesis
    proof cases
      case comp
      moreover then have "out = c # x" using pub(2) by auto
      ultimately show ?thesis
        by (intro exI [of _ c] exI [of _ x]) (auto simp: GetSpecialScriptSize_def DecompressScript_def)
    next
      case unc
      note len = unc(1,2) and k = unc(3) and s = unc(5)
      from unc obtain P where P: "unc P = 0x04 # x @ y" "parse ((0x02 OR (y ! 31 AND 0x01)) # x) = Some P"
        using assms(2) unfolding pubkey_laws_def by blast
      have "k ! 64 = y ! 31" using len by (simp add: k nth_append)
      then have "out = (0x04 OR (y ! 31 AND 0x01)) # x" using pub(2) len by (simp add: k)
      then show ?thesis using P s k len parity_cases [of "y ! 31"]
        by (intro exI [of _ "0x04 OR (y ! 31 AND 0x01)"] exI [of _ x])
          (auto simp: GetSpecialScriptSize_def DecompressScript_def)
    qed
  qed
qed

lemma ReadVarInt_special: "c \<in> {0, 1, 2, 3, 4, 5} \<Longrightarrow> ReadVarInt (c # s) = Inr (ucast c :: u32, s)"
  by (auto simp: ReadVarInt_def)

lemma ScriptCompression_roundtrip:
  assumes laws: "pubkey_laws parse unc" and len: "length script \<le> MAX_SCRIPT_SIZE"
  shows "ScriptCompression_unser parse unc (ScriptCompression_ser parse script @ s) = Inr (script, s)"
proof (cases "CompressScript parse script")
  case None
  let ?n = "word_of_nat (length script) + 6 :: u32"
  have "unat (word_of_nat (length script) :: u32) = length script"
    using len by (intro unat_word_of_nat) (simp add: MAX_SCRIPT_SIZE_def)
  moreover then have "unat ?n = length script + 6" using len by (simp add: unat_plus_mod MAX_SCRIPT_SIZE_def)
  ultimately have "\<not> ?n < 6" "unat (?n - 6) = length script" by (simp_all add: word_less_nat_alt)
  then show ?thesis using None len
    by (simp add: ScriptCompression_ser_def ScriptCompression_unser_def varint32.unser_ser stream_read_append)
next
  case (Some out)
  then obtain c r where c: "out = c # r" "c \<in> {0, 1, 2, 3, 4, 5}" "length r = GetSpecialScriptSize (ucast c)"
    "DecompressScript parse unc (ucast c) r = Some script" using CompressScript_Some [OF Some laws] by blast
  have "(ucast c :: u32) < 6" using c(2) by auto
  then show ?thesis using Some c(1,3,4) ReadVarInt_special [OF c(2)]
    by (simp add: ScriptCompression_ser_def ScriptCompression_unser_def stream_read_append)
qed

lemma AmountCompression_roundtrip:
  assumes "0 \<le> val" "val < 2 ^ 60"
  shows "\<exists>b. AmountCompression_ser val = Inr b \<and> (\<forall>s. AmountCompression_unser (b @ s) = Inr (val, s))"
proof -
  let ?n = "word_of_int val :: u64"
  have w: "word_of_int val = (word_of_nat (nat val) :: u64)" using assms(1) by (simp add: of_nat_nat)
  have "nat val < 2 ^ 60" using assms by (simp add: nat_less_iff)
  then have u: "unat ?n = nat val" unfolding w by (intro unat_word_of_nat) simp
  then have lt: "unat ?n < 2 ^ 60" using assms by (simp add: nat_less_iff)
  then have "sint ?n = val" using sint_of_small [of ?n] u assms(1) by simp
  then show ?thesis using DecompressAmount_CompressAmount [OF lt]
    by (auto simp: AmountCompression_ser_def AmountCompression_unser_def varint64.unser_ser)
qed

subsection \<open>Coins and undo records are recovered\<close>

lemma flag_iff_odd: "(w :: u32) AND 1 \<noteq> 0 \<longleftrightarrow> odd (unat w)" "w AND 2 \<noteq> 0 \<longleftrightarrow> odd (unat w div 2)"
proof -
  have "w AND 2 ^ k \<noteq> 0 \<longleftrightarrow> odd (unat w div 2 ^ k)" for k
    unfolding and_exp_eq_0_iff_not_bit bit_iff_odd [symmetric] by (simp add: bit_unsigned_iff)
  from this [of 0] this [of 1] show "w AND 1 \<noteq> 0 \<longleftrightarrow> odd (unat w)" "w AND 2 \<noteq> 0 \<longleftrightarrow> odd (unat w div 2)" by simp_all
qed

lemma unat_bit_of: "unat (bit_of b) = (if b then 1 else 0)"
  by (simp add: bit_of_def)

definition out_ok :: "CTxOut \<Rightarrow> bool" where
  "out_ok out \<longleftrightarrow> 0 \<le> nValue out \<and> nValue out < 2 ^ 60 \<and> length (scriptPubKey out) \<le> MAX_SCRIPT_SIZE"

lemma TxOutCompression_roundtrip:
  assumes laws: "pubkey_laws parse unc" and ok: "out_ok out"
  shows "\<exists>b. TxOutCompression_ser parse out = Inr b \<and> (\<forall>s. TxOutCompression_unser parse unc (b @ s) = Inr (out, s))"
proof -
  obtain a where a: "AmountCompression_ser (nValue out) = Inr a" "\<And>s. AmountCompression_unser (a @ s) = Inr (nValue out, s)"
    using AmountCompression_roundtrip ok by (auto simp: out_ok_def)
  have "TxOutCompression_unser parse unc ((a @ ScriptCompression_ser parse (scriptPubKey out)) @ s) = Inr (out, s)" for s
    using ok by (simp add: TxOutCompression_unser_def a ScriptCompression_roundtrip [OF laws] out_ok_def)
  then show ?thesis by (simp add: TxOutCompression_ser_def a)
qed

lemma height_code:
  assumes "unat h < 2 ^ 31"
  shows "drop_bit 1 (h * 2 + bit_of b) = (h :: u32)" "(h * 2 + bit_of b) AND 1 \<noteq> 0 \<longleftrightarrow> b"
proof -
  have u: "unat (h * 2 + bit_of b) = unat h * 2 + (if b then 1 else 0)"
    using assms by (simp add: unat_plus_mod unat_times_mod unat_bit_of)
  show "drop_bit 1 (h * 2 + bit_of b) = h" by (simp only: word_unat_eq_iff unat_drop_bit u) simp
  show "(h * 2 + bit_of b) AND 1 \<noteq> 0 \<longleftrightarrow> b" by (simp only: flag_iff_odd u) simp
qed

lemma bit_of_flag: "bit_of b AND 1 \<noteq> 0 \<longleftrightarrow> b"
  by (simp add: bit_of_def)

lemma Coin_roundtrip:
  assumes laws: "pubkey_laws parse unc" and ok: "out_ok (coin_out c)" and h: "unat (coin_nHeight c) < 2 ^ 31"
  shows "\<exists>b. Coin_Serialize parse c = Inr b \<and> (\<forall>s. Coin_Unserialize parse unc (b @ s) = Inr (c, s))"
proof -
  obtain a where a: "TxOutCompression_ser parse (coin_out c) = Inr a"
    "\<And>s. TxOutCompression_unser parse unc (a @ s) = Inr (coin_out c, s)"
    using TxOutCompression_roundtrip [OF laws ok] by blast
  have "\<not> IsSpent c" using ok by (simp add: IsSpent_def CTxOut_IsNull_def out_ok_def)
  then show ?thesis
    by (simp add: Coin_Serialize_def Coin_Unserialize_def a varint32.unser_ser height_code [OF h, unfolded One_nat_def] bit_of_flag)
qed

lemma undo_code:
  fixes h :: u32 and cb cs :: bool
  assumes "unat h < 2 ^ 30"
  defines "code \<equiv> h * 4 + bit_of cb + (if cs then 2 else 0)"
  shows "drop_bit 2 code = h" "code AND 1 \<noteq> 0 \<longleftrightarrow> cb" "code AND 2 \<noteq> 0 \<longleftrightarrow> cs"
proof -
  define r :: nat where "r = (if cb then 1 else 0) + (if cs then 2 else 0)"
  have r: "r < 4" "odd r \<longleftrightarrow> cb" "odd (r div 2) \<longleftrightarrow> cs" by (auto simp: r_def)
  have u: "unat code = unat h * 4 + r"
    using assms(1) by (simp add: code_def r_def unat_plus_mod unat_times_mod unat_bit_of)
  show "drop_bit 2 code = h" using r(1) by (simp add: word_unat_eq_iff unat_drop_bit u)
  show "code AND 1 \<noteq> 0 \<longleftrightarrow> cb" using r(2) by (simp only: flag_iff_odd u) simp
  have "(unat h * 4 + r) div 2 = unat h * 2 + r div 2" by simp
  then show "code AND 2 \<noteq> 0 \<longleftrightarrow> cs" using r(3) by (simp only: flag_iff_odd u) simp
qed

lemma ReadVarInt_dummy: "ReadVarInt (ser_writedata8 0 @ s) = Inr (0 :: u32, s)"
  by (simp add: ser_writedata8_def ReadVarInt_def)

lemma TxInUndo_roundtrip:
  assumes laws: "pubkey_laws parse unc" and ok: "out_ok (coin_out c)" and h: "unat (coin_nHeight c) < 2 ^ 30"
  shows "\<exists>b. TxInUndo_ser parse c = Inr b \<and> (\<forall>s. TxInUndo_unser parse unc (b @ s) = Inr (c, s))"
proof -
  obtain a where a: "TxOutCompression_ser parse (coin_out c) = Inr a"
    "\<And>s. TxOutCompression_unser parse unc (a @ s) = Inr (coin_out c, s)"
    using TxOutCompression_roundtrip [OF laws ok] by blast
  then show ?thesis
    by (simp add: TxInUndo_ser_def TxInUndo_unser_def varint32.unser_ser undo_code [OF h] ReadVarInt_dummy)
qed

subsection \<open>Properties\<close>

text \<open>
  Compressing an amount below \<^term>\<open>2 ^ 60 :: nat\<close>, which includes every valid one, succeeds and
  decompressing gives the amount back.
\<close>

theorem amount_compression:
  assumes "unat n < 2 ^ 60"
  shows "\<exists>x. CompressAmount n = Some x \<and> DecompressAmount x = n"
  by (rule DecompressAmount_CompressAmount [OF assms])

theorem amount_compression_witness:
  "nat MAX_MONEY < 2 ^ 60 \<and> (\<exists>x. CompressAmount (word_of_int MAX_MONEY) = Some x \<and> DecompressAmount x = word_of_int MAX_MONEY)"
  using amount_compression [of "word_of_int MAX_MONEY"] by (simp add: MAX_MONEY_def COIN_def)

text \<open>
  An unspent coin written to the coin database is read back unchanged, the flags and the
  transaction time this chain adds included, for every script up to the script size limit, the
  compressed special cases among them.
\<close>

theorem coin_database_roundtrip:
  assumes "pubkey_laws parse unc" "out_ok (coin_out c)" "unat (coin_nHeight c) < 2 ^ 31"
  shows "\<exists>b. Coin_Serialize parse c = Inr b \<and> (\<forall>s. Coin_Unserialize parse unc (b @ s) = Inr (c, s))"
  by (rule Coin_roundtrip [OF assms])

text \<open>
  An undo record is read back unchanged when the coin's height is below \<^term>\<open>2 ^ 30 :: nat\<close>.
\<close>

theorem undo_roundtrip:
  assumes "pubkey_laws parse unc" "out_ok (coin_out c)" "unat (coin_nHeight c) < 2 ^ 30"
  shows "\<exists>b. TxInUndo_ser parse c = Inr b \<and> (\<forall>s. TxInUndo_unser parse unc (b @ s) = Inr (c, s))"
  by (rule TxInUndo_roundtrip [OF assms])

text \<open>
  A group in which the laws of public keys hold: the points are the pairs with equal coordinates, so
  that a key is accepted compressed when its first byte carries the parity of the last.
\<close>

definition diag_parse :: "bytes \<Rightarrow> bytes option" where
  "diag_parse b =
     (if length b = 65 \<and> hd b = 0x04 \<and> take 32 (tl b) = drop 32 (tl b) then Some (take 32 (tl b))
      else if length b = 33 \<and> hd b = 0x02 OR (b ! 32 AND 0x01) then Some (tl b) else None)"

definition diag_unc :: "bytes \<Rightarrow> bytes" where
  "diag_unc x = 0x04 # x @ x"

lemma pubkey_laws_diag: "pubkey_laws diag_parse diag_unc"
  by (auto simp: pubkey_laws_def diag_parse_def diag_unc_def split: if_splits)

definition diag_coin :: Coin where
  "diag_coin = \<lparr>coin_out = \<lparr>nValue = 5 * COIN, scriptPubKey = 65 # diag_unc (replicate 32 7) @ [OP_CHECKSIG]\<rparr>,
     fCoinBase = False, coin_nHeight = 1000, fCoinStake = True, coin_nTime = 1600000000\<rparr>"

theorem coin_database_roundtrip_witness:
  "diag_parse (diag_unc (replicate 32 7)) = Some (replicate 32 7) \<and>
   (\<exists>b. Coin_Serialize diag_parse diag_coin = Inr b \<and> Coin_Unserialize diag_parse diag_unc b = Inr (diag_coin, []))"
proof -
  obtain b where b: "Coin_Serialize diag_parse diag_coin = Inr b"
    "\<forall>s. Coin_Unserialize diag_parse diag_unc (b @ s) = Inr (diag_coin, s)"
    using coin_database_roundtrip [OF pubkey_laws_diag, of diag_coin]
    by (auto simp: diag_coin_def out_ok_def diag_unc_def MAX_SCRIPT_SIZE_def COIN_def)
  show ?thesis using b(1) b(2) [rule_format, of "[]"] by (simp add: diag_parse_def diag_unc_def)
qed

theorem undo_roundtrip_witness:
  "\<exists>b. TxInUndo_ser diag_parse diag_coin = Inr b \<and> TxInUndo_unser diag_parse diag_unc b = Inr (diag_coin, [])"
proof -
  obtain b where b: "TxInUndo_ser diag_parse diag_coin = Inr b"
    "\<forall>s. TxInUndo_unser diag_parse diag_unc (b @ s) = Inr (diag_coin, s)"
    using undo_roundtrip [OF pubkey_laws_diag, of diag_coin]
    by (auto simp: diag_coin_def out_ok_def diag_unc_def MAX_SCRIPT_SIZE_def COIN_def)
  show ?thesis using b(1) b(2) [rule_format, of "[]"] by simp
qed

end
