(* ===== verification/Coins.thy ===== *)
theory Coins
  imports Compressor "HOL-Library.AList"
begin

text \<open>
  The unspent transaction outputs, \<^verbatim>\<open>src/src/coins.h\<close>, \<^verbatim>\<open>src/src/coins.cpp\<close> and the coin database of
  \<^verbatim>\<open>src/src/txdb.cpp\<close>. A \<^verbatim>\<open>CCoinsMap\<close> is an association list in any order. Looking a coin up may load it into the
  cache, so that lookups return the new state as well. The backing view of a cache is an argument: its operations and its
  state. \<open>mem\<close> is the heap memory of a coin's script.
\<close>

unbundle bit_operations_syntax

subsection \<open>Cache entries\<close>

record CCoinsCacheEntry =
  entry_coin :: Coin
  entry_flags :: u8

type_synonym CCoinsMap = "(COutPoint \<times> CCoinsCacheEntry) list"

definition DIRTY :: u8 where "DIRTY = push_bit 0 1"
definition FRESH :: u8 where "FRESH = push_bit 1 1"

definition CCoinsCacheEntry_default :: CCoinsCacheEntry where
  "CCoinsCacheEntry_default = \<lparr>entry_coin = Coin_empty, entry_flags = 0\<rparr>"

definition is_dirty :: "CCoinsCacheEntry \<Rightarrow> bool" where
  "is_dirty e \<longleftrightarrow> entry_flags e AND DIRTY \<noteq> 0"

definition is_fresh :: "CCoinsCacheEntry \<Rightarrow> bool" where
  "is_fresh e \<longleftrightarrow> entry_flags e AND FRESH \<noteq> 0"

definition make_Coin :: "CTxOut \<Rightarrow> int \<Rightarrow> bool \<Rightarrow> bool \<Rightarrow> u32 \<Rightarrow> Coin" where
  "make_Coin out nHeightIn fCoinBaseIn fCoinStakeIn nTimeIn =
     \<lparr>coin_out = out, fCoinBase = fCoinBaseIn, coin_nHeight = take_bit 31 (word_of_int nHeightIn), fCoinStake = fCoinStakeIn,
      coin_nTime = nTimeIn\<rparr>"

subsection \<open>The cache\<close>

datatype coins_error = Assertion_failed | Overwrite_unspent | Fresh_misapplied

record 'b CCoinsViewCache =
  base :: 'b
  hashBlock :: uint256
  cacheCoins :: CCoinsMap
  cachedCoinsUsage :: u64

definition CCoinsViewCache_new :: "'b \<Rightarrow> 'b CCoinsViewCache" where
  "CCoinsViewCache_new baseIn = \<lparr>base = baseIn, hashBlock = uint256_null, cacheCoins = [], cachedCoinsUsage = 0\<rparr>"

type_synonym 'b get_coin = "'b \<Rightarrow> COutPoint \<Rightarrow> Coin option \<times> 'b"

definition FetchCoin ::
  "'b get_coin \<Rightarrow> (Coin \<Rightarrow> u64) \<Rightarrow> 'b CCoinsViewCache \<Rightarrow> COutPoint \<Rightarrow> CCoinsCacheEntry option \<times> 'b CCoinsViewCache" where
  "FetchCoin get mem c outpoint =
     (case map_of (cacheCoins c) outpoint of
        Some e \<Rightarrow> (Some e, c)
      | None \<Rightarrow>
          let (r, b) = get (base c) outpoint; c = c\<lparr>base := b\<rparr>
          in case r of None \<Rightarrow> (None, c)
             | Some tmp \<Rightarrow>
                 let e = \<lparr>entry_coin = tmp, entry_flags = (if IsSpent tmp then FRESH else 0)\<rparr>
                 in (Some e, c\<lparr>cacheCoins := (outpoint, e) # cacheCoins c, cachedCoinsUsage := cachedCoinsUsage c + mem tmp\<rparr>))"

definition cache_GetCoin :: "'b get_coin \<Rightarrow> (Coin \<Rightarrow> u64) \<Rightarrow> 'b CCoinsViewCache get_coin" where
  "cache_GetCoin get mem c outpoint =
     (case FetchCoin get mem c outpoint of
        (None, c) \<Rightarrow> (None, c)
      | (Some e, c) \<Rightarrow> (if IsSpent (entry_coin e) then None else Some (entry_coin e), c))"

definition AddCoin ::
  "(Coin \<Rightarrow> u64) \<Rightarrow> 'b CCoinsViewCache \<Rightarrow> COutPoint \<Rightarrow> Coin \<Rightarrow> bool \<Rightarrow> bool \<Rightarrow> coins_error + 'b CCoinsViewCache" where
  "AddCoin mem c outpoint coin possible_overwrite skipZeroValue =
     (if IsSpent coin then Inl Assertion_failed
      else if IsUnspendable (scriptPubKey (coin_out coin)) then Inr c
      else if nValue (coin_out coin) = 0 \<and> skipZeroValue then Inr c
      else let it = map_of (cacheCoins c) outpoint;
               e = (case it of Some e \<Rightarrow> e | None \<Rightarrow> CCoinsCacheEntry_default);
               usage = (if it \<noteq> None then cachedCoinsUsage c - mem (entry_coin e) else cachedCoinsUsage c)
           in if \<not> possible_overwrite \<and> \<not> IsSpent (entry_coin e) then Inl Overwrite_unspent
              else let fresh = (\<not> possible_overwrite \<and> entry_flags e AND DIRTY = 0);
                       e = \<lparr>entry_coin = coin, entry_flags = entry_flags e OR DIRTY OR (if fresh then FRESH else 0)\<rparr>
                   in Inr (c\<lparr>cacheCoins := AList.update outpoint e (cacheCoins c), cachedCoinsUsage := usage + mem coin\<rparr>))"

definition EmplaceCoinInternalDANGER ::
  "(Coin \<Rightarrow> u64) \<Rightarrow> 'b CCoinsViewCache \<Rightarrow> COutPoint \<Rightarrow> Coin \<Rightarrow> 'b CCoinsViewCache" where
  "EmplaceCoinInternalDANGER mem c outpoint coin =
     (let c = c\<lparr>cachedCoinsUsage := cachedCoinsUsage c + mem coin\<rparr>
      in if map_of (cacheCoins c) outpoint \<noteq> None then c
         else c\<lparr>cacheCoins := (outpoint, \<lparr>entry_coin = coin, entry_flags = DIRTY\<rparr>) # cacheCoins c\<rparr>)"

text \<open>\<^verbatim>\<open>moveout\<close> is the returned coin; \<^term>\<open>None\<close> is the result \<^verbatim>\<open>false\<close>.\<close>

definition SpendCoin ::
  "'b get_coin \<Rightarrow> (Coin \<Rightarrow> u64) \<Rightarrow> 'b CCoinsViewCache \<Rightarrow> COutPoint \<Rightarrow> Coin option \<times> 'b CCoinsViewCache" where
  "SpendCoin get mem c outpoint =
     (case FetchCoin get mem c outpoint of
        (None, c) \<Rightarrow> (None, c)
      | (Some e, c) \<Rightarrow>
          let c = c\<lparr>cachedCoinsUsage := cachedCoinsUsage c - mem (entry_coin e)\<rparr>
          in (Some (entry_coin e),
              if entry_flags e AND FRESH \<noteq> 0 then c\<lparr>cacheCoins := AList.delete outpoint (cacheCoins c)\<rparr>
              else c\<lparr>cacheCoins := AList.update outpoint \<lparr>entry_coin = Coin_empty, entry_flags = entry_flags e OR DIRTY\<rparr> (cacheCoins c)\<rparr>))"

definition AccessCoin ::
  "'b get_coin \<Rightarrow> (Coin \<Rightarrow> u64) \<Rightarrow> 'b CCoinsViewCache \<Rightarrow> COutPoint \<Rightarrow> Coin \<times> 'b CCoinsViewCache" where
  "AccessCoin get mem c outpoint =
     (case FetchCoin get mem c outpoint of (None, c) \<Rightarrow> (Coin_empty, c) | (Some e, c) \<Rightarrow> (entry_coin e, c))"

definition HaveCoin ::
  "'b get_coin \<Rightarrow> (Coin \<Rightarrow> u64) \<Rightarrow> 'b CCoinsViewCache \<Rightarrow> COutPoint \<Rightarrow> bool \<times> 'b CCoinsViewCache" where
  "HaveCoin get mem c outpoint =
     (case FetchCoin get mem c outpoint of (None, c) \<Rightarrow> (False, c) | (Some e, c) \<Rightarrow> (\<not> IsSpent (entry_coin e), c))"

definition HaveCoinInCache :: "'b CCoinsViewCache \<Rightarrow> COutPoint \<Rightarrow> bool" where
  "HaveCoinInCache c outpoint = (case map_of (cacheCoins c) outpoint of None \<Rightarrow> False | Some e \<Rightarrow> \<not> IsSpent (entry_coin e))"

definition cache_GetBestBlock :: "('b \<Rightarrow> uint256 \<times> 'b) \<Rightarrow> 'b CCoinsViewCache \<Rightarrow> uint256 \<times> 'b CCoinsViewCache" where
  "cache_GetBestBlock best c =
     (if blob_IsNull (hashBlock c)
      then let (h, b) = best (base c) in (h, c\<lparr>base := b, hashBlock := h\<rparr>)
      else (hashBlock c, c))"

definition SetBestBlock :: "'b CCoinsViewCache \<Rightarrow> uint256 \<Rightarrow> 'b CCoinsViewCache" where
  "SetBestBlock c hashBlockIn = c\<lparr>hashBlock := hashBlockIn\<rparr>"

text \<open>One iteration of \<^verbatim>\<open>CCoinsViewCache::BatchWrite\<close>.\<close>

definition batch_entry ::
  "(Coin \<Rightarrow> u64) \<Rightarrow> 'b CCoinsViewCache \<Rightarrow> COutPoint \<times> CCoinsCacheEntry \<Rightarrow> coins_error + 'b CCoinsViewCache" where
  "batch_entry mem c it =
     (let (outpoint, e) = it in
      if entry_flags e AND DIRTY = 0 then Inr c
      else case map_of (cacheCoins c) outpoint of
        None \<Rightarrow>
          if entry_flags e AND FRESH \<noteq> 0 \<and> IsSpent (entry_coin e) then Inr c
          else Inr (c\<lparr>cacheCoins := (outpoint, \<lparr>entry_coin = entry_coin e,
                        entry_flags = (if entry_flags e AND FRESH \<noteq> 0 then DIRTY OR FRESH else DIRTY)\<rparr>) # cacheCoins c,
                      cachedCoinsUsage := cachedCoinsUsage c + mem (entry_coin e)\<rparr>)
      | Some us \<Rightarrow>
          if entry_flags e AND FRESH \<noteq> 0 \<and> \<not> IsSpent (entry_coin us) then Inl Fresh_misapplied
          else if entry_flags us AND FRESH \<noteq> 0 \<and> IsSpent (entry_coin e) then
            Inr (c\<lparr>cacheCoins := AList.delete outpoint (cacheCoins c), cachedCoinsUsage := cachedCoinsUsage c - mem (entry_coin us)\<rparr>)
          else
            Inr (c\<lparr>cacheCoins := AList.update outpoint \<lparr>entry_coin = entry_coin e, entry_flags = entry_flags us OR DIRTY\<rparr> (cacheCoins c),
                   cachedCoinsUsage := cachedCoinsUsage c - mem (entry_coin us) + mem (entry_coin e)\<rparr>))"

fun batch_entries :: "(Coin \<Rightarrow> u64) \<Rightarrow> 'b CCoinsViewCache \<Rightarrow> CCoinsMap \<Rightarrow> coins_error + 'b CCoinsViewCache" where
  "batch_entries mem c [] = Inr c"
| "batch_entries mem c (it # mapCoins) = ebind (batch_entry mem c it) (\<lambda>c. batch_entries mem c mapCoins)"

definition cache_BatchWrite :: "(Coin \<Rightarrow> u64) \<Rightarrow> 'b CCoinsViewCache \<Rightarrow> CCoinsMap \<Rightarrow> uint256 \<Rightarrow> coins_error + 'b CCoinsViewCache" where
  "cache_BatchWrite mem c mapCoins hashBlockIn = ebind (batch_entries mem c mapCoins) (\<lambda>c. Inr (c\<lparr>hashBlock := hashBlockIn\<rparr>))"

definition Flush :: "('b \<Rightarrow> CCoinsMap \<Rightarrow> uint256 \<Rightarrow> coins_error + 'b) \<Rightarrow> 'b CCoinsViewCache \<Rightarrow> coins_error + 'b CCoinsViewCache" where
  "Flush batchWrite c =
     ebind (batchWrite (base c) (cacheCoins c) (hashBlock c)) (\<lambda>b. Inr (c\<lparr>base := b, cacheCoins := [], cachedCoinsUsage := 0\<rparr>))"

definition Uncache :: "(Coin \<Rightarrow> u64) \<Rightarrow> 'b CCoinsViewCache \<Rightarrow> COutPoint \<Rightarrow> 'b CCoinsViewCache" where
  "Uncache mem c outpoint =
     (case map_of (cacheCoins c) outpoint of
        Some e \<Rightarrow> if entry_flags e = 0
                  then c\<lparr>cacheCoins := AList.delete outpoint (cacheCoins c), cachedCoinsUsage := cachedCoinsUsage c - mem (entry_coin e)\<rparr>
                  else c
      | None \<Rightarrow> c)"

definition GetCacheSize :: "'b CCoinsViewCache \<Rightarrow> nat" where
  "GetCacheSize c = length (cacheCoins c)"

fun have_all :: "'b get_coin \<Rightarrow> (Coin \<Rightarrow> u64) \<Rightarrow> 'b CCoinsViewCache \<Rightarrow> CTxIn list \<Rightarrow> bool \<times> 'b CCoinsViewCache" where
  "have_all get mem c [] = (True, c)"
| "have_all get mem c (txin # ins) =
     (case HaveCoin get mem c (prevout txin) of
        (True, c) \<Rightarrow> have_all get mem c ins
      | (False, c) \<Rightarrow> (False, c))"

definition HaveInputs :: "'b get_coin \<Rightarrow> (Coin \<Rightarrow> u64) \<Rightarrow> 'b CCoinsViewCache \<Rightarrow> CTransaction \<Rightarrow> bool \<times> 'b CCoinsViewCache" where
  "HaveInputs get mem c tx = (if \<not> IsCoinBase tx then have_all get mem c (vin tx) else (True, c))"

definition tx_outpoint :: "uint256 \<Rightarrow> nat \<Rightarrow> COutPoint" where
  "tx_outpoint txid i = \<lparr>op_hash = txid, op_n = word_of_nat i\<rparr>"

text \<open>The loop of \<^verbatim>\<open>AddCoins\<close> from output \<open>i\<close> on.\<close>

fun add_outputs ::
  "'b get_coin \<Rightarrow> (Coin \<Rightarrow> u64) \<Rightarrow> (bytes \<Rightarrow> uint256) \<Rightarrow> CTransaction \<Rightarrow> int \<Rightarrow> bool \<Rightarrow> bool \<Rightarrow> nat list \<Rightarrow> 'b CCoinsViewCache \<Rightarrow>
   coins_error + 'b CCoinsViewCache" where
  "add_outputs get mem Hash tx h check_for_overwrite skipZeroValue [] c = Inr c"
| "add_outputs get mem Hash tx h check_for_overwrite skipZeroValue (i # is) c =
     (let out = tx_outpoint (tx_ComputeHash Hash tx) i;
          (overwrite, c) = (if check_for_overwrite then HaveCoin get mem c out else (IsCoinBase tx, c))
      in ebind (AddCoin mem c out (make_Coin (vout tx ! i) h (IsCoinBase tx) (IsCoinStake tx) (tx_nTime tx)) overwrite skipZeroValue)
           (add_outputs get mem Hash tx h check_for_overwrite skipZeroValue is))"

definition AddCoins ::
  "'b get_coin \<Rightarrow> (Coin \<Rightarrow> u64) \<Rightarrow> (bytes \<Rightarrow> uint256) \<Rightarrow> 'b CCoinsViewCache \<Rightarrow> CTransaction \<Rightarrow> int \<Rightarrow> bool \<Rightarrow> bool \<Rightarrow>
   coins_error + 'b CCoinsViewCache" where
  "AddCoins get mem Hash c tx h check_for_overwrite skipZeroValue =
     add_outputs get mem Hash tx h check_for_overwrite skipZeroValue [0..<length (vout tx)] c"

definition MAX_OUTPUTS_PER_BLOCK :: nat where
  "MAX_OUTPUTS_PER_BLOCK = 4000000 div (4 * length (ser_CTxOut CTxOut_null))"

fun access_from :: "'b get_coin \<Rightarrow> (Coin \<Rightarrow> u64) \<Rightarrow> uint256 \<Rightarrow> nat list \<Rightarrow> 'b CCoinsViewCache \<Rightarrow> Coin \<times> 'b CCoinsViewCache" where
  "access_from get mem txid [] c = (Coin_empty, c)"
| "access_from get mem txid (n # ns) c =
     (let (alternate, c) = AccessCoin get mem c (tx_outpoint txid n)
      in if \<not> IsSpent alternate then (alternate, c) else access_from get mem txid ns c)"

definition AccessByTxid :: "'b get_coin \<Rightarrow> (Coin \<Rightarrow> u64) \<Rightarrow> 'b CCoinsViewCache \<Rightarrow> uint256 \<Rightarrow> Coin \<times> 'b CCoinsViewCache" where
  "AccessByTxid get mem c txid = access_from get mem txid [0..<MAX_OUTPUTS_PER_BLOCK] c"

subsection \<open>The database\<close>

text \<open>The keys of the coin database; a batch of writes is applied at once.\<close>

record CCoinsViewDB =
  db_coins :: "COutPoint \<rightharpoonup> Coin"
  db_best :: "uint256 option"
  db_heads :: "(uint256 \<times> uint256) option"

datatype db_op = Write_coin COutPoint Coin | Erase_coin COutPoint | Write_best uint256 | Erase_best
  | Write_heads "uint256 \<times> uint256" | Erase_heads

fun apply_op :: "CCoinsViewDB \<Rightarrow> db_op \<Rightarrow> CCoinsViewDB" where
  "apply_op db (Write_coin out coin) = db\<lparr>db_coins := (db_coins db)(out \<mapsto> coin)\<rparr>"
| "apply_op db (Erase_coin out) = db\<lparr>db_coins := (db_coins db)(out := None)\<rparr>"
| "apply_op db (Write_best h) = db\<lparr>db_best := Some h\<rparr>"
| "apply_op db Erase_best = db\<lparr>db_best := None\<rparr>"
| "apply_op db (Write_heads hs) = db\<lparr>db_heads := Some hs\<rparr>"
| "apply_op db Erase_heads = db\<lparr>db_heads := None\<rparr>"

definition WriteBatch :: "CCoinsViewDB \<Rightarrow> db_op list \<Rightarrow> CCoinsViewDB" where
  "WriteBatch db batch = foldl apply_op db batch"

definition db_GetCoin :: "CCoinsViewDB get_coin" where
  "db_GetCoin db outpoint = (db_coins db outpoint, db)"

definition db_GetBestBlock :: "CCoinsViewDB \<Rightarrow> uint256 \<times> CCoinsViewDB" where
  "db_GetBestBlock db = (case db_best db of Some h \<Rightarrow> h | None \<Rightarrow> uint256_null, db)"

text \<open>
  The loop over the entries; \<open>full\<close> tells whether a batch exceeds the batch size. The result lists
  the states of the database after each partial write, with the last batch still to be written.
\<close>

fun db_entries ::
  "(db_op list \<Rightarrow> bool) \<Rightarrow> CCoinsMap \<Rightarrow> db_op list \<Rightarrow> CCoinsViewDB list \<Rightarrow> CCoinsViewDB \<Rightarrow> CCoinsViewDB list \<times> CCoinsViewDB \<times> db_op list" where
  "db_entries full [] batch states db = (states, db, batch)"
| "db_entries full ((outpoint, e) # mapCoins) batch states db =
     (let batch = (if entry_flags e AND DIRTY \<noteq> 0
                   then batch @ [if IsSpent (entry_coin e) then Erase_coin outpoint else Write_coin outpoint (entry_coin e)]
                   else batch)
      in if full batch
         then let db = WriteBatch db batch in db_entries full mapCoins [] (states @ [db]) db
         else db_entries full mapCoins batch states db)"

definition db_BatchWrite_states ::
  "(db_op list \<Rightarrow> bool) \<Rightarrow> CCoinsViewDB \<Rightarrow> CCoinsMap \<Rightarrow> uint256 \<Rightarrow> coins_error + CCoinsViewDB list" where
  "db_BatchWrite_states full db mapCoins hash =
     (if blob_IsNull hash then Inl Assertion_failed
      else let old_tip = fst (db_GetBestBlock db);
               replay = (blob_IsNull old_tip \<and> db_heads db \<noteq> None)
           in if replay \<and> fst (the (db_heads db)) \<noteq> hash then Inl Assertion_failed
              else let old_tip = (if replay then snd (the (db_heads db)) else old_tip);
                       (states, db, batch) = db_entries full mapCoins [Erase_best, Write_heads (hash, old_tip)] [] db
                   in Inr (states @ [WriteBatch db (batch @ [Erase_heads, Write_best hash])]))"

definition db_BatchWrite :: "(db_op list \<Rightarrow> bool) \<Rightarrow> CCoinsViewDB \<Rightarrow> CCoinsMap \<Rightarrow> uint256 \<Rightarrow> coins_error + CCoinsViewDB" where
  "db_BatchWrite full db mapCoins hash = ebind (db_BatchWrite_states full db mapCoins hash) (\<lambda>states. Inr (last states))"

subsection \<open>What a view promises\<close>

text \<open>
  A view stands for a set of unspent outputs and a best block. Looking up returns what the set holds and
  changes neither; writing a batch of entries applies the dirty ones.
\<close>

definition entry_value :: "CCoinsCacheEntry \<Rightarrow> Coin option" where
  "entry_value e = (if IsSpent (entry_coin e) then None else Some (entry_coin e))"

definition apply_entries :: "CCoinsMap \<Rightarrow> (COutPoint \<rightharpoonup> Coin) \<Rightarrow> (COutPoint \<rightharpoonup> Coin)" where
  "apply_entries m u = (\<lambda>out. case map_of m out of Some e \<Rightarrow> if is_dirty e then entry_value e else u out | None \<Rightarrow> u out)"

definition entries_ok :: "(COutPoint \<rightharpoonup> Coin) \<Rightarrow> CCoinsMap \<Rightarrow> bool" where
  "entries_ok u m \<longleftrightarrow> distinct (map fst m) \<and> (\<forall>out e. (out, e) \<in> set m \<longrightarrow> is_fresh e \<longrightarrow> u out = None)"

locale coins_view =
  fixes get :: "'b get_coin"
    and best :: "'b \<Rightarrow> uint256 \<times> 'b"
    and batchWrite :: "'b \<Rightarrow> CCoinsMap \<Rightarrow> uint256 \<Rightarrow> coins_error + 'b"
    and utxo :: "'b \<Rightarrow> COutPoint \<rightharpoonup> Coin"
    and tip :: "'b \<Rightarrow> uint256"
    and ok :: "'b \<Rightarrow> bool"
  assumes get_law: "ok b \<Longrightarrow> get b out = (r, b') \<Longrightarrow> r = utxo b out \<and> utxo b' = utxo b \<and> tip b' = tip b \<and> ok b'"
    and unspent_law: "ok b \<Longrightarrow> utxo b out = Some coin \<Longrightarrow> \<not> IsSpent coin"
    and best_law: "ok b \<Longrightarrow> best b = (h, b') \<Longrightarrow> h = tip b \<and> utxo b' = utxo b \<and> tip b' = tip b \<and> ok b'"
    and write_law: "ok b \<Longrightarrow> entries_ok (utxo b) m \<Longrightarrow> \<not> blob_IsNull h \<Longrightarrow>
      \<exists>b'. batchWrite b m h = Inr b' \<and> ok b' \<and> tip b' = h \<and> utxo b' = apply_entries m (utxo b)"

subsection \<open>Flags and usage\<close>

lemma flag_bits: "(f :: u8) AND DIRTY = 0 \<longleftrightarrow> \<not> bit f 0" "f AND FRESH = 0 \<longleftrightarrow> \<not> bit f 1"
proof -
  have "f AND 1 = of_bool (bit f 0)" by (rule bit_word_eqI) (auto simp: bit_simps)
  then show "f AND DIRTY = 0 \<longleftrightarrow> \<not> bit f 0" by (simp add: DIRTY_def)
  have b: "bit (f AND FRESH) n \<longleftrightarrow> n = 1 \<and> bit f 1" for n by (auto simp: FRESH_def bit_simps)
  have "f AND FRESH = 0" if "\<not> bit f 1" by (rule bit_word_eqI) (simp only: b that, simp)
  then show "f AND FRESH = 0 \<longleftrightarrow> \<not> bit f 1" using b [of 1] by (auto simp del: One_nat_def)
qed

lemma is_flag: "is_dirty e \<longleftrightarrow> bit (entry_flags e) 0" "is_fresh e \<longleftrightarrow> bit (entry_flags e) 1"
  by (simp_all add: is_dirty_def is_fresh_def flag_bits)

lemma flag_values: "bit DIRTY n \<longleftrightarrow> n = 0" "bit FRESH n \<longleftrightarrow> n = 1"
  by (auto simp: DIRTY_def FRESH_def bit_simps)

lemmas flag_simps = flag_bits is_flag flag_values bit_or_iff

definition usage_of :: "(Coin \<Rightarrow> u64) \<Rightarrow> CCoinsMap \<Rightarrow> u64" where
  "usage_of mem m = sum_list (map (\<lambda>(out, e). mem (entry_coin e)) m)"

lemma usage_simps [simp]: "usage_of mem [] = 0" "usage_of mem ((out, e) # m) = mem (entry_coin e) + usage_of mem m"
  by (simp_all add: usage_of_def)

lemma usage_update: "distinct (map fst m) \<Longrightarrow>
    usage_of mem (AList.update out e m) = usage_of mem m - (case map_of m out of Some e0 \<Rightarrow> mem (entry_coin e0) | None \<Rightarrow> 0) + mem (entry_coin e)"
  by (induction m) auto

lemma usage_delete: "distinct (map fst m) \<Longrightarrow>
    usage_of mem (AList.delete out m) = usage_of mem m - (case map_of m out of Some e0 \<Rightarrow> mem (entry_coin e0) | None \<Rightarrow> 0)"
proof (induction m)
  case (Cons p m)
  have "AList.delete out m = m" if "out \<notin> fst ` set m" using that by (simp add: AList.delete_idem)
  then show ?case using Cons by (cases p) (auto simp: map_of_eq_None_iff [symmetric])
qed simp

subsection \<open>What a cache stands for\<close>

definition cache_utxo :: "('b \<Rightarrow> COutPoint \<rightharpoonup> Coin) \<Rightarrow> 'b CCoinsViewCache \<Rightarrow> COutPoint \<rightharpoonup> Coin" where
  "cache_utxo utxo c = (\<lambda>out. case map_of (cacheCoins c) out of Some e \<Rightarrow> entry_value e | None \<Rightarrow> utxo (base c) out)"

definition cache_tip :: "('b \<Rightarrow> uint256) \<Rightarrow> 'b CCoinsViewCache \<Rightarrow> uint256" where
  "cache_tip tip c = (if blob_IsNull (hashBlock c) then tip (base c) else hashBlock c)"

definition entry_ok :: "Coin option \<Rightarrow> CCoinsCacheEntry \<Rightarrow> bool" where
  "entry_ok below e \<longleftrightarrow> (is_fresh e \<longrightarrow> below = None) \<and> (\<not> is_dirty e \<longrightarrow> below = entry_value e)"

definition cache_ok :: "('b \<Rightarrow> bool) \<Rightarrow> ('b \<Rightarrow> COutPoint \<rightharpoonup> Coin) \<Rightarrow> (Coin \<Rightarrow> u64) \<Rightarrow> 'b CCoinsViewCache \<Rightarrow> bool" where
  "cache_ok ok utxo mem c \<longleftrightarrow> ok (base c) \<and> distinct (map fst (cacheCoins c)) \<and>
     (\<forall>out e. map_of (cacheCoins c) out = Some e \<longrightarrow> entry_ok (utxo (base c) out) e) \<and>
     cachedCoinsUsage c = usage_of mem (cacheCoins c)"

lemma cache_okD:
  assumes "cache_ok ok utxo mem c"
  shows "ok (base c)" "distinct (map fst (cacheCoins c))" "map_of (cacheCoins c) out = Some e \<Longrightarrow> entry_ok (utxo (base c) out) e"
    "cachedCoinsUsage c = usage_of mem (cacheCoins c)"
  using assms by (auto simp: cache_ok_def)

lemma cache_ok_update:
  assumes "cache_ok ok utxo mem c" "entry_ok (utxo (base c) out) e"
    "n = cachedCoinsUsage c - (case map_of (cacheCoins c) out of Some e0 \<Rightarrow> mem (entry_coin e0) | None \<Rightarrow> 0) + mem (entry_coin e)"
  shows "cache_ok ok utxo mem (c\<lparr>cacheCoins := AList.update out e (cacheCoins c), cachedCoinsUsage := n\<rparr>)"
  using assms by (auto simp: cache_ok_def usage_update distinct_update update_conv')

lemma cache_ok_delete:
  assumes "cache_ok ok utxo mem c"
    "n = cachedCoinsUsage c - (case map_of (cacheCoins c) out of Some e0 \<Rightarrow> mem (entry_coin e0) | None \<Rightarrow> 0)"
  shows "cache_ok ok utxo mem (c\<lparr>cacheCoins := AList.delete out (cacheCoins c), cachedCoinsUsage := n\<rparr>)"
  using assms by (auto simp: cache_ok_def usage_delete distinct_delete delete_conv' split: if_splits)

lemma cache_ok_insert:
  assumes "cache_ok ok utxo mem c" "map_of (cacheCoins c) out = None" "entry_ok (utxo (base c) out) e"
    "n = cachedCoinsUsage c + mem (entry_coin e)"
  shows "cache_ok ok utxo mem (c\<lparr>cacheCoins := (out, e) # cacheCoins c, cachedCoinsUsage := n\<rparr>)"
  using assms by (auto simp: cache_ok_def map_of_eq_None_iff image_iff)

lemma utxo_update: "cache_utxo utxo (c\<lparr>cacheCoins := AList.update out e (cacheCoins c), cachedCoinsUsage := n\<rparr>) = (cache_utxo utxo c)(out := entry_value e)"
  by (rule ext) (simp add: cache_utxo_def update_conv' split: option.split)

lemma utxo_delete: "utxo (base c) out = None \<Longrightarrow>
    cache_utxo utxo (c\<lparr>cacheCoins := AList.delete out (cacheCoins c), cachedCoinsUsage := n\<rparr>) = (cache_utxo utxo c)(out := None)"
  by (rule ext) (simp add: cache_utxo_def delete_conv' split: option.split)

lemma utxo_insert: "cache_utxo utxo (c\<lparr>cacheCoins := (out, e) # cacheCoins c, cachedCoinsUsage := n\<rparr>) = (cache_utxo utxo c)(out := entry_value e)"
  by (rule ext) (simp add: cache_utxo_def split: option.split)

lemmas utxo_cases = utxo_update utxo_delete utxo_insert

lemma cache_utxo_hash [simp]: "cache_utxo utxo (c\<lparr>hashBlock := h\<rparr>) = cache_utxo utxo c"
  by (rule ext) (simp add: cache_utxo_def split: option.split)

lemma cache_utxo_base: "utxo b = utxo (base c) \<Longrightarrow> cache_utxo utxo (c\<lparr>base := b\<rparr>) = cache_utxo utxo c"
  by (rule ext) (simp add: cache_utxo_def split: option.split)

lemma cache_tip_coins [simp]: "cache_tip tip (c\<lparr>cacheCoins := m, cachedCoinsUsage := n\<rparr>) = cache_tip tip c"
  by (simp add: cache_tip_def)

subsection \<open>The operations of a cache\<close>

locale coins_cache = coins_view +
  fixes mem :: "Coin \<Rightarrow> u64"
  assumes mem_empty: "mem Coin_empty = 0"
begin

abbreviation cok where "cok \<equiv> cache_ok ok utxo mem"
abbreviation cu where "cu \<equiv> cache_utxo utxo"
abbreviation ct where "ct \<equiv> cache_tip tip"

lemma FetchCoin_spec:
  assumes c: "cok c" and f: "FetchCoin get mem c out = (r, c')"
  shows "cok c'" "cu c' = cu c" "ct c' = ct c" "hashBlock c' = hashBlock c" "map_of (cacheCoins c') out = r"
    "(case r of None \<Rightarrow> None | Some e \<Rightarrow> entry_value e) = cu c out"
proof -
  have "cok c' \<and> cu c' = cu c \<and> ct c' = ct c \<and> hashBlock c' = hashBlock c \<and> map_of (cacheCoins c') out = r \<and>
    (case r of None \<Rightarrow> None | Some e \<Rightarrow> entry_value e) = cu c out"
  proof (cases "map_of (cacheCoins c) out")
    case (Some e)
    then have "r = Some e" "c' = c" using f by (simp_all add: FetchCoin_def)
    then show ?thesis using c Some by (simp add: cache_utxo_def)
  next
    case None
    obtain g b where g: "get (base c) out = (g, b)" by fastforce
    note law = get_law [OF cache_okD(1) [OF c] g]
    let ?c = "c\<lparr>base := b\<rparr>"
    have c1: "cok ?c" "cu ?c = cu c" "ct ?c = ct c" "cu c out = g"
      using c law None by (auto simp: cache_ok_def cache_utxo_def cache_tip_def intro!: ext split: option.split)
    show ?thesis
    proof (cases g)
      case None
      then have "r = None" "c' = ?c" using f g \<open>map_of (cacheCoins c) out = None\<close> by (simp_all add: FetchCoin_def)
      then show ?thesis using c1 None \<open>map_of (cacheCoins c) out = None\<close> by simp
    next
      case (Some tmp)
      let ?e = "\<lparr>entry_coin = tmp, entry_flags = 0\<rparr>"
      have us: "\<not> IsSpent tmp" using law unspent_law [OF cache_okD(1) [OF c], of out] Some by auto
      have e: "entry_value ?e = Some tmp" "\<not> is_fresh ?e" "\<not> is_dirty ?e" using us by (simp_all add: entry_value_def is_flag)
      have r: "r = Some ?e" "c' = ?c\<lparr>cacheCoins := (out, ?e) # cacheCoins ?c, cachedCoinsUsage := cachedCoinsUsage ?c + mem tmp\<rparr>"
        using f g None Some us by (simp_all add: FetchCoin_def Let_def)
      have "cok c'" unfolding r(2) using None e law Some by (intro cache_ok_insert [OF c1(1)]) (auto simp: entry_ok_def)
      moreover have "cu c' = cu c" unfolding r(2) utxo_insert using c1 e(1) Some by auto
      ultimately show ?thesis using c1 r e(1) Some by simp
    qed
  qed
  then show "cok c'" "cu c' = cu c" "ct c' = ct c" "hashBlock c' = hashBlock c" "map_of (cacheCoins c') out = r"
    "(case r of None \<Rightarrow> None | Some e \<Rightarrow> entry_value e) = cu c out" by simp_all
qed

lemma unspent: "cok c \<Longrightarrow> cu c out = Some coin \<Longrightarrow> \<not> IsSpent coin"
  using unspent_law [of "base c" out coin] cache_okD(1) [of ok utxo mem c] by (auto simp: cache_utxo_def entry_value_def split: option.splits if_splits)

lemma GetCoin_spec:
  assumes "cok c" "cache_GetCoin get mem c out = (r, c')"
  shows "r = cu c out \<and> cu c' = cu c \<and> ct c' = ct c \<and> cok c'"
proof -
  obtain e d where "FetchCoin get mem c out = (e, d)" by fastforce
  then show ?thesis using FetchCoin_spec [OF assms(1), of out e d] assms(2)
    by (cases e) (auto simp: cache_GetCoin_def entry_value_def)
qed

lemma HaveCoin_spec:
  assumes "cok c" "HaveCoin get mem c out = (r, c')"
  shows "r = (cu c out \<noteq> None) \<and> cu c' = cu c \<and> ct c' = ct c \<and> cok c' \<and> hashBlock c' = hashBlock c"
proof -
  obtain e d where "FetchCoin get mem c out = (e, d)" by fastforce
  then show ?thesis using FetchCoin_spec [OF assms(1), of out e d] assms(2)
    by (cases e) (auto simp: HaveCoin_def entry_value_def dest: sym split: if_splits)
qed

lemma AccessCoin_spec:
  assumes "cok c" "AccessCoin get mem c out = (r, c')"
  shows "(if IsSpent r then None else Some r) = cu c out \<and> cu c' = cu c \<and> ct c' = ct c \<and> cok c' \<and> hashBlock c' = hashBlock c"
proof -
  obtain e d where "FetchCoin get mem c out = (e, d)" by fastforce
  then show ?thesis using FetchCoin_spec [OF assms(1), of out e d] assms(2)
    by (cases e) (auto simp: AccessCoin_def entry_value_def Coin_empty_def IsSpent_def CTxOut_IsNull_def CTxOut_null_def)
qed

lemma SpendCoin_spec:
  assumes "cok c" "SpendCoin get mem c out = (r, c')"
  shows "(case r of Some coin \<Rightarrow> if IsSpent coin then None else Some coin | None \<Rightarrow> None) = cu c out \<and>
    cu c' = (cu c)(out := None) \<and> ct c' = ct c \<and> cok c' \<and> hashBlock c' = hashBlock c"
proof -
  obtain e d where f: "FetchCoin get mem c out = (e, d)" by fastforce
  note F = FetchCoin_spec [OF assms(1) f]
  show ?thesis
  proof (cases e)
    case None
    then have "r = None" "c' = d" using f assms(2) by (simp_all add: SpendCoin_def)
    then show ?thesis using F None by auto
  next
    case (Some x)
    have x: "map_of (cacheCoins d) out = Some x" using F(5) Some by simp
    have ok: "entry_ok (utxo (base d) out) x" by (rule cache_okD(3) [OF F(1) x])
    let ?e = "\<lparr>entry_coin = Coin_empty, entry_flags = entry_flags x OR DIRTY\<rparr>"
    have r: "r = Some (entry_coin x)" using f Some assms(2) by (auto simp: SpendCoin_def Let_def)
    have v: "entry_value ?e = None" by (simp add: entry_value_def Coin_empty_def IsSpent_def CTxOut_IsNull_def CTxOut_null_def)
    show ?thesis
    proof (cases "is_fresh x")
      case True
      then have c': "c' = d\<lparr>cacheCoins := AList.delete out (cacheCoins d), cachedCoinsUsage := cachedCoinsUsage d - mem (entry_coin x)\<rparr>"
        using f Some assms(2) by (auto simp: SpendCoin_def Let_def is_fresh_def)
      have "utxo (base d) out = None" using ok True by (simp add: entry_ok_def)
      then show ?thesis using F r Some x cache_ok_delete [OF F(1), of _ out] unfolding c'
        by (simp add: utxo_delete entry_value_def)
    next
      case False
      then have c': "c' = d\<lparr>cacheCoins := AList.update out ?e (cacheCoins d), cachedCoinsUsage := cachedCoinsUsage d - mem (entry_coin x)\<rparr>"
        using f Some assms(2) by (auto simp: SpendCoin_def Let_def is_fresh_def)
      have "entry_ok (utxo (base d) out) ?e" using ok False by (simp add: entry_ok_def flag_simps)
      then show ?thesis using F r Some x v cache_ok_update [OF F(1), of out ?e] unfolding c'
        by (simp add: utxo_update entry_value_def mem_empty)
    qed
  qed
qed

lemma AddCoin_spec:
  assumes c: "cok c" and u: "\<not> IsSpent coin" and ow: "possible_overwrite \<or> cu c out = None"
  shows "\<exists>c'. AddCoin mem c out coin possible_overwrite skip = Inr c' \<and> cok c' \<and> ct c' = ct c \<and> hashBlock c' = hashBlock c \<and>
    cu c' = (if IsUnspendable (scriptPubKey (coin_out coin)) \<or> nValue (coin_out coin) = 0 \<and> skip then cu c else (cu c)(out \<mapsto> coin))"
proof (cases "IsUnspendable (scriptPubKey (coin_out coin)) \<or> nValue (coin_out coin) = 0 \<and> skip")
  case True
  then show ?thesis using c u by (auto simp: AddCoin_def)
next
  case False
  define e where "e = (case map_of (cacheCoins c) out of Some e \<Rightarrow> e | None \<Rightarrow> CCoinsCacheEntry_default)"
  have es: "IsSpent (entry_coin e)" if "\<not> possible_overwrite"
    using ow that by (auto simp: e_def cache_utxo_def entry_value_def CCoinsCacheEntry_default_def Coin_empty_def IsSpent_def
        CTxOut_IsNull_def CTxOut_null_def split: option.splits if_splits)
  define fresh where "fresh = (\<not> possible_overwrite \<and> entry_flags e AND DIRTY = 0)"
  define e' where "e' = \<lparr>entry_coin = coin, entry_flags = entry_flags e OR DIRTY OR (if fresh then FRESH else 0)\<rparr>"
  define n where "n = cachedCoinsUsage c - (case map_of (cacheCoins c) out of Some e0 \<Rightarrow> mem (entry_coin e0) | None \<Rightarrow> 0) + mem coin"
  have add: "AddCoin mem c out coin possible_overwrite skip = Inr (c\<lparr>cacheCoins := AList.update out e' (cacheCoins c), cachedCoinsUsage := n\<rparr>)"
    using False u es unfolding AddCoin_def Let_def e_def [symmetric] fresh_def [symmetric] e'_def [symmetric]
    by (cases "map_of (cacheCoins c) out") (auto simp: n_def e_def)
  have "utxo (base c) out = None" if "is_fresh e'"
  proof (cases "map_of (cacheCoins c) out")
    case None
    then have "fresh" using that by (simp add: e'_def flag_simps e_def CCoinsCacheEntry_default_def split: if_splits)
    then show ?thesis using ow None by (auto simp: fresh_def cache_utxo_def)
  next
    case (Some x)
    then have ex: "e = x" by (simp add: e_def)
    have "is_fresh x \<or> fresh" using that ex by (auto simp: e'_def flag_simps split: if_splits)
    then show ?thesis using cache_okD(3) [OF c Some] es ex by (auto simp: entry_ok_def fresh_def is_dirty_def entry_value_def)
  qed
  then have "entry_ok (utxo (base c) out) e'" by (simp add: entry_ok_def e'_def flag_simps)
  then have "cok (c\<lparr>cacheCoins := AList.update out e' (cacheCoins c), cachedCoinsUsage := n\<rparr>)"
    by (rule cache_ok_update [OF c]) (simp add: n_def e'_def)
  moreover have "entry_value e' = Some coin" using u by (simp add: entry_value_def e'_def)
  ultimately show ?thesis using add False by (auto simp: utxo_update)
qed

lemma AddCoin_overwrite:
  assumes "\<not> IsSpent coin" "\<not> IsUnspendable (scriptPubKey (coin_out coin))" "nValue (coin_out coin) \<noteq> 0 \<or> \<not> skip" "HaveCoinInCache c out"
  shows "AddCoin mem c out coin False skip = Inl Overwrite_unspent"
  using assms by (auto simp: AddCoin_def HaveCoinInCache_def Let_def split: option.splits)

lemma Uncache_spec: "cok c \<Longrightarrow> cok (Uncache mem c out) \<and> cu (Uncache mem c out) = cu c \<and> ct (Uncache mem c out) = ct c"
proof (cases "\<exists>e. map_of (cacheCoins c) out = Some e \<and> entry_flags e = 0")
  case True
  assume c: "cok c"
  obtain e where e: "map_of (cacheCoins c) out = Some e" "entry_flags e = 0" using True by blast
  have "utxo (base c) out = entry_value e" using cache_okD(3) [OF c e(1)] e(2) by (simp add: entry_ok_def flag_simps)
  then have "cu (Uncache mem c out) = cu c" using e by (auto simp: Uncache_def cache_utxo_def delete_conv' split: option.splits)
  then show ?thesis using cache_ok_delete [OF c, of _ out] e by (simp add: Uncache_def)
qed (auto simp: Uncache_def split: option.splits)

end

lemma apply_entries_Cons:
  "out \<notin> fst ` set m \<Longrightarrow> apply_entries ((out, e) # m) u = apply_entries m (if is_dirty e then u(out := entry_value e) else u)"
  by (rule ext) (auto simp: apply_entries_def map_of_eq_None_iff [symmetric] split: option.split)

context coins_cache
begin

lemma batch_entry_spec:
  assumes c: "cok c" and fr: "is_fresh e \<Longrightarrow> cu c out = None"
  shows "\<exists>c'. batch_entry mem c (out, e) = Inr c' \<and> cok c' \<and> hashBlock c' = hashBlock c \<and> base c' = base c \<and>
    cu c' = (if is_dirty e then (cu c)(out := entry_value e) else cu c)"
proof (cases "is_dirty e")
  case False
  then show ?thesis using c by (simp add: batch_entry_def is_dirty_def)
next
  case True
  then have d: "\<not> entry_flags e AND DIRTY = 0" by (simp add: is_dirty_def)
  show ?thesis
  proof (cases "map_of (cacheCoins c) out")
    case None
    then have below: "is_fresh e \<Longrightarrow> utxo (base c) out = None" using fr by (simp add: cache_utxo_def)
    show ?thesis
    proof (cases "is_fresh e \<and> IsSpent (entry_coin e)")
      case True
      then have "cu c out = None" "entry_value e = None" using fr by (simp_all add: entry_value_def)
      then have "(cu c)(out := entry_value e) = cu c" by auto
      then show ?thesis using True None d c \<open>is_dirty e\<close> by (auto simp: batch_entry_def is_fresh_def)
    next
      case False
      let ?e = "\<lparr>entry_coin = entry_coin e, entry_flags = (if entry_flags e AND FRESH \<noteq> 0 then DIRTY OR FRESH else DIRTY)\<rparr>"
      have "entry_ok (utxo (base c) out) ?e" using below by (auto simp: entry_ok_def flag_simps)
      then have "cok (c\<lparr>cacheCoins := (out, ?e) # cacheCoins c, cachedCoinsUsage := cachedCoinsUsage c + mem (entry_coin e)\<rparr>)"
        by (intro cache_ok_insert [OF c None]) simp_all
      moreover have "entry_value ?e = entry_value e" by (simp add: entry_value_def)
      ultimately show ?thesis using False None d True by (auto simp: batch_entry_def is_fresh_def utxo_insert)
    qed
  next
    case (Some us)
    have us: "entry_ok (utxo (base c) out) us" "cu c out = entry_value us"
      using cache_okD(3) [OF c Some] Some by (simp_all add: cache_utxo_def)
    then have nm: "\<not> (is_fresh e \<and> \<not> IsSpent (entry_coin us))" using fr by (auto simp: entry_value_def split: if_splits)
    show ?thesis
    proof (cases "is_fresh us \<and> IsSpent (entry_coin e)")
      case True
      then have "utxo (base c) out = None" "entry_value e = None" using us(1) by (simp_all add: entry_ok_def entry_value_def)
      then show ?thesis using True Some d nm \<open>is_dirty e\<close> cache_ok_delete [OF c, of _ out]
        by (simp add: batch_entry_def is_fresh_def utxo_delete)
    next
      case False
      let ?e = "\<lparr>entry_coin = entry_coin e, entry_flags = entry_flags us OR DIRTY\<rparr>"
      have "entry_ok (utxo (base c) out) ?e" using us(1) by (simp add: entry_ok_def flag_simps)
      then have "cok (c\<lparr>cacheCoins := AList.update out ?e (cacheCoins c), cachedCoinsUsage := cachedCoinsUsage c - mem (entry_coin us) + mem (entry_coin e)\<rparr>)"
        by (rule cache_ok_update [OF c]) (simp add: Some)
      moreover have "entry_value ?e = entry_value e" by (simp add: entry_value_def)
      ultimately show ?thesis using False Some d nm True by (auto simp: batch_entry_def is_fresh_def utxo_update)
    qed
  qed
qed

lemma batch_entries_spec:
  assumes "cok c" "entries_ok (cu c) m"
  shows "\<exists>c'. batch_entries mem c m = Inr c' \<and> cok c' \<and> base c' = base c \<and> cu c' = apply_entries m (cu c)"
  using assms
proof (induction m arbitrary: c)
  case Nil
  then show ?case by (simp add: apply_entries_def)
next
  case (Cons p m)
  obtain out e where p: "p = (out, e)" by fastforce
  have ok: "distinct (map fst m)" "out \<notin> fst ` set m" "is_fresh e \<Longrightarrow> cu c out = None"
    "\<And>o2 e2. (o2, e2) \<in> set m \<Longrightarrow> is_fresh e2 \<Longrightarrow> cu c o2 = None"
    using Cons.prems(2) by (auto simp: entries_ok_def p)
  obtain c1 where c1: "batch_entry mem c (out, e) = Inr c1" "cok c1" "base c1 = base c"
    "cu c1 = (if is_dirty e then (cu c)(out := entry_value e) else cu c)"
    using batch_entry_spec [OF Cons.prems(1) ok(3)] by auto
  have "cu c1 o2 = cu c o2" if "(o2, e2) \<in> set m" for o2 e2 using c1(4) ok(2) that by force
  then have "entries_ok (cu c1) m" using ok(1,4) by (simp add: entries_ok_def)
  from Cons.IH [OF c1(2) this] show ?case using c1 ok(2) by (auto simp: p ebind_def apply_entries_Cons)
qed

lemma BatchWrite_spec:
  assumes "cok c" "entries_ok (cu c) m" "\<not> blob_IsNull h"
  shows "\<exists>c'. cache_BatchWrite mem c m h = Inr c' \<and> cok c' \<and> ct c' = h \<and> cu c' = apply_entries m (cu c)"
proof -
  obtain c1 where c1: "batch_entries mem c m = Inr c1" "cok c1" "cu c1 = apply_entries m (cu c)" using batch_entries_spec [OF assms(1,2)] by blast
  have "cok (c1\<lparr>hashBlock := h\<rparr>)" "cu (c1\<lparr>hashBlock := h\<rparr>) = cu c1" "ct (c1\<lparr>hashBlock := h\<rparr>) = h"
    using c1(2) assms(3) by (simp_all add: cache_ok_def cache_tip_def)
  then show ?thesis using c1 by (simp add: cache_BatchWrite_def ebind_def)
qed

lemma GetBestBlock_spec:
  assumes c: "cok c" and g: "cache_GetBestBlock best c = (h, c')"
  shows "h = ct c \<and> cu c' = cu c \<and> ct c' = ct c \<and> cok c'"
proof (cases "blob_IsNull (hashBlock c)")
  case True
  obtain h0 b where b: "best (base c) = (h0, b)" by fastforce
  note law = best_law [OF cache_okD(1) [OF c] b]
  have r: "h = h0" "c' = c\<lparr>base := b, hashBlock := h0\<rparr>" using g b True by (auto simp: cache_GetBestBlock_def)
  have "cu c' = cu c" unfolding r(2) cache_utxo_hash by (rule cache_utxo_base) (use law in simp)
  then show ?thesis using law c True r by (auto simp: cache_ok_def cache_tip_def)
qed (use assms in \<open>auto simp: cache_GetBestBlock_def cache_tip_def\<close>)

text \<open>A cache is a view again.\<close>

lemma cache_is_view:
  "coins_view (cache_GetCoin get mem) (cache_GetBestBlock best) (cache_BatchWrite mem) (cache_utxo utxo) (cache_tip tip) (cache_ok ok utxo mem)"
proof
  show "cok b \<Longrightarrow> cache_GetCoin get mem b out = (r, b') \<Longrightarrow> r = cu b out \<and> cu b' = cu b \<and> ct b' = ct b \<and> cok b'" for b out r b'
    by (rule GetCoin_spec)
  show "cok b \<Longrightarrow> cu b out = Some coin \<Longrightarrow> \<not> IsSpent coin" for b out coin by (rule unspent)
  show "cok b \<Longrightarrow> cache_GetBestBlock best b = (h, b') \<Longrightarrow> h = ct b \<and> cu b' = cu b \<and> ct b' = ct b \<and> cok b'" for b h b'
    by (rule GetBestBlock_spec)
  show "cok b \<Longrightarrow> entries_ok (cu b) m \<Longrightarrow> \<not> blob_IsNull h \<Longrightarrow>
      \<exists>b'. cache_BatchWrite mem b m h = Inr b' \<and> cok b' \<and> ct b' = h \<and> cu b' = apply_entries m (cu b)" for b m h
    by (rule BatchWrite_spec)
qed

lemma entries_of_cache: "cok c \<Longrightarrow> entries_ok (utxo (base c)) (cacheCoins c)"
  by (auto simp: entries_ok_def cache_ok_def entry_ok_def)

lemma apply_cache: "cok c \<Longrightarrow> apply_entries (cacheCoins c) (utxo (base c)) = cu c"
  by (rule ext) (auto simp: apply_entries_def cache_utxo_def cache_ok_def entry_ok_def split: option.split)

lemma Flush_spec:
  assumes c: "cok c" and h: "\<not> blob_IsNull (hashBlock c)"
  shows "\<exists>c'. Flush batchWrite c = Inr c' \<and> cok c' \<and> cu c' = cu c \<and> ct c' = ct c \<and> cacheCoins c' = [] \<and>
    utxo (base c') = cu c \<and> tip (base c') = hashBlock c"
proof -
  obtain b where b: "batchWrite (base c) (cacheCoins c) (hashBlock c) = Inr b" "ok b" "tip b = hashBlock c"
    "utxo b = apply_entries (cacheCoins c) (utxo (base c))"
    using write_law [OF cache_okD(1) [OF c] entries_of_cache [OF c] h] by blast
  have u: "utxo b = cu c" using b(4) apply_cache [OF c] by simp
  have "cu (c\<lparr>base := b, cacheCoins := [], cachedCoinsUsage := 0\<rparr>) = cu c" by (rule ext) (simp add: cache_utxo_def u)
  then show ?thesis using b u h by (simp add: Flush_def ebind_def cache_ok_def cache_tip_def)
qed

lemma HaveInputs_spec:
  assumes "cok c" "HaveInputs get mem c tx = (r, c')"
  shows "r = (IsCoinBase tx \<or> (\<forall>i \<in> set (vin tx). cu c (prevout i) \<noteq> None)) \<and> cu c' = cu c \<and> cok c'"
proof -
  have "cok c \<Longrightarrow> have_all get mem c ins = (r, c') \<Longrightarrow> r = (\<forall>i \<in> set ins. cu c (prevout i) \<noteq> None) \<and> cu c' = cu c \<and> cok c'" for ins c r c'
  proof (induction ins arbitrary: c)
    case (Cons i ins)
    obtain h d where h: "HaveCoin get mem c (prevout i) = (h, d)" by fastforce
    note H = HaveCoin_spec [OF Cons.prems(1) h]
    show ?case using Cons.IH [of d] Cons.prems H h by (cases h) auto
  qed simp
  then show ?thesis using assms by (auto simp: HaveInputs_def split: if_splits)
qed

end

subsection \<open>Adding the outputs of a transaction\<close>

definition output_added :: "CTxOut \<Rightarrow> bool \<Rightarrow> bool" where
  "output_added out skip \<longleftrightarrow> \<not> IsUnspendable (scriptPubKey out) \<and> \<not> (nValue out = 0 \<and> skip)"

definition tx_coin :: "CTransaction \<Rightarrow> int \<Rightarrow> nat \<Rightarrow> Coin" where
  "tx_coin tx h i = make_Coin (vout tx ! i) h (IsCoinBase tx) (IsCoinStake tx) (tx_nTime tx)"

definition add_coins :: "uint256 \<Rightarrow> CTransaction \<Rightarrow> int \<Rightarrow> bool \<Rightarrow> nat set \<Rightarrow> (COutPoint \<rightharpoonup> Coin) \<Rightarrow> (COutPoint \<rightharpoonup> Coin)" where
  "add_coins txid tx h skip is u = (\<lambda>out. let i = unat (op_n out) in
     if op_hash out = txid \<and> i \<in> is \<and> output_added (vout tx ! i) skip then Some (tx_coin tx h i) else u out)"

lemma tx_outpoint_eq: "i < 2 ^ 32 \<Longrightarrow> out = tx_outpoint txid i \<longleftrightarrow> op_hash out = txid \<and> unat (op_n out) = i"
  by (cases out) (auto simp: tx_outpoint_def unat_of_nat word_unat_eq_iff)

lemma tx_coin_spent: "IsSpent (tx_coin tx h i) = CTxOut_IsNull (vout tx ! i)"
  by (simp add: tx_coin_def make_Coin_def IsSpent_def)

lemma tx_coin_out [simp]: "coin_out (tx_coin tx h i) = vout tx ! i"
  by (simp add: tx_coin_def make_Coin_def)

context coins_cache
begin

lemma add_outputs_spec:
  assumes "cok c" "\<forall>i \<in> set is. i < 2 ^ 32 \<and> \<not> CTxOut_IsNull (vout tx ! i)" "distinct is"
    "IsCoinBase tx \<or> (\<forall>i \<in> set is. cu c (tx_outpoint (tx_ComputeHash Hash tx) i) = None)"
  shows "\<exists>c'. add_outputs get mem Hash tx h False skip is c = Inr c' \<and> cok c' \<and> ct c' = ct c \<and> hashBlock c' = hashBlock c \<and>
    cu c' = add_coins (tx_ComputeHash Hash tx) tx h skip (set is) (cu c)"
  using assms
proof (induction "is" arbitrary: c)
  case Nil
  then show ?case by (simp add: add_coins_def Let_def)
next
  case (Cons i "is")
  let ?t = "tx_ComputeHash Hash tx"
  let ?out = "tx_outpoint ?t i"
  have i: "i < 2 ^ 32" "\<not> IsSpent (tx_coin tx h i)" "IsCoinBase tx \<or> cu c ?out = None" using Cons.prems by (auto simp: tx_coin_spent)
  obtain c1 where c1: "AddCoin mem c ?out (tx_coin tx h i) (IsCoinBase tx) skip = Inr c1" "cok c1" "ct c1 = ct c" "hashBlock c1 = hashBlock c"
    "cu c1 = (if output_added (vout tx ! i) skip then (cu c)(?out \<mapsto> tx_coin tx h i) else cu c)"
    using AddCoin_spec [OF Cons.prems(1) i(2,3), of skip] by (auto simp: output_added_def)
  have ne: "tx_outpoint ?t j \<noteq> ?out" if "j \<in> set is" for j
    using tx_outpoint_eq [OF i(1), of "tx_outpoint ?t j" ?t] Cons.prems(2,3) that by (auto simp: tx_outpoint_def unat_of_nat)
  have "IsCoinBase tx \<or> (\<forall>j \<in> set is. cu c1 (tx_outpoint ?t j) = None)" using Cons.prems(4) c1(5) ne by auto
  then obtain c2 where c2: "add_outputs get mem Hash tx h False skip is c1 = Inr c2" "cok c2" "ct c2 = ct c1" "hashBlock c2 = hashBlock c1"
    "cu c2 = add_coins ?t tx h skip (set is) (cu c1)"
    using Cons.IH [OF c1(2)] Cons.prems(2,3) by auto
  have "cu c2 = add_coins ?t tx h skip (set (i # is)) (cu c)"
    unfolding c2(5) c1(5) add_coins_def using tx_outpoint_eq [OF i(1), of _ ?t] Cons.prems(3) by (auto simp: Let_def intro!: ext)
  then show ?case using c1 c2 by (simp add: ebind_def tx_coin_def)
qed

lemma AddCoins_spec:
  assumes "cok c" "\<forall>i < length (vout tx). \<not> CTxOut_IsNull (vout tx ! i)" "length (vout tx) \<le> 2 ^ 32"
    "IsCoinBase tx \<or> (\<forall>i < length (vout tx). cu c (tx_outpoint (tx_ComputeHash Hash tx) i) = None)"
  shows "\<exists>c'. AddCoins get mem Hash c tx h False skip = Inr c' \<and> cok c' \<and> ct c' = ct c \<and> hashBlock c' = hashBlock c \<and>
    cu c' = add_coins (tx_ComputeHash Hash tx) tx h skip {..<length (vout tx)} (cu c)"
  using add_outputs_spec [OF assms(1), of "[0..<length (vout tx)]" tx Hash h skip] assms(2-4)
  by (simp add: AddCoins_def atLeast0LessThan Ball_def)

end

subsection \<open>The database is a view\<close>

definition db_tip :: "CCoinsViewDB \<Rightarrow> uint256" where
  "db_tip db = (case db_best db of Some h \<Rightarrow> h | None \<Rightarrow> uint256_null)"

definition db_ok :: "CCoinsViewDB \<Rightarrow> bool" where
  "db_ok db \<longleftrightarrow> db_heads db = None \<and> (\<forall>out coin. db_coins db out = Some coin \<longrightarrow> \<not> IsSpent coin)"

definition entry_ops :: "CCoinsMap \<Rightarrow> db_op list" where
  "entry_ops m = concat (map (\<lambda>(out, e). if is_dirty e
     then [if IsSpent (entry_coin e) then Erase_coin out else Write_coin out (entry_coin e)] else []) m)"

lemma WriteBatch_append: "WriteBatch db (a @ b) = WriteBatch (WriteBatch db a) b"
  by (simp add: WriteBatch_def)

lemma db_entries_spec:
  "\<exists>ns db' b'. db_entries full m batch states db = (states @ ns, db', b') \<and> WriteBatch db' b' = WriteBatch db (batch @ entry_ops m) \<and>
     (\<forall>st \<in> set ns. \<exists>m1 m2. m = m1 @ m2 \<and> st = WriteBatch db (batch @ entry_ops m1))"
proof (induction m arbitrary: batch states db)
  case Nil
  then show ?case by (simp add: entry_ops_def)
next
  case (Cons p m)
  obtain out e where p: "p = (out, e)" by fastforce
  define b1 where "b1 = batch @ entry_ops [p]"
  have ops: "entry_ops (p # m1) = entry_ops [p] @ entry_ops m1" for m1 by (simp add: entry_ops_def)
  have b1: "b1 = (if entry_flags e AND DIRTY \<noteq> 0
      then batch @ [if IsSpent (entry_coin e) then Erase_coin out else Write_coin out (entry_coin e)] else batch)"
    by (simp add: b1_def entry_ops_def p is_dirty_def)
  have step: "db_entries full (p # m) batch states db =
      (if full b1 then db_entries full m [] (states @ [WriteBatch db b1]) (WriteBatch db b1) else db_entries full m b1 states db)"
    by (simp add: p b1 Let_def)
  have split: "\<exists>k1 k2. p # m = k1 @ k2 \<and> st = WriteBatch db (batch @ entry_ops k1)"
    if "m = m1 @ m2" "st = WriteBatch db (b1 @ entry_ops m1)" for st m1 m2
    using that ops [of m1] by (intro exI [of _ "p # m1"] exI [of _ m2]) (simp add: b1_def)
  show ?case
  proof (cases "full b1")
    case True
    obtain ns db' b' where ns: "db_entries full m [] (states @ [WriteBatch db b1]) (WriteBatch db b1) = ((states @ [WriteBatch db b1]) @ ns, db', b')"
      "WriteBatch db' b' = WriteBatch (WriteBatch db b1) ([] @ entry_ops m)"
      "\<forall>st \<in> set ns. \<exists>m1 m2. m = m1 @ m2 \<and> st = WriteBatch (WriteBatch db b1) ([] @ entry_ops m1)"
      using Cons.IH [of "[]" "states @ [WriteBatch db b1]" "WriteBatch db b1"] by blast
    have "\<exists>k1 k2. p # m = k1 @ k2 \<and> st = WriteBatch db (batch @ entry_ops k1)" if st: "st \<in> set (WriteBatch db b1 # ns)" for st
    proof (cases "st = WriteBatch db b1")
      case True
      then show ?thesis using split [of "[]" m st] by (simp add: entry_ops_def)
    next
      case False
      then obtain m1 m2 where "m = m1 @ m2" "st = WriteBatch db (b1 @ entry_ops m1)" using ns(3) st by (auto simp: WriteBatch_append)
      then show ?thesis by (rule split)
    qed
    then show ?thesis using True step ns(1,2) ops [of m]
      by (intro exI [of _ "WriteBatch db b1 # ns"] exI [of _ db'] exI [of _ b']) (simp add: WriteBatch_append b1_def)
  next
    case False
    obtain ns db' b' where ns: "db_entries full m b1 states db = (states @ ns, db', b')"
      "WriteBatch db' b' = WriteBatch db (b1 @ entry_ops m)"
      "\<forall>st \<in> set ns. \<exists>m1 m2. m = m1 @ m2 \<and> st = WriteBatch db (b1 @ entry_ops m1)"
      using Cons.IH [of b1 states db] by blast
    then show ?thesis using False step ops [of m] split by (intro exI [of _ ns]) (auto simp: b1_def)
  qed
qed

lemma WriteBatch_entries:
  "distinct (map fst m) \<Longrightarrow> WriteBatch db (entry_ops m) = db\<lparr>db_coins := apply_entries m (db_coins db)\<rparr>"
proof (induction m arbitrary: db)
  case Nil
  then show ?case by (simp add: entry_ops_def WriteBatch_def apply_entries_def)
next
  case (Cons p m)
  obtain out e where p: "p = (out, e)" by fastforce
  define db1 where "db1 = WriteBatch db (entry_ops [p])"
  have db1: "db1 = db\<lparr>db_coins := (if is_dirty e then (db_coins db)(out := entry_value e) else db_coins db)\<rparr>"
    by (simp add: db1_def entry_ops_def p WriteBatch_def entry_value_def)
  have "WriteBatch db (entry_ops (p # m)) = WriteBatch db1 (entry_ops m)"
    by (simp add: db1_def WriteBatch_append [symmetric] entry_ops_def)
  also have "\<dots> = db1\<lparr>db_coins := apply_entries m (db_coins db1)\<rparr>" using Cons by simp
  finally show ?case using Cons.prems by (simp add: p db1 apply_entries_Cons)
qed

lemma db_BatchWrite_states_spec:
  assumes ok: "db_heads db = None" and h: "\<not> blob_IsNull hash" and d: "distinct (map fst m)"
  shows "\<exists>partial. db_BatchWrite_states full db m hash =
      Inr (partial @ [db\<lparr>db_coins := apply_entries m (db_coins db), db_best := Some hash, db_heads := None\<rparr>]) \<and>
    (\<forall>st \<in> set partial. \<exists>m1 m2. m = m1 @ m2 \<and>
       st = db\<lparr>db_coins := apply_entries m1 (db_coins db), db_best := None, db_heads := Some (hash, db_tip db)\<rparr>)"
proof -
  let ?b0 = "[Erase_best, Write_heads (hash, db_tip db)]"
  let ?db0 = "db\<lparr>db_best := None, db_heads := Some (hash, db_tip db)\<rparr>"
  have b0: "WriteBatch db ?b0 = ?db0" by (simp add: WriteBatch_def)
  obtain ns db' b' where ns: "db_entries full m ?b0 [] db = (ns, db', b')" "WriteBatch db' b' = WriteBatch db (?b0 @ entry_ops m)"
    "\<forall>st \<in> set ns. \<exists>m1 m2. m = m1 @ m2 \<and> st = WriteBatch db (?b0 @ entry_ops m1)"
    using db_entries_spec [of full m ?b0 "[]" db] by auto
  have w: "WriteBatch db (?b0 @ entry_ops m1) = db\<lparr>db_coins := apply_entries m1 (db_coins db), db_best := None, db_heads := Some (hash, db_tip db)\<rparr>"
    if "distinct (map fst m1)" for m1
    unfolding WriteBatch_append b0 using WriteBatch_entries [OF that, of ?db0] by simp
  have "WriteBatch db' (b' @ [Erase_heads, Write_best hash]) =
      WriteBatch (WriteBatch db (?b0 @ entry_ops m)) [Erase_heads, Write_best hash]"
    by (simp only: WriteBatch_append [of db' b'] ns(2))
  also have "\<dots> = db\<lparr>db_coins := apply_entries m (db_coins db), db_best := Some hash, db_heads := None\<rparr>"
    unfolding w [OF d] by (simp add: WriteBatch_def)
  finally have fin: "WriteBatch db' (b' @ [Erase_heads, Write_best hash]) =
      db\<lparr>db_coins := apply_entries m (db_coins db), db_best := Some hash, db_heads := None\<rparr>" .
  have "db_BatchWrite_states full db m hash = Inr (ns @ [WriteBatch db' (b' @ [Erase_heads, Write_best hash])])"
    using h ok ns(1) by (simp add: db_BatchWrite_states_def Let_def db_GetBestBlock_def db_tip_def)
  moreover have "\<exists>m1 m2. m = m1 @ m2 \<and> st = db\<lparr>db_coins := apply_entries m1 (db_coins db), db_best := None, db_heads := Some (hash, db_tip db)\<rparr>"
    if st: "st \<in> set ns" for st
  proof -
    obtain m1 m2 where "m = m1 @ m2" "st = WriteBatch db (?b0 @ entry_ops m1)" using ns(3) st by blast
    then show ?thesis using w [of m1] d by auto
  qed
  ultimately show ?thesis unfolding fin by blast
qed

lemma db_is_view: "coins_view db_GetCoin db_GetBestBlock (db_BatchWrite full) db_coins db_tip db_ok"
proof
  show "\<exists>b'. db_BatchWrite full b m h = Inr b' \<and> db_ok b' \<and> db_tip b' = h \<and> db_coins b' = apply_entries m (db_coins b)"
    if "db_ok b" "entries_ok (db_coins b) m" "\<not> blob_IsNull h" for b m h
    using db_BatchWrite_states_spec [of b h m full] that
    by (auto simp: db_BatchWrite_def ebind_def db_ok_def entries_ok_def db_tip_def apply_entries_def entry_value_def split: option.splits if_splits)
qed (auto simp: db_GetCoin_def db_GetBestBlock_def db_tip_def db_ok_def)

subsection \<open>The node's stack of views\<close>

text \<open>The heap memory of a script that was read from the wire: none up to 28 bytes, else an allocation of its size.\<close>

definition MallocUsage :: "u64 \<Rightarrow> u64" where
  "MallocUsage alloc = (if alloc = 0 then 0 else push_bit 4 (drop_bit 4 (alloc + 31)))"

definition Coin_DynamicMemoryUsage :: "Coin \<Rightarrow> u64" where
  "Coin_DynamicMemoryUsage c = (let n = length (scriptPubKey (coin_out c)) in MallocUsage (if n \<le> 28 then 0 else word_of_nat n))"

lemma usage_empty: "Coin_DynamicMemoryUsage Coin_empty = 0"
  by (simp add: Coin_DynamicMemoryUsage_def Coin_empty_def CTxOut_null_def MallocUsage_def)

text \<open>\<^verbatim>\<open>CoinsTip()\<close>, a cache over the database, and the view a block is connected in, a cache over that.\<close>

interpretation coins_tip: coins_cache db_GetCoin db_GetBestBlock "db_BatchWrite full" db_coins db_tip db_ok Coin_DynamicMemoryUsage for full
  by (intro coins_cache.intro coins_cache_axioms.intro db_is_view usage_empty)

abbreviation tip_GetCoin where "tip_GetCoin \<equiv> cache_GetCoin db_GetCoin Coin_DynamicMemoryUsage"
abbreviation tip_utxo where "tip_utxo \<equiv> cache_utxo db_coins"
abbreviation tip_ok where "tip_ok \<equiv> cache_ok db_ok db_coins Coin_DynamicMemoryUsage"

interpretation block_view: coins_cache tip_GetCoin "cache_GetBestBlock db_GetBestBlock" "cache_BatchWrite Coin_DynamicMemoryUsage"
  tip_utxo "cache_tip db_tip" tip_ok Coin_DynamicMemoryUsage
  by (intro coins_cache.intro coins_cache_axioms.intro coins_tip.cache_is_view usage_empty)

abbreviation view_utxo where "view_utxo \<equiv> cache_utxo tip_utxo"
abbreviation view_ok where "view_ok \<equiv> cache_ok tip_ok tip_utxo Coin_DynamicMemoryUsage"

subsection \<open>Sequences of operations\<close>

datatype coins_op = Op_Get COutPoint | Op_Have COutPoint | Op_Spend COutPoint | Op_Add COutPoint Coin bool bool | Op_Uncache COutPoint

text \<open>What a client sees of an operation: the unspent coin it returned, or whether there is one.\<close>

datatype coins_obs = Obs_coin "Coin option" | Obs_have bool | Obs_none

fun run_op :: "'b get_coin \<Rightarrow> (Coin \<Rightarrow> u64) \<Rightarrow> 'b CCoinsViewCache \<Rightarrow> coins_op \<Rightarrow> coins_error + coins_obs \<times> 'b CCoinsViewCache" where
  "run_op get mem c (Op_Get out) = (let (r, c) = cache_GetCoin get mem c out in Inr (Obs_coin r, c))"
| "run_op get mem c (Op_Have out) = (let (r, c) = HaveCoin get mem c out in Inr (Obs_have r, c))"
| "run_op get mem c (Op_Spend out) = (let (r, c) = SpendCoin get mem c out
     in Inr (Obs_coin (case r of Some coin \<Rightarrow> if IsSpent coin then None else Some coin | None \<Rightarrow> None), c))"
| "run_op get mem c (Op_Add out coin ow skip) = ebind (AddCoin mem c out coin ow skip) (\<lambda>c. Inr (Obs_none, c))"
| "run_op get mem c (Op_Uncache out) = Inr (Obs_none, Uncache mem c out)"

fun run_ops :: "'b get_coin \<Rightarrow> (Coin \<Rightarrow> u64) \<Rightarrow> 'b CCoinsViewCache \<Rightarrow> coins_op list \<Rightarrow> coins_error + coins_obs list \<times> 'b CCoinsViewCache" where
  "run_ops get mem c [] = Inr ([], c)"
| "run_ops get mem c (x # ops) = ebind (run_op get mem c x) (\<lambda>(r, c). ebind (run_ops get mem c ops) (\<lambda>(rs, c). Inr (r # rs, c)))"

text \<open>
  The same on a plain map. \<^term>\<open>None\<close> is a use outside the contract of \<^verbatim>\<open>AddCoin\<close>: a spent coin, or an unspent coin
  overwritten without saying so.
\<close>

fun spec_op :: "(COutPoint \<rightharpoonup> Coin) \<Rightarrow> coins_op \<Rightarrow> (coins_obs \<times> (COutPoint \<rightharpoonup> Coin)) option" where
  "spec_op u (Op_Get out) = Some (Obs_coin (u out), u)"
| "spec_op u (Op_Have out) = Some (Obs_have (u out \<noteq> None), u)"
| "spec_op u (Op_Spend out) = Some (Obs_coin (u out), u(out := None))"
| "spec_op u (Op_Add out coin ow skip) =
     (if IsSpent coin \<or> \<not> ow \<and> u out \<noteq> None then None
      else Some (Obs_none, if output_added (coin_out coin) skip then u(out \<mapsto> coin) else u))"
| "spec_op u (Op_Uncache out) = Some (Obs_none, u)"

fun spec_ops :: "(COutPoint \<rightharpoonup> Coin) \<Rightarrow> coins_op list \<Rightarrow> (coins_obs list \<times> (COutPoint \<rightharpoonup> Coin)) option" where
  "spec_ops u [] = Some ([], u)"
| "spec_ops u (x # ops) = (case spec_op u x of None \<Rightarrow> None
     | Some (r, u) \<Rightarrow> (case spec_ops u ops of None \<Rightarrow> None | Some (rs, u) \<Rightarrow> Some (r # rs, u)))"

context coins_cache
begin

lemma run_op_refines:
  assumes c: "cok c" and s: "spec_op (cu c) x = Some (r, u)"
  shows "\<exists>c'. run_op get mem c x = Inr (r, c') \<and> cok c' \<and> cu c' = u"
proof (cases x)
  case (Op_Get out)
  obtain a b where "cache_GetCoin get mem c out = (a, b)" by fastforce
  then show ?thesis using GetCoin_spec [OF c, of out a b] s Op_Get by auto
next
  case (Op_Have out)
  obtain a b where "HaveCoin get mem c out = (a, b)" by fastforce
  then show ?thesis using HaveCoin_spec [OF c, of out a b] s Op_Have by auto
next
  case (Op_Spend out)
  obtain a b where "SpendCoin get mem c out = (a, b)" by fastforce
  then show ?thesis using SpendCoin_spec [OF c, of out a b] s Op_Spend by auto
next
  case (Op_Add out coin ow skip)
  then have "\<not> IsSpent coin" "ow \<or> cu c out = None" using s by (auto split: if_splits)
  then show ?thesis using AddCoin_spec [OF c, of coin ow out skip] s Op_Add
    by (auto simp: ebind_def output_added_def split: if_splits)
next
  case (Op_Uncache out)
  then show ?thesis using Uncache_spec [OF c, of out] s by auto
qed

lemma run_ops_refines:
  assumes "cok c" "spec_ops (cu c) ops = Some (rs, u)"
  shows "\<exists>c'. run_ops get mem c ops = Inr (rs, c') \<and> cok c' \<and> cu c' = u"
  using assms
proof (induction ops arbitrary: c rs)
  case (Cons x ops)
  obtain r u1 rs1 where s: "spec_op (cu c) x = Some (r, u1)" "spec_ops u1 ops = Some (rs1, u)" "rs = r # rs1"
    using Cons.prems(2) by (auto split: option.splits prod.splits)
  obtain c1 where c1: "run_op get mem c x = Inr (r, c1)" "cok c1" "cu c1 = u1" using run_op_refines [OF Cons.prems(1) s(1)] by blast
  obtain c2 where "run_ops get mem c1 ops = Inr (rs1, c2)" "cok c2" "cu c2 = u" using Cons.IH [OF c1(2)] s(2) c1(3) by auto
  then show ?case using c1(1) s(3) by (simp add: ebind_def)
qed auto

lemma run_and_flush:
  assumes "cok c" "spec_ops (cu c) ops = Some (rs, u)" "\<not> blob_IsNull h"
  shows "\<exists>c' c''. run_ops get mem c ops = Inr (rs, c') \<and> cok c' \<and> cu c' = u \<and>
    Flush batchWrite (SetBestBlock c' h) = Inr c'' \<and> cok c'' \<and> cu c'' = u \<and> utxo (base c'') = u \<and> tip (base c'') = h"
proof -
  obtain c' where c': "run_ops get mem c ops = Inr (rs, c')" "cok c'" "cu c' = u" using run_ops_refines [OF assms(1,2)] by blast
  have "cok (SetBestBlock c' h)" "cu (SetBestBlock c' h) = u" using c'(2,3) by (simp_all add: SetBestBlock_def cache_ok_def)
  then show ?thesis using Flush_spec [of "SetBestBlock c' h"] assms(3) c' by (auto simp: SetBestBlock_def)
qed

end

subsection \<open>Properties\<close>

text \<open>
  C2: the cache refines a map. In the view a block is connected in, a cache over the cache of the tip over the database,
  any sequence of lookups, additions, spends and evictions returns what the same sequence returns on the map
  of unspent coins the stack stands for, never throws within the contract of \<^verbatim>\<open>AddCoin\<close>, keeps the flags and the memory
  account of the cache consistent, and flushing it makes the cache below stand for the resulting map.
\<close>

theorem coins_cache_refines_map:
  assumes "view_ok c" "spec_ops (view_utxo c) ops = Some (rs, u)" "\<not> blob_IsNull h"
  shows "\<exists>c' c''. run_ops tip_GetCoin Coin_DynamicMemoryUsage c ops = Inr (rs, c') \<and> view_ok c' \<and> view_utxo c' = u \<and>
    Flush (cache_BatchWrite Coin_DynamicMemoryUsage) (SetBestBlock c' h) = Inr c'' \<and> view_ok c'' \<and> view_utxo c'' = u \<and>
    tip_utxo (base c'') = u \<and> cache_tip db_tip (base c'') = h"
  by (rule block_view.run_and_flush [OF assms])

definition sample_coin :: "int \<Rightarrow> Coin" where
  "sample_coin v = \<lparr>coin_out = \<lparr>nValue = v, scriptPubKey = replicate 40 0x51\<rparr>, fCoinBase = False, coin_nHeight = 7, fCoinStake = False, coin_nTime = 9\<rparr>"

definition sample_out :: "u32 \<Rightarrow> COutPoint" where
  "sample_out n = \<lparr>op_hash = replicate 32 1, op_n = n\<rparr>"

definition sample_db :: CCoinsViewDB where
  "sample_db = \<lparr>db_coins = [sample_out 0 \<mapsto> sample_coin 5], db_best = Some (replicate 32 2), db_heads = None\<rparr>"

definition sample_view :: "CCoinsViewDB CCoinsViewCache CCoinsViewCache" where
  "sample_view = CCoinsViewCache_new (CCoinsViewCache_new sample_db)"

lemma sample_coin_facts: "\<not> IsSpent (sample_coin v) \<longleftrightarrow> v \<noteq> - 1" "\<not> IsUnspendable (scriptPubKey (coin_out (sample_coin v)))"
  by (simp_all add: sample_coin_def IsSpent_def CTxOut_IsNull_def IsUnspendable_def MAX_SCRIPT_SIZE_def)

lemma sample_view_ok: "view_ok sample_view" "view_utxo sample_view = [sample_out 0 \<mapsto> sample_coin 5]"
  by (auto simp: sample_view_def CCoinsViewCache_new_def cache_ok_def cache_utxo_def sample_db_def db_ok_def sample_coin_facts split: if_splits)

theorem coins_cache_refines_map_witness:
  "\<exists>c' c''. run_ops tip_GetCoin Coin_DynamicMemoryUsage sample_view
      [Op_Spend (sample_out 0), Op_Add (sample_out 1) (sample_coin 6) False True, Op_Have (sample_out 0), Op_Get (sample_out 1)] =
      Inr ([Obs_coin (Some (sample_coin 5)), Obs_none, Obs_have False, Obs_coin (Some (sample_coin 6))], c') \<and>
    Flush (cache_BatchWrite Coin_DynamicMemoryUsage) (SetBestBlock c' (replicate 32 3)) = Inr c'' \<and>
    tip_utxo (base c'') = [sample_out 1 \<mapsto> sample_coin 6]"
proof -
  have ne: "sample_out 0 \<noteq> sample_out 1" by (simp add: sample_out_def)
  have "output_added (coin_out (sample_coin 6)) True" using sample_coin_facts(2) [of 6] by (simp add: output_added_def) (simp add: sample_coin_def)
  then have "spec_ops (view_utxo sample_view)
      [Op_Spend (sample_out 0), Op_Add (sample_out 1) (sample_coin 6) False True, Op_Have (sample_out 0), Op_Get (sample_out 1)] =
      Some ([Obs_coin (Some (sample_coin 5)), Obs_none, Obs_have False, Obs_coin (Some (sample_coin 6))], [sample_out 1 \<mapsto> sample_coin 6])"
    unfolding sample_view_ok(2) using ne sample_coin_facts(1) [of 6] by simp
  moreover have "\<not> blob_IsNull (replicate 32 3)" by (simp add: blob_IsNull_def list_all_iff)
  ultimately show ?thesis
    using coins_cache_refines_map [OF sample_view_ok(1)] by blast
qed

text \<open>
  C3: writing coins to the database survives a crash. The batches are written one after the other; after every batch but the
  last the database has no best block but names the new and the old tip, and it holds the first part of the changes,
  so that each coin is as before or as after; after the last one it is exactly the new state with the new
  best block.
\<close>

theorem coin_db_crash_safe:
  assumes "db_ok db" "\<not> blob_IsNull hash" "entries_ok (db_coins db) m"
  shows "\<exists>partial. db_BatchWrite_states full db m hash =
      Inr (partial @ [db\<lparr>db_coins := apply_entries m (db_coins db), db_best := Some hash, db_heads := None\<rparr>]) \<and>
    (\<forall>st \<in> set partial. db_best st = None \<and> db_heads st = Some (hash, db_tip db) \<and>
       (\<forall>out. db_coins st out = db_coins db out \<or> db_coins st out = apply_entries m (db_coins db) out))"
proof -
  have d: "distinct (map fst m)" using assms(3) by (simp add: entries_ok_def)
  obtain partial where p: "db_BatchWrite_states full db m hash =
      Inr (partial @ [db\<lparr>db_coins := apply_entries m (db_coins db), db_best := Some hash, db_heads := None\<rparr>])"
    "\<forall>st \<in> set partial. \<exists>m1 m2. m = m1 @ m2 \<and>
       st = db\<lparr>db_coins := apply_entries m1 (db_coins db), db_best := None, db_heads := Some (hash, db_tip db)\<rparr>"
    using db_BatchWrite_states_spec [of db hash m full] assms(1,2) d by (auto simp: db_ok_def)
  have "apply_entries m1 u out = u out \<or> apply_entries m1 u out = apply_entries (m1 @ m2) u out" for m1 m2 u out
    by (auto simp: apply_entries_def map_add_def split: option.splits)
  then show ?thesis using p by (intro exI [of _ partial]) fastforce
qed

definition sample_entries :: CCoinsMap where
  "sample_entries = [(sample_out 0, \<lparr>entry_coin = Coin_empty, entry_flags = DIRTY\<rparr>), (sample_out 1, \<lparr>entry_coin = sample_coin 6, entry_flags = DIRTY OR FRESH\<rparr>)]"

theorem coin_db_crash_safe_witness:
  "\<exists>partial. db_BatchWrite_states (\<lambda>_. True) sample_db sample_entries (replicate 32 3) =
      Inr (partial @ [sample_db\<lparr>db_coins := [sample_out 1 \<mapsto> sample_coin 6], db_best := Some (replicate 32 3), db_heads := None\<rparr>])"
proof -
  have ne: "sample_out 0 \<noteq> sample_out 1" by (simp add: sample_out_def)
  have "db_ok sample_db" by (auto simp: db_ok_def sample_db_def sample_coin_facts split: if_splits)
  moreover have "\<not> blob_IsNull (replicate 32 3)" by (simp add: blob_IsNull_def list_all_iff)
  moreover have "entries_ok (db_coins sample_db) sample_entries"
    using ne by (auto simp: entries_ok_def sample_entries_def sample_db_def flag_simps)
  moreover have "apply_entries sample_entries (db_coins sample_db) = [sample_out 1 \<mapsto> sample_coin 6]"
    using ne sample_coin_facts(1) [of 6]
    by (intro ext) (auto simp: apply_entries_def sample_entries_def sample_db_def flag_simps entry_value_def Coin_empty_def IsSpent_def
        CTxOut_IsNull_def CTxOut_null_def)
  ultimately show ?thesis using coin_db_crash_safe [of sample_db "replicate 32 3" sample_entries "\<lambda>_. True"] by auto
qed

end
