(* ===== verification/Block_Index.thy ===== *)
theory Block_Index
  imports Primitives "HOL-Library.Monad_Syntax" "HOL-Library.While_Combinator"
begin

text \<open>
  The in-memory block tree, \<^verbatim>\<open>src/src/chain.h\<close> and \<^verbatim>\<open>src/src/chain.cpp\<close>. A \<^verbatim>\<open>CBlockIndex*\<close> is an address
  into a store of index entries, \<^verbatim>\<open>nullptr\<close> is \<^term>\<open>None\<close>, and two pointers are equal when the
  addresses are. Loops that follow pointers are partial functions: \<^term>\<open>None\<close> stands for an assertion
  that fails or a walk that does not return, and the lemmas show that neither happens on a
  well-formed store.
\<close>

subsection \<open>Index entries\<close>

type_synonym ptr = nat

record CBlockIndex =
  phashBlock :: uint256
  pprev :: "ptr option"
  pskip :: "ptr option"
  nHeight :: int
  nFile :: int
  nDataPos :: u32
  nUndoPos :: u32
  nChainTrust :: base_uint
  nTx :: u32
  nChainTx :: u32
  nStatus :: u32
  bi_nVersion :: u32
  bi_hashMerkleRoot :: uint256
  bi_nTime :: u32
  bi_nBits :: u32
  bi_nNonce :: u32
  nSequenceId :: int
  nTimeMax :: u32
  nMint :: int
  nMoneySupply :: int
  bi_nFlags :: u32
  nStakeModifier :: u64
  nStakeModifierChecksum :: u32
  prevoutStake :: COutPoint
  nStakeTime :: u32
  hashProofOfStake :: uint256

type_synonym store = "ptr \<Rightarrow> CBlockIndex"

definition CBlockIndex_default :: CBlockIndex where
  "CBlockIndex_default = \<lparr>phashBlock = uint256_null, pprev = None, pskip = None, nHeight = 0, nFile = 0,
     nDataPos = 0, nUndoPos = 0, nChainTrust = uint_null 8, nTx = 0, nChainTx = 0, nStatus = 0,
     bi_nVersion = 0, bi_hashMerkleRoot = uint256_null, bi_nTime = 0, bi_nBits = 0, bi_nNonce = 0,
     nSequenceId = 0, nTimeMax = 0, nMint = 0, nMoneySupply = 0, bi_nFlags = 0, nStakeModifier = 0,
     nStakeModifierChecksum = 0, prevoutStake = COutPoint_null, nStakeTime = 0, hashProofOfStake = uint256_null\<rparr>"

definition CBlockIndex_of_header :: "CBlockHeader \<Rightarrow> CBlockIndex" where
  "CBlockIndex_of_header block = CBlockIndex_default\<lparr>bi_nVersion := hdr_nVersion block,
     bi_hashMerkleRoot := hashMerkleRoot block, bi_nTime := hdr_nTime block, bi_nBits := hdr_nBits block,
     bi_nNonce := hdr_nNonce block, bi_nFlags := hdr_nFlags block\<rparr>"

definition BLOCK_PROOF_OF_STAKE :: u32 where "BLOCK_PROOF_OF_STAKE = push_bit 0 1"
definition BLOCK_STAKE_ENTROPY :: u32 where "BLOCK_STAKE_ENTROPY = push_bit 1 1"
definition BLOCK_STAKE_MODIFIER :: u32 where "BLOCK_STAKE_MODIFIER = push_bit 2 1"

definition IsProofOfWork :: "CBlockIndex \<Rightarrow> bool" where
  "IsProofOfWork b \<longleftrightarrow> bi_nFlags b AND BLOCK_PROOF_OF_STAKE = 0"

definition IsProofOfStake :: "CBlockIndex \<Rightarrow> bool" where
  "IsProofOfStake b \<longleftrightarrow> bi_nFlags b AND BLOCK_PROOF_OF_STAKE \<noteq> 0"

definition SetProofOfStake :: "CBlockIndex \<Rightarrow> CBlockIndex" where
  "SetProofOfStake b = b\<lparr>bi_nFlags := bi_nFlags b OR BLOCK_PROOF_OF_STAKE\<rparr>"

definition GetStakeEntropyBit :: "CBlockIndex \<Rightarrow> u32" where
  "GetStakeEntropyBit b = drop_bit 1 (bi_nFlags b AND BLOCK_STAKE_ENTROPY)"

definition SetStakeEntropyBit :: "CBlockIndex \<Rightarrow> u32 \<Rightarrow> bool \<times> CBlockIndex" where
  "SetStakeEntropyBit b nEntropyBit =
     (if nEntropyBit > 1 then (False, b)
      else (True, b\<lparr>bi_nFlags := bi_nFlags b OR (if nEntropyBit \<noteq> 0 then BLOCK_STAKE_ENTROPY else 0)\<rparr>))"

definition GeneratedStakeModifier :: "CBlockIndex \<Rightarrow> bool" where
  "GeneratedStakeModifier b \<longleftrightarrow> bi_nFlags b AND BLOCK_STAKE_MODIFIER \<noteq> 0"

definition SetStakeModifier :: "CBlockIndex \<Rightarrow> u64 \<Rightarrow> bool \<Rightarrow> CBlockIndex" where
  "SetStakeModifier b nModifier fGeneratedStakeModifier =
     (let b = b\<lparr>nStakeModifier := nModifier\<rparr>
      in if fGeneratedStakeModifier then b\<lparr>bi_nFlags := bi_nFlags b OR BLOCK_STAKE_MODIFIER\<rparr> else b)"

definition GetBlockHeader :: "store \<Rightarrow> CBlockIndex \<Rightarrow> CBlockHeader" where
  "GetBlockHeader s b = \<lparr>hdr_nVersion = bi_nVersion b,
     hashPrevBlock = (case pprev b of Some p \<Rightarrow> phashBlock (s p) | None \<Rightarrow> uint256_null),
     hashMerkleRoot = bi_hashMerkleRoot b, hdr_nTime = bi_nTime b, hdr_nBits = bi_nBits b,
     hdr_nNonce = bi_nNonce b, hdr_nFlags = bi_nFlags b\<rparr>"

definition GetBlockTime :: "CBlockIndex \<Rightarrow> int" where
  "GetBlockTime b = uint (bi_nTime b)"

definition GetBlockTimeMax :: "CBlockIndex \<Rightarrow> int" where
  "GetBlockTimeMax b = uint (nTimeMax b)"

text \<open>The timestamps of at most \<open>n\<close> blocks from \<open>p\<close> backwards, and their median.\<close>

fun past_times :: "store \<Rightarrow> nat \<Rightarrow> ptr option \<Rightarrow> int list" where
  "past_times s (Suc n) (Some p) = GetBlockTime (s p) # past_times s n (pprev (s p))"
| "past_times s _ _ = []"

definition nMedianTimeSpan :: nat where "nMedianTimeSpan = 11"

definition GetMedianTimePast :: "store \<Rightarrow> ptr \<Rightarrow> int" where
  "GetMedianTimePast s p =
     (let pmedian = sort (rev (past_times s nMedianTimeSpan (Some p))) in pmedian ! (length pmedian div 2))"

subsection \<open>Validity\<close>

definition BLOCK_VALID_TREE :: u32 where "BLOCK_VALID_TREE = 2"
definition BLOCK_VALID_TRANSACTIONS :: u32 where "BLOCK_VALID_TRANSACTIONS = 3"
definition BLOCK_VALID_SCRIPTS :: u32 where "BLOCK_VALID_SCRIPTS = 5"
definition BLOCK_VALID_MASK :: u32 where "BLOCK_VALID_MASK = 1 OR 2 OR 3 OR 4 OR 5"
definition BLOCK_HAVE_DATA :: u32 where "BLOCK_HAVE_DATA = 8"
definition BLOCK_HAVE_UNDO :: u32 where "BLOCK_HAVE_UNDO = 16"
definition BLOCK_FAILED_MASK :: u32 where "BLOCK_FAILED_MASK = 32 OR 64"
definition BLOCK_ASSUMED_VALID :: u32 where "BLOCK_ASSUMED_VALID = 256"

text \<open>\<^term>\<open>None\<close> is the failed assertion on \<open>nUpTo\<close>.\<close>

definition IsValid :: "CBlockIndex \<Rightarrow> u32 \<Rightarrow> bool option" where
  "IsValid b nUpTo =
     (if nUpTo AND NOT BLOCK_VALID_MASK \<noteq> 0 then None
      else if nStatus b AND BLOCK_FAILED_MASK \<noteq> 0 then Some False
      else Some (nStatus b AND BLOCK_VALID_MASK \<ge> nUpTo))"

definition RaiseValidity :: "CBlockIndex \<Rightarrow> u32 \<Rightarrow> (bool \<times> CBlockIndex) option" where
  "RaiseValidity b nUpTo =
     (if nUpTo AND NOT BLOCK_VALID_MASK \<noteq> 0 then None
      else if nStatus b AND BLOCK_FAILED_MASK \<noteq> 0 then Some (False, b)
      else if nStatus b AND BLOCK_VALID_MASK < nUpTo then
        let st = (if nStatus b AND BLOCK_ASSUMED_VALID \<noteq> 0 \<and> nUpTo \<ge> BLOCK_VALID_SCRIPTS
                  then nStatus b AND NOT BLOCK_ASSUMED_VALID else nStatus b)
        in Some (True, b\<lparr>nStatus := (st AND NOT BLOCK_VALID_MASK) OR nUpTo\<rparr>)
      else Some (False, b))"

subsection \<open>Ancestors and the skip list\<close>

definition InvertLowestOne :: "nat \<Rightarrow> nat" where
  "InvertLowestOne n = n AND (n - 1)"

definition GetSkipHeight :: "nat \<Rightarrow> nat" where
  "GetSkipHeight height =
     (if height < 2 then 0
      else if odd height then InvertLowestOne (InvertLowestOne (height - 1)) + 1
      else InvertLowestOne height)"

lemma InvertLowestOne_le: "InvertLowestOne n \<le> n - 1"
proof -
  have "int n AND int (n - 1) \<le> int (n - 1)" by (rule AND_upper2) simp
  then have "int (n AND (n - 1)) \<le> int (n - 1)" by (simp add: of_nat_and_eq)
  then show ?thesis by (simp add: InvertLowestOne_def)
qed

lemma GetSkipHeight_less: "0 < h \<Longrightarrow> GetSkipHeight h < h"
  using InvertLowestOne_le [of h] InvertLowestOne_le [of "h - 1"]
    InvertLowestOne_le [of "InvertLowestOne (h - 1)"]
  by (auto simp: GetSkipHeight_def)

text \<open>
  The loop of \<^verbatim>\<open>GetAncestor\<close>; the heights are natural numbers since the guard before it excludes
  negative ones. \<^term>\<open>None\<close> is the assertion \<^verbatim>\<open>pindexWalk->pprev\<close>.
\<close>

function ancestor_loop :: "store \<Rightarrow> nat \<Rightarrow> ptr \<Rightarrow> nat \<Rightarrow> ptr option" where
  "ancestor_loop s height pindexWalk heightWalk =
     (if heightWalk > height then
        let heightSkip = GetSkipHeight heightWalk;
            heightSkipPrev = GetSkipHeight (heightWalk - 1)
        in if pskip (s pindexWalk) \<noteq> None \<and>
              (heightSkip = height \<or>
               (heightSkip > height \<and> \<not> (heightSkipPrev + 2 < heightSkip \<and> heightSkipPrev \<ge> height)))
           then ancestor_loop s height (the (pskip (s pindexWalk))) heightSkip
           else case pprev (s pindexWalk) of
                  None \<Rightarrow> None
                | Some q \<Rightarrow> ancestor_loop s height q (heightWalk - 1)
      else Some pindexWalk)"
  by pat_completeness auto
termination
  by (relation "measure (\<lambda>(s, h, p, hw). hw)") (auto intro: GetSkipHeight_less)

declare ancestor_loop.simps [simp del]

text \<open>The outer option is the assertion, the inner one the pointer returned.\<close>

definition GetAncestor :: "store \<Rightarrow> ptr \<Rightarrow> int \<Rightarrow> ptr option option" where
  "GetAncestor s this height =
     (if height > nHeight (s this) \<or> height < 0 then Some None
      else map_option Some (ancestor_loop s (nat height) this (nat (nHeight (s this)))))"

definition BuildSkip :: "store \<Rightarrow> ptr \<Rightarrow> store option" where
  "BuildSkip s this =
     (case pprev (s this) of
        None \<Rightarrow> Some s
      | Some p \<Rightarrow> do { a \<leftarrow> GetAncestor s p (int (GetSkipHeight (nat (nHeight (s this)))));
                       Some (s(this := s this\<lparr>pskip := a\<rparr>)) })"

subsection \<open>Trust\<close>

definition GetBlockTrust :: "CBlockIndex \<Rightarrow> uint_error + base_uint" where
  "GetBlockTrust block =
     (let (bnTarget, fNegative, fOverflow) = SetCompact (bi_nBits block)
      in if fNegative \<or> fOverflow \<or> EqualTo bnTarget 0 then Inr (uint_of_u64 8 0)
         else if IsProofOfStake block
         then ebind (uint_div (uint_not bnTarget) (uint_add bnTarget (uint_of_u64 8 1)))
                (\<lambda>q. Inr (uint_add q (uint_of_u64 8 1)))
         else Inr (uint_of_u64 8 1))"

definition GetBlockProofEquivalentTime :: "CBlockIndex \<Rightarrow> CBlockIndex \<Rightarrow> CBlockIndex \<Rightarrow> u64 \<Rightarrow> uint_error + int" where
  "GetBlockProofEquivalentTime to from tip nPowTargetSpacing =
     (let gt = CompareTo (nChainTrust to) (nChainTrust from) > 0;
          r = (if gt then uint_sub (nChainTrust to) (nChainTrust from) else uint_sub (nChainTrust from) (nChainTrust to));
          sgn = (if gt then 1 else - 1)
      in ebind (GetBlockTrust tip) (\<lambda>trust.
         ebind (uint_div (uint_mul r (uint_of_u64 8 nPowTargetSpacing)) trust) (\<lambda>r.
           if bits r > 63 then Inr (sgn * (2 ^ 63 - 1)) else Inr (sgn * sint (GetLow64 r)))))"

subsection \<open>Walks\<close>

text \<open>The last two results are \<^verbatim>\<open>nullptr\<close> when the walk falls off the chain.\<close>

definition GetLastBlockIndex :: "store \<Rightarrow> ptr option \<Rightarrow> bool \<Rightarrow> ptr option option" where
  "GetLastBlockIndex s pindex fProofOfStake =
     while_option (\<lambda>pindex. case pindex of None \<Rightarrow> False
                      | Some p \<Rightarrow> pprev (s p) \<noteq> None \<and> IsProofOfStake (s p) \<noteq> fProofOfStake)
       (\<lambda>pindex. pprev (s (the pindex))) pindex"

definition LastCommonAncestor :: "store \<Rightarrow> ptr \<Rightarrow> ptr \<Rightarrow> ptr option option" where
  "LastCommonAncestor s pa pb =
     do { pa' \<leftarrow> (if nHeight (s pa) > nHeight (s pb) then GetAncestor s pa (nHeight (s pb)) else Some (Some pa));
          pb' \<leftarrow> (if \<not> nHeight (s pa) > nHeight (s pb) \<and> nHeight (s pb) > nHeight (s pa)
                  then GetAncestor s pb (nHeight (s pa)) else Some (Some pb));
          (pa, pb) \<leftarrow> while_option (\<lambda>(pa, pb). pa \<noteq> pb \<and> pa \<noteq> None \<and> pb \<noteq> None)
             (\<lambda>(pa, pb). (pprev (s (the pa)), pprev (s (the pb)))) (pa', pb');
          (if pa = pb then Some pa else None) }"

subsection \<open>The active chain\<close>

type_synonym CChain = "ptr option list"

definition Genesis :: "CChain \<Rightarrow> ptr option" where
  "Genesis vChain = (if length vChain > 0 then vChain ! 0 else None)"

definition Tip :: "CChain \<Rightarrow> ptr option" where
  "Tip vChain = (if length vChain > 0 then vChain ! (length vChain - 1) else None)"

definition chain_at :: "CChain \<Rightarrow> int \<Rightarrow> ptr option" where
  "chain_at vChain h = (if h < 0 \<or> h \<ge> int (length vChain) then None else vChain ! nat h)"

definition Contains :: "store \<Rightarrow> CChain \<Rightarrow> ptr \<Rightarrow> bool" where
  "Contains s vChain p \<longleftrightarrow> chain_at vChain (nHeight (s p)) = Some p"

definition Next :: "store \<Rightarrow> CChain \<Rightarrow> ptr \<Rightarrow> ptr option" where
  "Next s vChain p = (if Contains s vChain p then chain_at vChain (nHeight (s p) + 1) else None)"

definition Height :: "CChain \<Rightarrow> int" where
  "Height vChain = int (length vChain) - 1"

definition resize :: "nat \<Rightarrow> CChain \<Rightarrow> CChain" where
  "resize n v = take n v @ replicate (n - length v) None"

definition SetTip :: "store \<Rightarrow> CChain \<Rightarrow> ptr option \<Rightarrow> CChain option" where
  "SetTip s vChain pindex =
     (case pindex of None \<Rightarrow> Some []
      | Some p \<Rightarrow> map_option fst
          (while_option (\<lambda>(v, q). case q of None \<Rightarrow> False | Some q \<Rightarrow> v ! nat (nHeight (s q)) \<noteq> Some q)
             (\<lambda>(v, q). (v[nat (nHeight (s (the q))) := q], pprev (s (the q))))
             (resize (nat (nHeight (s p) + 1)) vChain, Some p)))"

partial_function (option) locator_loop :: "store \<Rightarrow> CChain \<Rightarrow> int \<Rightarrow> uint256 list \<Rightarrow> ptr option \<Rightarrow> uint256 list option" where
  "locator_loop s vChain nStep vHave pindex =
     (case pindex of None \<Rightarrow> Some vHave
      | Some p \<Rightarrow>
          let vHave = vHave @ [phashBlock (s p)]
          in if nHeight (s p) = 0 then Some vHave
             else let h = max (nHeight (s p) - nStep) 0
                  in do { pindex \<leftarrow> (if Contains s vChain p then Some (chain_at vChain h) else GetAncestor s p h);
                          locator_loop s vChain (if length vHave > 10 then nStep * 2 else nStep) vHave pindex })"

definition GetLocator :: "store \<Rightarrow> CChain \<Rightarrow> ptr option \<Rightarrow> uint256 list option" where
  "GetLocator s vChain pindex =
     locator_loop s vChain 1 [] (case pindex of None \<Rightarrow> Tip vChain | Some p \<Rightarrow> Some p)"

definition FindFork :: "store \<Rightarrow> CChain \<Rightarrow> ptr option \<Rightarrow> ptr option option" where
  "FindFork s vChain pindex =
     (case pindex of None \<Rightarrow> Some None
      | Some p \<Rightarrow>
          do { pindex \<leftarrow> (if nHeight (s p) > Height vChain then GetAncestor s p (Height vChain) else Some (Some p));
               while_option (\<lambda>q. q \<noteq> None \<and> \<not> Contains s vChain (the q)) (\<lambda>q. pprev (s (the q))) pindex })"

text \<open>\<^verbatim>\<open>std::lower_bound\<close>: bisection for the first position at which \<open>before\<close> fails.\<close>

function lower_bound :: "('a \<Rightarrow> bool) \<Rightarrow> 'a list \<Rightarrow> nat \<Rightarrow> nat \<Rightarrow> nat" where
  "lower_bound before xs first len =
     (if len > 0 then
        let half = len div 2
        in if before (xs ! (first + half)) then lower_bound before xs (first + half + 1) (len - half - 1)
           else lower_bound before xs first half
      else first)"
  by pat_completeness auto
termination by (relation "measure (\<lambda>(l, xs, f, n). n)") auto

declare lower_bound.simps [simp del]

definition FindEarliestAtLeast :: "store \<Rightarrow> CChain \<Rightarrow> int \<Rightarrow> int \<Rightarrow> ptr option" where
  "FindEarliestAtLeast s vChain time height =
     (let lower = lower_bound (\<lambda>p. GetBlockTimeMax (s (the p)) < time \<or> nHeight (s (the p)) < height)
                    vChain 0 (length vChain)
      in if lower = length vChain then None else vChain ! lower)"

subsection \<open>Block files\<close>

record CBlockFileInfo =
  nBlocks :: u32
  fi_nSize :: u32
  fi_nUndoSize :: u32
  nHeightFirst :: u32
  nHeightLast :: u32
  nTimeFirst :: u64
  nTimeLast :: u64

definition AddBlock :: "CBlockFileInfo \<Rightarrow> u32 \<Rightarrow> u64 \<Rightarrow> CBlockFileInfo" where
  "AddBlock f nHeightIn nTimeIn =
     f\<lparr>nHeightFirst := (if nBlocks f = 0 \<or> nHeightFirst f > nHeightIn then nHeightIn else nHeightFirst f),
       nTimeFirst := (if nBlocks f = 0 \<or> nTimeFirst f > nTimeIn then nTimeIn else nTimeFirst f),
       nBlocks := nBlocks f + 1,
       nHeightLast := (if nHeightIn > nHeightLast f then nHeightIn else nHeightLast f),
       nTimeLast := (if nTimeIn > nTimeLast f then nTimeIn else nTimeLast f)\<rparr>"

subsection \<open>Well-formed stores\<close>

primrec nth_prev :: "store \<Rightarrow> nat \<Rightarrow> ptr \<Rightarrow> ptr option" where
  "nth_prev s 0 p = Some p"
| "nth_prev s (Suc n) p = (case pprev (s p) of None \<Rightarrow> None | Some q \<Rightarrow> nth_prev s n q)"

abbreviation height :: "store \<Rightarrow> ptr \<Rightarrow> nat" where
  "height s p \<equiv> nat (nHeight (s p))"

definition wf_store :: "store \<Rightarrow> bool" where
  "wf_store s \<longleftrightarrow> (\<forall>p. 0 \<le> nHeight (s p) \<and>
     (case pprev (s p) of None \<Rightarrow> nHeight (s p) = 0 | Some q \<Rightarrow> nHeight (s p) = nHeight (s q) + 1) \<and>
     (case pskip (s p) of None \<Rightarrow> True | Some q \<Rightarrow> nth_prev s (height s p - GetSkipHeight (height s p)) p = Some q))"

lemma wf_nonneg: "wf_store s \<Longrightarrow> 0 \<le> nHeight (s p)"
  by (simp add: wf_store_def)

lemma wf_link: "wf_store s \<Longrightarrow>
    (case pprev (s p) of None \<Rightarrow> nHeight (s p) = 0 | Some q \<Rightarrow> nHeight (s p) = nHeight (s q) + 1)"
  by (simp add: wf_store_def)

lemma wf_genesis: "wf_store s \<Longrightarrow> pprev (s p) = None \<longleftrightarrow> nHeight (s p) = 0"
proof (cases "pprev (s p)")
  case (Some q)
  assume "wf_store s"
  then show ?thesis using wf_link [of s p] wf_nonneg [of s q] Some by simp
qed (use wf_link [of s p] in simp)

lemma wf_prev: "wf_store s \<Longrightarrow> pprev (s p) = Some q \<Longrightarrow> height s p = Suc (height s q)"
  using wf_link [of s p] wf_nonneg [of s q] by simp

lemma wf_skip: "wf_store s \<Longrightarrow> pskip (s p) = Some q \<Longrightarrow> nth_prev s (height s p - GetSkipHeight (height s p)) p = Some q"
  unfolding wf_store_def by (drule spec [of _ p]) simp

lemma wf_has_prev: "wf_store s \<Longrightarrow> 0 < height s p \<Longrightarrow> \<exists>q. pprev (s p) = Some q"
  using wf_genesis [of s p] by (cases "pprev (s p)") auto

lemma nth_prev_add: "nth_prev s (m + n) p = Option.bind (nth_prev s m p) (nth_prev s n)"
  by (induction m arbitrary: p) (auto split: option.splits)

lemma nth_prev_cong: "(\<And>p. pprev (s' p) = pprev (s p)) \<Longrightarrow> nth_prev s' n p = nth_prev s n p"
  by (induction n arbitrary: p) (auto split: option.splits)

lemma nth_prev_Suc_end: "nth_prev s (Suc n) p = Option.bind (nth_prev s n p) (\<lambda>q. pprev (s q))"
  using nth_prev_add [of s n 1 p] by (cases "nth_prev s n p") (auto split: option.splits)

lemma nth_prev_height: "wf_store s \<Longrightarrow> nth_prev s n p = Some q \<Longrightarrow> n \<le> height s p \<and> height s q = height s p - n"
proof (induction n arbitrary: p)
  case 0
  then show ?case by simp
next
  case (Suc n)
  then obtain r where "pprev (s p) = Some r" "nth_prev s n r = Some q" by (auto split: option.splits)
  then show ?case using Suc.IH Suc.prems(1) wf_prev by fastforce
qed

lemma nth_prev_total: "wf_store s \<Longrightarrow> n \<le> height s p \<Longrightarrow> \<exists>q. nth_prev s n p = Some q"
proof (induction n arbitrary: p)
  case 0
  then show ?case by simp
next
  case (Suc n)
  then obtain r where "pprev (s p) = Some r" using wf_has_prev by fastforce
  then show ?case using Suc wf_prev by fastforce
qed

lemma nth_prev_None: "wf_store s \<Longrightarrow> nth_prev s n p = None \<longleftrightarrow> height s p < n"
  using nth_prev_total [of s n p] nth_prev_height [of s n p] by (cases "nth_prev s n p") (auto simp: not_le [symmetric])

subsection \<open>Ancestors\<close>

lemma ancestor_loop_nth_prev:
  assumes wf: "wf_store s" and "h \<le> hw" "hw = height s p"
  shows "ancestor_loop s h p hw = nth_prev s (hw - h) p"
  using assms(2,3)
proof (induction hw arbitrary: p rule: less_induct)
  case (less hw)
  show ?case
  proof (cases "hw > h")
    case False
    then show ?thesis using less.prems by (subst ancestor_loop.simps) simp
  next
    case True
    let ?skip = "pskip (s p) \<noteq> None \<and> (GetSkipHeight hw = h \<or> (GetSkipHeight hw > h \<and>
      \<not> (GetSkipHeight (hw - 1) + 2 < GetSkipHeight hw \<and> GetSkipHeight (hw - 1) \<ge> h)))"
    have lt: "GetSkipHeight hw < hw" using True by (intro GetSkipHeight_less) simp
    show ?thesis
    proof (cases ?skip)
      case skip: True
      then obtain q where q: "pskip (s p) = Some q" by blast
      have b: "nth_prev s (hw - GetSkipHeight hw) p = Some q" using wf_skip [OF wf q] less.prems by simp
      have h: "h \<le> GetSkipHeight hw" using skip by auto
      have hq: "height s q = GetSkipHeight hw" using nth_prev_height [OF wf b] less.prems lt by simp
      have e: "hw - h = (hw - GetSkipHeight hw) + (GetSkipHeight hw - h)" using lt h by simp
      have "nth_prev s (hw - h) p = nth_prev s (GetSkipHeight hw - h) q"
        unfolding e nth_prev_add b by simp
      moreover have "ancestor_loop s h p hw = ancestor_loop s h q (GetSkipHeight hw)"
        using True skip q by (subst ancestor_loop.simps) (simp add: Let_def)
      ultimately show ?thesis using less.IH [OF lt h] hq by simp
    next
      case noskip: False
      have "0 < height s p" using True less.prems(2) by linarith
      then obtain q where q: "pprev (s p) = Some q" using wf_has_prev [OF wf] by blast
      have hq: "hw - 1 = height s q" using wf_prev [OF wf q] less.prems by simp
      have "ancestor_loop s h p hw = ancestor_loop s h q (hw - 1)"
        using True noskip q by (subst ancestor_loop.simps) (auto simp: Let_def)
      also have "\<dots> = nth_prev s (hw - 1 - h) q" using less.IH [of "hw - 1" q] True hq by simp
      also have "\<dots> = nth_prev s (Suc (hw - 1 - h)) p" by (simp add: q)
      finally show ?thesis using True by (simp add: Suc_diff_Suc)
    qed
  qed
qed

text \<open>The ancestor at a height, by following \<^verbatim>\<open>pprev\<close>.\<close>

definition ancestor_at :: "store \<Rightarrow> ptr \<Rightarrow> int \<Rightarrow> ptr option" where
  "ancestor_at s p h = (if h > nHeight (s p) \<or> h < 0 then None else nth_prev s (nat (nHeight (s p) - h)) p)"

lemma GetAncestor_eq: "wf_store s \<Longrightarrow> GetAncestor s p h = Some (ancestor_at s p h)"
proof -
  assume wf: "wf_store s"
  show ?thesis
  proof (cases "h > nHeight (s p) \<or> h < 0")
    case True
    then show ?thesis by (auto simp: GetAncestor_def ancestor_at_def)
  next
    case False
    have d: "nat (nHeight (s p) - h) = height s p - nat h" using False by (simp add: nat_diff_distrib)
    have "ancestor_loop s (nat h) p (height s p) = nth_prev s (height s p - nat h) p"
      using False wf by (intro ancestor_loop_nth_prev) auto
    moreover obtain q where "nth_prev s (height s p - nat h) p = Some q" using nth_prev_total [OF wf] by fastforce
    ultimately show ?thesis using False d by (simp add: GetAncestor_def ancestor_at_def)
  qed
qed

lemma ancestor_at_Some: "wf_store s \<Longrightarrow> 0 \<le> h \<Longrightarrow> h \<le> nHeight (s p) \<Longrightarrow>
    \<exists>q. ancestor_at s p h = Some q \<and> nth_prev s (nat (nHeight (s p) - h)) p = Some q \<and> nHeight (s q) = h"
proof -
  assume wf: "wf_store s" and h: "0 \<le> h" "h \<le> nHeight (s p)"
  have "nat (nHeight (s p) - h) \<le> height s p" using h by simp
  then obtain q where q: "nth_prev s (nat (nHeight (s p) - h)) p = Some q" using nth_prev_total [OF wf] by blast
  then have "height s q = nat h" using nth_prev_height [OF wf q] h by simp
  then have "nHeight (s q) = h" using wf_nonneg [OF wf, of q] h by simp
  then show ?thesis using q h by (simp add: ancestor_at_def)
qed

lemma BuildSkip_wf:
  assumes wf: "wf_store s"
  shows "\<exists>s'. BuildSkip s p = Some s' \<and> wf_store s' \<and> (\<forall>q. pprev (s' q) = pprev (s q) \<and> nHeight (s' q) = nHeight (s q)) \<and>
     (pprev (s p) \<noteq> None \<longrightarrow> pskip (s' p) = ancestor_at s p (int (GetSkipHeight (height s p))))"
proof (cases "pprev (s p)")
  case None
  then show ?thesis using wf by (simp add: BuildSkip_def)
next
  case (Some r)
  let ?k = "GetSkipHeight (height s p)"
  have hp: "height s p = Suc (height s r)" by (rule wf_prev [OF wf Some])
  have k: "?k \<le> height s r" using GetSkipHeight_less [of "height s p"] hp by simp
  obtain a where a: "nth_prev s (height s r - ?k) r = Some a" using nth_prev_total [OF wf, of "height s r - ?k" r] by auto
  have ar: "ancestor_at s r (int ?k) = Some a" using a k wf_nonneg [OF wf, of r]
    by (simp add: ancestor_at_def nat_diff_distrib)
  have ap: "nth_prev s (height s p - ?k) p = Some a" using a k hp Some by (simp add: Suc_diff_le)
  define s' where "s' = s(p := s p\<lparr>pskip := Some a\<rparr>)"
  have b: "BuildSkip s p = Some s'" by (simp add: BuildSkip_def Some GetAncestor_eq [OF wf] ar s'_def)
  have same: "pprev (s' q) = pprev (s q)" "nHeight (s' q) = nHeight (s q)" for q by (simp_all add: s'_def)
  have "wf_store s'"
    using wf ap unfolding wf_store_def nth_prev_cong [of s' s, OF same(1)] same by (auto simp: s'_def)
  moreover have "ancestor_at s p (int ?k) = Some a"
    using ap k hp wf_nonneg [OF wf, of p] by (simp add: ancestor_at_def nat_diff_distrib)
  ultimately show ?thesis using b same by (auto simp: s'_def)
qed

subsection \<open>Loops that return\<close>

lemma while_option_total:
  assumes "P s" and "\<And>s. P s \<Longrightarrow> b s \<Longrightarrow> P (c s) \<and> f (c s) < (f s :: nat)"
  shows "\<exists>t. while_option b c s = Some t \<and> P t \<and> \<not> b t"
proof -
  obtain t where t: "while_option b c s = Some t" using measure_while_option_Some [of P b c f s] assms by blast
  then show ?thesis using while_option_rule [of P b c s t] while_option_stop [OF t] assms by blast
qed

subsection \<open>The active chain is a path\<close>

definition chain_inv :: "store \<Rightarrow> CChain \<Rightarrow> bool" where
  "chain_inv s v \<longleftrightarrow> (\<forall>i < length v. \<exists>p. v ! i = Some p \<and> nHeight (s p) = int i \<and> (i > 0 \<longrightarrow> pprev (s p) = v ! (i - 1)))"

definition path_to :: "store \<Rightarrow> ptr \<Rightarrow> CChain" where
  "path_to s p = map (\<lambda>i. nth_prev s (height s p - i) p) [0..<Suc (height s p)]"

lemma path_to_nth: "i \<le> height s p \<Longrightarrow> path_to s p ! i = nth_prev s (height s p - i) p"
  unfolding path_to_def by (subst nth_map) (auto simp del: upt_Suc simp: less_Suc_eq_le)

lemma length_path_to [simp]: "length (path_to s p) = Suc (height s p)"
  by (simp add: path_to_def)

lemma path_to_inv: "wf_store s \<Longrightarrow> chain_inv s (path_to s p)"
  unfolding chain_inv_def
proof (intro allI impI)
  fix i assume wf: "wf_store s" and "i < length (path_to s p)"
  then have i: "i \<le> height s p" by simp
  then obtain q where q: "nth_prev s (height s p - i) p = Some q" using nth_prev_total [OF wf, of "height s p - i" p] by auto
  have "height s q = i" using nth_prev_height [OF wf q] i by simp
  then have "nHeight (s q) = int i" using wf_nonneg [OF wf, of q] by simp
  moreover have "pprev (s q) = path_to s p ! (i - 1)" if "i > 0"
  proof -
    have "height s p - (i - 1) = Suc (height s p - i)" using i that by simp
    then show ?thesis using q i that by (simp add: path_to_nth nth_prev_Suc_end del: nth_prev.simps)
  qed
  ultimately show "\<exists>q. path_to s p ! i = Some q \<and> nHeight (s q) = int i \<and> (i > 0 \<longrightarrow> pprev (s q) = path_to s p ! (i - 1))"
    using q i by (simp add: path_to_nth)
qed

lemma chain_inv_path:
  assumes inv: "chain_inv s v" and "i \<le> h" "h < length v" "v ! h = Some q"
  shows "v ! i = nth_prev s (h - i) q"
  using assms(2-)
proof (induction "h - i" arbitrary: i)
  case 0
  then show ?case by simp
next
  case (Suc n)
  then have IH: "v ! Suc i = nth_prev s (h - Suc i) q" by simp
  have d: "h - i = Suc (h - Suc i)" using Suc by simp
  have "Suc i < length v" using Suc by linarith
  then have "\<exists>r. v ! Suc i = Some r \<and> pprev (s r) = v ! i"
    using inv [unfolded chain_inv_def, THEN spec, of "Suc i"] by auto
  then obtain r where "v ! Suc i = Some r" "pprev (s r) = v ! i" by blast
  then show ?case using IH unfolding d nth_prev_Suc_end by (metis bind.bind_lunit)
qed

text \<open>
  The loop of \<^verbatim>\<open>SetTip\<close>: positions from \<open>chain_rank\<close> of the current block upwards hold the path, the
  ones below are as they were after the resize \<open>w0\<close>.
\<close>

definition chain_rank :: "store \<Rightarrow> ptr option \<Rightarrow> nat" where
  "chain_rank s q = (case q of None \<Rightarrow> 0 | Some q \<Rightarrow> Suc (height s q))"

definition settip_inv :: "store \<Rightarrow> ptr \<Rightarrow> CChain \<Rightarrow> CChain \<Rightarrow> ptr option \<Rightarrow> bool" where
  "settip_inv s p w0 w q \<longleftrightarrow> length w = Suc (height s p) \<and> chain_rank s q \<le> Suc (height s p) \<and>
     q = (if chain_rank s q = 0 then None else path_to s p ! (chain_rank s q - 1)) \<and>
     (\<forall>i \<le> height s p. w ! i = (if chain_rank s q \<le> i then path_to s p ! i else w0 ! i))"

lemma chain_rank_Some: "chain_rank s (Some q) = Suc (height s q)"
  by (simp add: chain_rank_def)

lemma settip_step:
  assumes wf: "wf_store s" and inv: "settip_inv s p w0 w (Some q)"
  shows "settip_inv s p w0 (w[height s q := Some q]) (pprev (s q)) \<and> chain_rank s (pprev (s q)) < chain_rank s (Some q)"
proof -
  have w: "length w = Suc (height s p)" "height s q \<le> height s p" "path_to s p ! height s q = Some q"
    "\<forall>i \<le> height s p. w ! i = (if Suc (height s q) \<le> i then path_to s p ! i else w0 ! i)"
    using inv unfolding settip_inv_def chain_rank_Some by simp_all
  define r where "r = pprev (s q)"
  have hr: "chain_rank s r = height s q"
    unfolding r_def using wf_prev [OF wf, of q] wf_genesis [OF wf, of q] by (cases "pprev (s q)") (auto simp: chain_rank_def)
  have "r = (if height s q = 0 then None else path_to s p ! (height s q - 1))"
    using path_to_inv [OF wf, of p] w wf_genesis [OF wf, of q] wf_nonneg [OF wf, of q]
    unfolding chain_inv_def r_def by (auto simp: less_Suc_eq_le)
  moreover have "\<forall>i \<le> height s p. w[height s q := Some q] ! i = (if height s q \<le> i then path_to s p ! i else w0 ! i)"
    using w by (auto simp: nth_list_update less_Suc_eq_le)
  ultimately show ?thesis
    unfolding r_def [symmetric] settip_inv_def hr chain_rank_Some using w(1,2) by simp
qed

lemma settip_final:
  assumes wf: "wf_store s" and cinv: "chain_inv s v" and inv: "settip_inv s p (resize (Suc (height s p)) v) w q"
    and stop: "case q of None \<Rightarrow> True | Some q \<Rightarrow> w ! height s q = Some q"
  shows "w = path_to s p"
proof -
  let ?w0 = "resize (Suc (height s p)) v"
  have "w ! i = path_to s p ! i" if i: "i \<le> height s p" for i
  proof (cases "chain_rank s q \<le> i")
    case True
    then show ?thesis using inv i by (simp add: settip_inv_def)
  next
    case False
    then obtain r where r: "q = Some r" by (cases q) (auto simp: chain_rank_def)
    let ?k = "height s r"
    have k: "?k \<le> height s p" "path_to s p ! ?k = Some r" "w ! ?k = ?w0 ! ?k" "w ! i = ?w0 ! i" "i \<le> ?k"
      using inv False i unfolding r settip_inv_def chain_rank_Some by simp_all
    have "?w0 ! ?k = Some r" using k(3) stop by (simp add: r)
    then have kv: "?k < length v" "v ! ?k = Some r"
      using k(1) by (auto simp: resize_def nth_append not_less split: if_splits)
    then have "?w0 ! i = v ! i" using k(1,5) by (simp add: resize_def nth_append)
    also have "\<dots> = nth_prev s (?k - i) r" by (rule chain_inv_path [OF cinv k(5) kv])
    also have "\<dots> = path_to s p ! i"
      by (rule chain_inv_path [OF path_to_inv [OF wf] k(5) _ k(2), symmetric]) (use k(1) in simp)
    finally show ?thesis using k by simp
  qed
  moreover have "length w = Suc (height s p)" using inv by (simp add: settip_inv_def)
  ultimately show ?thesis by (intro nth_equalityI) (auto simp: less_Suc_eq_le)
qed

text \<open>\<^verbatim>\<open>SetTip\<close> stops at the first block already in place; the result is the whole path all the same.\<close>

lemma SetTip_eq:
  assumes wf: "wf_store s" and inv: "chain_inv s v"
  shows "SetTip s v (Some p) = Some (path_to s p)"
proof -
  let ?w0 = "resize (Suc (height s p)) v"
  let ?b = "\<lambda>(v, q). case q of None \<Rightarrow> False | Some q \<Rightarrow> v ! height s q \<noteq> Some q"
  let ?c = "\<lambda>(v, q). (v[height s (the q) := q], pprev (s (the q)))"
  let ?P = "\<lambda>(w, q). settip_inv s p ?w0 w q"
  have n1: "nat (nHeight (s p) + 1) = Suc (height s p)" using wf_nonneg [OF wf, of p] by simp
  have "settip_inv s p ?w0 ?w0 (Some p)"
    unfolding settip_inv_def chain_rank_Some by (simp add: path_to_nth resize_def)
  then have "?P (?w0, Some p)" by simp
  moreover have "?P (?c x) \<and> chain_rank s (snd (?c x)) < chain_rank s (snd x)" if Px: "?P x" and bx: "?b x" for x
    using Px bx settip_step [OF wf] by (cases x; cases "snd x") auto
  ultimately obtain t where t: "while_option ?b ?c (?w0, Some p) = Some t" "?P t" "\<not> ?b t"
    using while_option_total [of ?P "(?w0, Some p)" ?b ?c "\<lambda>x. chain_rank s (snd x)"] by auto
  then have "fst t = path_to s p"
    using settip_final [OF wf inv, of p "fst t" "snd t"] by (cases t) (auto split: option.splits)
  then show ?thesis using t(1) by (simp add: SetTip_def n1)
qed

subsection \<open>Forks and common ancestors\<close>

definition is_ancestor :: "store \<Rightarrow> ptr \<Rightarrow> ptr \<Rightarrow> bool" where
  "is_ancestor s q p \<longleftrightarrow> (\<exists>k. nth_prev s k p = Some q)"

lemma is_ancestor_refl [simp]: "is_ancestor s p p"
  unfolding is_ancestor_def by (rule exI [of _ 0]) simp

lemma is_ancestor_trans: "is_ancestor s r q \<Longrightarrow> is_ancestor s q p \<Longrightarrow> is_ancestor s r p"
  unfolding is_ancestor_def by (metis bind.bind_lunit nth_prev_add)

lemma is_ancestor_prev: "pprev (s p) = Some q \<Longrightarrow> is_ancestor s q p"
  unfolding is_ancestor_def by (rule exI [of _ 1]) simp

lemma is_ancestor_height: "wf_store s \<Longrightarrow> is_ancestor s q p \<Longrightarrow> height s q \<le> height s p"
  unfolding is_ancestor_def using nth_prev_height by fastforce

lemma is_ancestor_unique:
  "wf_store s \<Longrightarrow> is_ancestor s q p \<Longrightarrow> is_ancestor s r p \<Longrightarrow> height s q = height s r \<Longrightarrow> q = r"
proof -
  assume wf: "wf_store s" and "is_ancestor s q p" "is_ancestor s r p" and h: "height s q = height s r"
  then obtain m n where m: "nth_prev s m p = Some q" and n: "nth_prev s n p = Some r" unfolding is_ancestor_def by blast
  have "m = n" using nth_prev_height [OF wf m] nth_prev_height [OF wf n] h by linarith
  then show ?thesis using m n by simp
qed

lemma is_ancestor_between:
  assumes wf: "wf_store s" and "is_ancestor s q p" "is_ancestor s r p" "height s q \<le> height s r"
  shows "is_ancestor s q r"
proof -
  obtain m n where m: "nth_prev s m p = Some q" and n: "nth_prev s n p = Some r" using assms unfolding is_ancestor_def by blast
  have "n \<le> m" using nth_prev_height [OF wf m] nth_prev_height [OF wf n] assms(4) by linarith
  then have "nth_prev s (m - n) r = Some q" using nth_prev_add [of s n "m - n" p] m n by simp
  then show ?thesis unfolding is_ancestor_def by blast
qed

lemma proper_ancestor_prev:
  assumes "is_ancestor s q p" "q \<noteq> p"
  shows "\<exists>r. pprev (s p) = Some r \<and> is_ancestor s q r"
proof -
  obtain k where k: "nth_prev s k p = Some q" using assms(1) unfolding is_ancestor_def by blast
  with assms(2) obtain j where "k = Suc j" by (cases k) auto
  then show ?thesis using k unfolding is_ancestor_def by (auto split: option.splits)
qed

lemma proper_ancestor_iff:
  "wf_store s \<Longrightarrow> is_ancestor s a p \<and> a \<noteq> p \<longleftrightarrow> (\<exists>q. pprev (s p) = Some q \<and> is_ancestor s a q)"
proof
  assume "is_ancestor s a p \<and> a \<noteq> p"
  then show "\<exists>q. pprev (s p) = Some q \<and> is_ancestor s a q" using proper_ancestor_prev by blast
next
  assume wf: "wf_store s" and "\<exists>q. pprev (s p) = Some q \<and> is_ancestor s a q"
  then obtain q where q: "pprev (s p) = Some q" "is_ancestor s a q" by blast
  then have "height s a < height s p" using is_ancestor_height [OF wf q(2)] wf_prev [OF wf q(1)] by simp
  then show "is_ancestor s a p \<and> a \<noteq> p" using q is_ancestor_trans is_ancestor_prev by blast
qed

lemma ancestor_at_is_ancestor: "ancestor_at s p h = Some q \<Longrightarrow> is_ancestor s q p"
  by (auto simp: ancestor_at_def is_ancestor_def split: if_splits)

text \<open>
  A walk along \<^verbatim>\<open>pprev\<close> that stops at the first block satisfying \<open>stop\<close>: it returns, and what it
  returns is the highest ancestor that satisfies it.
\<close>

lemma walk_back:
  assumes wf: "wf_store s"
  shows "\<exists>r. while_option (\<lambda>q. q \<noteq> None \<and> \<not> stop (the q)) (\<lambda>q. pprev (s (the q))) (Some p) = Some r \<and>
    (case r of None \<Rightarrow> \<forall>q. is_ancestor s q p \<longrightarrow> \<not> stop q
     | Some q \<Rightarrow> is_ancestor s q p \<and> stop q \<and> (\<forall>a. is_ancestor s a p \<and> stop a \<longrightarrow> height s a \<le> height s q))"
proof -
  let ?b = "\<lambda>q. q \<noteq> None \<and> \<not> stop (the q)" and ?c = "\<lambda>q. pprev (s (the q))"
  let ?P = "\<lambda>r. case r of None \<Rightarrow> \<forall>q. is_ancestor s q p \<longrightarrow> \<not> stop q
     | Some q \<Rightarrow> is_ancestor s q p \<and> (\<forall>a. is_ancestor s a p \<and> stop a \<longrightarrow> is_ancestor s a q)"
  have "?P (?c r) \<and> chain_rank s (?c r) < chain_rank s r" if P: "?P r" and b: "?b r" for r
  proof -
    obtain q where q: "r = Some q" "\<not> stop q" using b by auto
    have a: "is_ancestor s q p" "\<And>a. is_ancestor s a p \<Longrightarrow> stop a \<Longrightarrow> is_ancestor s a q" using P by (simp_all add: q)
    have step: "\<exists>t. pprev (s q) = Some t \<and> is_ancestor s a t" if "is_ancestor s a p" "stop a" for a
      using proper_ancestor_prev a(2) [OF that] that(2) q(2) by metis
    show ?thesis
    proof (cases "pprev (s q)")
      case None
      then show ?thesis using step by (auto simp: q chain_rank_def)
    next
      case (Some t)
      then have "is_ancestor s t p" using is_ancestor_trans [OF is_ancestor_prev a(1)] by blast
      moreover have "is_ancestor s a t" if "is_ancestor s a p" "stop a" for a using step [OF that] Some by simp
      ultimately show ?thesis using Some wf_prev [OF wf Some] by (simp add: q chain_rank_def)
    qed
  qed
  moreover have "?P (Some p)" by simp
  ultimately obtain r where "while_option ?b ?c (Some p) = Some r" "?P r" "\<not> ?b r"
    using while_option_total [of ?P "Some p" ?b ?c "chain_rank s"] by blast
  then show ?thesis using is_ancestor_height [OF wf] by (auto split: option.splits)
qed

lemma Contains_height: "Contains s v q \<Longrightarrow> nHeight (s q) \<le> Height v"
  by (auto simp: Contains_def chain_at_def Height_def split: if_splits)

lemma FindFork_spec:
  assumes wf: "wf_store s"
  shows "\<exists>r. FindFork s v (Some p) = Some r \<and>
    (case r of None \<Rightarrow> \<forall>q. is_ancestor s q p \<longrightarrow> \<not> Contains s v q
     | Some q \<Rightarrow> is_ancestor s q p \<and> Contains s v q \<and>
         (\<forall>a. is_ancestor s a p \<and> Contains s v a \<longrightarrow> height s a \<le> height s q))"
proof (cases "nHeight (s p) > Height v")
  case False
  then show ?thesis using walk_back [OF wf, of "Contains s v" p] by (simp add: FindFork_def)
next
  case True
  show ?thesis
  proof (cases "Height v < 0")
    case neg: True
    then have "\<not> Contains s v q" for q using Contains_height [of s v q] wf_nonneg [OF wf, of q] by linarith
    then show ?thesis using True neg
      by (simp add: FindFork_def GetAncestor_eq [OF wf] ancestor_at_def while_option_unfold)
  next
    case False
    obtain t where t: "ancestor_at s p (Height v) = Some t" "nHeight (s t) = Height v"
      using ancestor_at_Some [OF wf, of "Height v" p] True False by auto
    have at: "is_ancestor s t p" using t(1) by (rule ancestor_at_is_ancestor)
    have sub: "is_ancestor s a t" if "is_ancestor s a p" "Contains s v a" for a
      using is_ancestor_between [OF wf that(1) at] Contains_height [OF that(2)] t(2) by (simp add: nat_mono)
    have ff: "FindFork s v (Some p) = while_option (\<lambda>q. q \<noteq> None \<and> \<not> Contains s v (the q)) (\<lambda>q. pprev (s (the q))) (Some t)"
      using True t(1) by (simp add: FindFork_def GetAncestor_eq [OF wf])
    obtain r where r: "FindFork s v (Some p) = Some r" "case r of None \<Rightarrow> \<forall>q. is_ancestor s q t \<longrightarrow> \<not> Contains s v q
     | Some q \<Rightarrow> is_ancestor s q t \<and> Contains s v q \<and>
         (\<forall>a. is_ancestor s a t \<and> Contains s v a \<longrightarrow> height s a \<le> height s q)"
      using walk_back [OF wf, of "Contains s v" t] unfolding ff by blast
    show ?thesis
    proof (cases r)
      case None
      then show ?thesis using r sub by auto
    next
      case (Some q)
      have "is_ancestor s q p" using r(2) Some is_ancestor_trans [OF _ at] by simp
      then show ?thesis using r Some sub by auto
    qed
  qed
qed

lemma GetLastBlockIndex_spec:
  assumes wf: "wf_store s"
  shows "\<exists>q. GetLastBlockIndex s (Some p) fPoS = Some (Some q) \<and> is_ancestor s q p \<and>
     (IsProofOfStake (s q) = fPoS \<or> pprev (s q) = None) \<and>
     (\<forall>a. is_ancestor s a p \<and> IsProofOfStake (s a) = fPoS \<longrightarrow> height s a \<le> height s q)"
proof -
  let ?stop = "\<lambda>q. pprev (s q) = None \<or> IsProofOfStake (s q) = fPoS"
  have "GetLastBlockIndex s (Some p) fPoS = while_option (\<lambda>q. q \<noteq> None \<and> \<not> ?stop (the q)) (\<lambda>q. pprev (s (the q))) (Some p)"
  proof -
    have "(\<lambda>pindex. case pindex of None \<Rightarrow> False | Some p \<Rightarrow> pprev (s p) \<noteq> None \<and> IsProofOfStake (s p) \<noteq> fPoS) =
        (\<lambda>q. q \<noteq> None \<and> \<not> ?stop (the q))" by (rule ext) (auto split: option.splits)
    then show ?thesis by (simp only: GetLastBlockIndex_def)
  qed
  with walk_back [OF wf, of ?stop p] obtain r where r: "GetLastBlockIndex s (Some p) fPoS = Some r"
    "case r of None \<Rightarrow> \<forall>q. is_ancestor s q p \<longrightarrow> \<not> ?stop q
     | Some q \<Rightarrow> is_ancestor s q p \<and> ?stop q \<and> (\<forall>a. is_ancestor s a p \<and> ?stop a \<longrightarrow> height s a \<le> height s q)" by auto
  obtain g where g: "nth_prev s (height s p) p = Some g" using nth_prev_total [OF wf, of "height s p" p] by auto
  have "height s g = 0" using nth_prev_height [OF wf g] by simp
  then have "pprev (s g) = None" using wf_genesis [OF wf, of g] wf_nonneg [OF wf, of g] by simp
  moreover have "is_ancestor s g p" using g unfolding is_ancestor_def by blast
  ultimately show ?thesis using r by (auto split: option.splits)
qed

definition common_ancestor :: "store \<Rightarrow> ptr \<Rightarrow> ptr \<Rightarrow> ptr \<Rightarrow> bool" where
  "common_ancestor s a b q \<longleftrightarrow> is_ancestor s q a \<and> is_ancestor s q b"

lemma common_ancestor_step:
  assumes wf: "wf_store s" and h: "height s a = height s b" and "a \<noteq> b" and q: "common_ancestor s a b q"
  shows "\<exists>a' b'. pprev (s a) = Some a' \<and> pprev (s b) = Some b' \<and> common_ancestor s a' b' q"
proof -
  have "q \<noteq> a" "q \<noteq> b" using is_ancestor_unique [OF wf, of q b b] is_ancestor_unique [OF wf, of q a a] q h assms(3)
    by (auto simp: common_ancestor_def)
  then show ?thesis using proper_ancestor_prev q unfolding common_ancestor_def by blast
qed

lemma level_walk:
  assumes wf: "wf_store s" and h: "height s a = height s b"
  shows "\<exists>r. while_option (\<lambda>(pa, pb). pa \<noteq> pb \<and> pa \<noteq> None \<and> pb \<noteq> None)
      (\<lambda>(pa, pb). (pprev (s (the pa)), pprev (s (the pb)))) (Some a, Some b) = Some (r, r) \<and>
    (case r of None \<Rightarrow> \<forall>q. \<not> common_ancestor s a b q
     | Some q \<Rightarrow> common_ancestor s a b q \<and> (\<forall>x. common_ancestor s a b x \<longrightarrow> is_ancestor s x q))"
proof -
  let ?b = "\<lambda>(pa :: ptr option, pb). pa \<noteq> pb \<and> pa \<noteq> None \<and> pb \<noteq> None"
  let ?c = "\<lambda>(pa, pb). (pprev (s (the pa)), pprev (s (the pb)))"
  let ?P = "\<lambda>(pa, pb). case (pa, pb) of
      (Some x, Some y) \<Rightarrow> height s x = height s y \<and> is_ancestor s x a \<and> is_ancestor s y b \<and>
         (\<forall>q. common_ancestor s a b q \<longrightarrow> common_ancestor s x y q)
    | (None, None) \<Rightarrow> \<forall>q. \<not> common_ancestor s a b q | _ \<Rightarrow> False"
  have "?P (?c z) \<and> chain_rank s (fst (?c z)) < chain_rank s (fst z)" if P: "?P z" and b: "?b z" for z
  proof -
    obtain x y where z: "z = (Some x, Some y)" and ne: "x \<noteq> y" using b by auto
    have i: "height s x = height s y" "is_ancestor s x a" "is_ancestor s y b"
      "\<And>q. common_ancestor s a b q \<Longrightarrow> common_ancestor s x y q" using P by (simp_all add: z)
    note step = common_ancestor_step [OF wf i(1) ne i(4)]
    show ?thesis
    proof (cases "pprev (s x)")
      case None
      then have "pprev (s y) = None"
        using wf_genesis [OF wf] i(1) wf_nonneg [OF wf, of x] wf_nonneg [OF wf, of y] by (metis eq_nat_nat_iff)
      then show ?thesis using None step by (auto simp: z chain_rank_def)
    next
      case (Some x')
      then obtain y' where y': "pprev (s y) = Some y'"
        using wf_genesis [OF wf] i(1) wf_nonneg [OF wf, of x] wf_nonneg [OF wf, of y] by (metis eq_nat_nat_iff not_Some_eq option.distinct(1))
      have "height s x' = height s y'" using wf_prev [OF wf Some] wf_prev [OF wf y'] i(1) by simp
      moreover have "is_ancestor s x' a" "is_ancestor s y' b"
        using is_ancestor_trans [OF is_ancestor_prev] Some y' i by blast+
      ultimately show ?thesis using Some y' step wf_prev [OF wf Some] by (auto simp: z chain_rank_def)
    qed
  qed
  moreover have "?P (Some a, Some b)" using h by simp
  ultimately obtain z where z: "while_option ?b ?c (Some a, Some b) = Some z" "?P z" "\<not> ?b z"
    using while_option_total [of ?P "(Some a, Some b)" ?b ?c "\<lambda>z. chain_rank s (fst z)"] by auto
  obtain pa pb where p: "z = (pa, pb)" by (cases z)
  then have eq: "pa = pb" using z(2,3) by (auto split: option.splits)
  show ?thesis using z eq unfolding p
    by (intro exI [of _ pa]) (auto simp: common_ancestor_def split: option.splits)
qed

lemma LastCommonAncestor_spec:
  assumes wf: "wf_store s"
  shows "\<exists>r. LastCommonAncestor s pa pb = Some r \<and>
    (case r of None \<Rightarrow> \<forall>q. \<not> common_ancestor s pa pb q
     | Some q \<Rightarrow> common_ancestor s pa pb q \<and> (\<forall>x. common_ancestor s pa pb x \<longrightarrow> is_ancestor s x q))"
proof -
  define m where "m = min (nHeight (s pa)) (nHeight (s pb))"
  have m: "0 \<le> m" "m \<le> nHeight (s pa)" "m \<le> nHeight (s pb)"
    using wf_nonneg [OF wf] by (simp_all add: m_def)
  obtain a where a: "ancestor_at s pa m = Some a" "nHeight (s a) = m" using ancestor_at_Some [OF wf m(1,2)] by blast
  obtain b where b: "ancestor_at s pb m = Some b" "nHeight (s b) = m" using ancestor_at_Some [OF wf m(1,3)] by blast
  have aa: "is_ancestor s a pa" and bb: "is_ancestor s b pb"
    using a(1) b(1) by (simp_all add: ancestor_at_is_ancestor)
  have common: "common_ancestor s pa pb q \<longleftrightarrow> common_ancestor s a b q" for q
  proof
    assume q: "common_ancestor s pa pb q"
    then have "height s q \<le> height s pa" "height s q \<le> height s pb"
      using is_ancestor_height [OF wf] by (simp_all add: common_ancestor_def)
    then have "height s q \<le> height s a" "height s q \<le> height s b" unfolding a(2) b(2) by (auto simp: m_def min_def)
    then show "common_ancestor s a b q" using q is_ancestor_between [OF wf] aa bb by (auto simp: common_ancestor_def)
  next
    assume "common_ancestor s a b q"
    then show "common_ancestor s pa pb q" using is_ancestor_trans aa bb unfolding common_ancestor_def by blast
  qed
  have self: "ancestor_at s p (nHeight (s p)) = Some p" for p using wf_nonneg [OF wf, of p] by (simp add: ancestor_at_def)
  have "LastCommonAncestor s pa pb =
      do { (pa, pb) \<leftarrow> while_option (\<lambda>(pa, pb). pa \<noteq> pb \<and> pa \<noteq> None \<and> pb \<noteq> None)
             (\<lambda>(pa, pb). (pprev (s (the pa)), pprev (s (the pb)))) (Some a, Some b);
          (if pa = pb then Some pa else None) }"
    using a b self by (auto simp: LastCommonAncestor_def GetAncestor_eq [OF wf] m_def min_def split: if_splits)
  then show ?thesis using level_walk [OF wf, of a b] a(2) b(2) by (auto simp: common split: option.splits)
qed

subsection \<open>Locators\<close>

lemma chain_at_ancestor:
  assumes wf: "wf_store s" and inv: "chain_inv s v" and c: "Contains s v p" and h: "0 \<le> h" "h \<le> nHeight (s p)"
  shows "chain_at v h = ancestor_at s p h"
proof -
  have l: "nHeight (s p) < int (length v)" "v ! height s p = Some p"
    using c by (auto simp: Contains_def chain_at_def split: if_splits)
  have "v ! nat h = nth_prev s (height s p - nat h) p"
    by (rule chain_inv_path [OF inv _ _ l(2)]) (use h l(1) wf_nonneg [OF wf, of p] in auto)
  then show ?thesis using h l(1) by (simp add: chain_at_def ancestor_at_def nat_diff_distrib)
qed

definition locator_blocks :: "store \<Rightarrow> ptr \<Rightarrow> ptr list \<Rightarrow> bool" where
  "locator_blocks s p qs \<longleftrightarrow> qs \<noteq> [] \<and> hd qs = p \<and> nHeight (s (last qs)) = 0 \<and>
     sorted_wrt (\<lambda>a b. is_ancestor s b a \<and> height s b < height s a) qs"

lemma locator_loop_spec:
  assumes wf: "wf_store s" and inv: "chain_inv s v" and "0 < nStep"
  shows "\<exists>qs. locator_loop s v nStep vHave (Some p) = Some (vHave @ map (\<lambda>q. phashBlock (s q)) qs) \<and> locator_blocks s p qs"
  using assms(3)
proof (induction "height s p" arbitrary: p nStep vHave rule: less_induct)
  case less
  show ?case
  proof (cases "nHeight (s p) = 0")
    case True
    then have "locator_loop s v nStep vHave (Some p) = Some (vHave @ [phashBlock (s p)])"
      by (subst locator_loop.simps) simp
    then show ?thesis using True by (intro exI [of _ "[p]"]) (simp add: locator_blocks_def)
  next
    case False
    let ?h = "max (nHeight (s p) - nStep) 0"
    have pos: "0 < nHeight (s p)" using False wf_nonneg [OF wf, of p] by simp
    obtain q where q: "ancestor_at s p ?h = Some q" "nHeight (s q) = ?h"
      using ancestor_at_Some [OF wf, of ?h p] pos less.prems by auto
    have nxt: "(if Contains s v p then Some (chain_at v ?h) else GetAncestor s p ?h) = Some (Some q)"
      using chain_at_ancestor [OF wf inv, of p ?h] q pos less.prems by (simp add: GetAncestor_eq [OF wf])
    have lt: "height s q < height s p" using q(2) pos less.prems by simp
    let ?st = "if length (vHave @ [phashBlock (s p)]) > 10 then nStep * 2 else nStep"
    have "0 < ?st" using less.prems by simp
    then obtain qs where qs: "locator_loop s v ?st (vHave @ [phashBlock (s p)]) (Some q) =
        Some ((vHave @ [phashBlock (s p)]) @ map (\<lambda>q. phashBlock (s q)) qs)" "locator_blocks s q qs"
      using less.hyps [OF lt] by blast
    have "locator_loop s v nStep vHave (Some p) = locator_loop s v ?st (vHave @ [phashBlock (s p)]) (Some q)"
      using False nxt by (subst locator_loop.simps) (simp add: Let_def)
    moreover have "locator_blocks s p (p # qs)"
    proof -
      have qp: "is_ancestor s q p" using q(1) by (rule ancestor_at_is_ancestor)
      have "is_ancestor s a p \<and> height s a < height s p" if "a \<in> set qs" for a
        using qs(2) that qp lt is_ancestor_trans by (cases qs) (auto simp: locator_blocks_def)
      then show ?thesis using qs(2) by (simp add: locator_blocks_def)
    qed
    ultimately show ?thesis using qs(1) by (intro exI [of _ "p # qs"]) simp
  qed
qed

subsection \<open>Bisection\<close>

lemma lower_bound_spec:
  assumes "\<And>i j. i \<le> j \<Longrightarrow> j < length xs \<Longrightarrow> before (xs ! j) \<Longrightarrow> before (xs ! i)"
    and "first + len \<le> length xs"
    and "\<And>i. i < first \<Longrightarrow> before (xs ! i)" and "\<And>i. first + len \<le> i \<Longrightarrow> i < length xs \<Longrightarrow> \<not> before (xs ! i)"
  defines "r \<equiv> lower_bound before xs first len"
  shows "r \<le> length xs \<and> (\<forall>i < r. before (xs ! i)) \<and> (\<forall>i. r \<le> i \<and> i < length xs \<longrightarrow> \<not> before (xs ! i))"
  using assms(2-4) unfolding r_def
proof (induction len arbitrary: first rule: less_induct)
  case (less len)
  show ?case
  proof (cases "len = 0")
    case True
    then show ?thesis using less.prems by (subst (1 2 3) lower_bound.simps) auto
  next
    case False
    let ?half = "len div 2"
    show ?thesis
    proof (cases "before (xs ! (first + ?half))")
      case True
      have e: "lower_bound before xs first len = lower_bound before xs (first + ?half + 1) (len - ?half - 1)"
        using False True by (subst lower_bound.simps) (simp add: Let_def)
      have sm: "len - ?half - 1 < len" "first + ?half + 1 + (len - ?half - 1) = first + len" "first + ?half < length xs"
        using False less.prems(1) by auto
      have b: "before (xs ! i)" if "i < first + ?half + 1" for i
        by (rule assms(1) [OF _ sm(3) True]) (use that in simp)
      show ?thesis unfolding e
        by (rule less.IH [OF sm(1), of "first + ?half + 1", unfolded sm(2), OF less.prems(1) b less.prems(3)])
    next
      case nb: False
      have e: "lower_bound before xs first len = lower_bound before xs first ?half"
        using False nb by (subst lower_bound.simps) (simp add: Let_def)
      have sm: "?half < len" "first + ?half \<le> length xs" using False less.prems(1) by auto
      have b: "\<not> before (xs ! i)" if "first + ?half \<le> i" "i < length xs" for i
        using assms(1) [OF that] nb by blast
      show ?thesis unfolding e by (rule less.IH [OF sm less.prems(2) b])
    qed
  qed
qed

definition times_mono :: "store \<Rightarrow> bool" where
  "times_mono s \<longleftrightarrow> (\<forall>p. case pprev (s p) of None \<Rightarrow> True | Some q \<Rightarrow> nTimeMax (s q) \<le> nTimeMax (s p))"

lemma nth_prev_times: "times_mono s \<Longrightarrow> nth_prev s n p = Some q \<Longrightarrow> nTimeMax (s q) \<le> nTimeMax (s p)"
proof (induction n arbitrary: p)
  case 0
  then show ?case by simp
next
  case (Suc n)
  then obtain r where r: "pprev (s p) = Some r" "nth_prev s n r = Some q" by (auto split: option.splits)
  have "nTimeMax (s r) \<le> nTimeMax (s p)" using Suc.prems(1) r(1) unfolding times_mono_def by (metis option.case(2))
  then show ?case using Suc.IH [OF Suc.prems(1) r(2)] by (rule order_trans [rotated])
qed

lemma chain_inv_nth:
  assumes "chain_inv s v" "i < length v"
  shows "\<exists>p. v ! i = Some p \<and> nHeight (s p) = int i"
  using assms unfolding chain_inv_def by blast

lemma FindEarliestAtLeast_spec:
  fixes t h :: int
  assumes inv: "chain_inv s v" and tm: "times_mono s"
  defines "late \<equiv> \<lambda>p. GetBlockTimeMax (s p) \<ge> t \<and> nHeight (s p) \<ge> h"
  shows "case FindEarliestAtLeast s v t h of
      None \<Rightarrow> \<forall>p. Some p \<in> set v \<longrightarrow> \<not> late p
    | Some q \<Rightarrow> Some q \<in> set v \<and> late q \<and> (\<forall>p. Some p \<in> set v \<and> late p \<longrightarrow> nHeight (s q) \<le> nHeight (s p))"
proof -
  let ?before = "\<lambda>p. GetBlockTimeMax (s (the p)) < t \<or> nHeight (s (the p)) < h"
  let ?r = "lower_bound ?before v 0 (length v)"
  have mono: "?before (v ! i)" if ij: "i \<le> j" "j < length v" and b: "?before (v ! j)" for i j
  proof -
    obtain p q where p: "v ! i = Some p" "nHeight (s p) = int i" and q: "v ! j = Some q" "nHeight (s q) = int j"
      using chain_inv_nth [OF inv] ij by (meson le_less_trans)
    have "nTimeMax (s p) \<le> nTimeMax (s q)" using nth_prev_times [OF tm] chain_inv_path [OF inv ij q(1)] p(1) by metis
    then show ?thesis using b p q ij(1) by (auto simp: GetBlockTimeMax_def word_le_def)
  qed
  have r: "?r \<le> length v" "\<forall>i < ?r. ?before (v ! i)" "\<forall>i. ?r \<le> i \<and> i < length v \<longrightarrow> \<not> ?before (v ! i)"
    using lower_bound_spec [of v ?before 0 "length v"] mono by auto
  have late_iff: "late p \<longleftrightarrow> \<not> ?before (Some p)" for p by (auto simp: late_def)
  show ?thesis
  proof (cases "?r = length v")
    case True
    have "\<not> late p" if m: "Some p \<in> set v" for p
    proof -
      obtain i where "i < length v" "v ! i = Some p" using m by (metis in_set_conv_nth)
      then have "?before (Some p)" using r(2) unfolding True by metis
      then show ?thesis unfolding late_iff by blast
    qed
    then show ?thesis using True by (simp add: FindEarliestAtLeast_def Let_def)
  next
    case False
    then have lt: "?r < length v" using r(1) by simp
    obtain q where q: "v ! ?r = Some q" "nHeight (s q) = int ?r" using chain_inv_nth [OF inv lt] by blast
    have "\<not> ?before (v ! ?r)" using r(3) lt by blast
    then have "late q" unfolding late_iff q(1) .
    moreover have "nHeight (s q) \<le> nHeight (s p)" if m: "Some p \<in> set v" "late p" for p
    proof -
      obtain i where i: "i < length v" "v ! i = Some p" using m by (metis in_set_conv_nth)
      have "\<not> i < ?r"
      proof
        assume "i < ?r"
        then have "?before (v ! i)" using r(2) by blast
        then show False using m(2) unfolding late_iff i(2) by blast
      qed
      then show ?thesis using chain_inv_nth [OF inv i(1)] i(2) q(2) by auto
    qed
    moreover have "Some q \<in> set v" using q lt by (metis nth_mem)
    ultimately show ?thesis using False q by (simp add: FindEarliestAtLeast_def Let_def)
  qed
qed

subsection \<open>Trust values\<close>

lemma length_SetCompact: "SetCompact c = (v, f) \<Longrightarrow> length v = 8"
  by (auto simp: SetCompact_def Let_def split: if_splits)

text \<open>A decoded target is never the largest number, so adding one to it does not wrap.\<close>

lemma SetCompact_not_max:
  assumes "SetCompact c = (v, f)"
  shows "le_value v + 1 < 2 ^ 256"
proof -
  define w :: u64 where "w = ucast (if unat (drop_bit 24 c) \<le> 3
      then drop_bit (8 * (3 - unat (drop_bit 24 c))) (c AND 0x007fffff) else c AND 0x007fffff)"
  define k where "k = 8 * (unat (drop_bit 24 c) - 3)"
  consider "v = uint_of_u64 8 w" | "v = uint_shl (uint_of_u64 8 w) k" "0 < k"
    using assms unfolding SetCompact_def Let_def w_def k_def by (auto split: if_splits)
  then show ?thesis
  proof cases
    case 1
    have "unat w + 1 < 2 ^ 256" using unat_lt_pow [of w] by simp
    then show ?thesis by (simp add: 1 val_uint_of_u64)
  next
    case 2
    have len: "length v = 8" by (rule length_SetCompact [OF assms])
    have "\<not> bit (le_value v) 0" using 2 bit_uint_shl [of 0 "uint_of_u64 8 w" k] by simp
    then have "even (le_value v)" by (simp add: bit_0)
    moreover have "le_value v < 2 ^ 256" using le_value_bound [of v] by (simp add: len)
    moreover have "odd ((2 :: nat) ^ 256 - 1)" by simp
    ultimately have "le_value v \<noteq> 2 ^ 256 - 1" by metis
    then show ?thesis using \<open>le_value v < 2 ^ 256\<close> by linarith
  qed
qed

lemma div_complement:
  fixes n t :: nat
  assumes "t < n"
  shows "(n - 1 - t) div (t + 1) + 1 = n div (t + 1)"
proof -
  have "n div (t + 1) = ((n - 1 - t) + (t + 1)) div (t + 1)" using assms by simp
  also have "\<dots> = (n - 1 - t) div (t + 1) + 1" by (rule div_add_self2) simp
  finally show ?thesis by simp
qed

lemma GetBlockTrust_value:
  assumes c: "SetCompact (bi_nBits b) = (target, fNegative, fOverflow)"
  shows "\<exists>t. GetBlockTrust b = Inr t \<and> length t = 8 \<and>
     le_value t = (if fNegative \<or> fOverflow \<or> le_value target = 0 then 0
                   else if IsProofOfStake b then 2 ^ 256 div (le_value target + 1) else 1)"
proof -
  have len: "length target = 8" by (rule length_SetCompact [OF c])
  have eq0: "EqualTo target 0 \<longleftrightarrow> le_value target = 0" by (simp add: EqualTo_value len)
  show ?thesis
  proof (cases "\<not> (fNegative \<or> fOverflow \<or> le_value target = 0) \<and> IsProofOfStake b")
    case False
    then show ?thesis by (auto simp: GetBlockTrust_def c eq0 val_uint_of_u64)
  next
    case True
    let ?d = "uint_add target (uint_of_u64 8 1)" and ?n = "2 ^ 256 :: nat"
    have lt: "le_value target + 1 < ?n" by (rule SetCompact_not_max [OF c])
    have d: "le_value ?d = le_value target + 1" "length ?d = 8"
      using lt by (simp_all add: val_uint_add val_uint_of_u64 len)
    have n: "le_value (uint_not target) = ?n - 1 - le_value target" by (simp add: val_uint_not len)
    obtain q where q: "uint_div (uint_not target) ?d = Inr q" "length q = 8"
      "le_value q = (?n - 1 - le_value target) div (le_value target + 1)"
      using uint_div_correct [of "uint_not target" ?d] d n len by auto
    have qn: "le_value q + 1 = ?n div (le_value target + 1)"
      using div_complement [of "le_value target" ?n] lt q(3) by simp
    also have "\<dots> < ?n" using True by (intro div_less_dividend) auto
    finally have "le_value (uint_add q (uint_of_u64 8 1)) = ?n div (le_value target + 1)"
      using qn by (simp add: val_uint_add val_uint_of_u64 q(2))
    then show ?thesis using True q by (simp add: GetBlockTrust_def c eq0 ebind_def)
  qed
qed

subsection \<open>The median time\<close>

lemma sorted_filter_bounds:
  fixes xs :: "int list"
  assumes s: "sorted xs" and k: "k < length xs"
  shows "length (filter (\<lambda>t. t < xs ! k) xs) \<le> k" "length (filter (\<lambda>t. t > xs ! k) xs) \<le> length xs - Suc k"
proof -
  have ge: "\<forall>t \<in> set (drop k xs). xs ! k \<le> t"
  proof
    fix t assume "t \<in> set (drop k xs)"
    then obtain i where "i < length xs - k" "t = xs ! (k + i)" by (auto simp: in_set_conv_nth)
    then show "xs ! k \<le> t" using s by (simp add: sorted_nth_mono)
  qed
  have le: "\<forall>t \<in> set (take (Suc k) xs). t \<le> xs ! k"
  proof
    fix t assume "t \<in> set (take (Suc k) xs)"
    then obtain i where "i < Suc k" "i < length xs" "t = xs ! i" by (auto simp: in_set_conv_nth)
    then show "t \<le> xs ! k" using s k by (simp add: sorted_nth_mono less_Suc_eq_le)
  qed
  have 1: "filter (\<lambda>t. t < xs ! k) (drop k xs) = []" using ge by (auto simp: filter_empty_conv)
  have 2: "filter (\<lambda>t. t > xs ! k) (take (Suc k) xs) = []" using le by (auto simp: filter_empty_conv)
  have "filter (\<lambda>t. t < xs ! k) xs = filter (\<lambda>t. t < xs ! k) (take k xs @ drop k xs)" by simp
  also have "\<dots> = filter (\<lambda>t. t < xs ! k) (take k xs)" unfolding filter_append 1 by simp
  finally show "length (filter (\<lambda>t. t < xs ! k) xs) \<le> k"
    using length_filter_le [of "\<lambda>t. t < xs ! k" "take k xs"] by simp
  have "filter (\<lambda>t. t > xs ! k) xs = filter (\<lambda>t. t > xs ! k) (take (Suc k) xs @ drop (Suc k) xs)" by simp
  also have "\<dots> = filter (\<lambda>t. t > xs ! k) (drop (Suc k) xs)" unfolding filter_append 2 by simp
  finally show "length (filter (\<lambda>t. t > xs ! k) xs) \<le> length xs - Suc k"
    using length_filter_le [of "\<lambda>t. t > xs ! k" "drop (Suc k) xs"] by simp
qed

lemma length_filter_sort: "length (filter P (sort xs)) = length (filter P (xs :: int list))"
  by (metis filter_sort length_sort)

lemma length_past_times: "wf_store s \<Longrightarrow> length (past_times s n (Some p)) = min n (Suc (height s p))"
proof (induction n arbitrary: p)
  case (Suc n)
  show ?case
  proof (cases "pprev (s p)")
    case None
    then show ?thesis using wf_genesis [OF Suc.prems, of p] by (cases n) auto
  next
    case (Some q)
    then show ?thesis using Suc wf_prev [OF Suc.prems Some] by simp
  qed
qed simp

lemma GetMedianTimePast_median:
  fixes p :: ptr
  assumes "wf_store s"
  defines "ts \<equiv> past_times s nMedianTimeSpan (Some p)" and "m \<equiv> GetMedianTimePast s p"
  shows "length ts = min 11 (Suc (height s p)) \<and> m \<in> set ts \<and>
    2 * length (filter (\<lambda>t. t < m) ts) \<le> length ts \<and> 2 * length (filter (\<lambda>t. t > m) ts) \<le> length ts"
proof -
  define xs where "xs = sort (rev ts)"
  have len: "length xs = length ts" "length ts = min 11 (Suc (height s p))"
    unfolding xs_def ts_def using length_past_times [OF assms(1)] by (simp_all add: nMedianTimeSpan_def)
  have k: "length xs div 2 < length xs" using len by simp
  have m: "m = xs ! (length xs div 2)" by (simp add: m_def GetMedianTimePast_def ts_def xs_def Let_def)
  have f: "length (filter P xs) = length (filter P ts)" for P
    unfolding xs_def length_filter_sort by (simp add: rev_filter [symmetric])
  have "m \<in> set xs" unfolding m by (rule nth_mem [OF k])
  then have "m \<in> set ts" by (simp add: xs_def)
  have "sorted xs" by (simp add: xs_def)
  note b = sorted_filter_bounds [OF this k, folded m, unfolded f len(1)]
  have "2 * length (filter (\<lambda>t. t < m) ts) \<le> length ts" using b(1) by linarith
  moreover have "2 * length (filter (\<lambda>t. t > m) ts) \<le> length ts" using b(2) by linarith
  ultimately show ?thesis using \<open>m \<in> set ts\<close> len(2) by blast
qed

subsection \<open>Validity levels\<close>

lemma bit_sub: "u AND NOT k = (0 :: u32) \<Longrightarrow> bit u n \<Longrightarrow> bit k n"
  using bit_and_iff [of u "NOT k" n] by (auto simp: bit_not_iff dest: bit_imp_possible_bit)

lemma bit_disj: "k AND m = (0 :: u32) \<Longrightarrow> bit k n \<Longrightarrow> \<not> bit m n"
  using bit_and_iff [of k m n] by auto

lemma set_level_and:
  fixes st u m k :: u32
  assumes "u AND NOT k = 0" "k AND m = 0"
  shows "((st AND NOT k) OR u) AND m = st AND m"
proof (rule bit_eqI)
  fix n
  show "bit (((st AND NOT k) OR u) AND m) n \<longleftrightarrow> bit (st AND m) n"
    using bit_sub [OF assms(1), of n] bit_disj [OF assms(2), of n]
    by (auto simp: bit_and_iff bit_or_iff bit_not_iff dest: bit_imp_possible_bit)
qed

lemma set_level_self: "u AND NOT k = 0 \<Longrightarrow> ((st AND NOT k) OR u) AND k = (u :: u32)"
proof (rule bit_eqI)
  fix n
  assume "u AND NOT k = 0"
  then show "bit (((st AND NOT k) OR u) AND k) n \<longleftrightarrow> bit u n"
    using bit_sub [of u k n] by (auto simp: bit_and_iff bit_or_iff bit_not_iff)
qed

lemma and_not_and: "n AND m = 0 \<Longrightarrow> (st AND NOT n) AND m = st AND (m :: u32)"
  using set_level_and [of 0 n m st] by simp

lemma RaiseValidity_IsValid:
  assumes up: "nUpTo AND NOT BLOCK_VALID_MASK = 0"
  shows "case RaiseValidity b nUpTo of None \<Rightarrow> False
    | Some (changed, b') \<Rightarrow>
        IsValid b' nUpTo = Some (nStatus b AND BLOCK_FAILED_MASK = 0) \<and>
        (changed \<longleftrightarrow> IsValid b nUpTo = Some False \<and> nStatus b AND BLOCK_FAILED_MASK = 0) \<and>
        (\<not> changed \<longrightarrow> b' = b) \<and>
        (\<forall>m \<in> {BLOCK_FAILED_MASK, BLOCK_HAVE_DATA, BLOCK_HAVE_UNDO}. nStatus b' AND m = nStatus b AND m)"
proof -
  have dis: "BLOCK_VALID_MASK AND m = 0 \<and> BLOCK_ASSUMED_VALID AND m = 0"
    if "m \<in> {BLOCK_FAILED_MASK, BLOCK_HAVE_DATA, BLOCK_HAVE_UNDO}" for m
    using that by (auto simp: BLOCK_VALID_MASK_def BLOCK_ASSUMED_VALID_def BLOCK_FAILED_MASK_def
        BLOCK_HAVE_DATA_def BLOCK_HAVE_UNDO_def)
  have keep: "((st AND NOT BLOCK_VALID_MASK) OR nUpTo) AND m = nStatus b AND m"
    if "m \<in> {BLOCK_FAILED_MASK, BLOCK_HAVE_DATA, BLOCK_HAVE_UNDO}"
      "st = nStatus b AND NOT BLOCK_ASSUMED_VALID \<or> st = nStatus b" for m st
    using set_level_and [OF up, of m st] and_not_and [of BLOCK_ASSUMED_VALID m "nStatus b"] dis [OF that(1)] that(2) by auto
  show ?thesis
    using up set_level_self [OF up] keep
    by (auto simp: RaiseValidity_def IsValid_def Let_def not_le not_less)
qed

subsection \<open>Properties\<close>

text \<open>
  A tree of seven blocks for the witnesses: a main branch 0 to 4 and a side branch 5, 6 on top of block 2.
\<close>

definition sample_store :: store where
  "sample_store p = CBlockIndex_default\<lparr>
     nHeight := (if p = 1 then 1 else if p = 2 then 2 else if p = 3 \<or> p = 5 then 3 else if p = 4 \<or> p = 6 then 4 else 0),
     pprev := (if p = 1 then Some 0 else if p = 2 then Some 1 else if p = 3 \<or> p = 5 then Some 2
               else if p = 4 then Some 3 else if p = 6 then Some 5 else None),
     pskip := (if p = 1 \<or> p = 2 \<or> p = 4 \<or> p = 6 then Some 0 else if p = 3 \<or> p = 5 then Some 1 else None),
     bi_nTime := 100 + 7 * word_of_nat p, nTimeMax := 200 + word_of_int (if p \<le> 4 then int p else if p \<le> 6 then int p - 2 else 0)\<rparr>"

lemma sample_height: "nHeight (sample_store p) =
    (if p = 1 then 1 else if p = 2 then 2 else if p = 3 \<or> p = 5 then 3 else if p = 4 \<or> p = 6 then 4 else 0)"
  by (simp add: sample_store_def)

lemma sample_prev: "pprev (sample_store p) = (if p = 1 then Some 0 else if p = 2 then Some 1
    else if p = 3 \<or> p = 5 then Some 2 else if p = 4 then Some 3 else if p = 6 then Some 5 else None)"
  by (simp add: sample_store_def)

lemma sample_skip: "pskip (sample_store p) =
    (if p = 1 \<or> p = 2 \<or> p = 4 \<or> p = 6 then Some 0 else if p = 3 \<or> p = 5 then Some 1 else None)"
  by (simp add: sample_store_def)

lemma nth_prev_numeral: "nth_prev s (numeral k) p =
    (case pprev (s p) of None \<Rightarrow> None | Some q \<Rightarrow> nth_prev s (pred_numeral k) q)"
  by (simp add: numeral_eq_Suc)

lemma small_skip_heights: "GetSkipHeight (Suc 0) = 0" "GetSkipHeight 2 = 0" "GetSkipHeight 3 = 1" "GetSkipHeight 4 = 0"
  by (simp_all add: GetSkipHeight_def InvertLowestOne_def)

lemmas sample_simps = sample_height sample_prev sample_skip nth_prev_numeral small_skip_heights

lemma wf_sample_store: "wf_store sample_store"
  unfolding wf_store_def by (simp add: sample_simps)

text \<open>
  C23: on a well-formed tree \<^verbatim>\<open>GetAncestor\<close>, which jumps along the skip list, returns the same block as
  following \<^verbatim>\<open>pprev\<close> one block at a time, its assertion never fails, and \<^verbatim>\<open>BuildSkip\<close> keeps the tree well-formed.
\<close>

theorem GetAncestor_skip_list:
  assumes "wf_store s"
  shows "GetAncestor s p h = Some (if h > nHeight (s p) \<or> h < 0 then None else nth_prev s (nat (nHeight (s p) - h)) p) \<and>
    (\<exists>s'. BuildSkip s p = Some s' \<and> wf_store s')"
  using GetAncestor_eq [OF assms] BuildSkip_wf [OF assms, of p] by (auto simp: ancestor_at_def)

theorem GetAncestor_skip_list_witness:
  "GetAncestor sample_store 6 1 = Some (Some 1)"
  using GetAncestor_skip_list [OF wf_sample_store, of 6 1]
  by (simp add: sample_simps)

text \<open>
  C24: \<^verbatim>\<open>SetTip\<close> stops at the first block that is already in place, yet makes the active chain the whole
  path from the genesis block to the new tip, whatever chain it replaces.
\<close>

theorem SetTip_path:
  assumes "wf_store s" "chain_inv s v"
  shows "\<exists>w. SetTip s v (Some p) = Some w \<and> chain_inv s w \<and> Height w = nHeight (s p) \<and> Tip w = Some p \<and>
     (\<forall>q. Contains s w q \<longleftrightarrow> is_ancestor s q p)"
proof -
  have nn: "0 \<le> nHeight (s p)" by (rule wf_nonneg [OF assms(1)])
  have "Contains s (path_to s p) q \<longleftrightarrow> is_ancestor s q p" for q
  proof
    assume c: "Contains s (path_to s p) q"
    then have h: "height s q \<le> height s p" "path_to s p ! height s q = Some q"
      by (auto simp: Contains_def chain_at_def split: if_splits)
    then have "nth_prev s (height s p - height s q) p = Some q" by (simp add: path_to_nth)
    then show "is_ancestor s q p" unfolding is_ancestor_def by blast
  next
    assume "is_ancestor s q p"
    then obtain k where k: "nth_prev s k p = Some q" by (auto simp: is_ancestor_def)
    have h: "k \<le> height s p" "height s q = height s p - k" using nth_prev_height [OF assms(1) k] by simp_all
    then have "path_to s p ! height s q = Some q" using k by (simp add: path_to_nth)
    then show "Contains s (path_to s p) q"
      using h wf_nonneg [OF assms(1), of q] by (auto simp: Contains_def chain_at_def)
  qed
  moreover have "path_to s p \<noteq> []" by (simp add: path_to_def)
  then have "Tip (path_to s p) = Some p" by (simp add: Tip_def path_to_nth)
  moreover have "Height (path_to s p) = nHeight (s p)" using nn by (simp add: Height_def)
  ultimately show ?thesis using SetTip_eq [OF assms, of p] path_to_inv [OF assms(1), of p] by blast
qed

theorem SetTip_path_witness:
  "\<exists>w. SetTip sample_store [Some 0, Some 1, Some 2, Some 3, Some 4] (Some 6) = Some w \<and> Tip w = Some 6"
  using SetTip_path [OF wf_sample_store, of "[Some 0, Some 1, Some 2, Some 3, Some 4]" 6]
  by (auto simp: chain_inv_def sample_simps less_Suc_eq nth_Cons')

text \<open>
  C17: \<^verbatim>\<open>LastCommonAncestor\<close> returns the highest block that is an ancestor of both, and its assertion fails
  never: without a common ancestor both walks reach \<^verbatim>\<open>nullptr\<close> together.
\<close>

theorem LastCommonAncestor_highest:
  assumes "wf_store s"
  shows "\<exists>r. LastCommonAncestor s pa pb = Some r \<and>
    (case r of None \<Rightarrow> \<forall>q. \<not> common_ancestor s pa pb q
     | Some q \<Rightarrow> common_ancestor s pa pb q \<and> (\<forall>x. common_ancestor s pa pb x \<longrightarrow> is_ancestor s x q))"
  by (rule LastCommonAncestor_spec [OF assms])

theorem LastCommonAncestor_highest_witness:
  "\<exists>r. LastCommonAncestor sample_store 4 6 = Some r"
  using LastCommonAncestor_highest [OF wf_sample_store, of 4 6] by blast

text \<open>
  C19: \<^verbatim>\<open>FindFork\<close> returns the highest ancestor of the block that is on the active chain.
\<close>

theorem FindFork_highest:
  assumes "wf_store s"
  shows "\<exists>r. FindFork s v (Some p) = Some r \<and>
    (case r of None \<Rightarrow> \<forall>q. is_ancestor s q p \<longrightarrow> \<not> Contains s v q
     | Some q \<Rightarrow> is_ancestor s q p \<and> Contains s v q \<and>
         (\<forall>a. is_ancestor s a p \<and> Contains s v a \<longrightarrow> nHeight (s a) \<le> nHeight (s q)))"
proof -
  have h: "nHeight (s a) \<le> nHeight (s q) \<longleftrightarrow> height s a \<le> height s q" for a q
    using wf_nonneg [OF assms, of a] wf_nonneg [OF assms, of q] by linarith
  show ?thesis unfolding h by (rule FindFork_spec [OF assms])
qed

theorem FindFork_highest_witness:
  "\<exists>r. FindFork sample_store [Some 0, Some 1, Some 2, Some 3, Some 4] (Some 6) = Some r"
  using FindFork_highest [OF wf_sample_store, of "[Some 0, Some 1, Some 2, Some 3, Some 4]" 6] by blast

text \<open>
  A block locator always comes back; it starts with the block asked for, ends with the genesis
  block, and lists ancestors at falling heights.
\<close>

theorem GetLocator_blocks:
  assumes "wf_store s" "chain_inv s v"
  shows "\<exists>qs. GetLocator s v (Some p) = Some (map (\<lambda>q. phashBlock (s q)) qs) \<and> locator_blocks s p qs"
  using locator_loop_spec [OF assms, of 1 "[]" p] by (simp add: GetLocator_def)

theorem GetLocator_blocks_witness:
  "\<exists>qs. GetLocator sample_store [Some 0, Some 1] (Some 6) = Some (map (\<lambda>q. phashBlock (sample_store q)) qs) \<and>
     locator_blocks sample_store 6 qs"
  using GetLocator_blocks [OF wf_sample_store, of "[Some 0, Some 1]" 6]
  by (simp add: chain_inv_def sample_simps less_Suc_eq)

text \<open>
  The trust of a block never aborts. It is zero for a negative, overflowing or zero target, one for
  proof of work, and for proof of stake exactly two to the 256 divided by the target plus one, a number
  the code cannot form.
\<close>

theorem GetBlockTrust_exact:
  "case SetCompact (bi_nBits b) of (target, fNegative, fOverflow) \<Rightarrow>
   \<exists>t. GetBlockTrust b = Inr t \<and> length t = 8 \<and>
     le_value t = (if fNegative \<or> fOverflow \<or> le_value target = 0 then 0
                   else if IsProofOfStake b then 2 ^ 256 div (le_value target + 1) else 1)"
  using GetBlockTrust_value [of b] by (cases "SetCompact (bi_nBits b)") auto

text \<open>
  The median time past is one of the times of the last eleven blocks, or of all when there are
  fewer, and at most half of these lie before it and at most half after it.
\<close>

theorem median_time_past:
  assumes "wf_store s"
  shows "let ts = past_times s nMedianTimeSpan (Some p); m = GetMedianTimePast s p in
    length ts = min 11 (Suc (nat (nHeight (s p)))) \<and> m \<in> set ts \<and>
    2 * length (filter (\<lambda>t. t < m) ts) \<le> length ts \<and> 2 * length (filter (\<lambda>t. t > m) ts) \<le> length ts"
  unfolding Let_def by (rule GetMedianTimePast_median [OF assms])

theorem median_time_past_witness:
  "GetMedianTimePast sample_store 4 \<in> set (past_times sample_store nMedianTimeSpan (Some 4))"
  using median_time_past [OF wf_sample_store, of 4] by (simp add: Let_def)

text \<open>
  Raising the validity of a block leaves the failure flags and the data flags as they were, reports
  a change exactly when the level went up, and afterwards the block is valid up to the level asked for
  unless it is marked as failed.
\<close>

theorem RaiseValidity_level:
  assumes "nUpTo AND NOT BLOCK_VALID_MASK = 0"
  shows "case RaiseValidity b nUpTo of None \<Rightarrow> False
    | Some (changed, b') \<Rightarrow>
        IsValid b' nUpTo = Some (nStatus b AND BLOCK_FAILED_MASK = 0) \<and>
        (changed \<longleftrightarrow> IsValid b nUpTo = Some False \<and> nStatus b AND BLOCK_FAILED_MASK = 0) \<and>
        (\<not> changed \<longrightarrow> b' = b) \<and>
        (\<forall>m \<in> {BLOCK_FAILED_MASK, BLOCK_HAVE_DATA, BLOCK_HAVE_UNDO}. nStatus b' AND m = nStatus b AND m)"
  by (rule RaiseValidity_IsValid [OF assms])

theorem RaiseValidity_level_witness:
  "case RaiseValidity CBlockIndex_default BLOCK_VALID_SCRIPTS of None \<Rightarrow> False
    | Some (changed, b') \<Rightarrow> IsValid b' BLOCK_VALID_SCRIPTS = Some True"
  using RaiseValidity_level [of BLOCK_VALID_SCRIPTS CBlockIndex_default]
  by (auto simp: BLOCK_VALID_SCRIPTS_def BLOCK_VALID_MASK_def BLOCK_FAILED_MASK_def CBlockIndex_default_def split: option.splits)

text \<open>
  C16: on an active chain whose maximal times do not decrease, the bisection of \<^verbatim>\<open>FindEarliestAtLeast\<close>
  returns the first block of at least the time and the height asked for, or \<^verbatim>\<open>nullptr\<close> when there is none.
\<close>

theorem FindEarliestAtLeast_first:
  fixes t h :: int
  assumes "chain_inv s v" "times_mono s"
  defines "late \<equiv> \<lambda>p. GetBlockTimeMax (s p) \<ge> t \<and> nHeight (s p) \<ge> h"
  shows "case FindEarliestAtLeast s v t h of
      None \<Rightarrow> \<forall>p. Some p \<in> set v \<longrightarrow> \<not> late p
    | Some q \<Rightarrow> Some q \<in> set v \<and> late q \<and> (\<forall>p. Some p \<in> set v \<and> late p \<longrightarrow> nHeight (s q) \<le> nHeight (s p))"
  unfolding late_def by (rule FindEarliestAtLeast_spec [OF assms(1,2)])

theorem FindEarliestAtLeast_first_witness:
  "\<exists>q. FindEarliestAtLeast sample_store [Some 0, Some 1, Some 2, Some 3, Some 4] 202 1 = Some q \<and>
     GetBlockTimeMax (sample_store q) \<ge> 202"
proof -
  let ?v = "[Some 0, Some 1, Some 2, Some 3, Some 4]"
  have "chain_inv sample_store ?v"
    by (auto simp: chain_inv_def sample_simps less_Suc_eq nth_Cons')
  moreover have "times_mono sample_store" by (auto simp: times_mono_def sample_store_def)
  moreover have "GetBlockTimeMax (sample_store 4) \<ge> 202 \<and> nHeight (sample_store 4) \<ge> 1"
    by (simp add: GetBlockTimeMax_def sample_store_def)
  moreover have "Some 4 \<in> set ?v" by simp
  ultimately show ?thesis
    using FindEarliestAtLeast_first [of sample_store ?v 202 1]
    by (cases "FindEarliestAtLeast sample_store ?v 202 1") (simp_all, blast+)
qed

end
