(* ===== verification/Connect.thy ===== *)
theory Connect
  imports Coins Block_Index
begin

text \<open>
  The changes of the unspent outputs when a block is connected or disconnected, \<^verbatim>\<open>UpdateCoins\<close>,
  \<^verbatim>\<open>ApplyTxInUndo\<close> and \<^verbatim>\<open>DisconnectBlock\<close> of \<^verbatim>\<open>src/src/validation.cpp\<close> and the part of \<^verbatim>\<open>ConnectBlock\<close> that calls
  the first. \<^verbatim>\<open>ConnectBlock\<close> passes a local variable \<^verbatim>\<open>skipZeroValue\<close> it never initialises; here it is an
  argument. The undo data, which goes through the undo files in between, is a result and an argument.
\<close>

subsection \<open>Connecting\<close>

type_synonym CTxUndo = "Coin list"

fun spend_inputs ::
  "'b get_coin \<Rightarrow> (Coin \<Rightarrow> u64) \<Rightarrow> CTxIn list \<Rightarrow> CTxUndo \<Rightarrow> 'b CCoinsViewCache \<Rightarrow> coins_error + CTxUndo \<times> 'b CCoinsViewCache" where
  "spend_inputs get mem [] vprevout c = Inr (vprevout, c)"
| "spend_inputs get mem (txin # ins) vprevout c =
     (case SpendCoin get mem c (prevout txin) of
        (None, c) \<Rightarrow> Inl Assertion_failed
      | (Some coin, c) \<Rightarrow> spend_inputs get mem ins (vprevout @ [coin]) c)"

definition UpdateCoins ::
  "'b get_coin \<Rightarrow> (Coin \<Rightarrow> u64) \<Rightarrow> (bytes \<Rightarrow> uint256) \<Rightarrow> CTransaction \<Rightarrow> 'b CCoinsViewCache \<Rightarrow> int \<Rightarrow> bool \<Rightarrow>
   coins_error + CTxUndo \<times> 'b CCoinsViewCache" where
  "UpdateCoins get mem Hash tx c h skipZeroValue =
     ebind (if \<not> IsCoinBase tx then spend_inputs get mem (vin tx) [] c else Inr ([], c)) (\<lambda>(txundo, c).
       ebind (AddCoins get mem Hash c tx h False skipZeroValue) (\<lambda>c. Inr (txundo, c)))"

fun connect_txs ::
  "'b get_coin \<Rightarrow> (Coin \<Rightarrow> u64) \<Rightarrow> (bytes \<Rightarrow> uint256) \<Rightarrow> int \<Rightarrow> bool \<Rightarrow> nat \<Rightarrow> CTransaction list \<Rightarrow> CTxUndo list \<Rightarrow>
   'b CCoinsViewCache \<Rightarrow> coins_error + CTxUndo list \<times> 'b CCoinsViewCache" where
  "connect_txs get mem Hash h skipZeroValue i [] vtxundo c = Inr (vtxundo, c)"
| "connect_txs get mem Hash h skipZeroValue i (tx # txs) vtxundo c =
     ebind (UpdateCoins get mem Hash tx c h skipZeroValue) (\<lambda>(txundo, c).
       connect_txs get mem Hash h skipZeroValue (i + 1) txs (if i = 0 then vtxundo else vtxundo @ [txundo]) c)"

definition ConnectBlock_coins ::
  "'b get_coin \<Rightarrow> (Coin \<Rightarrow> u64) \<Rightarrow> (bytes \<Rightarrow> uint256) \<Rightarrow> store \<Rightarrow> ptr \<Rightarrow> bool \<Rightarrow> CBlock \<Rightarrow> 'b CCoinsViewCache \<Rightarrow>
   coins_error + CTxUndo list \<times> 'b CCoinsViewCache" where
  "ConnectBlock_coins get mem Hash s pindex skipZeroValue block view =
     ebind (connect_txs get mem Hash (nHeight (s pindex)) skipZeroValue 0 (vtx block) [] view) (\<lambda>(vtxundo, view).
       Inr (vtxundo, SetBestBlock view (phashBlock (s pindex))))"

subsection \<open>Disconnecting\<close>

datatype DisconnectResult = DISCONNECT_OK | DISCONNECT_UNCLEAN | DISCONNECT_FAILED

definition ApplyTxInUndo ::
  "'b get_coin \<Rightarrow> (Coin \<Rightarrow> u64) \<Rightarrow> Coin \<Rightarrow> 'b CCoinsViewCache \<Rightarrow> COutPoint \<Rightarrow> coins_error + DisconnectResult \<times> 'b CCoinsViewCache" where
  "ApplyTxInUndo get mem undo view out =
     (let (have, view) = HaveCoin get mem view out; fClean = (\<not> have);
          (r, view) = (if coin_nHeight undo = 0 then
             let (alternate, view) = AccessByTxid get mem view (op_hash out)
             in (if \<not> IsSpent alternate then Some (undo\<lparr>coin_nHeight := coin_nHeight alternate, fCoinBase := fCoinBase alternate,
                     fCoinStake := fCoinStake alternate, coin_nTime := coin_nTime alternate\<rparr>) else None, view)
           else (Some undo, view))
      in case r of
           None \<Rightarrow> Inr (DISCONNECT_FAILED, view)
         | Some undo \<Rightarrow> ebind (AddCoin mem view out undo (\<not> fClean) False) (\<lambda>view.
             Inr (if fClean then DISCONNECT_OK else DISCONNECT_UNCLEAN, view)))"

text \<open>The loop over the outputs of a transaction; the result tells whether all matched.\<close>

fun undo_outputs ::
  "'b get_coin \<Rightarrow> (Coin \<Rightarrow> u64) \<Rightarrow> (bytes \<Rightarrow> uint256) \<Rightarrow> int \<Rightarrow> CTransaction \<Rightarrow> nat list \<Rightarrow> bool \<Rightarrow> 'b CCoinsViewCache \<Rightarrow>
   bool \<times> 'b CCoinsViewCache" where
  "undo_outputs get mem Hash h tx [] fClean view = (fClean, view)"
| "undo_outputs get mem Hash h tx (i # is) fClean view =
     (if \<not> IsUnspendable (scriptPubKey (vout tx ! i)) \<and> nValue (vout tx ! i) \<noteq> 0 then
        let (r, view) = SpendCoin get mem view (tx_outpoint (tx_ComputeHash Hash tx) i);
            clean = (case r of None \<Rightarrow> False
              | Some coin \<Rightarrow> vout tx ! i = coin_out coin \<and> h = uint (coin_nHeight coin) \<and> IsCoinBase tx = fCoinBase coin \<and>
                  IsCoinStake tx = fCoinStake coin)
        in undo_outputs get mem Hash h tx is (fClean \<and> clean) view
      else undo_outputs get mem Hash h tx is fClean view)"

text \<open>The loop over the inputs, from the last one; \<^term>\<open>None\<close> is the result \<^term>\<open>DISCONNECT_FAILED\<close>.\<close>

fun undo_inputs ::
  "'b get_coin \<Rightarrow> (Coin \<Rightarrow> u64) \<Rightarrow> (CTxIn \<times> Coin) list \<Rightarrow> bool \<Rightarrow> 'b CCoinsViewCache \<Rightarrow> coins_error + (bool \<times> 'b CCoinsViewCache) option" where
  "undo_inputs get mem [] fClean view = Inr (Some (fClean, view))"
| "undo_inputs get mem ((txin, undo) # ins) fClean view =
     ebind (ApplyTxInUndo get mem undo view (prevout txin)) (\<lambda>(res, view).
       if res = DISCONNECT_FAILED then Inr None
       else undo_inputs get mem ins (fClean \<and> res \<noteq> DISCONNECT_UNCLEAN) view)"

fun disconnect_txs ::
  "'b get_coin \<Rightarrow> (Coin \<Rightarrow> u64) \<Rightarrow> (bytes \<Rightarrow> uint256) \<Rightarrow> int \<Rightarrow> CTxUndo list \<Rightarrow> (nat \<times> CTransaction) list \<Rightarrow> bool \<Rightarrow>
   'b CCoinsViewCache \<Rightarrow> coins_error + (bool \<times> 'b CCoinsViewCache) option" where
  "disconnect_txs get mem Hash h vtxundo [] fClean view = Inr (Some (fClean, view))"
| "disconnect_txs get mem Hash h vtxundo ((i, tx) # txs) fClean view =
     (let (fClean, view) = undo_outputs get mem Hash h tx [0..<length (vout tx)] fClean view
      in if i > 0 then
           let vprevout = vtxundo ! (i - 1)
           in if length vprevout \<noteq> length (vin tx) then Inr None
              else ebind (undo_inputs get mem (rev (zip (vin tx) vprevout)) fClean view) (\<lambda>r.
                case r of None \<Rightarrow> Inr None
                | Some (fClean, view) \<Rightarrow> disconnect_txs get mem Hash h vtxundo txs fClean view)
         else disconnect_txs get mem Hash h vtxundo txs fClean view)"

definition DisconnectBlock ::
  "'b get_coin \<Rightarrow> (Coin \<Rightarrow> u64) \<Rightarrow> (bytes \<Rightarrow> uint256) \<Rightarrow> store \<Rightarrow> CTxUndo list option \<Rightarrow> CBlock \<Rightarrow> ptr \<Rightarrow> 'b CCoinsViewCache \<Rightarrow>
   coins_error + (DisconnectResult \<times> 'b CCoinsViewCache) option" where
  "DisconnectBlock get mem Hash s blockUndo block pindex view =
     (case blockUndo of None \<Rightarrow> Inr None
      | Some vtxundo \<Rightarrow>
          if length vtxundo + 1 \<noteq> length (vtx block) then Inr None
          else ebind (disconnect_txs get mem Hash (nHeight (s pindex)) vtxundo (rev (zip [0..<length (vtx block)] (vtx block))) True view) (\<lambda>r.
            case r of None \<Rightarrow> Inr None
            | Some (fClean, view) \<Rightarrow> (case pprev (s pindex) of
                 None \<Rightarrow> Inl Assertion_failed
               | Some q \<Rightarrow> Inr (Some (if fClean then DISCONNECT_OK else DISCONNECT_UNCLEAN, SetBestBlock view (phashBlock (s q)))))))"

subsection \<open>Blocks as changes of a set of coins\<close>

definition spend_all :: "(COutPoint \<rightharpoonup> Coin) \<Rightarrow> COutPoint list \<Rightarrow> (COutPoint \<rightharpoonup> Coin)" where
  "spend_all u outs = (\<lambda>out. if out \<in> set outs then None else u out)"

definition tx_spent :: "CTransaction \<Rightarrow> (COutPoint \<rightharpoonup> Coin) \<Rightarrow> (COutPoint \<rightharpoonup> Coin)" where
  "tx_spent tx u = (if IsCoinBase tx then u else spend_all u (map prevout (vin tx)))"

definition tx_apply :: "(bytes \<Rightarrow> uint256) \<Rightarrow> int \<Rightarrow> bool \<Rightarrow> CTransaction \<Rightarrow> (COutPoint \<rightharpoonup> Coin) \<Rightarrow> (COutPoint \<rightharpoonup> Coin)" where
  "tx_apply Hash h skip tx u = add_coins (tx_ComputeHash Hash tx) tx h skip {..<length (vout tx)} (tx_spent tx u)"

definition tx_undo :: "CTransaction \<Rightarrow> (COutPoint \<rightharpoonup> Coin) \<Rightarrow> CTxUndo" where
  "tx_undo tx u = (if IsCoinBase tx then [] else map (\<lambda>i. the (u (prevout i))) (vin tx))"

text \<open>The inputs of a transaction are different unspent coins, its outputs are new.\<close>

definition tx_applicable :: "(bytes \<Rightarrow> uint256) \<Rightarrow> CTransaction \<Rightarrow> (COutPoint \<rightharpoonup> Coin) \<Rightarrow> bool" where
  "tx_applicable Hash tx u \<longleftrightarrow>
     (IsCoinBase tx \<or> (\<forall>i \<in> set (vin tx). u (prevout i) \<noteq> None) \<and> distinct (map prevout (vin tx))) \<and>
     (\<forall>i < length (vout tx). u (tx_outpoint (tx_ComputeHash Hash tx) i) = None \<and> \<not> CTxOut_IsNull (vout tx ! i)) \<and>
     length (vout tx) \<le> 2 ^ 32"

fun txs_applicable :: "(bytes \<Rightarrow> uint256) \<Rightarrow> int \<Rightarrow> CTransaction list \<Rightarrow> (COutPoint \<rightharpoonup> Coin) \<Rightarrow> bool" where
  "txs_applicable Hash h [] u = True"
| "txs_applicable Hash h (tx # txs) u = (tx_applicable Hash tx u \<and> txs_applicable Hash h txs (tx_apply Hash h True tx u))"

fun txs_apply :: "(bytes \<Rightarrow> uint256) \<Rightarrow> int \<Rightarrow> CTransaction list \<Rightarrow> (COutPoint \<rightharpoonup> Coin) \<Rightarrow> (COutPoint \<rightharpoonup> Coin)" where
  "txs_apply Hash h [] u = u"
| "txs_apply Hash h (tx # txs) u = txs_apply Hash h txs (tx_apply Hash h True tx u)"

fun txs_undo :: "(bytes \<Rightarrow> uint256) \<Rightarrow> int \<Rightarrow> CTransaction list \<Rightarrow> (COutPoint \<rightharpoonup> Coin) \<Rightarrow> CTxUndo list" where
  "txs_undo Hash h [] u = []"
| "txs_undo Hash h (tx # txs) u = tx_undo tx u # txs_undo Hash h txs (tx_apply Hash h True tx u)"

definition coins_sane :: "(COutPoint \<rightharpoonup> Coin) \<Rightarrow> bool" where
  "coins_sane u \<longleftrightarrow> (\<forall>out coin. u out = Some coin \<longrightarrow> \<not> IsSpent coin \<and> \<not> IsUnspendable (scriptPubKey (coin_out coin)) \<and> coin_nHeight coin \<noteq> 0)"

lemma length_txs_undo [simp]: "length (txs_undo Hash h txs u) = length txs"
  by (induction txs arbitrary: u) auto

lemma coin_height: "0 \<le> h \<Longrightarrow> h < 2 ^ 31 \<Longrightarrow> uint (coin_nHeight (tx_coin tx h i)) = h"
  by (simp add: tx_coin_def make_Coin_def unsigned_take_bit_eq uint_word_of_int take_bit_int_eq_self)

lemma coins_sane_apply:
  assumes "coins_sane u" "tx_applicable Hash tx u" "0 < h" "h < 2 ^ 31"
  shows "coins_sane (tx_apply Hash h skip tx u)"
proof -
  have "coin_nHeight (tx_coin tx h i) \<noteq> 0" for i using coin_height [of h tx i] assms(3,4) by auto
  then show ?thesis using assms(1,2)
    by (auto simp: coins_sane_def tx_apply_def add_coins_def tx_spent_def spend_all_def Let_def tx_coin_spent tx_applicable_def
        output_added_def split: if_splits)
qed

subsection \<open>Connecting refines applying\<close>

context coins_cache
begin

lemma spend_inputs_spec:
  assumes "cok c" "\<forall>i \<in> set ins. cu c (prevout i) \<noteq> None" "distinct (map prevout ins)"
  shows "\<exists>c'. spend_inputs get mem ins vp c = Inr (vp @ map (\<lambda>i. the (cu c (prevout i))) ins, c') \<and> cok c' \<and>
    hashBlock c' = hashBlock c \<and> cu c' = spend_all (cu c) (map prevout ins)"
  using assms
proof (induction ins arbitrary: c vp)
  case Nil
  then show ?case by (simp add: spend_all_def)
next
  case (Cons i ins)
  obtain r d where sp: "SpendCoin get mem c (prevout i) = (r, d)" by fastforce
  note S = SpendCoin_spec [OF Cons.prems(1) sp]
  obtain x where x: "cu c (prevout i) = Some x" using Cons.prems(2) by auto
  have r: "r = Some x" using S x by (auto split: option.splits if_splits)
  have rest: "cu d (prevout j) = cu c (prevout j)" if "j \<in> set ins" for j using S Cons.prems(3) that by (auto simp: image_iff)
  have "\<forall>j \<in> set ins. cu d (prevout j) \<noteq> None" using Cons.prems(2) rest by simp
  moreover have "cok d" "distinct (map prevout ins)" using S Cons.prems(3) by simp_all
  ultimately obtain c' where c': "spend_inputs get mem ins (vp @ [x]) d = Inr ((vp @ [x]) @ map (\<lambda>i. the (cu d (prevout i))) ins, c')" "cok c'"
    "hashBlock c' = hashBlock d" "cu c' = spend_all (cu d) (map prevout ins)"
    using Cons.IH [of d "vp @ [x]"] by blast
  have "map (\<lambda>i. the (cu d (prevout i))) ins = map (\<lambda>i. the (cu c (prevout i))) ins" using rest by simp
  moreover have "spend_all (cu d) (map prevout ins) = spend_all (cu c) (map prevout (i # ins))" using S by (auto simp: spend_all_def)
  ultimately show ?case using c' S sp r x by simp
qed

lemma UpdateCoins_spec:
  assumes c: "cok c" and a: "tx_applicable Hash tx (cu c)"
  shows "\<exists>c'. UpdateCoins get mem Hash tx c h skip = Inr (tx_undo tx (cu c), c') \<and> cok c' \<and> hashBlock c' = hashBlock c \<and>
    cu c' = tx_apply Hash h skip tx (cu c)"
proof -
  have "\<exists>d. (if \<not> IsCoinBase tx then spend_inputs get mem (vin tx) [] c else Inr ([], c)) = Inr (tx_undo tx (cu c), d) \<and> cok d \<and>
      hashBlock d = hashBlock c \<and> cu d = tx_spent tx (cu c)"
    using spend_inputs_spec [OF c, of "vin tx" "[]"] a c by (cases "IsCoinBase tx") (auto simp: tx_applicable_def tx_undo_def tx_spent_def)
  then obtain d where d: "(if \<not> IsCoinBase tx then spend_inputs get mem (vin tx) [] c else Inr ([], c)) = Inr (tx_undo tx (cu c), d)" "cok d"
    "hashBlock d = hashBlock c" "cu d = tx_spent tx (cu c)" by blast
  have "\<forall>i < length (vout tx). cu d (tx_outpoint (tx_ComputeHash Hash tx) i) = None"
    using a d(4) by (simp add: tx_applicable_def tx_spent_def spend_all_def)
  then obtain c' where "AddCoins get mem Hash d tx h False skip = Inr c'" "cok c'" "hashBlock c' = hashBlock d"
    "cu c' = tx_apply Hash h skip tx (cu c)"
    using AddCoins_spec [OF d(2), of tx Hash h skip] a by (auto simp: tx_applicable_def tx_apply_def d(4))
  then show ?thesis using d(1,3) by (simp add: UpdateCoins_def ebind_def)
qed

lemma connect_txs_spec:
  assumes "cok c" "txs_applicable Hash h txs (cu c)" "0 < i"
  shows "\<exists>c'. connect_txs get mem Hash h True i txs us c = Inr (us @ txs_undo Hash h txs (cu c), c') \<and> cok c' \<and>
    hashBlock c' = hashBlock c \<and> cu c' = txs_apply Hash h txs (cu c)"
  using assms
proof (induction txs arbitrary: c us i)
  case (Cons tx txs)
  obtain d where d: "UpdateCoins get mem Hash tx c h True = Inr (tx_undo tx (cu c), d)" "cok d" "hashBlock d = hashBlock c"
    "cu d = tx_apply Hash h True tx (cu c)" using UpdateCoins_spec [OF Cons.prems(1)] Cons.prems(2) by fastforce
  have "txs_applicable Hash h txs (cu d)" using Cons.prems(2) d(4) by simp
  from Cons.IH [OF d(2) this, of "i + 1" "us @ [tx_undo tx (cu c)]"] show ?case
    using Cons.prems(3) d by (simp add: ebind_def)
qed simp

subsection \<open>Disconnecting undoes it\<close>

lemma undo_outputs_spec:
  assumes "cok c" "distinct is" "\<forall>i \<in> set is. i < 2 ^ 32" "0 \<le> h" "h < 2 ^ 31"
    "\<forall>i \<in> set is. output_added (vout tx ! i) True \<longrightarrow> cu c (tx_outpoint (tx_ComputeHash Hash tx) i) = Some (tx_coin tx h i)"
  shows "\<exists>c'. undo_outputs get mem Hash h tx is fClean c = (fClean, c') \<and> cok c' \<and> hashBlock c' = hashBlock c \<and>
    cu c' = (\<lambda>out. if op_hash out = tx_ComputeHash Hash tx \<and> unat (op_n out) \<in> set is \<and> output_added (vout tx ! unat (op_n out)) True
                   then None else cu c out)"
  using assms(1-3,6)
proof (induction "is" arbitrary: c)
  case Nil
  then show ?case by simp
next
  case (Cons i "is")
  let ?t = "tx_ComputeHash Hash tx" and ?add = "\<lambda>i. output_added (vout tx ! i) True"
  have i: "i < 2 ^ 32" using Cons.prems(3) by simp
  have add: "?add i \<longleftrightarrow> \<not> IsUnspendable (scriptPubKey (vout tx ! i)) \<and> nValue (vout tx ! i) \<noteq> 0" by (simp add: output_added_def)
  note eq = tx_outpoint_eq [OF i, of _ ?t]
  show ?case
  proof (cases "?add i")
    case False
    obtain c' where c': "undo_outputs get mem Hash h tx is fClean c = (fClean, c')" "cok c'" "hashBlock c' = hashBlock c"
      "cu c' = (\<lambda>out. if op_hash out = ?t \<and> unat (op_n out) \<in> set is \<and> ?add (unat (op_n out)) then None else cu c out)"
      using Cons.IH [OF Cons.prems(1)] Cons.prems by auto
    moreover have "undo_outputs get mem Hash h tx (i # is) fClean c = (fClean, c')" using c'(1) False by (auto simp: add)
    moreover have "cu c' = (\<lambda>out. if op_hash out = ?t \<and> unat (op_n out) \<in> set (i # is) \<and> ?add (unat (op_n out)) then None else cu c out)"
      unfolding c'(4) using False by (auto intro!: ext)
    ultimately show ?thesis by blast
  next
    case True
    obtain r d where sp: "SpendCoin get mem c (tx_outpoint ?t i) = (r, d)" by fastforce
    note S = SpendCoin_spec [OF Cons.prems(1) sp]
    have "cu c (tx_outpoint ?t i) = Some (tx_coin tx h i)" using Cons.prems(4) True by simp
    then have r: "r = Some (tx_coin tx h i)" using S by (auto split: option.splits if_splits)
    have ne: "tx_outpoint ?t j \<noteq> tx_outpoint ?t i" if "j \<in> set is" for j
      using eq [of "tx_outpoint ?t j"] Cons.prems(2,3) that by (auto simp: tx_outpoint_def unat_of_nat)
    obtain c' where c': "undo_outputs get mem Hash h tx is fClean d = (fClean, c')" "cok c'" "hashBlock c' = hashBlock d"
      "cu c' = (\<lambda>out. if op_hash out = ?t \<and> unat (op_n out) \<in> set is \<and> ?add (unat (op_n out)) then None else cu d out)"
      using Cons.IH [of d] Cons.prems S ne by auto
    have clean: "fCoinBase (tx_coin tx h i) = IsCoinBase tx" "fCoinStake (tx_coin tx h i) = IsCoinStake tx"
      by (simp_all add: tx_coin_def make_Coin_def)
    have "undo_outputs get mem Hash h tx (i # is) fClean c = (fClean, c')"
      using True sp r c'(1) by (simp add: add clean coin_height [OF assms(4,5)])
    moreover have "cu c' = (\<lambda>out. if op_hash out = ?t \<and> unat (op_n out) \<in> set (i # is) \<and> ?add (unat (op_n out)) then None else cu c out)"
      unfolding c'(4) using S True eq by (auto intro!: ext)
    ultimately show ?thesis using c' S by simp
  qed
qed

lemma ApplyTxInUndo_spec:
  assumes c: "cok c" and u: "cu c out = None" "\<not> IsSpent coin" "\<not> IsUnspendable (scriptPubKey (coin_out coin))" "coin_nHeight coin \<noteq> 0"
  shows "\<exists>c'. ApplyTxInUndo get mem coin c out = Inr (DISCONNECT_OK, c') \<and> cok c' \<and> hashBlock c' = hashBlock c \<and> cu c' = (cu c)(out \<mapsto> coin)"
proof -
  obtain r d where h: "HaveCoin get mem c out = (r, d)" by fastforce
  note H = HaveCoin_spec [OF c h]
  have "cu d out = None" using H u(1) by simp
  then obtain c' where "AddCoin mem d out coin False False = Inr c'" "cok c'" "hashBlock c' = hashBlock d" "cu c' = (cu d)(out \<mapsto> coin)"
    using AddCoin_spec [of d coin False out False] H u(2,3) by auto
  then show ?thesis using h H u by (simp add: ApplyTxInUndo_def Let_def ebind_def)
qed

lemma undo_inputs_spec:
  assumes "cok c" "distinct (map (prevout \<circ> fst) zs)"
    "\<forall>(i, x) \<in> set zs. cu c (prevout i) = None \<and> \<not> IsSpent x \<and> \<not> IsUnspendable (scriptPubKey (coin_out x)) \<and> coin_nHeight x \<noteq> 0"
  shows "\<exists>c'. undo_inputs get mem zs fClean c = Inr (Some (fClean, c')) \<and> cok c' \<and> hashBlock c' = hashBlock c \<and>
    cu c' = cu c ++ map_of (map (\<lambda>(i, x). (prevout i, x)) zs)"
  using assms
proof (induction zs arbitrary: c)
  case (Cons z zs)
  obtain i x where z: "z = (i, x)" by fastforce
  obtain d where d: "ApplyTxInUndo get mem x c (prevout i) = Inr (DISCONNECT_OK, d)" "cok d" "hashBlock d = hashBlock c"
    "cu d = (cu c)(prevout i \<mapsto> x)" using ApplyTxInUndo_spec [OF Cons.prems(1), of "prevout i" x] Cons.prems(3) z by auto
  have "prevout j \<noteq> prevout i" if "(j, y) \<in> set zs" for j y using Cons.prems(2) that z by force
  then have "\<forall>(j, y) \<in> set zs. cu d (prevout j) = None \<and> \<not> IsSpent y \<and> \<not> IsUnspendable (scriptPubKey (coin_out y)) \<and> coin_nHeight y \<noteq> 0"
    using Cons.prems(3) d(4) by auto
  then obtain c' where c': "undo_inputs get mem zs fClean d = Inr (Some (fClean, c'))" "cok c'" "hashBlock c' = hashBlock d"
    "cu c' = cu d ++ map_of (map (\<lambda>(i, x). (prevout i, x)) zs)"
    using Cons.IH [OF d(2)] Cons.prems(2) by auto
  have "map_of (map (\<lambda>(i, x). (prevout i, x)) zs) (prevout i) = None"
    using Cons.prems(2) z by (auto simp: map_of_eq_None_iff image_image split_def)
  then have fin: "cu c' = cu c ++ map_of (map (\<lambda>(i, x). (prevout i, x)) (z # zs))"
    unfolding c'(4) d(4) z by (intro ext) (auto simp: map_add_def split: option.split)
  have "undo_inputs get mem (z # zs) fClean c = Inr (Some (fClean, c'))" using c'(1) d(1) z by (simp add: ebind_def)
  then show ?case using fin c'(2,3) d(3) by metis
qed simp

end

lemma restore_spent:
  assumes "\<forall>i \<in> set ins. u (prevout i) \<noteq> None" "distinct (map prevout ins)"
  shows "spend_all u (map prevout ins) ++ map_of (map (\<lambda>(i, x). (prevout i, x)) (rev (zip ins (map (\<lambda>i. the (u (prevout i))) ins)))) = u"
proof -
  have z: "zip ins (map (\<lambda>i. the (u (prevout i))) ins) = map (\<lambda>i. (i, the (u (prevout i)))) ins" by (induction ins) auto
  have d: "distinct (map fst (map (\<lambda>i. (prevout i, the (u (prevout i)))) ins))" using assms(2) by (simp add: o_def)
  have "map_of (rev (map (\<lambda>i. (prevout i, the (u (prevout i)))) ins)) = map_of (map (\<lambda>i. (prevout i, the (u (prevout i)))) ins)"
    using d by (subst map_of_inject_set) (simp_all add: rev_map [symmetric])
  moreover have "map_of (map (\<lambda>i. (prevout i, the (u (prevout i)))) ins) out = (if out \<in> set (map prevout ins) then u out else None)" for out
    using assms(1) by (induction ins) auto
  ultimately show ?thesis by (auto simp: z rev_map o_def map_add_def spend_all_def split: option.split intro!: ext)
qed

lemma remove_added:
  assumes "tx_applicable Hash tx u"
  shows "(\<lambda>out. if op_hash out = tx_ComputeHash Hash tx \<and> unat (op_n out) \<in> set [0..<length (vout tx)] \<and>
      output_added (vout tx ! unat (op_n out)) True then None else tx_apply Hash h True tx u out) = tx_spent tx u"
proof (rule ext)
  fix out
  have "tx_spent tx u out = None" if "op_hash out = tx_ComputeHash Hash tx" "unat (op_n out) < length (vout tx)"
  proof -
    have "out = tx_outpoint (tx_ComputeHash Hash tx) (unat (op_n out))" using tx_outpoint_eq [of "unat (op_n out)" out] that unat_lt_pow [of "op_n out"] by simp
    then have "u out = None" using assms that(2) by (metis tx_applicable_def)
    then show ?thesis by (simp add: tx_spent_def spend_all_def)
  qed
  then show "(if op_hash out = tx_ComputeHash Hash tx \<and> unat (op_n out) \<in> set [0..<length (vout tx)] \<and>
      output_added (vout tx ! unat (op_n out)) True then None else tx_apply Hash h True tx u out) = tx_spent tx u out"
    by (auto simp: tx_apply_def add_coins_def Let_def)
qed

context coins_cache
begin

lemma undo_tx_outputs:
  assumes "cok c" "cu c = tx_apply Hash h True tx u" "tx_applicable Hash tx u" "0 < h" "h < 2 ^ 31"
  shows "\<exists>c'. undo_outputs get mem Hash h tx [0..<length (vout tx)] fClean c = (fClean, c') \<and> cok c' \<and> hashBlock c' = hashBlock c \<and>
    cu c' = tx_spent tx u"
proof -
  let ?t = "tx_ComputeHash Hash tx"
  have len: "length (vout tx) \<le> 2 ^ 32" using assms(3) by (simp add: tx_applicable_def)
  have "cu c (tx_outpoint ?t i) = Some (tx_coin tx h i)" if "i < length (vout tx)" "output_added (vout tx ! i) True" for i
  proof -
    have "i < 2 ^ 32" using that(1) len by simp
    then have "op_hash (tx_outpoint ?t i) = ?t" "unat (op_n (tx_outpoint ?t i)) = i" using tx_outpoint_eq [of i "tx_outpoint ?t i" ?t] by simp_all
    then show ?thesis using that by (simp add: assms(2) tx_apply_def add_coins_def)
  qed
  then obtain c' where "undo_outputs get mem Hash h tx [0..<length (vout tx)] fClean c = (fClean, c')" "cok c'" "hashBlock c' = hashBlock c"
    "cu c' = (\<lambda>out. if op_hash out = ?t \<and> unat (op_n out) \<in> set [0..<length (vout tx)] \<and> output_added (vout tx ! unat (op_n out)) True
       then None else cu c out)"
    using undo_outputs_spec [OF assms(1), of "[0..<length (vout tx)]" h tx Hash fClean] assms(4,5) len by fastforce
  then show ?thesis unfolding assms(2) remove_added [OF assms(3)] by blast
qed

lemma disconnect_tx:
  assumes "cok c" "cu c = tx_apply Hash h True tx u" "tx_applicable Hash tx u" "coins_sane u" "\<not> IsCoinBase tx" "0 < h" "h < 2 ^ 31"
    "0 < k" "vtxundo ! (k - 1) = tx_undo tx u"
  shows "\<exists>c'. disconnect_txs get mem Hash h vtxundo ((k, tx) # rest) True c = disconnect_txs get mem Hash h vtxundo rest True c' \<and> cok c' \<and>
    hashBlock c' = hashBlock c \<and> cu c' = u"
proof -
  obtain d where d: "undo_outputs get mem Hash h tx [0..<length (vout tx)] True c = (True, d)" "cok d" "hashBlock d = hashBlock c" "cu d = tx_spent tx u"
    using undo_tx_outputs [OF assms(1-3,6,7)] by blast
  let ?zs = "rev (zip (vin tx) (tx_undo tx u))"
  have ins: "\<forall>i \<in> set (vin tx). u (prevout i) \<noteq> None" "distinct (map prevout (vin tx))" using assms(3,5) by (simp_all add: tx_applicable_def)
  have un: "tx_undo tx u = map (\<lambda>i. the (u (prevout i))) (vin tx)" using assms(5) by (simp add: tx_undo_def)
  have sp: "cu d = spend_all u (map prevout (vin tx))" using d(4) assms(5) by (simp add: tx_spent_def)
  have zs: "x = the (u (prevout i)) \<and> i \<in> set (vin tx)" if "(i, x) \<in> set ?zs" for i x
    using that by (auto simp: un set_zip)
  have "\<forall>(i, x) \<in> set ?zs. cu d (prevout i) = None \<and> \<not> IsSpent x \<and> \<not> IsUnspendable (scriptPubKey (coin_out x)) \<and> coin_nHeight x \<noteq> 0"
  proof clarify
    fix i x assume "(i, x) \<in> set ?zs"
    then have x: "x = the (u (prevout i))" "i \<in> set (vin tx)" using zs by blast+
    then have "u (prevout i) = Some x" using ins(1) by auto
    then show "cu d (prevout i) = None \<and> \<not> IsSpent x \<and> \<not> IsUnspendable (scriptPubKey (coin_out x)) \<and> coin_nHeight x \<noteq> 0"
      using assms(4) x(2) by (auto simp: coins_sane_def sp spend_all_def)
  qed
  moreover have "distinct (map (prevout \<circ> fst) ?zs)"
  proof -
    have "map fst (zip (vin tx) (tx_undo tx u)) = vin tx" by (simp add: un)
    then have "map (prevout \<circ> fst) (zip (vin tx) (tx_undo tx u)) = map prevout (vin tx)" by (metis map_map)
    then show ?thesis using ins(2) by (simp add: rev_map [symmetric])
  qed
  ultimately obtain c' where c': "undo_inputs get mem ?zs True d = Inr (Some (True, c'))" "cok c'" "hashBlock c' = hashBlock d"
    "cu c' = cu d ++ map_of (map (\<lambda>(i, x). (prevout i, x)) ?zs)"
    using undo_inputs_spec [OF d(2), of ?zs True] by blast
  have "cu c' = u" unfolding c'(4) sp un by (rule restore_spent [OF ins])
  moreover have "disconnect_txs get mem Hash h vtxundo ((k, tx) # rest) True c = disconnect_txs get mem Hash h vtxundo rest True c'"
    using d(1) c'(1) assms(8,9) un by (simp add: ebind_def)
  ultimately show ?thesis using c'(2,3) d(3) by auto
qed

lemma disconnect_txs_spec:
  assumes "cok c" "cu c = txs_apply Hash h txs u" "txs_applicable Hash h txs u" "coins_sane u" "\<forall>tx \<in> set txs. \<not> IsCoinBase tx" "0 < h" "h < 2 ^ 31"
    "0 < k" "\<forall>j < length txs. vtxundo ! (k + j - 1) = txs_undo Hash h txs u ! j"
  shows "\<exists>c'. disconnect_txs get mem Hash h vtxundo (rev (zip [k..<k + length txs] txs) @ rest) True c =
      disconnect_txs get mem Hash h vtxundo rest True c' \<and> cok c' \<and> hashBlock c' = hashBlock c \<and> cu c' = u"
  using assms(2-5,8,9)
proof (induction txs arbitrary: u k rest)
  case Nil
  then show ?case using assms(1) by auto
next
  case (Cons tx txs)
  let ?u = "tx_apply Hash h True tx u"
  have ap: "tx_applicable Hash tx u" "txs_applicable Hash h txs ?u" "\<not> IsCoinBase tx" using Cons.prems(2,4) by simp_all
  have un: "\<forall>j < length txs. vtxundo ! (Suc k + j - 1) = txs_undo Hash h txs ?u ! j" "vtxundo ! (k - 1) = tx_undo tx u"
    using Cons.prems(6) by (auto dest: spec [of _ "Suc _"] spec [of _ 0])
  have z: "rev (zip [k..<k + length (tx # txs)] (tx # txs)) @ rest = rev (zip [Suc k..<Suc k + length txs] txs) @ ((k, tx) # rest)"
    by (simp add: upt_conv_Cons del: upt_Suc)
  obtain c1 where c1: "disconnect_txs get mem Hash h vtxundo (rev (zip [Suc k..<Suc k + length txs] txs) @ ((k, tx) # rest)) True c =
      disconnect_txs get mem Hash h vtxundo ((k, tx) # rest) True c1" "cok c1" "hashBlock c1 = hashBlock c" "cu c1 = ?u"
    using Cons.IH [of ?u "Suc k" "(k, tx) # rest"] Cons.prems ap un coins_sane_apply [OF Cons.prems(3) ap(1) assms(6,7)] by auto
  show ?case unfolding z c1(1)
    using disconnect_tx [OF c1(2,4) ap(1) Cons.prems(3) ap(3) assms(6,7) Cons.prems(5) un(2), of rest] c1(3) by auto
qed

lemma connect_disconnect:
  assumes c: "cok c" and v: "vtx block = cb # txs" "IsCoinBase cb" "\<forall>tx \<in> set txs. \<not> IsCoinBase tx"
    and ap: "txs_applicable Hash (nHeight (s p)) (vtx block) (cu c)" and sane: "coins_sane (cu c)"
    and h: "0 < nHeight (s p)" "nHeight (s p) < 2 ^ 31" and q: "pprev (s p) = Some q"
  shows "\<exists>undo c1 c2. ConnectBlock_coins get mem Hash s p True block c = Inr (undo, c1) \<and>
    cok c1 \<and> cu c1 = txs_apply Hash (nHeight (s p)) (vtx block) (cu c) \<and> hashBlock c1 = phashBlock (s p) \<and>
    DisconnectBlock get mem Hash s (Some undo) block p c1 = Inr (Some (DISCONNECT_OK, c2)) \<and> cok c2 \<and> cu c2 = cu c \<and>
    hashBlock c2 = phashBlock (s q)"
proof -
  let ?h = "nHeight (s p)" and ?u = "tx_apply Hash (nHeight (s p)) True cb (cu c)"
  have a: "tx_applicable Hash cb (cu c)" "txs_applicable Hash ?h txs ?u" using ap v(1) by simp_all
  obtain d where d: "UpdateCoins get mem Hash cb c ?h True = Inr (tx_undo cb (cu c), d)" "cok d" "cu d = ?u"
    using UpdateCoins_spec [OF c a(1)] by blast
  let ?undo = "txs_undo Hash ?h txs ?u"
  obtain d1 where d1: "connect_txs get mem Hash ?h True 1 txs [] d = Inr ([] @ ?undo, d1)" "cok d1" "cu d1 = txs_apply Hash ?h txs ?u"
    using connect_txs_spec [OF d(2), of Hash ?h txs 1 "[]"] a(2) d(3) by auto
  define c1 where "c1 = SetBestBlock d1 (phashBlock (s p))"
  have conn: "ConnectBlock_coins get mem Hash s p True block c = Inr (?undo, c1)"
    using d(1) d1(1) by (simp add: ConnectBlock_coins_def v(1) ebind_def c1_def)
  have c1: "cok c1" "cu c1 = txs_apply Hash ?h txs ?u" "hashBlock c1 = phashBlock (s p)"
    using d1(2,3) by (simp_all add: c1_def SetBestBlock_def cache_ok_def)
  have zip: "zip [0..<length (vtx block)] (vtx block) = (0, cb) # zip [1..<1 + length txs] txs"
    by (simp add: v(1) upt_conv_Cons del: upt_Suc)
  obtain e where e: "disconnect_txs get mem Hash ?h ?undo (rev (zip [1..<1 + length txs] txs) @ [(0, cb)]) True c1 =
      disconnect_txs get mem Hash ?h ?undo [(0, cb)] True e" "cok e" "cu e = ?u"
    using disconnect_txs_spec [OF c1(1,2) a(2) coins_sane_apply [OF sane a(1) h] v(3) h, of 1 ?undo "[(0, cb)]"] by auto
  obtain f where f: "undo_outputs get mem Hash ?h cb [0..<length (vout cb)] True e = (True, f)" "cok f" "cu f = tx_spent cb (cu c)"
    using undo_tx_outputs [OF e(2,3) a(1) h] by blast
  have "disconnect_txs get mem Hash ?h ?undo (rev (zip [0..<length (vtx block)] (vtx block))) True c1 = Inr (Some (True, f))"
    using e(1) f(1) by (simp add: zip)
  then have "DisconnectBlock get mem Hash s (Some ?undo) block p c1 = Inr (Some (DISCONNECT_OK, SetBestBlock f (phashBlock (s q))))"
    using q by (simp add: DisconnectBlock_def v(1) ebind_def)
  moreover have "cok (SetBestBlock f (phashBlock (s q)))" "cu (SetBestBlock f (phashBlock (s q))) = cu c"
    using f(2,3) v(2) by (simp_all add: SetBestBlock_def cache_ok_def tx_spent_def)
  ultimately show ?thesis using conn c1 v(1)
    by (intro exI [of _ ?undo] exI [of _ c1] exI [of _ "SetBestBlock f (phashBlock (s q))"]) (auto simp: SetBestBlock_def)
qed

lemma UpdateCoins_skip:
  assumes "cok c" "tx_applicable Hash tx (cu c)"
    and "UpdateCoins get mem Hash tx c h True = Inr (u1, c1)" "UpdateCoins get mem Hash tx c h False = Inr (u2, c2)"
  shows "cu c1 = cu c2 \<longleftrightarrow> (\<forall>out \<in> set (vout tx). IsUnspendable (scriptPubKey out) \<or> nValue out \<noteq> 0)"
proof -
  let ?t = "tx_ComputeHash Hash tx"
  have r: "cu c1 = tx_apply Hash h True tx (cu c)" "cu c2 = tx_apply Hash h False tx (cu c)"
    using UpdateCoins_spec [OF assms(1,2), of h True] UpdateCoins_spec [OF assms(1,2), of h False] assms(3,4) by auto
  have none: "tx_spent tx (cu c) (tx_outpoint ?t i) = None" if "i < length (vout tx)" for i
    using assms(2) that by (simp add: tx_applicable_def tx_spent_def spend_all_def)
  show ?thesis
  proof
    assume eq: "cu c1 = cu c2"
    show "\<forall>out \<in> set (vout tx). IsUnspendable (scriptPubKey out) \<or> nValue out \<noteq> 0"
    proof (rule ccontr)
      assume "\<not> ?thesis"
      then obtain i where i: "i < length (vout tx)" "\<not> IsUnspendable (scriptPubKey (vout tx ! i))" "nValue (vout tx ! i) = 0"
        by (auto simp: in_set_conv_nth)
      have "i < 2 ^ 32" using i(1) assms(2) by (simp add: tx_applicable_def)
      then have o: "op_hash (tx_outpoint ?t i) = ?t" "unat (op_n (tx_outpoint ?t i)) = i" using tx_outpoint_eq [of i "tx_outpoint ?t i" ?t] by simp_all
      have "cu c1 (tx_outpoint ?t i) = None" "cu c2 (tx_outpoint ?t i) = Some (tx_coin tx h i)"
        using i o none [OF i(1)] by (simp_all add: r tx_apply_def add_coins_def output_added_def)
      then show False using eq by simp
    qed
  next
    assume "\<forall>out \<in> set (vout tx). IsUnspendable (scriptPubKey out) \<or> nValue out \<noteq> 0"
    then show "cu c1 = cu c2" by (intro ext) (auto simp: r tx_apply_def add_coins_def output_added_def Let_def)
  qed
qed

end

subsection \<open>Properties\<close>


text \<open>A block with a coinbase and a transaction that spends the coin of the sample database.\<close>

definition last_byte_hash :: "bytes \<Rightarrow> uint256" where
  "last_byte_hash b = replicate 32 (last b)"

definition sample_coinbase :: CTransaction where
  "sample_coinbase = \<lparr>vin = [\<lparr>prevout = COutPoint_null, scriptSig = [1, 2], nSequence = 0, scriptWitness = []\<rparr>],
     vout = [\<lparr>nValue = 0, scriptPubKey = []\<rparr>, \<lparr>nValue = 50, scriptPubKey = [0x51]\<rparr>], tx_nVersion = 3, tx_nTime = 0, nLockTime = 0x08000000\<rparr>"

definition sample_spend :: CTransaction where
  "sample_spend = \<lparr>vin = [\<lparr>prevout = sample_out 0, scriptSig = [], nSequence = 0, scriptWitness = []\<rparr>],
     vout = [\<lparr>nValue = 5, scriptPubKey = [0x52]\<rparr>], tx_nVersion = 3, tx_nTime = 0, nLockTime = 0x09000000\<rparr>"

definition sample_connect_block :: CBlock where
  "sample_connect_block = \<lparr>header = \<lparr>hdr_nVersion = 4, hashPrevBlock = replicate 32 1, hashMerkleRoot = replicate 32 2, hdr_nTime = 3,
     hdr_nBits = 4, hdr_nNonce = 5, hdr_nFlags = 0\<rparr>, vtx = [sample_coinbase, sample_spend], vchBlockSig = []\<rparr>"

definition sample_chain :: store where
  "sample_chain p = CBlockIndex_default\<lparr>nHeight := int p, pprev := (if p = 0 then None else Some (p - 1)), phashBlock := replicate 32 (word_of_nat p)\<rparr>"

lemma sample_txids: "tx_ComputeHash last_byte_hash sample_coinbase = replicate 32 8" "tx_ComputeHash last_byte_hash sample_spend = replicate 32 9"
proof -
  have "ser_writedata32 0x08000000 = [0, 0, 0, 8]" "ser_writedata32 0x09000000 = [0, 0, 0, 9]"
    unfolding ser_writedata32_def WriteLE32_digits [symmetric] by code_simp+
  then show "tx_ComputeHash last_byte_hash sample_coinbase = replicate 32 8" "tx_ComputeHash last_byte_hash sample_spend = replicate 32 9"
    by (simp_all add: tx_ComputeHash_def last_byte_hash_def SerializeTransaction_def sample_coinbase_def sample_spend_def)
qed

lemma sample_kinds: "IsCoinBase sample_coinbase" "\<not> IsCoinBase sample_spend"
  by (simp_all add: IsCoinBase_def sample_coinbase_def sample_spend_def COutPoint_IsNull_def COutPoint_null_def uint256_null_def blob_IsNull_def
      list_all_iff sample_out_def NULL_INDEX_def)

lemma sample_applicable: "txs_applicable last_byte_hash 10 [sample_coinbase, sample_spend] [sample_out 0 \<mapsto> sample_coin 5]"
proof -
  have ne: "replicate 32 (8 :: u8) \<noteq> replicate 32 1" "replicate 32 (9 :: u8) \<noteq> replicate 32 1" "replicate 32 (8 :: u8) \<noteq> replicate 32 9"
    "replicate 32 (1 :: u8) \<noteq> replicate 32 8" "replicate 32 (9 :: u8) \<noteq> replicate 32 8"
    by (simp_all add: replicate_eq_replicate)
  have "tx_applicable last_byte_hash sample_coinbase [sample_out 0 \<mapsto> sample_coin 5]"
    using sample_kinds(1) ne
    by (simp add: tx_applicable_def sample_txids tx_outpoint_def sample_out_def) (simp add: sample_coinbase_def CTxOut_IsNull_def less_Suc_eq)
  moreover have "tx_applicable last_byte_hash sample_spend (tx_apply last_byte_hash 10 True sample_coinbase [sample_out 0 \<mapsto> sample_coin 5])"
    using sample_kinds ne
    by (simp add: tx_applicable_def sample_txids tx_outpoint_def sample_out_def tx_apply_def tx_spent_def add_coins_def Let_def)
       (simp add: sample_spend_def CTxOut_IsNull_def sample_out_def)
  ultimately show ?thesis by simp
qed


text \<open>
  C39: the value of \<^verbatim>\<open>skipZeroValue\<close> matters. For every applicable transaction the two possible values of the variable
  that \<^verbatim>\<open>ConnectBlock\<close> passes without initialising it lead to the same set of unspent coins if and only if every
  spendable output of the transaction has a value other than zero; the first output of every coinstake is spendable and has the value zero.
\<close>

theorem uninitialised_skip_matters:
  assumes "view_ok c" "tx_applicable Hash tx (view_utxo c)"
  shows "\<exists>u1 c1 u2 c2. UpdateCoins tip_GetCoin Coin_DynamicMemoryUsage Hash tx c h True = Inr (u1, c1) \<and>
    UpdateCoins tip_GetCoin Coin_DynamicMemoryUsage Hash tx c h False = Inr (u2, c2) \<and>
    (view_utxo c1 = view_utxo c2 \<longleftrightarrow> (\<forall>out \<in> set (vout tx). IsUnspendable (scriptPubKey out) \<or> nValue out \<noteq> 0)) \<and>
    (IsCoinStake tx \<longrightarrow> view_utxo c1 \<noteq> view_utxo c2)"
proof -
  obtain c1 c2 where r: "UpdateCoins tip_GetCoin Coin_DynamicMemoryUsage Hash tx c h True = Inr (tx_undo tx (view_utxo c), c1)"
    "UpdateCoins tip_GetCoin Coin_DynamicMemoryUsage Hash tx c h False = Inr (tx_undo tx (view_utxo c), c2)"
    using block_view.UpdateCoins_spec [OF assms] by blast
  note iff = block_view.UpdateCoins_skip [OF assms r]
  have "\<exists>out \<in> set (vout tx). \<not> IsUnspendable (scriptPubKey out) \<and> nValue out = 0" if "IsCoinStake tx"
  proof (rule bexI)
    show "vout tx ! 0 \<in> set (vout tx)" using that by (auto simp: IsCoinStake_def intro!: nth_mem)
    show "\<not> IsUnspendable (scriptPubKey (vout tx ! 0)) \<and> nValue (vout tx ! 0) = 0"
      using that by (simp add: IsCoinStake_def CTxOut_IsEmpty_def IsUnspendable_def)
  qed
  then show ?thesis using r iff by blast
qed

theorem uninitialised_skip_matters_witness:
  "\<exists>u1 c1 u2 c2. UpdateCoins tip_GetCoin Coin_DynamicMemoryUsage last_byte_hash sample_coinbase sample_view 10 True = Inr (u1, c1) \<and>
    UpdateCoins tip_GetCoin Coin_DynamicMemoryUsage last_byte_hash sample_coinbase sample_view 10 False = Inr (u2, c2) \<and>
    view_utxo c1 \<noteq> view_utxo c2"
proof -
  have a: "tx_applicable last_byte_hash sample_coinbase (view_utxo sample_view)" using sample_applicable by (simp add: sample_view_ok(2))
  have "\<not> (\<forall>out \<in> set (vout sample_coinbase). IsUnspendable (scriptPubKey out) \<or> nValue out \<noteq> 0)"
    by (simp add: sample_coinbase_def IsUnspendable_def)
  then show ?thesis using uninitialised_skip_matters [OF sample_view_ok(1) a, of 10] by blast
qed

end
