(* ===== verification/Chain_Params.thy ===== *)
theory Chain_Params
  imports Compact_Bits
begin

text \<open>
  The consensus parameters the modelled code reads, \<^verbatim>\<open>src/src/consensus/params.h\<close>, and their values on the
  main and the test network, \<^verbatim>\<open>src/src/chainparams.cpp\<close>.
\<close>

datatype network = MAIN | TESTNET | SIGNET | REGTEST

record Consensus_Params =
  nSubsidyHalvingInterval :: int
  powLimit :: uint256
  fPowAllowMinDifficultyBlocks :: bool
  fPowNoRetargeting :: bool
  nPowTargetSpacing :: int
  nPowDGWHeight :: int
  DGWBlocksAvg :: int
  nPoSActivationHeight :: int
  bnInitialHashTarget :: uint256
  nStakeTargetSpacing :: int
  nTargetSpacingWorkMax :: int
  nTargetTimespan :: int
  nStakeMinAge :: int
  nStakeMaxAge :: int
  nModifierInterval :: int
  nCoinbaseMaturity :: int

definition CMainParams :: Consensus_Params where
  "CMainParams = \<lparr>nSubsidyHalvingInterval = 525600, powLimit = replicate 31 0xff @ [0],
     fPowAllowMinDifficultyBlocks = False, fPowNoRetargeting = False, nPowTargetSpacing = 2 * 60,
     nPowDGWHeight = 60, DGWBlocksAvg = 60, nPoSActivationHeight = 10000,
     bnInitialHashTarget = replicate 31 0xff @ [0], nStakeTargetSpacing = 2 * 60, nTargetSpacingWorkMax = 12 * (2 * 60),
     nTargetTimespan = 24 * 60 * 60, nStakeMinAge = 60 * 60 * 24 * 14, nStakeMaxAge = 60 * 60 * 24 * 90,
     nModifierInterval = 6 * 60 * 60, nCoinbaseMaturity = 200\<rparr>"

definition CTestNetParams :: Consensus_Params where
  "CTestNetParams = \<lparr>nSubsidyHalvingInterval = 21600, powLimit = replicate 31 0xff @ [0],
     fPowAllowMinDifficultyBlocks = True, fPowNoRetargeting = False, nPowTargetSpacing = 1 * 60,
     nPowDGWHeight = 60, DGWBlocksAvg = 60, nPoSActivationHeight = 5000,
     bnInitialHashTarget = replicate 31 0xff @ [0], nStakeTargetSpacing = 1 * 60, nTargetSpacingWorkMax = 12 * (1 * 60),
     nTargetTimespan = 24 * 60 * 60, nStakeMinAge = 60 * 60 * 2, nStakeMaxAge = 60 * 60 * 24 * 90,
     nModifierInterval = 60, nCoinbaseMaturity = 100\<rparr>"

end
