(* ===== verification/Merkle.thy ===== *)
theory Merkle
  imports Primitives "HOL-Library.Monad_Syntax"
begin

text \<open>
  Merkle trees: the root of a block with the detection of duplicated subtrees, \<^verbatim>\<open>src/src/consensus/merkle.cpp\<close>, and the partial
  trees that prove membership to light clients, \<^verbatim>\<open>src/src/merkleblock.h\<close> and \<^verbatim>\<open>src/src/merkleblock.cpp\<close>. The double SHA-256
  of a message is the parameter \<open>Hash\<close>; both \<^verbatim>\<open>SHA256D64\<close> and \<^verbatim>\<open>Hash(left, right)\<close> apply it to the 64 bytes of two nodes. Positions
  and counters are natural numbers, the number of transactions is the 32-bit field of the code.
\<close>

subsection \<open>The root of a block\<close>

fun hash_pairs :: "(bytes \<Rightarrow> uint256) \<Rightarrow> uint256 list \<Rightarrow> uint256 list" where
  "hash_pairs Hash (x # y # hs) = Hash (x @ y) # hash_pairs Hash hs"
| "hash_pairs Hash _ = []"

fun equal_pair :: "uint256 list \<Rightarrow> bool" where
  "equal_pair (x # y # hs) \<longleftrightarrow> x = y \<or> equal_pair hs"
| "equal_pair _ \<longleftrightarrow> False"

definition pad_odd :: "uint256 list \<Rightarrow> uint256 list" where
  "pad_odd hashes = (if odd (length hashes) then hashes @ [last hashes] else hashes)"

lemma length_hash_pairs: "length (hash_pairs Hash hs) = length hs div 2"
  by (induction Hash hs rule: hash_pairs.induct) simp_all

lemma length_pad_odd: "length (pad_odd hs) = 2 * ((length hs + 1) div 2)"
  by (simp add: pad_odd_def)

lemma length_next_level: "length (hash_pairs Hash (pad_odd hs)) = (length hs + 1) div 2"
  by (simp add: length_hash_pairs length_pad_odd)

function merkle_loop :: "(bytes \<Rightarrow> uint256) \<Rightarrow> bool \<Rightarrow> uint256 list \<Rightarrow> bool \<Rightarrow> uint256 list \<times> bool" where
  "merkle_loop Hash mutated hashes mutation =
     (if length hashes > 1
      then merkle_loop Hash mutated (hash_pairs Hash (pad_odd hashes)) (mutation \<or> mutated \<and> equal_pair hashes)
      else (hashes, mutation))"
  by pat_completeness auto
termination
  by (relation "measure (\<lambda>(Hash, m, hs, b). length hs)") (auto simp: length_next_level)

declare merkle_loop.simps [simp del]

definition ComputeMerkleRoot :: "(bytes \<Rightarrow> uint256) \<Rightarrow> uint256 list \<Rightarrow> bool \<Rightarrow> uint256 \<times> bool" where
  "ComputeMerkleRoot Hash hashes mutated =
     (let (hashes, mutation) = merkle_loop Hash mutated hashes False
      in (if length hashes = 0 then uint256_null else hashes ! 0, mutation))"

definition BlockMerkleRoot :: "(bytes \<Rightarrow> uint256) \<Rightarrow> CBlock \<Rightarrow> bool \<Rightarrow> uint256 \<times> bool" where
  "BlockMerkleRoot Hash block mutated = ComputeMerkleRoot Hash (map (tx_ComputeHash Hash) (vtx block)) mutated"

text \<open>The code writes \<^verbatim>\<open>leaves[0]\<close> of a block without transactions out of range: \<^term>\<open>None\<close>.\<close>

definition BlockWitnessMerkleRoot :: "(bytes \<Rightarrow> uint256) \<Rightarrow> CBlock \<Rightarrow> bool \<Rightarrow> (uint256 \<times> bool) option" where
  "BlockWitnessMerkleRoot Hash block mutated =
     (case vtx block of [] \<Rightarrow> None
      | _ # txs \<Rightarrow> Some (ComputeMerkleRoot Hash (uint256_null # map (ComputeWitnessHash Hash) txs) mutated))"

subsection \<open>Flag bits\<close>

definition BitsToBytes :: "bool list \<Rightarrow> bytes" where
  "BitsToBytes bs =
     foldl (\<lambda>ret p. ret[p div 8 := ret ! (p div 8) OR push_bit (p mod 8) (of_bool (bs ! p))])
       (replicate ((length bs + 7) div 8) 0) [0..<length bs]"

definition BytesToBits :: "bytes \<Rightarrow> bool list" where
  "BytesToBits bs = map (\<lambda>p. bs ! (p div 8) AND push_bit (p mod 8) 1 \<noteq> 0) [0..<length bs * 8]"

subsection \<open>Partial trees\<close>

record CPartialMerkleTree =
  nTransactions :: u32
  vBits :: "bool list"
  vHash :: "uint256 list"
  fBad :: bool

definition CalcTreeWidth :: "u32 \<Rightarrow> nat \<Rightarrow> nat" where
  "CalcTreeWidth n height = unat (drop_bit height (n + push_bit height 1 - 1))"

text \<open>\<^term>\<open>None\<close> is the failed assertion on an empty vector or an index out of range.\<close>

fun CalcHash :: "(bytes \<Rightarrow> uint256) \<Rightarrow> u32 \<Rightarrow> uint256 list \<Rightarrow> nat \<Rightarrow> nat \<Rightarrow> uint256 option" where
  "CalcHash Hash n vTxid 0 pos = (if pos < length vTxid then Some (vTxid ! pos) else None)"
| "CalcHash Hash n vTxid (Suc height) pos =
     do { left \<leftarrow> CalcHash Hash n vTxid height (pos * 2);
          right \<leftarrow> (if pos * 2 + 1 < CalcTreeWidth n height then CalcHash Hash n vTxid height (pos * 2 + 1) else Some left);
          Some (Hash (left @ right)) }"

definition any_match :: "bool list \<Rightarrow> nat list \<Rightarrow> bool option" where
  "any_match vMatch ps = (if \<forall>p \<in> set ps. p < length vMatch then Some (list_ex (\<lambda>p. vMatch ! p) ps) else None)"

fun TraverseAndBuild ::
  "(bytes \<Rightarrow> uint256) \<Rightarrow> uint256 list \<Rightarrow> bool list \<Rightarrow> nat \<Rightarrow> nat \<Rightarrow> CPartialMerkleTree \<Rightarrow> CPartialMerkleTree option" where
  "TraverseAndBuild Hash vTxid vMatch 0 pos t =
     do { fParentOfMatch \<leftarrow> any_match vMatch [pos..<min (pos + 1) (unat (nTransactions t))];
          h \<leftarrow> CalcHash Hash (nTransactions t) vTxid 0 pos;
          Some (t\<lparr>vBits := vBits t @ [fParentOfMatch], vHash := vHash t @ [h]\<rparr>) }"
| "TraverseAndBuild Hash vTxid vMatch (Suc height) pos t =
     do { fParentOfMatch \<leftarrow> any_match vMatch [pos * 2 ^ Suc height..<min ((pos + 1) * 2 ^ Suc height) (unat (nTransactions t))];
          if \<not> fParentOfMatch then
            do { h \<leftarrow> CalcHash Hash (nTransactions t) vTxid (Suc height) pos;
                 Some (t\<lparr>vBits := vBits t @ [fParentOfMatch], vHash := vHash t @ [h]\<rparr>) }
          else
            do { t \<leftarrow> TraverseAndBuild Hash vTxid vMatch height (pos * 2) (t\<lparr>vBits := vBits t @ [fParentOfMatch]\<rparr>);
                 if pos * 2 + 1 < CalcTreeWidth (nTransactions t) height
                 then TraverseAndBuild Hash vTxid vMatch height (pos * 2 + 1) t
                 else Some t } }"

lemma CalcTreeWidth_small: "1 < CalcTreeWidth n h \<Longrightarrow> h < 32"
proof (rule ccontr)
  assume "1 < CalcTreeWidth n h" "\<not> h < 32"
  moreover have "unat (n + push_bit h 1 - 1) < 2 ^ h" if "32 \<le> h"
  proof -
    have "(2::nat) ^ 32 \<le> 2 ^ h" using that by (intro power_increasing) simp_all
    then show ?thesis using unat_lt_pow [of "n + push_bit h 1 - 1"] by (simp add: order_less_le_trans)
  qed
  ultimately show False by (simp add: CalcTreeWidth_def unat_drop_bit)
qed

function tree_height :: "u32 \<Rightarrow> nat \<Rightarrow> nat" where
  "tree_height n nHeight = (if CalcTreeWidth n nHeight > 1 then tree_height n (nHeight + 1) else nHeight)"
  by pat_completeness auto
termination
  by (relation "measure (\<lambda>(n, h). 32 - h)") (auto dest!: CalcTreeWidth_small [simplified])

declare tree_height.simps [simp del]

definition CPartialMerkleTree_build :: "(bytes \<Rightarrow> uint256) \<Rightarrow> uint256 list \<Rightarrow> bool list \<Rightarrow> CPartialMerkleTree option" where
  "CPartialMerkleTree_build Hash vTxid vMatch =
     (let n = word_of_nat (length vTxid)
      in TraverseAndBuild Hash vTxid vMatch (tree_height n 0) 0 \<lparr>nTransactions = n, vBits = [], vHash = [], fBad = False\<rparr>)"

definition CPartialMerkleTree_default :: CPartialMerkleTree where
  "CPartialMerkleTree_default = \<lparr>nTransactions = 0, vBits = [], vHash = [], fBad = True\<rparr>"

text \<open>The state of an extraction: the reference arguments and the flag \<^verbatim>\<open>fBad\<close> of the tree.\<close>

record extract_state =
  nBitsUsed :: nat
  nHashUsed :: nat
  ex_vMatch :: "uint256 list"
  vnIndex :: "nat list"
  ex_fBad :: bool

definition take_hash :: "CPartialMerkleTree \<Rightarrow> bool \<Rightarrow> nat \<Rightarrow> extract_state \<Rightarrow> uint256 \<times> extract_state" where
  "take_hash t matched pos st =
     (if nHashUsed st \<ge> length (vHash t) then (uint256_null, st\<lparr>ex_fBad := True\<rparr>)
      else let hash = vHash t ! nHashUsed st; st = st\<lparr>nHashUsed := nHashUsed st + 1\<rparr>
           in (hash, if matched then st\<lparr>ex_vMatch := ex_vMatch st @ [hash], vnIndex := vnIndex st @ [pos]\<rparr> else st))"

fun TraverseAndExtract ::
  "(bytes \<Rightarrow> uint256) \<Rightarrow> CPartialMerkleTree \<Rightarrow> nat \<Rightarrow> nat \<Rightarrow> extract_state \<Rightarrow> uint256 \<times> extract_state" where
  "TraverseAndExtract Hash t 0 pos st =
     (if nBitsUsed st \<ge> length (vBits t) then (uint256_null, st\<lparr>ex_fBad := True\<rparr>)
      else take_hash t (vBits t ! nBitsUsed st) pos (st\<lparr>nBitsUsed := nBitsUsed st + 1\<rparr>))"
| "TraverseAndExtract Hash t (Suc height) pos st =
     (if nBitsUsed st \<ge> length (vBits t) then (uint256_null, st\<lparr>ex_fBad := True\<rparr>)
      else let fParentOfMatch = vBits t ! nBitsUsed st; st = st\<lparr>nBitsUsed := nBitsUsed st + 1\<rparr>
           in if \<not> fParentOfMatch then take_hash t False pos st
              else let (left, st) = TraverseAndExtract Hash t height (pos * 2) st
                   in if pos * 2 + 1 < CalcTreeWidth (nTransactions t) height
                      then let (right, st) = TraverseAndExtract Hash t height (pos * 2 + 1) st;
                               st = (if right = left then st\<lparr>ex_fBad := True\<rparr> else st)
                           in (Hash (left @ right), st)
                      else (Hash (left @ left), st))"

definition MAX_BLOCK_WEIGHT :: nat where "MAX_BLOCK_WEIGHT = 4000000"
definition MIN_TRANSACTION_WEIGHT :: nat where "MIN_TRANSACTION_WEIGHT = 4 * 60"

text \<open>The result is the root, the matches, the indices, which are appended to those passed in, and the tree with its flag.\<close>

definition ExtractMatches ::
  "(bytes \<Rightarrow> uint256) \<Rightarrow> CPartialMerkleTree \<Rightarrow> nat list \<Rightarrow> uint256 \<times> uint256 list \<times> nat list \<times> CPartialMerkleTree" where
  "ExtractMatches Hash t index =
     (if nTransactions t = 0 then (uint256_null, [], index, t)
      else if unat (nTransactions t) > MAX_BLOCK_WEIGHT div MIN_TRANSACTION_WEIGHT then (uint256_null, [], index, t)
      else if length (vHash t) > unat (nTransactions t) then (uint256_null, [], index, t)
      else if length (vBits t) < length (vHash t) then (uint256_null, [], index, t)
      else let (hashMerkleRoot, st) = TraverseAndExtract Hash t (tree_height (nTransactions t) 0) 0
                 \<lparr>nBitsUsed = 0, nHashUsed = 0, ex_vMatch = [], vnIndex = index, ex_fBad = fBad t\<rparr>;
               t = t\<lparr>fBad := ex_fBad st\<rparr>
           in (if fBad t then uint256_null
               else if (nBitsUsed st + 7) div 8 \<noteq> (length (vBits t) + 7) div 8 then uint256_null
               else if nHashUsed st \<noteq> length (vHash t) then uint256_null
               else hashMerkleRoot, ex_vMatch st, vnIndex st, t))"

subsection \<open>Wire format\<close>

definition ser_CPartialMerkleTree :: "CPartialMerkleTree \<Rightarrow> bytes" where
  "ser_CPartialMerkleTree t =
     ser_writedata32 (nTransactions t) @ VectorFormatter_ser ser_uint256 (vHash t) @ ser_bytes (BitsToBytes (vBits t))"

definition unser_CPartialMerkleTree :: "CPartialMerkleTree reader" where
  "unser_CPartialMerkleTree s =
     ebind (ser_readdata32 s) (\<lambda>(n, s).
     ebind (VectorFormatter_unser unser_uint256 (batch_of 32) s) (\<lambda>(hashes, s).
     ebind (unser_bytes s) (\<lambda>(bs, s).
       Inr (\<lparr>nTransactions = n, vBits = BytesToBits bs, vHash = hashes, fBad = False\<rparr>, s))))"

subsection \<open>Filtered blocks\<close>

record CMerkleBlock =
  mb_header :: CBlockHeader
  txn :: CPartialMerkleTree
  vMatchedTxn :: "(nat \<times> uint256) list"

text \<open>The filter is a state with a test that updates it, the set of transactions a list.\<close>

fun match_txs ::
  "(bytes \<Rightarrow> uint256) \<Rightarrow> ('f \<Rightarrow> CTransaction \<Rightarrow> bool \<times> 'f) \<Rightarrow> uint256 set option \<Rightarrow> nat \<Rightarrow> CTransaction list \<Rightarrow> 'f option \<Rightarrow>
   bool list \<times> (nat \<times> uint256) list \<times> 'f option" where
  "match_txs Hash rel txids i [] flt = ([], [], flt)"
| "match_txs Hash rel txids i (tx # txs) flt =
     (let hash = tx_ComputeHash Hash tx in
      if txids \<noteq> None \<and> hash \<in> the txids then
        let (ms, found, flt) = match_txs Hash rel txids (i + 1) txs flt in (True # ms, found, flt)
      else case flt of
        None \<Rightarrow> let (ms, found, flt) = match_txs Hash rel txids (i + 1) txs None in (False # ms, found, flt)
      | Some f \<Rightarrow>
          let (r, f) = rel f tx; (ms, found, flt) = match_txs Hash rel txids (i + 1) txs (Some f)
          in if r then (True # ms, (i, hash) # found, flt) else (False # ms, found, flt))"

definition CMerkleBlock_build ::
  "(bytes \<Rightarrow> uint256) \<Rightarrow> ('f \<Rightarrow> CTransaction \<Rightarrow> bool \<times> 'f) \<Rightarrow> CBlock \<Rightarrow> 'f option \<Rightarrow> uint256 set option \<Rightarrow> (CMerkleBlock \<times> 'f option) option" where
  "CMerkleBlock_build Hash rel block flt txids =
     (let (ms, found, flt) = match_txs Hash rel txids 0 (vtx block) flt
      in map_option (\<lambda>t. (\<lparr>mb_header = header block, txn = t, vMatchedTxn = found\<rparr>, flt))
           (CPartialMerkleTree_build Hash (map (tx_ComputeHash Hash) (vtx block)) ms))"

subsection \<open>Levels of the tree\<close>

text \<open>Level \<open>h\<close> of the tree over the given leaves.\<close>

definition tree_level :: "(bytes \<Rightarrow> uint256) \<Rightarrow> uint256 list \<Rightarrow> nat \<Rightarrow> uint256 list" where
  "tree_level Hash hs h = ((\<lambda>l. hash_pairs Hash (pad_odd l)) ^^ h) hs"

lemma tree_level_0 [simp]: "tree_level Hash hs 0 = hs"
  by (simp add: tree_level_def)

lemma tree_level_Suc: "tree_level Hash hs (Suc h) = hash_pairs Hash (pad_odd (tree_level Hash hs h))"
  by (simp add: tree_level_def)

lemma tree_level_Suc': "tree_level Hash hs (Suc h) = tree_level Hash (hash_pairs Hash (pad_odd hs)) h"
  by (simp add: tree_level_def del: funpow.simps(2) add: funpow_Suc_right)

lemma length_tree_level_Suc: "length (tree_level Hash hs (Suc h)) = (length (tree_level Hash hs h) + 1) div 2"
  by (simp add: tree_level_Suc length_next_level)

lemma nth_hash_pairs: "p < length hs div 2 \<Longrightarrow> hash_pairs Hash hs ! p = Hash (hs ! (2 * p) @ hs ! (2 * p + 1))"
proof (induction Hash hs arbitrary: p rule: hash_pairs.induct)
  case (1 Hash x y hs)
  then show ?case by (cases p) simp_all
qed simp_all

lemma nth_tree_level_Suc:
  assumes "p < length (tree_level Hash hs (Suc h))"
  shows "tree_level Hash hs (Suc h) ! p = (let l = tree_level Hash hs h in
    Hash (l ! (p * 2) @ (if p * 2 + 1 < length l then l ! (p * 2 + 1) else l ! (p * 2))))"
proof -
  let ?l = "tree_level Hash hs h"
  have p: "p < (length ?l + 1) div 2" using assms by (simp add: length_tree_level_Suc)
  then have lt: "2 * p < length ?l" by linarith
  then have "pad_odd ?l ! (2 * p) = ?l ! (2 * p)" by (simp add: pad_odd_def nth_append)
  moreover have "pad_odd ?l ! (2 * p + 1) = (if p * 2 + 1 < length ?l then ?l ! (p * 2 + 1) else ?l ! (p * 2))"
  proof (cases "2 * p + 1 < length ?l")
    case False
    then have "length ?l = 2 * p + 1" using lt by linarith
    moreover from this have "?l \<noteq> []" by auto
    ultimately show ?thesis by (simp add: pad_odd_def nth_append last_conv_nth mult.commute)
  qed (simp add: pad_odd_def nth_append mult.commute)
  ultimately show ?thesis using p by (simp add: tree_level_Suc nth_hash_pairs length_pad_odd Let_def mult.commute)
qed

lemma equal_pair_iff: "equal_pair hs \<longleftrightarrow> (\<exists>p. 2 * p + 1 < length hs \<and> hs ! (2 * p) = hs ! (2 * p + 1))"
proof (induction hs rule: equal_pair.induct)
  case (1 x y hs)
  have "(\<exists>p. 2 * p + 1 < length (x # y # hs) \<and> (x # y # hs) ! (2 * p) = (x # y # hs) ! (2 * p + 1)) \<longleftrightarrow>
     x = y \<or> (\<exists>p. 2 * Suc p + 1 < length (x # y # hs) \<and> (x # y # hs) ! (2 * Suc p) = (x # y # hs) ! (2 * Suc p + 1))"
    (is "(\<exists>p. ?P p) \<longleftrightarrow> x = y \<or> ?Q")
  proof
    assume "\<exists>p. ?P p"
    then obtain p where "?P p" by blast
    then show "x = y \<or> ?Q" by (cases p) auto
  next
    assume "x = y \<or> ?Q"
    then show "\<exists>p. ?P p"
    proof
      assume "x = y"
      then have "?P 0" by simp
      then show ?thesis by blast
    qed blast
  qed
  then show ?case using 1 by simp
qed simp_all

lemma merkle_loop_levels:
  assumes "\<forall>h < H. 1 < length (tree_level Hash hs h)" "length (tree_level Hash hs H) \<le> 1"
  shows "merkle_loop Hash m hs b = (tree_level Hash hs H, b \<or> m \<and> (\<exists>h < H. equal_pair (tree_level Hash hs h)))"
  using assms
proof (induction H arbitrary: hs b)
  case 0
  then show ?case by (simp add: merkle_loop.simps)
next
  case (Suc H)
  have "1 < length hs" using Suc.prems(1) by (metis tree_level_0 zero_less_Suc)
  moreover have "\<forall>h < H. 1 < length (tree_level Hash (hash_pairs Hash (pad_odd hs)) h)"
    using Suc.prems(1) by (auto simp: tree_level_Suc' [symmetric])
  moreover have "(\<exists>h < Suc H. equal_pair (tree_level Hash hs h)) \<longleftrightarrow>
      equal_pair hs \<or> (\<exists>h < H. equal_pair (tree_level Hash (hash_pairs Hash (pad_odd hs)) h))"
    by (simp add: tree_level_Suc' [symmetric] Ex_less_Suc2)
  ultimately show ?case
    using Suc.IH [of "hash_pairs Hash (pad_odd hs)" "b \<or> m \<and> equal_pair hs"] Suc.prems(2)
    by (simp add: merkle_loop.simps [of Hash m hs b] tree_level_Suc') blast
qed

text \<open>Any list of leaves has a height at which its tree is a single node.\<close>

lemma length_tree_level_pos: "hs \<noteq> [] \<Longrightarrow> 0 < length (tree_level Hash hs h)"
proof (induction h)
  case (Suc h)
  then show ?case by (simp only: length_tree_level_Suc) simp
qed simp

lemma tree_level_shrinks: "length (tree_level Hash hs h) \<le> length hs div 2 ^ h + 1"
proof (induction h)
  case (Suc h)
  have "length (tree_level Hash hs (Suc h)) \<le> (length hs div 2 ^ h + 1 + 1) div 2"
    unfolding length_tree_level_Suc using Suc by (intro div_le_mono) simp
  also have "\<dots> = length hs div 2 ^ Suc h + 1" by (simp add: div_mult2_eq [symmetric] mult.commute)
  finally show ?case .
qed simp

subsection \<open>Tree widths\<close>

lemma CalcTreeWidth_nat:
  assumes "unat n < 2 ^ 31" "h < 32"
  shows "CalcTreeWidth n h = (unat n + 2 ^ h - 1) div 2 ^ h"
proof -
  have h: "(2::nat) ^ h \<le> 2 ^ 31" using assms(2) by (intro power_increasing) simp_all
  have p: "unat (push_bit h (1 :: u32)) = 2 ^ h" using h unfolding unat_push_bit by simp
  have s: "unat (n + push_bit h 1) = unat n + 2 ^ h" using assms(1) h p by (simp add: unat_plus_mod)
  have "(1 :: u32) \<le> n + push_bit h 1" unfolding word_le_nat_alt s by (simp add: Suc_le_eq)
  then have "unat (n + push_bit h 1 - 1) = unat n + 2 ^ h - 1" using s by (simp add: unat_sub)
  then show ?thesis by (simp add: CalcTreeWidth_def unat_drop_bit)
qed

lemma ceil_div_step: "(n + 2 ^ Suc h - 1) div 2 ^ Suc h = ((n + 2 ^ h - 1) div 2 ^ h + 1) div (2 :: nat)"
proof -
  have "(n + 2 ^ h - 1) div 2 ^ h + 1 = (n + 2 ^ h - 1 + 2 ^ h) div 2 ^ h" by (subst div_add_self2) simp_all
  also have "n + 2 ^ h - 1 + 2 ^ h = n + 2 ^ Suc h - 1" by (simp add: Suc_leI)
  finally show ?thesis by (simp only: power_Suc2 div_mult2_eq)
qed

lemma CalcTreeWidth_level:
  assumes "length hs < 2 ^ 31" "h < 32"
  shows "CalcTreeWidth (word_of_nat (length hs)) h = length (tree_level Hash hs h)"
  using assms(2)
proof (induction h)
  case 0
  then show ?case using assms(1) by (simp add: CalcTreeWidth_def unat_word_of_nat)
next
  case (Suc h)
  have u: "unat (word_of_nat (length hs) :: u32) = length hs" using assms(1) by (simp add: unat_word_of_nat)
  show ?case using Suc assms(1) u by (simp only: CalcTreeWidth_nat length_tree_level_Suc ceil_div_step Suc_lessD)
qed

lemma tree_height_spec:
  "h \<le> tree_height n h \<and> CalcTreeWidth n (tree_height n h) \<le> 1 \<and> (\<forall>k. h \<le> k \<and> k < tree_height n h \<longrightarrow> 1 < CalcTreeWidth n k)"
proof (induction n h rule: tree_height.induct)
  case (1 n h)
  show ?case
  proof (cases "1 < CalcTreeWidth n h")
    case True
    have e: "tree_height n h = tree_height n (h + 1)" using True by (simp add: tree_height.simps [of n h])
    have "1 < CalcTreeWidth n k" if "h \<le> k" "k < tree_height n h" for k
      using 1 [OF True] True that e by (cases "k = h") auto
    then show ?thesis using 1 [OF True] e by auto
  qed (simp add: tree_height.simps [of n h])
qed

text \<open>The height the code computes is the number of levels that are not a single node.\<close>

lemma tree_height_levels:
  assumes "length hs < 2 ^ 31" "hs \<noteq> []"
  defines "H \<equiv> tree_height (word_of_nat (length hs)) 0"
  shows "H < 32" "\<forall>h < H. 1 < length (tree_level Hash hs h)" "length (tree_level Hash hs H) = 1"
proof -
  have s: "CalcTreeWidth (word_of_nat (length hs)) H \<le> 1" "\<And>k. k < H \<Longrightarrow> 1 < CalcTreeWidth (word_of_nat (length hs)) k"
    using tree_height_spec [of 0 "word_of_nat (length hs)"] unfolding H_def by blast+
  have "CalcTreeWidth (word_of_nat (length hs)) 31 \<le> 1"
    using assms(1) tree_level_shrinks [of undefined hs 31] by (simp add: CalcTreeWidth_level [where Hash = undefined])
  then show H: "H < 32" using s(2) [of 31] by (cases "31 < H") auto
  show "\<forall>h < H. 1 < length (tree_level Hash hs h)"
    using s(2) H assms(1) by (auto simp: CalcTreeWidth_level [where Hash = Hash, symmetric])
  show "length (tree_level Hash hs H) = 1"
    using s(1) length_tree_level_pos [OF assms(2), of Hash H] unfolding CalcTreeWidth_level [OF assms(1) H, of Hash] by linarith
qed

lemma ComputeMerkleRoot_levels:
  assumes "length hs < 2 ^ 31" "hs \<noteq> []"
  defines "H \<equiv> tree_height (word_of_nat (length hs)) 0"
  shows "ComputeMerkleRoot Hash hs m = (tree_level Hash hs H ! 0, m \<and> (\<exists>h < H. equal_pair (tree_level Hash hs h)))"
  using tree_height_levels(2,3) [OF assms(1,2), of Hash] merkle_loop_levels [of H Hash hs m False]
  unfolding ComputeMerkleRoot_def H_def by auto

subsection \<open>Building and extracting\<close>

text \<open>The leaves below a node and the matched ones among them.\<close>

definition leaves_below :: "nat \<Rightarrow> nat \<Rightarrow> nat \<Rightarrow> nat list" where
  "leaves_below n h pos = [pos * 2 ^ h..<min ((pos + 1) * 2 ^ h) n]"

lemma CalcHash_level:
  assumes "length hs < 2 ^ 31" "h < 32" "pos < length (tree_level Hash hs h)"
  shows "CalcHash Hash (word_of_nat (length hs)) hs h pos = Some (tree_level Hash hs h ! pos)"
  using assms(2,3)
proof (induction h arbitrary: pos)
  case (Suc h)
  have p: "pos < (length (tree_level Hash hs h) + 1) div 2" using Suc.prems(2) by (simp add: length_tree_level_Suc)
  then have "pos * 2 < length (tree_level Hash hs h)" by linarith
  then show ?case
    using Suc.IH [of "pos * 2"] Suc.IH [of "pos * 2 + 1"] Suc.prems(1) nth_tree_level_Suc [OF Suc.prems(2)]
    by (simp add: CalcTreeWidth_level [OF assms(1), of h Hash] Let_def)
qed simp

lemma length_level_ceil: "length (tree_level Hash hs h) = (length hs + 2 ^ h - 1) div 2 ^ h"
proof (induction h)
  case (Suc h)
  then show ?case by (simp only: length_tree_level_Suc ceil_div_step)
qed simp

lemma pos_lt_level: "pos < length (tree_level Hash hs h) \<longleftrightarrow> pos * 2 ^ h < length hs"
proof -
  have "pos < (n + 2 ^ h - 1) div 2 ^ h \<longleftrightarrow> pos * 2 ^ h < n" for n :: nat
  proof -
    have "pos < (n + 2 ^ h - 1) div 2 ^ h \<longleftrightarrow> Suc pos * 2 ^ h \<le> n + 2 ^ h - 1"
      using less_eq_div_iff_mult_less_eq [of "2 ^ h" "Suc pos" "n + 2 ^ h - 1"] by (simp add: Suc_le_eq)
    also have "\<dots> \<longleftrightarrow> pos * 2 ^ h < n"
    proof -
      have "0 < (2::nat) ^ h" by simp
      moreover have "Suc pos * 2 ^ h = pos * 2 ^ h + 2 ^ h" by simp
      ultimately show ?thesis by linarith
    qed
    finally show ?thesis .
  qed
  then show ?thesis by (simp add: length_level_ceil)
qed

lemma upt_split: "i \<le> j \<Longrightarrow> j \<le> k \<Longrightarrow> [i..<k] = [i..<j] @ [j..<k]"
  using upt_add_eq_append [of i j "k - j"] by simp

lemma leaves_below_split:
  assumes "pos * 2 ^ Suc h < n"
  shows "leaves_below n (Suc h) pos = leaves_below n h (pos * 2) @ (if (pos * 2 + 1) * 2 ^ h < n then leaves_below n h (pos * 2 + 1) else [])"
proof -
  let ?k = "(2::nat) ^ h"
  have e: "pos * 2 ^ Suc h = pos * 2 * ?k" "(pos + 1) * 2 ^ Suc h = (pos * 2 + 1 + 1) * ?k" by (simp_all add: algebra_simps)
  have le: "pos * 2 * ?k \<le> (pos * 2 + 1) * ?k" "(pos * 2 + 1) * ?k \<le> (pos * 2 + 1 + 1) * ?k" by simp_all
  show ?thesis
  proof (cases "(pos * 2 + 1) * ?k < n")
    case True
    then have "min ((pos * 2 + 1) * ?k) n = (pos * 2 + 1) * ?k" by simp
    then show ?thesis using True le upt_split [of "pos * 2 * ?k" "(pos * 2 + 1) * ?k" "min ((pos * 2 + 1 + 1) * ?k) n"]
      unfolding leaves_below_def e by (simp only: if_True)
  next
    case False
    then have "min ((pos * 2 + 1) * ?k) n = n" "min ((pos * 2 + 1 + 1) * ?k) n = n" using le by linarith+
    then show ?thesis using False unfolding leaves_below_def e by simp
  qed
qed

lemma leaves_below_bound: "p \<in> set (leaves_below n h pos) \<Longrightarrow> p < n"
  by (simp add: leaves_below_def)

lemma leaves_below_nonempty: "pos * 2 ^ h < n \<Longrightarrow> 0 < length (leaves_below n h pos)"
  by (simp add: leaves_below_def)

lemma any_match_below:
  "length vMatch = n \<Longrightarrow> any_match vMatch (leaves_below n h pos) = Some (filter (\<lambda>p. vMatch ! p) (leaves_below n h pos) \<noteq> [])"
  by (auto simp: any_match_def leaves_below_bound list_ex_iff filter_empty_conv dest: leaves_below_bound)

definition advance :: "extract_state \<Rightarrow> nat \<Rightarrow> nat \<Rightarrow> uint256 list \<Rightarrow> nat list \<Rightarrow> extract_state" where
  "advance st b h ms ix = st\<lparr>nBitsUsed := nBitsUsed st + b, nHashUsed := nHashUsed st + h, ex_vMatch := ex_vMatch st @ ms, vnIndex := vnIndex st @ ix\<rparr>"

lemma advance_advance: "advance (advance st b h ms ix) b' h' ms' ix' = advance st (b + b') (h + h') (ms @ ms') (ix @ ix')"
  by (simp add: advance_def add.assoc)

lemma advance_bit: "st\<lparr>nBitsUsed := Suc (nBitsUsed st)\<rparr> = advance st 1 0 [] []"
  by (simp add: advance_def)

lemma advance_fields [simp]:
  "nBitsUsed (advance st b h ms ix) = nBitsUsed st + b" "nHashUsed (advance st b h ms ix) = nHashUsed st + h"
  by (simp_all add: advance_def)

text \<open>A node that is built appends bits and hashes from which extracting the node returns its hash and its matches.\<close>

definition reads_back :: "(bytes \<Rightarrow> uint256) \<Rightarrow> uint256 list \<Rightarrow> bool list \<Rightarrow> nat \<Rightarrow> nat \<Rightarrow> bool list \<Rightarrow> uint256 list \<Rightarrow> bool" where
  "reads_back Hash hs vMatch h pos bs hh \<longleftrightarrow>
     (let ps = filter (\<lambda>p. vMatch ! p) (leaves_below (length hs) h pos) in
      \<forall>T st rb rh. nTransactions T = word_of_nat (length hs) \<and> drop (nBitsUsed st) (vBits T) = bs @ rb \<and> drop (nHashUsed st) (vHash T) = hh @ rh \<longrightarrow>
        TraverseAndExtract Hash T h pos st = (tree_level Hash hs h ! pos, advance st (length bs) (length hh) (map ((!) hs) ps) ps))"

definition built :: "(bytes \<Rightarrow> uint256) \<Rightarrow> uint256 list \<Rightarrow> bool list \<Rightarrow> nat \<Rightarrow> nat \<Rightarrow> bool list \<Rightarrow> uint256 list \<Rightarrow> bool" where
  "built Hash hs vMatch h pos bs hh \<longleftrightarrow>
     (\<forall>t. nTransactions t = word_of_nat (length hs) \<longrightarrow>
        TraverseAndBuild Hash hs vMatch h pos t = Some (t\<lparr>vBits := vBits t @ bs, vHash := vHash t @ hh\<rparr>)) \<and>
     length hh \<le> length (leaves_below (length hs) h pos) \<and> length hh \<le> length bs \<and>
     length bs \<le> (h + 1) * length (leaves_below (length hs) h pos) \<and>
     (\<forall>x \<in> set hh. \<exists>k p. p < length (tree_level Hash hs k) \<and> x = tree_level Hash hs k ! p)"

lemma drop_Cons_nth: "drop k xs = y # ys \<Longrightarrow> k < length xs \<and> xs ! k = y \<and> drop (Suc k) xs = ys"
  by (metis Cons_nth_drop_Suc drop_eq_Nil leI list.inject list.distinct(1))

lemma reads_back_hash:
  assumes "drop (nBitsUsed st) (vBits T) = b # rb" "drop (nHashUsed st) (vHash T) = x # rh" "h = 0 \<or> \<not> b"
  shows "TraverseAndExtract Hash T h pos st = (x, advance st 1 1 (if b then [x] else []) (if b then [pos] else []))"
proof -
  note d = drop_Cons_nth [OF assms(1)] drop_Cons_nth [OF assms(2)]
  show ?thesis using assms(3) d by (cases h) (auto simp: take_hash_def advance_def Let_def)
qed

lemma built_leaf:
  assumes "length hs < 2 ^ 31" "length vMatch = length hs" "pos < length hs"
  shows "built Hash hs vMatch 0 pos [vMatch ! pos] [hs ! pos]" "reads_back Hash hs vMatch 0 pos [vMatch ! pos] [hs ! pos]"
proof -
  have l: "leaves_below (length hs) 0 pos = [pos]" using assms(3) by (simp add: leaves_below_def)
  have "any_match vMatch [pos] = Some (vMatch ! pos)" using assms(2,3) by (simp add: any_match_def)
  moreover have "\<exists>k p. p < length (tree_level Hash hs k) \<and> hs ! pos = tree_level Hash hs k ! p"
    using assms(3) by (intro exI [of _ 0] exI [of _ pos]) simp
  ultimately show "built Hash hs vMatch 0 pos [vMatch ! pos] [hs ! pos]"
    using assms l by (simp add: built_def unat_word_of_nat leaves_below_def)
  show "reads_back Hash hs vMatch 0 pos [vMatch ! pos] [hs ! pos]"
    using l reads_back_hash [where h = 0] by (auto simp: reads_back_def Let_def simp del: TraverseAndExtract.simps)
qed

lemma built_pruned:
  assumes "length hs < 2 ^ 31" "length vMatch = length hs" "pos < length (tree_level Hash hs (Suc h))" "Suc h < 32"
    and "filter (\<lambda>p. vMatch ! p) (leaves_below (length hs) (Suc h) pos) = []"
  shows "built Hash hs vMatch (Suc h) pos [False] [tree_level Hash hs (Suc h) ! pos]"
    "reads_back Hash hs vMatch (Suc h) pos [False] [tree_level Hash hs (Suc h) ! pos]"
proof -
  let ?n = "length hs"
  have u: "unat (word_of_nat ?n :: u32) = ?n" using assms(1) by (simp add: unat_word_of_nat)
  have ne: "0 < length (leaves_below ?n (Suc h) pos)" using assms(3) by (intro leaves_below_nonempty) (simp only: pos_lt_level)
  have "any_match vMatch (leaves_below ?n (Suc h) pos) = Some False" using any_match_below [OF assms(2), of "Suc h" pos] assms(5) by simp
  then show "built Hash hs vMatch (Suc h) pos [False] [tree_level Hash hs (Suc h) ! pos]"
    using CalcHash_level [OF assms(1,4,3)] ne u
      assms(3) by (auto simp: built_def leaves_below_def Suc_le_eq simp del: CalcHash.simps power_Suc mult_Suc upt_Suc)
  show "reads_back Hash hs vMatch (Suc h) pos [False] [tree_level Hash hs (Suc h) ! pos]"
    using reads_back_hash [where h = "Suc h" and b = False] assms(5) by (auto simp: reads_back_def Let_def simp del: TraverseAndExtract.simps)
qed

lemma built_node:
  assumes "length hs < 2 ^ 31" "length vMatch = length hs" "pos < length (tree_level Hash hs (Suc h))" "Suc h < 32"
    and "filter (\<lambda>p. vMatch ! p) (leaves_below (length hs) (Suc h) pos) \<noteq> []"
    and "built Hash hs vMatch h (pos * 2) b1 h1"
    and "if pos * 2 + 1 < length (tree_level Hash hs h) then built Hash hs vMatch h (pos * 2 + 1) b2 h2 else b2 = [] \<and> h2 = []"
  shows "built Hash hs vMatch (Suc h) pos (True # b1 @ b2) (h1 @ h2)"
proof -
  let ?n = "length hs" and ?right = "pos * 2 + 1 < length (tree_level Hash hs h)"
  have u: "unat (word_of_nat ?n :: u32) = ?n" using assms(1) by (simp add: unat_word_of_nat)
  have w: "CalcTreeWidth (word_of_nat ?n) h = length (tree_level Hash hs h)" using CalcTreeWidth_level [OF assms(1)] assms(4) by simp
  have r: "?right \<longleftrightarrow> (pos * 2 + 1) * 2 ^ h < ?n" by (rule pos_lt_level)
  have p: "pos * 2 ^ Suc h < ?n" using assms(3) by (simp only: pos_lt_level)
  note split = leaves_below_split [OF p]
  have m: "any_match vMatch (leaves_below ?n (Suc h) pos) = Some True" using any_match_below [OF assms(2), of "Suc h" pos] assms(5) by simp
  have "TraverseAndBuild Hash hs vMatch (Suc h) pos t = Some (t\<lparr>vBits := vBits t @ True # b1 @ b2, vHash := vHash t @ h1 @ h2\<rparr>)"
    if "nTransactions t = word_of_nat ?n" for t
  proof (cases ?right)
    case True
    then show ?thesis using m that u w assms(6,7) by (simp add: built_def leaves_below_def del: power_Suc mult_Suc upt_Suc)
  next
    case False
    then show ?thesis using m that u w assms(6,7) by (simp add: built_def leaves_below_def del: power_Suc mult_Suc upt_Suc)
  qed
  moreover have "length (h1 @ h2) \<le> length (leaves_below ?n (Suc h) pos) \<and> length (h1 @ h2) \<le> length (True # b1 @ b2)"
    using assms(6,7) split r by (auto simp: built_def split: if_splits)
  moreover have "length (True # b1 @ b2) \<le> (Suc h + 1) * length (leaves_below ?n (Suc h) pos)"
  proof -
    have "length b1 + length b2 \<le> (h + 1) * length (leaves_below ?n (Suc h) pos)"
      using assms(6,7) split r by (auto simp: built_def algebra_simps split: if_splits)
    moreover have "0 < length (leaves_below ?n (Suc h) pos)" using p by (rule leaves_below_nonempty)
    moreover have "(Suc h + 1) * k = k + (h + 1) * k" for k by simp
    ultimately show ?thesis by (simp only: length_Cons length_append)
  qed
  moreover have "\<exists>k p. p < length (tree_level Hash hs k) \<and> x = tree_level Hash hs k ! p" if "x \<in> set (h1 @ h2)" for x
    using that assms(6,7) by (auto simp: built_def split: if_splits)
  ultimately show ?thesis unfolding built_def by blast
qed

lemma reads_back_node:
  assumes "length hs < 2 ^ 31" "pos < length (tree_level Hash hs (Suc h))" "Suc h < 32" "\<not> equal_pair (tree_level Hash hs h)"
    and "reads_back Hash hs vMatch h (pos * 2) b1 h1"
    and "if pos * 2 + 1 < length (tree_level Hash hs h) then reads_back Hash hs vMatch h (pos * 2 + 1) b2 h2 else b2 = [] \<and> h2 = []"
  shows "reads_back Hash hs vMatch (Suc h) pos (True # b1 @ b2) (h1 @ h2)"
proof -
  let ?n = "length hs" and ?right = "pos * 2 + 1 < length (tree_level Hash hs h)"
  let ?ps = "\<lambda>h pos. filter (\<lambda>p. vMatch ! p) (leaves_below ?n h pos)" and ?l = "tree_level Hash hs h"
  have w: "CalcTreeWidth (word_of_nat ?n) h = length ?l" using CalcTreeWidth_level [OF assms(1)] assms(3) by simp
  have r: "?right \<longleftrightarrow> (pos * 2 + 1) * 2 ^ h < ?n" by (rule pos_lt_level)
  have p: "pos * 2 ^ Suc h < ?n" using assms(2) by (simp only: pos_lt_level)
  note split = leaves_below_split [OF p]
  have v: "tree_level Hash hs (Suc h) ! pos = Hash (?l ! (pos * 2) @ (if ?right then ?l ! (pos * 2 + 1) else ?l ! (pos * 2)))"
    using nth_tree_level_Suc [OF assms(2)] by (simp add: Let_def)
  have "TraverseAndExtract Hash T (Suc h) pos st =
      (tree_level Hash hs (Suc h) ! pos, advance st (length (True # b1 @ b2)) (length (h1 @ h2)) (map ((!) hs) (?ps (Suc h) pos)) (?ps (Suc h) pos))"
    if t: "nTransactions T = word_of_nat ?n" "drop (nBitsUsed st) (vBits T) = (True # b1 @ b2) @ rb" "drop (nHashUsed st) (vHash T) = (h1 @ h2) @ rh" for T st rb rh
  proof -
    let ?st1 = "advance st 1 0 [] []"
    let ?st2 = "advance ?st1 (length b1) (length h1) (map ((!) hs) (?ps h (pos * 2))) (?ps h (pos * 2))"
    have d: "nBitsUsed st < length (vBits T)" "vBits T ! nBitsUsed st" "drop (Suc (nBitsUsed st)) (vBits T) = b1 @ b2 @ rb"
      using drop_Cons_nth [of "nBitsUsed st" "vBits T" True "b1 @ b2 @ rb"] t(2) by simp_all
    have l: "TraverseAndExtract Hash T h (pos * 2) ?st1 = (?l ! (pos * 2), ?st2)"
      using assms(5) d t(1,3) by (simp add: reads_back_def Let_def)
    have d2: "drop (nBitsUsed ?st2) (vBits T) = b2 @ rb" "drop (nHashUsed ?st2) (vHash T) = h2 @ rh"
    proof -
      have "drop (nBitsUsed ?st2) (vBits T) = drop (length b1) (drop (Suc (nBitsUsed st)) (vBits T))" by (simp add: add.commute)
      then show "drop (nBitsUsed ?st2) (vBits T) = b2 @ rb" using d(3) by simp
      have "drop (nHashUsed ?st2) (vHash T) = drop (length h1) (drop (nHashUsed st) (vHash T))" by (simp add: add.commute)
      then show "drop (nHashUsed ?st2) (vHash T) = h2 @ rh" using t(3) by simp
    qed
    show ?thesis
    proof (cases ?right)
      case True
      let ?st3 = "advance ?st2 (length b2) (length h2) (map ((!) hs) (?ps h (pos * 2 + 1))) (?ps h (pos * 2 + 1))"
      have "TraverseAndExtract Hash T h (pos * 2 + 1) ?st2 = (?l ! (pos * 2 + 1), ?st3)"
        using assms(6) True d2 t(1) by (simp add: reads_back_def Let_def)
      moreover have "?l ! (pos * 2 + 1) \<noteq> ?l ! (pos * 2)" using assms(4) True by (auto simp: equal_pair_iff mult.commute)
      ultimately show ?thesis using True d l t(1) w v r split by (simp add: advance_bit advance_advance Let_def)
    next
      case False
      then show ?thesis using assms(6) d l t(1) w v r split by (simp add: advance_bit advance_advance Let_def)
    qed
  qed
  then show ?thesis unfolding reads_back_def Let_def by blast
qed

lemma build_and_extract:
  assumes "length hs < 2 ^ 31" "length vMatch = length hs" "h < 32" "pos < length (tree_level Hash hs h)"
    and "\<forall>k < h. \<not> equal_pair (tree_level Hash hs k)"
  shows "\<exists>bs hh. built Hash hs vMatch h pos bs hh \<and> reads_back Hash hs vMatch h pos bs hh"
  using assms(3-5)
proof (induction h arbitrary: pos)
  case 0
  then show ?case using built_leaf [OF assms(1,2), of pos Hash] by auto
next
  case (Suc h)
  show ?case
  proof (cases "filter (\<lambda>p. vMatch ! p) (leaves_below (length hs) (Suc h) pos) = []")
    case True
    then show ?thesis using built_pruned [OF assms(1,2) Suc.prems(2,1)] by blast
  next
    case False
    let ?right = "pos * 2 + 1 < length (tree_level Hash hs h)"
    have "pos < (length (tree_level Hash hs h) + 1) div 2" using Suc.prems(2) by (simp add: length_tree_level_Suc)
    then have p: "pos * 2 < length (tree_level Hash hs h)" by linarith
    have ih: "\<exists>bs hh. built Hash hs vMatch h q bs hh \<and> reads_back Hash hs vMatch h q bs hh" if "q < length (tree_level Hash hs h)" for q
      using Suc.IH [OF _ that] Suc.prems by simp
    obtain b1 h1 where l: "built Hash hs vMatch h (pos * 2) b1 h1" "reads_back Hash hs vMatch h (pos * 2) b1 h1" using ih [OF p] by blast
    obtain b2 h2 where r: "if ?right then built Hash hs vMatch h (pos * 2 + 1) b2 h2 \<and> reads_back Hash hs vMatch h (pos * 2 + 1) b2 h2 else b2 = [] \<and> h2 = []"
      using ih [of "pos * 2 + 1"] by (cases ?right) auto
    have e: "\<not> equal_pair (tree_level Hash hs h)" using Suc.prems(3) by simp
    have "built Hash hs vMatch (Suc h) pos (True # b1 @ b2) (h1 @ h2)"
      by (rule built_node [OF assms(1,2) Suc.prems(2,1) False l(1)]) (use r in \<open>auto split: if_splits\<close>)
    moreover have "reads_back Hash hs vMatch (Suc h) pos (True # b1 @ b2) (h1 @ h2)"
      by (rule reads_back_node [OF assms(1) Suc.prems(2,1) e l(2)]) (use r in \<open>auto split: if_splits\<close>)
    ultimately show ?thesis by blast
  qed
qed

subsection \<open>Flag bits on the wire\<close>

lemma BitsToBytes_bit:
  fixes bs :: "bool list"
  defines "step \<equiv> \<lambda>ret p. ret[p div 8 := ret ! (p div 8) OR push_bit (p mod 8) (of_bool (bs ! p))]"
  assumes "k \<le> length bs" "r < 8" "q < (length bs + 7) div 8"
  shows "length (foldl step (replicate ((length bs + 7) div 8) (0 :: u8)) [0..<k]) = (length bs + 7) div 8 \<and>
    (bit (foldl step (replicate ((length bs + 7) div 8) (0 :: u8)) [0..<k] ! q) r \<longleftrightarrow> q * 8 + r < k \<and> bs ! (q * 8 + r))"
  using assms(2)
proof (induction k)
  case 0
  then show ?case using assms(4) by simp
next
  case (Suc k)
  let ?f = "foldl step (replicate ((length bs + 7) div 8) 0) [0..<k]"
  have ih: "length ?f = (length bs + 7) div 8" "bit (?f ! q) r \<longleftrightarrow> q * 8 + r < k \<and> bs ! (q * 8 + r)" using Suc by simp_all
  have "k div 8 < (length bs + 7) div 8" using Suc.prems by linarith
  show ?case
  proof (cases "k div 8 = q")
    case True
    have "bit (push_bit (k mod 8) (of_bool (bs ! k)) :: u8) r \<longleftrightarrow> r = k mod 8 \<and> bs ! k"
      using assms(3) by (auto simp: bit_push_bit_iff bit_of_bool_iff)
    moreover have "q * 8 + r = k \<longleftrightarrow> r = k mod 8" using True div_mult_mod_eq [of k 8] by linarith
    then have "q * 8 + r < Suc k \<longleftrightarrow> q * 8 + r < k \<or> r = k mod 8" "r = k mod 8 \<Longrightarrow> q * 8 + r = k"
      by (auto simp: less_Suc_eq)
    ultimately show ?thesis using ih True assms(4) unfolding step_def
      by (auto simp: bit_or_iff less_Suc_eq)
  next
    case False
    moreover have "q * 8 + r \<noteq> k" using False assms(3) by auto
    ultimately show ?thesis using ih unfolding step_def by (auto simp: less_Suc_eq)
  qed
qed

lemma length_BitsToBytes: "length (BitsToBytes bs) = (length bs + 7) div 8"
proof (cases bs)
  case (Cons b bs')
  then show ?thesis using BitsToBytes_bit [of "length bs" bs 0 0] by (simp add: BitsToBytes_def)
qed (simp add: BitsToBytes_def)

lemma BytesToBits_BitsToBytes:
  "BytesToBits (BitsToBytes bs) = bs @ replicate ((length bs + 7) div 8 * 8 - length bs) False"
proof (rule nth_equalityI)
  show "length (BytesToBits (BitsToBytes bs)) = length (bs @ replicate ((length bs + 7) div 8 * 8 - length bs) False)"
    by (simp add: BytesToBits_def length_BitsToBytes)
  fix p
  assume "p < length (BytesToBits (BitsToBytes bs))"
  then have p: "p < (length bs + 7) div 8 * 8" by (simp add: BytesToBits_def length_BitsToBytes)
  have "BytesToBits (BitsToBytes bs) ! p \<longleftrightarrow> bit (BitsToBytes bs ! (p div 8)) (p mod 8)"
    using p by (simp add: BytesToBits_def length_BitsToBytes and_exp_eq_0_iff_not_bit push_bit_of_1)
  also have "\<dots> \<longleftrightarrow> p < length bs \<and> bs ! p"
    using BitsToBytes_bit [of "length bs" bs "p mod 8" "p div 8"] p by (simp add: BitsToBytes_def less_mult_imp_div_less mult.commute)
  finally show "BytesToBits (BitsToBytes bs) ! p = (bs @ replicate ((length bs + 7) div 8 * 8 - length bs) False) ! p"
    using p by (auto simp: nth_append)
qed

interpretation codec_hashes: codec "VectorFormatter_ser ser_uint256" "VectorFormatter_unser unser_uint256 (batch_of 32)" "vector_ok uint256_ok"
  by (rule codec_vector [OF codec_uint256.codec_axioms]) (simp add: batch_of_def)

text \<open>Reading a written tree appends the padding of the last byte to its bits.\<close>

definition padded :: "CPartialMerkleTree \<Rightarrow> CPartialMerkleTree" where
  "padded t = t\<lparr>vBits := vBits t @ replicate ((length (vBits t) + 7) div 8 * 8 - length (vBits t)) False, fBad := False\<rparr>"

lemma unser_ser_tree:
  assumes "vector_ok uint256_ok (vHash t)" "blob_ok (BitsToBytes (vBits t))"
  shows "unser_CPartialMerkleTree (ser_CPartialMerkleTree t @ s) = Inr (padded t, s)"
  using assms
  by (simp add: unser_CPartialMerkleTree_def ser_CPartialMerkleTree_def codec32.unser_ser codec_hashes.unser_ser byte_vector.unser_ser
      BytesToBits_BitsToBytes padded_def)

subsection \<open>Binding\<close>

text \<open>The messages hashed to compute a level from the one below it, and all those of a tree.\<close>

definition node_pair :: "uint256 list \<Rightarrow> nat \<Rightarrow> bytes" where
  "node_pair l p = l ! (p * 2) @ (if p * 2 + 1 < length l then l ! (p * 2 + 1) else l ! (p * 2))"

definition merkle_inputs :: "(bytes \<Rightarrow> uint256) \<Rightarrow> uint256 list \<Rightarrow> bytes list" where
  "merkle_inputs Hash hs =
     concat (map (\<lambda>h. map (node_pair (tree_level Hash hs h)) [0..<length (tree_level Hash hs (Suc h))]) [0..<tree_height (word_of_nat (length hs)) 0])"

definition collision :: "(bytes \<Rightarrow> uint256) \<Rightarrow> bytes list \<Rightarrow> bytes list \<Rightarrow> bool" where
  "collision Hash xs ys \<longleftrightarrow> (\<exists>x \<in> set xs. \<exists>y \<in> set ys. x \<noteq> y \<and> Hash x = Hash y)"

lemma merkle_inputs_iff:
  "x \<in> set (merkle_inputs Hash hs) \<longleftrightarrow>
     (\<exists>h p. h < tree_height (word_of_nat (length hs)) 0 \<and> p < length (tree_level Hash hs (Suc h)) \<and> x = node_pair (tree_level Hash hs h) p)"
  unfolding merkle_inputs_def set_concat set_map set_upt image_image UN_iff by (auto 4 4)

lemma nth_level_pair: "p < length (tree_level Hash hs (Suc h)) \<Longrightarrow> tree_level Hash hs (Suc h) ! p = Hash (node_pair (tree_level Hash hs h) p)"
  by (simp add: nth_tree_level_Suc node_pair_def Let_def)

lemma tree_level_lengths:
  assumes "\<forall>b. length (Hash b) = 32" "\<forall>x \<in> set hs. length x = 32" "p < length (tree_level Hash hs h)"
  shows "length (tree_level Hash hs h ! p) = 32"
proof (cases h)
  case 0
  then show ?thesis using assms(2,3) by simp
next
  case (Suc k)
  then show ?thesis using assms(1,3) by (simp add: nth_level_pair)
qed

lemma same_pairs:
  assumes "(length xs + 1) div 2 = (length ys + 1) div 2" "\<And>p. p < (length xs + 1) div 2 \<Longrightarrow> node_pair xs p = node_pair ys p"
    and "\<And>p. p < length xs \<Longrightarrow> length (xs ! p) = k" "\<And>p. p < length ys \<Longrightarrow> length (ys ! p) = k"
    and "length xs \<le> length ys" "\<not> equal_pair ys"
  shows "xs = ys"
proof -
  have e: "xs ! (p * 2) = ys ! (p * 2) \<and>
      (if p * 2 + 1 < length xs then xs ! (p * 2 + 1) else xs ! (p * 2)) = (if p * 2 + 1 < length ys then ys ! (p * 2 + 1) else ys ! (p * 2))"
    if p: "p < (length xs + 1) div 2" for p
  proof -
    have "p * 2 < length xs" "p * 2 < length ys" using p assms(1) by linarith+
    then show ?thesis using assms(2) [OF p] assms(3,4) by (simp add: node_pair_def)
  qed
  have l: "length xs = length ys"
  proof (rule ccontr)
    assume "length xs \<noteq> length ys"
    then have d: "length ys = length xs + 1" "odd (length xs)" using assms(1,5) by presburger+
    obtain m where "length xs = 2 * m + 1" using d(2) by (rule oddE)
    then have m: "length xs = m * 2 + 1" "length ys = m * 2 + 2" using d(1) by simp_all
    then have "ys ! (m * 2) = ys ! (m * 2 + 1)" using e [of m] by auto
    then show False using assms(6) m by (auto simp: equal_pair_iff mult.commute)
  qed
  show ?thesis
  proof (rule nth_equalityI [OF l])
    fix i
    assume i: "i < length xs"
    then have "i div 2 < (length xs + 1) div 2" by linarith
    note e = e [OF this]
    show "xs ! i = ys ! i"
    proof (cases "even i")
      case True
      then show ?thesis using e by simp
    next
      case False
      then have "i div 2 * 2 + 1 = i" by presburger
      then show ?thesis using e i l by simp
    qed
  qed
qed

lemma same_next_level:
  assumes "\<forall>b. length (Hash b) = 32" "\<forall>x \<in> set xs. length x = 32" "\<forall>x \<in> set ys. length x = 32"
    and "tree_level Hash xs (Suc h) = tree_level Hash ys (Suc h)"
    and "\<not> equal_pair (tree_level Hash xs h)" "\<not> equal_pair (tree_level Hash ys h)"
    and "\<And>p. p < length (tree_level Hash xs (Suc h)) \<Longrightarrow> Hash (node_pair (tree_level Hash xs h) p) = Hash (node_pair (tree_level Hash ys h) p) \<Longrightarrow>
      node_pair (tree_level Hash xs h) p = node_pair (tree_level Hash ys h) p"
  shows "tree_level Hash xs h = tree_level Hash ys h"
proof -
  let ?x = "tree_level Hash xs h" and ?y = "tree_level Hash ys h"
  have l: "(length ?x + 1) div 2 = (length ?y + 1) div 2" using arg_cong [OF assms(4), of length] by (simp add: length_tree_level_Suc)
  have p: "node_pair ?x p = node_pair ?y p" if "p < (length ?x + 1) div 2" for p
  proof -
    have q: "p < length (tree_level Hash xs (Suc h))" "p < length (tree_level Hash ys (Suc h))" using that l by (simp_all add: length_tree_level_Suc)
    then have "Hash (node_pair ?x p) = Hash (node_pair ?y p)" using nth_level_pair [OF q(1)] nth_level_pair [OF q(2)] assms(4) by simp
    then show ?thesis using assms(7) [OF q(1)] by blast
  qed
  note len = tree_level_lengths [OF assms(1,2)] tree_level_lengths [OF assms(1,3)]
  show ?thesis
  proof (cases "length ?x \<le> length ?y")
    case True
    then show ?thesis using same_pairs [OF l p len True assms(6)] by simp
  next
    case False
    then have "length ?y \<le> length ?x" by simp
    then show ?thesis using same_pairs [OF l [symmetric] _ len(2,1) _ assms(5)] p l by simp
  qed
qed

lemma binding_levels:
  assumes "\<forall>b. length (Hash b) = 32" "\<forall>x \<in> set xs. length x = 32" "\<forall>x \<in> set ys. length x = 32"
    and "\<forall>h < H. \<not> equal_pair (tree_level Hash xs h)" "\<forall>h < H. \<not> equal_pair (tree_level Hash ys h)"
    and "\<And>h p. h < H \<Longrightarrow> p < length (tree_level Hash xs (Suc h)) \<Longrightarrow> p < length (tree_level Hash ys (Suc h)) \<Longrightarrow>
      Hash (node_pair (tree_level Hash xs h) p) = Hash (node_pair (tree_level Hash ys h) p) \<Longrightarrow>
      node_pair (tree_level Hash xs h) p = node_pair (tree_level Hash ys h) p"
    and "tree_level Hash xs H = tree_level Hash ys H"
  shows "k \<le> H \<Longrightarrow> tree_level Hash xs (H - k) = tree_level Hash ys (H - k)"
proof (induction k)
  case 0
  then show ?case using assms(7) by simp
next
  case (Suc k)
  then have s: "H - k = Suc (H - Suc k)" "H - Suc k < H" by simp_all
  have e: "tree_level Hash xs (Suc (H - Suc k)) = tree_level Hash ys (Suc (H - Suc k))" using Suc s(1) by simp
  show ?case
    by (rule same_next_level [OF assms(1-3) e]) (use assms(4-6) s(2) e in auto)
qed

subsection \<open>Soundness of extraction\<close>

text \<open>The messages hashed by an extraction.\<close>

fun extract_inputs :: "(bytes \<Rightarrow> uint256) \<Rightarrow> CPartialMerkleTree \<Rightarrow> nat \<Rightarrow> nat \<Rightarrow> extract_state \<Rightarrow> bytes list" where
  "extract_inputs Hash t 0 pos st = []"
| "extract_inputs Hash t (Suc height) pos st =
     (if nBitsUsed st \<ge> length (vBits t) \<or> \<not> vBits t ! nBitsUsed st then []
      else let st = st\<lparr>nBitsUsed := nBitsUsed st + 1\<rparr>; (left, st1) = TraverseAndExtract Hash t height (pos * 2) st
           in if pos * 2 + 1 < CalcTreeWidth (nTransactions t) height
              then let (right, st2) = TraverseAndExtract Hash t height (pos * 2 + 1) st1
                   in (left @ right) # extract_inputs Hash t height (pos * 2) st @ extract_inputs Hash t height (pos * 2 + 1) st1
              else (left @ left) # extract_inputs Hash t height (pos * 2) st)"

lemma length_uint256_null: "length uint256_null = 32"
  by (simp add: uint256_null_def)

lemma length_extract:
  assumes "\<forall>b. length (Hash b) = 32" "\<forall>x \<in> set (vHash t). length x = 32"
  shows "length (fst (TraverseAndExtract Hash t h pos st)) = 32"
  using assms
  by (cases h) (auto simp: take_hash_def Let_def length_uint256_null split: prod.split)

lemma extract_bad_mono: "ex_fBad st \<Longrightarrow> ex_fBad (snd (TraverseAndExtract Hash t h pos st))"
proof (induction h arbitrary: pos st)
  case 0
  then show ?case by (simp add: take_hash_def Let_def)
next
  case (Suc h)
  let ?st = "st\<lparr>nBitsUsed := nBitsUsed st + 1\<rparr>"
  have "ex_fBad (snd (TraverseAndExtract Hash t h (pos * 2) ?st))" using Suc by simp
  moreover from this have "ex_fBad (snd (TraverseAndExtract Hash t h (pos * 2 + 1) (snd (TraverseAndExtract Hash t h (pos * 2) ?st))))" by (rule Suc.IH)
  ultimately show ?case using Suc.prems by (simp add: take_hash_def Let_def split_beta)
qed

lemma append_eq_32: "length a = (32::nat) \<Longrightarrow> length c = 32 \<Longrightarrow> a @ b = c @ d \<longleftrightarrow> a = c \<and> b = d"
  by simp

definition no_clash :: "(bytes \<Rightarrow> uint256) \<Rightarrow> uint256 list \<Rightarrow> nat \<Rightarrow> bytes list \<Rightarrow> bool" where
  "no_clash Hash hs h ys \<longleftrightarrow> (\<forall>k < h. \<forall>p < length (tree_level Hash hs (Suc k)). \<forall>y \<in> set ys.
     Hash (node_pair (tree_level Hash hs k) p) = Hash y \<longrightarrow> node_pair (tree_level Hash hs k) p = y)"

lemma no_clash_mono: "no_clash Hash hs (Suc h) ys \<Longrightarrow> set xs \<subseteq> set ys \<Longrightarrow> no_clash Hash hs h xs"
  unfolding no_clash_def by (meson less_SucI subsetD)

lemma no_clashD:
  "no_clash Hash hs (Suc h) ys \<Longrightarrow> y \<in> set ys \<Longrightarrow> p < length (tree_level Hash hs (Suc h)) \<Longrightarrow> Hash y = Hash (node_pair (tree_level Hash hs h) p) \<Longrightarrow>
   node_pair (tree_level Hash hs h) p = y"
  unfolding no_clash_def by (metis lessI)

lemma extract_sound:
  assumes hs: "length hs < 2 ^ 31" "\<forall>b. length (Hash b) = 32" "\<forall>x \<in> set hs. length x = 32" "\<forall>x \<in> set (vHash t). length x = 32"
    and n: "nTransactions t = word_of_nat (length hs)"
  shows "h < 32 \<Longrightarrow> pos < length (tree_level Hash hs h) \<Longrightarrow> TraverseAndExtract Hash t h pos st = (tree_level Hash hs h ! pos, st') \<Longrightarrow> \<not> ex_fBad st' \<Longrightarrow>
    no_clash Hash hs h (extract_inputs Hash t h pos st) \<Longrightarrow>
    \<exists>ps. vnIndex st' = vnIndex st @ ps \<and> ex_vMatch st' = ex_vMatch st @ map ((!) hs) ps \<and> (\<forall>p \<in> set ps. p < length hs)"
proof (induction h arbitrary: pos st st')
  case 0
  then have "pos < length hs" by simp
  then show ?case using 0(3,4) by (cases "vBits t ! nBitsUsed st") (auto simp: take_hash_def Let_def split: if_splits)
next
  case (Suc h)
  let ?l = "tree_level Hash hs h" and ?st = "st\<lparr>nBitsUsed := nBitsUsed st + 1\<rparr>"
  have w: "CalcTreeWidth (nTransactions t) h = length ?l" using CalcTreeWidth_level [OF hs(1)] Suc.prems(1) n by simp
  have p: "pos * 2 < length ?l" using Suc.prems(2) unfolding length_tree_level_Suc by linarith
  have v: "tree_level Hash hs (Suc h) ! pos = Hash (node_pair ?l pos)" by (rule nth_level_pair [OF Suc.prems(2)])
  have b: "nBitsUsed st < length (vBits t)" using Suc.prems(3,4) by (auto split: if_splits)
  show ?case
  proof (cases "vBits t ! nBitsUsed st")
    case False
    then show ?thesis using Suc.prems(3,4) b by (auto simp: take_hash_def Let_def split: if_splits)
  next
    case True
    obtain left st1 where l: "TraverseAndExtract Hash t h (pos * 2) ?st = (left, st1)" by (cases "TraverseAndExtract Hash t h (pos * 2) ?st")
    have l32: "length left = 32" using length_extract [OF hs(2,4), of h "pos * 2" ?st] l by simp
    have n32: "length (?l ! (pos * 2)) = 32" by (rule tree_level_lengths [OF hs(2,3) p])
    show ?thesis
    proof (cases "pos * 2 + 1 < length ?l")
      case right: True
      obtain r st2 where r: "TraverseAndExtract Hash t h (pos * 2 + 1) st1 = (r, st2)" by (cases "TraverseAndExtract Hash t h (pos * 2 + 1) st1")
      have res: "st' = st2" "\<not> ex_fBad st2" "Hash (left @ r) = Hash (node_pair ?l pos)"
        using Suc.prems(3,4) b True right l r w v by (auto simp: Let_def split: if_splits)
      have "left @ r \<in> set (extract_inputs Hash t (Suc h) pos st)" using b True right l r w by (simp add: Let_def)
      then have "node_pair ?l pos = left @ r" using no_clashD [OF Suc.prems(5) _ Suc.prems(2) res(3)] by blast
      then have e: "left = ?l ! (pos * 2)" "r = ?l ! (pos * 2 + 1)" using right l32 n32 by (auto simp: node_pair_def)
      have b1: "\<not> ex_fBad st1" using extract_bad_mono [of st1 Hash t h "pos * 2 + 1"] r res(2) by auto
      have in1: "set (extract_inputs Hash t h (pos * 2) ?st) \<subseteq> set (extract_inputs Hash t (Suc h) pos st)"
        "set (extract_inputs Hash t h (pos * 2 + 1) st1) \<subseteq> set (extract_inputs Hash t (Suc h) pos st)"
        using b True right l r w by (auto simp: Let_def)
      obtain ps1 where ps1: "vnIndex st1 = vnIndex st @ ps1" "ex_vMatch st1 = ex_vMatch st @ map ((!) hs) ps1" "\<forall>p \<in> set ps1. p < length hs"
        using Suc.IH [OF _ p l [unfolded e] b1 no_clash_mono [OF Suc.prems(5) in1(1)]] Suc.prems(1) by auto
      obtain ps2 where ps2: "vnIndex st2 = vnIndex st1 @ ps2" "ex_vMatch st2 = ex_vMatch st1 @ map ((!) hs) ps2" "\<forall>p \<in> set ps2. p < length hs"
        using Suc.IH [OF _ right r [unfolded e] res(2) no_clash_mono [OF Suc.prems(5) in1(2)]] Suc.prems(1) by auto
      show ?thesis using ps1 ps2 res(1) by (intro exI [of _ "ps1 @ ps2"]) auto
    next
      case right: False
      have res: "st' = st1" "\<not> ex_fBad st1" "Hash (left @ left) = Hash (node_pair ?l pos)"
        using Suc.prems(3,4) b True right l w v by (auto simp: Let_def split: if_splits)
      have "left @ left \<in> set (extract_inputs Hash t (Suc h) pos st)" using b True right l w by (simp add: Let_def)
      then have "node_pair ?l pos = left @ left" using no_clashD [OF Suc.prems(5) _ Suc.prems(2) res(3)] by blast
      then have e: "left = ?l ! (pos * 2)" using right l32 n32 by (auto simp: node_pair_def)
      have in1: "set (extract_inputs Hash t h (pos * 2) ?st) \<subseteq> set (extract_inputs Hash t (Suc h) pos st)"
        using b True right l w by (auto simp: Let_def)
      show ?thesis using Suc.IH [OF _ p l [unfolded e] res(2) no_clash_mono [OF Suc.prems(5) in1]] Suc.prems(1) res(1) by auto
    qed
  qed
qed

subsection \<open>Properties\<close>

text \<open>
  C12: a Merkle root binds the transactions. Two lists of leaves whose trees have the same height, which are both not reported as
  mutated and have the same root, are equal, unless two different messages hashed on the way to the roots have
  the same hash. So every change of the transactions that keeps root and height is detected, the duplication of
  trailing transactions included.
\<close>

theorem merkle_root_binding:
  assumes "xs \<noteq> []" "ys \<noteq> []" "length xs < 2 ^ 31" "length ys < 2 ^ 31" "\<forall>x \<in> set xs. length x = 32" "\<forall>x \<in> set ys. length x = 32"
    and "\<forall>b. length (Hash b) = 32" "tree_height (word_of_nat (length xs)) 0 = tree_height (word_of_nat (length ys)) 0"
    and "ComputeMerkleRoot Hash xs True = (root, False)" "ComputeMerkleRoot Hash ys True = (root, False)"
  shows "xs = ys \<or> collision Hash (merkle_inputs Hash xs) (merkle_inputs Hash ys)"
proof (rule disjCI)
  assume no: "\<not> collision Hash (merkle_inputs Hash xs) (merkle_inputs Hash ys)"
  define H where "H = tree_height (word_of_nat (length xs)) 0"
  have Hy: "H = tree_height (word_of_nat (length ys)) 0" using assms(8) by (simp add: H_def)
  have x: "tree_level Hash xs H ! 0 = root" "\<forall>h < H. \<not> equal_pair (tree_level Hash xs h)" "length (tree_level Hash xs H) = 1"
    using ComputeMerkleRoot_levels [OF assms(3,1), of Hash True] tree_height_levels(3) [OF assms(3,1)] assms(9) by (auto simp: H_def)
  have y: "tree_level Hash ys H ! 0 = root" "\<forall>h < H. \<not> equal_pair (tree_level Hash ys h)" "length (tree_level Hash ys H) = 1"
    using ComputeMerkleRoot_levels [OF assms(4,2), of Hash True] tree_height_levels(3) [OF assms(4,2)] assms(10) by (auto simp: Hy)
  have top: "tree_level Hash xs H = tree_level Hash ys H" using x(1,3) y(1,3) by (intro nth_equalityI) auto
  have inj: "node_pair (tree_level Hash xs h) p = node_pair (tree_level Hash ys h) p"
    if "h < H" "p < length (tree_level Hash xs (Suc h))" "p < length (tree_level Hash ys (Suc h))"
      "Hash (node_pair (tree_level Hash xs h) p) = Hash (node_pair (tree_level Hash ys h) p)" for h p
  proof -
    have "node_pair (tree_level Hash xs h) p \<in> set (merkle_inputs Hash xs)" "node_pair (tree_level Hash ys h) p \<in> set (merkle_inputs Hash ys)"
      using that(1-3) by (auto simp: merkle_inputs_iff H_def [symmetric] Hy [symmetric])
    then show ?thesis using no that(4) unfolding collision_def by blast
  qed
  have "tree_level Hash xs (H - H) = tree_level Hash ys (H - H)"
    by (rule binding_levels [where H = H, OF assms(7,5,6) x(2) y(2) _ top]) (rule inj, simp_all)
  then show "xs = ys" by simp
qed

lemma sample_tree_height: "tree_height 2 0 = 1"
  by code_simp

theorem merkle_root_binding_witness:
  "collision (\<lambda>_. replicate 32 7) (merkle_inputs (\<lambda>_. replicate 32 7) [replicate 32 1, replicate 32 2])
     (merkle_inputs (\<lambda>_. replicate 32 7) [replicate 32 1, replicate 32 3])"
proof -
  have "ComputeMerkleRoot (\<lambda>_. replicate 32 7) [replicate 32 1, replicate 32 2] True = (replicate 32 7, False)"
    "ComputeMerkleRoot (\<lambda>_. replicate 32 7) [replicate 32 1, replicate 32 3] True = (replicate 32 7, False)"
    by (simp_all add: ComputeMerkleRoot_def merkle_loop.simps pad_odd_def replicate_eq_replicate)
  then show ?thesis
    using merkle_root_binding [of "[replicate 32 1, replicate 32 2]" "[replicate 32 1, replicate 32 3]" "\<lambda>_. replicate 32 7" "replicate 32 7"]
    by (simp add: replicate_eq_replicate)
qed

text \<open>
  C13: partial trees prove what they were built for. For every selection of the transactions of an unmutated block of a size that
  fits the weight limit, the partial tree is built, and a client that reads it from the wire and extracts it obtains the
  root of the block, exactly the selected transactions in order, and their positions.
\<close>

theorem partial_tree_roundtrip:
  assumes "length vMatch = length txids" "0 < length txids" "length txids \<le> MAX_BLOCK_WEIGHT div MIN_TRANSACTION_WEIGHT"
    and "\<forall>x \<in> set txids. length x = 32" "\<forall>b. length (Hash b) = 32" "ComputeMerkleRoot Hash txids True = (root, False)"
  shows "\<exists>t t'. CPartialMerkleTree_build Hash txids vMatch = Some t \<and> unser_CPartialMerkleTree (ser_CPartialMerkleTree t @ s) = Inr (t', s) \<and>
    ExtractMatches Hash t' [] =
      (root, map ((!) txids) (filter (\<lambda>p. vMatch ! p) [0..<length txids]), filter (\<lambda>p. vMatch ! p) [0..<length txids], t')"
proof -
  define n where "n = (word_of_nat (length txids) :: u32)"
  define H where "H = tree_height n 0"
  have small: "length txids \<le> 16666" using assms(3) by (simp add: MAX_BLOCK_WEIGHT_def MIN_TRANSACTION_WEIGHT_def)
  then have lt: "length txids < 2 ^ 31" and ne: "txids \<noteq> []" using assms(2) by auto
  note levels = tree_height_levels [OF lt ne, folded n_def, folded H_def]
  have root: "tree_level Hash txids H ! 0 = root" "\<forall>h < H. \<not> equal_pair (tree_level Hash txids h)"
    using ComputeMerkleRoot_levels [OF lt ne, of Hash True] assms(6) by (auto simp: H_def n_def)
  have below: "leaves_below (length txids) H 0 = [0..<length txids]"
  proof -
    have "\<not> 1 < length (tree_level Hash txids H)" using levels(3) by simp
    then have "length txids \<le> 2 ^ H" using pos_lt_level [of 1 Hash txids H] by simp
    then show ?thesis by (simp add: leaves_below_def)
  qed
  obtain bs hh where b: "built Hash txids vMatch H 0 bs hh" "reads_back Hash txids vMatch H 0 bs hh"
    using build_and_extract [OF lt assms(1) levels(1), of 0 Hash] levels(3) root(2) by auto
  define t where "t = \<lparr>nTransactions = n, vBits = bs, vHash = hh, fBad = False\<rparr>"
  have built: "CPartialMerkleTree_build Hash txids vMatch = Some t"
    using b(1) by (simp add: built_def CPartialMerkleTree_build_def t_def n_def [symmetric] H_def [symmetric] Let_def)
  have len: "length hh \<le> length txids" "length hh \<le> length bs" "length bs \<le> 32 * 16666"
  proof -
    show "length hh \<le> length txids" "length hh \<le> length bs" using b(1) below by (simp_all add: built_def)
    have "length bs \<le> (H + 1) * length txids" using b(1) below by (simp add: built_def)
    also have "\<dots> \<le> 32 * 16666" using levels(1) small by (intro mult_le_mono) simp_all
    finally show "length bs \<le> 32 * 16666" .
  qed
  have "\<forall>x \<in> set hh. length x = 32" using b(1) tree_level_lengths [OF assms(5,4)] by (auto simp: built_def)
  then have wire: "unser_CPartialMerkleTree (ser_CPartialMerkleTree t @ s) = Inr (padded t, s)"
    using len small by (intro unser_ser_tree)
      (auto simp: vector_ok_def blob_ok_def uint256_ok_def t_def MAX_SIZE_def list_all_iff length_BitsToBytes)
  let ?ps = "filter (\<lambda>p. vMatch ! p) [0..<length txids]"
  have "TraverseAndExtract Hash (padded t) H 0 \<lparr>nBitsUsed = 0, nHashUsed = 0, ex_vMatch = [], vnIndex = [], ex_fBad = False\<rparr> =
      (root, \<lparr>nBitsUsed = length bs, nHashUsed = length hh, ex_vMatch = map ((!) txids) ?ps, vnIndex = ?ps, ex_fBad = False\<rparr>)"
    using b(2) root(1) below by (simp add: reads_back_def Let_def padded_def t_def n_def advance_def)
  moreover have "n \<noteq> 0" "unat n = length txids" using lt assms(2) by (simp_all add: n_def unat_word_of_nat unat_eq_0 [symmetric])
  moreover have "\<not> (length bs + 7) div 8 * 8 < length hh" using len(2) by linarith
  ultimately have "ExtractMatches Hash (padded t) [] = (root, map ((!) txids) ?ps, ?ps, padded t)"
    using len assms(3) by (simp add: ExtractMatches_def Let_def padded_def t_def H_def [symmetric])
  then show ?thesis using built wire by blast
qed

theorem partial_tree_roundtrip_witness:
  "\<exists>t t'. CPartialMerkleTree_build (\<lambda>b. replicate 32 (hd b)) [replicate 32 1, replicate 32 2, replicate 32 3] [False, False, True] = Some t \<and>
     unser_CPartialMerkleTree (ser_CPartialMerkleTree t @ [5]) = Inr (t', [5]) \<and>
     ExtractMatches (\<lambda>b. replicate 32 (hd b)) t' [] = (replicate 32 1, [replicate 32 3], [2], t')"
proof -
  let ?ids = "[replicate 32 1, replicate 32 2, replicate 32 3] :: uint256 list"
  have "ComputeMerkleRoot (\<lambda>b. replicate 32 (hd b)) [replicate 32 1, replicate 32 2, replicate 32 3] True = (replicate 32 1, False)"
    by (simp add: ComputeMerkleRoot_def merkle_loop.simps pad_odd_def replicate_eq_replicate hd_append)
  moreover have f: "filter (\<lambda>p. [False, False, True] ! p) [0..<length ?ids] = [2]" by (simp add: upt_conv_Cons numeral_2_eq_2)
  have m: "map ((!) ?ids) [2] = [replicate 32 3]" by simp
  ultimately show ?thesis
    using partial_tree_roundtrip [of "[False, False, True]" ?ids "\<lambda>b. replicate 32 (hd b)" "replicate 32 1" "[5]"] unfolding f m
    by (simp add: MAX_BLOCK_WEIGHT_def MIN_TRANSACTION_WEIGHT_def)
qed

text \<open>
  C14: partial trees prove only what is true. Whatever tree a peer sends, if it claims the size of the block and extracting it
  yields the block's root, then every extracted transaction is the one at the extracted position of the block, unless two
  different messages, one hashed for the block and one hashed by the extraction, have the same hash.
\<close>

theorem partial_tree_sound:
  assumes "txids \<noteq> []" "length txids < 2 ^ 31" "\<forall>x \<in> set txids. length x = 32" "\<forall>b. length (Hash b) = 32"
    and "nTransactions t = word_of_nat (length txids)" "\<forall>x \<in> set (vHash t). length x = 32"
    and "ExtractMatches Hash t [] = (fst (ComputeMerkleRoot Hash txids False), matches, index, t')" "fst (ComputeMerkleRoot Hash txids False) \<noteq> uint256_null"
  shows "matches = map ((!) txids) index \<and> (\<forall>p \<in> set index. p < length txids) \<or>
    collision Hash (merkle_inputs Hash txids)
      (extract_inputs Hash t (tree_height (nTransactions t) 0) 0 \<lparr>nBitsUsed = 0, nHashUsed = 0, ex_vMatch = [], vnIndex = [], ex_fBad = fBad t\<rparr>)"
proof (rule disjCI)
  let ?st = "\<lparr>nBitsUsed = 0, nHashUsed = 0, ex_vMatch = [], vnIndex = [], ex_fBad = fBad t\<rparr>"
  define H where "H = tree_height (nTransactions t) 0"
  assume no: "\<not> collision Hash (merkle_inputs Hash txids) (extract_inputs Hash t (tree_height (nTransactions t) 0) 0 ?st)"
  note levels = tree_height_levels [OF assms(2,1), folded assms(5), folded H_def]
  have root: "fst (ComputeMerkleRoot Hash txids False) = tree_level Hash txids H ! 0"
    using ComputeMerkleRoot_levels [OF assms(2,1), of Hash False] by (simp add: H_def assms(5))
  obtain x st' where e: "TraverseAndExtract Hash t H 0 ?st = (x, st')" by (cases "TraverseAndExtract Hash t H 0 ?st")
  have r: "x = tree_level Hash txids H ! 0" "\<not> ex_fBad st'" "matches = ex_vMatch st'" "index = vnIndex st'"
    using assms(7,8) e root by (auto simp: ExtractMatches_def H_def [symmetric] Let_def split: if_splits)
  have "no_clash Hash txids H (extract_inputs Hash t H 0 ?st)"
    unfolding no_clash_def
  proof (intro allI impI ballI)
    fix k p y
    assume *: "k < H" "p < length (tree_level Hash txids (Suc k))" "y \<in> set (extract_inputs Hash t H 0 ?st)"
      "Hash (node_pair (tree_level Hash txids k) p) = Hash y"
    have "node_pair (tree_level Hash txids k) p \<in> set (merkle_inputs Hash txids)"
      unfolding merkle_inputs_iff using *(1,2) by (auto simp: H_def assms(5))
    then show "node_pair (tree_level Hash txids k) p = y" using no *(3,4) unfolding collision_def H_def [symmetric] by blast
  qed
  then show "matches = map ((!) txids) index \<and> (\<forall>p \<in> set index. p < length txids)"
    using extract_sound [OF assms(2,4,3,6,5) levels(1), of 0 ?st st'] levels(3) e r by auto
qed

theorem partial_tree_sound_witness:
  "let t = \<lparr>nTransactions = 2, vBits = [True, False, True], vHash = [replicate 32 1, replicate 32 3], fBad = False\<rparr>;
       Hash = (\<lambda>b. replicate 32 (hd b))
   in ExtractMatches Hash t [] = (replicate 32 1, [replicate 32 3], [1], t) \<and>
      collision Hash (merkle_inputs Hash [replicate 32 1, replicate 32 2])
        (extract_inputs Hash t 1 0 \<lparr>nBitsUsed = 0, nHashUsed = 0, ex_vMatch = [], vnIndex = [], ex_fBad = False\<rparr>)"
proof -
  let ?t = "\<lparr>nTransactions = 2, vBits = [True, False, True], vHash = [replicate 32 1, replicate 32 3], fBad = False\<rparr>"
  let ?H = "\<lambda>b :: bytes. replicate 32 (hd b)"
  have w: "CalcTreeWidth 2 0 = 2" by code_simp
  have x: "ExtractMatches ?H ?t [] = (replicate 32 1, [replicate 32 3], [1], ?t)"
    by (simp add: ExtractMatches_def Let_def sample_tree_height take_hash_def w MAX_BLOCK_WEIGHT_def MIN_TRANSACTION_WEIGHT_def replicate_eq_replicate hd_append)
  have r: "fst (ComputeMerkleRoot ?H [replicate 32 1, replicate 32 2] False) = replicate 32 1"
    by (simp add: ComputeMerkleRoot_def merkle_loop.simps pad_odd_def hd_append)
  show ?thesis
    using partial_tree_sound [of "[replicate 32 1, replicate 32 2]" ?H ?t "[replicate 32 3]" "[1]" ?t] x
    by (simp add: r sample_tree_height uint256_null_def replicate_eq_replicate Let_def)
qed

text \<open>
  The comment on the format bounds the flag bits by \<^verbatim>\<open>2*N-1\<close> for \<open>N\<close> stored hashes; nodes with a single child need a bit more each:
  for three transactions of which the last is selected there are four bits for two hashes.
\<close>

lemma flag_bits_exceed:
  "map_option (\<lambda>t. (length (vBits t), length (vHash t))) (CPartialMerkleTree_build (\<lambda>b. [hd b]) [[1], [2], [3]] [False, False, True]) = Some (4, 2)"
  by code_simp

end
