(* ===== verification/Tx_Verify.thy ===== *)
theory Tx_Verify
  imports Coins Block_Index Chain_Params Merkle
begin

text \<open>
  Checks of single transactions: \<^verbatim>\<open>src/src/consensus/tx_check.cpp\<close>, \<^verbatim>\<open>src/src/consensus/tx_verify.cpp\<close>, the amounts of
  \<^verbatim>\<open>src/src/primitives/transaction.cpp\<close>, the coin age of \<^verbatim>\<open>src/src/validation.cpp\<close> and the witness part of the signature operation count
  in \<^verbatim>\<open>src/src/script/interpreter.cpp\<close>. A rejection carries the result and the reason the code puts into the validation state;
  exceptions, failed assertions and null pointers are values of their own. The transaction index is a parameter: a partial
  map from transaction identifiers to the header of the containing block and the transaction.
\<close>

datatype TxValidationResult = TX_RESULT_UNSET | TX_CONSENSUS | TX_RECENT_CONSENSUS_CHANGE | TX_INPUTS_NOT_STANDARD | TX_NOT_STANDARD
  | TX_MISSING_INPUTS | TX_PREMATURE_SPEND | TX_WITNESS_MUTATED | TX_WITNESS_STRIPPED | TX_CONFLICT | TX_MEMPOOL_POLICY | TX_NO_MEMPOOL

datatype tx_error = Tx_invalid TxValidationResult string | Value_out_of_range | Tx_assert | Null_index | Index_range

subsection \<open>Amounts\<close>

definition MIN_TX_FEE :: int where "MIN_TX_FEE = cdiv CENT 10"
definition PERKB_TX_FEE :: int where "PERKB_TX_FEE = CENT"
definition MIN_TXOUT_AMOUNT :: int where "MIN_TXOUT_AMOUNT = CENT"

fun value_out :: "CTxOut list \<Rightarrow> int \<Rightarrow> tx_error + int" where
  "value_out [] nValueOut = Inr nValueOut"
| "value_out (out # outs) nValueOut =
     (if \<not> MoneyRange (nValue out) \<or> \<not> MoneyRange (nValueOut + nValue out) then Inl Value_out_of_range
      else value_out outs (nValueOut + nValue out))"

definition GetValueOut :: "CTransaction \<Rightarrow> tx_error + int" where
  "GetValueOut tx = value_out (vout tx) 0"

subsection \<open>Context-free checks\<close>

definition IsZeroAllowed :: "u32 \<Rightarrow> bool" where
  "IsZeroAllowed nTimeTx \<longleftrightarrow> nTimeTx \<ge> 1447700000"

definition WITNESS_SCALE_FACTOR :: nat where "WITNESS_SCALE_FACTOR = 4"
definition PROTOCOL_VERSION :: u32 where "PROTOCOL_VERSION = 70041"
definition SER_NETWORK :: u32 where "SER_NETWORK = push_bit 0 1"
definition SERIALIZE_TRANSACTION_NO_WITNESS :: u32 where "SERIALIZE_TRANSACTION_NO_WITNESS = 0x40000000"

text \<open>
  \<^verbatim>\<open>GetSerializeSize(t, nType, nVersion = 0)\<close> takes the stream type before the version. The callers that pass two arguments set
  the type and leave the version zero.
\<close>

definition tx_GetSerializeSize :: "CTransaction \<Rightarrow> u32 \<Rightarrow> u32 \<Rightarrow> nat" where
  "tx_GetSerializeSize tx nType nVersion = length (SerializeTransaction (nVersion AND SERIALIZE_TRANSACTION_NO_WITNESS = 0) tx)"

definition block_GetSerializeSize :: "CBlock \<Rightarrow> u32 \<Rightarrow> u32 \<Rightarrow> nat" where
  "block_GetSerializeSize block nType nVersion = length (ser_CBlock nType (nVersion AND SERIALIZE_TRANSACTION_NO_WITNESS = 0) block)"

definition GetTransactionWeight :: "CTransaction \<Rightarrow> nat" where
  "GetTransactionWeight tx =
     tx_GetSerializeSize tx (PROTOCOL_VERSION OR SERIALIZE_TRANSACTION_NO_WITNESS) 0 * (WITNESS_SCALE_FACTOR - 1) +
     tx_GetSerializeSize tx PROTOCOL_VERSION 0"

definition GetBlockWeight :: "CBlock \<Rightarrow> nat" where
  "GetBlockWeight block =
     block_GetSerializeSize block (PROTOCOL_VERSION OR SERIALIZE_TRANSACTION_NO_WITNESS) 0 * (WITNESS_SCALE_FACTOR - 1) +
     block_GetSerializeSize block PROTOCOL_VERSION 0"

definition GetTransactionInputWeight :: "CTxIn \<Rightarrow> nat" where
  "GetTransactionInputWeight txin =
     length (ser_CTxIn txin) * (WITNESS_SCALE_FACTOR - 1) + length (ser_CTxIn txin) + length (VectorFormatter_ser ser_bytes (scriptWitness txin))"

fun check_outputs :: "CTransaction \<Rightarrow> CTxOut list \<Rightarrow> int \<Rightarrow> tx_error + unit" where
  "check_outputs tx [] nValueOut = Inr ()"
| "check_outputs tx (txout # outs) nValueOut =
     (if nValue txout < 0 then Inl (Tx_invalid TX_CONSENSUS ''bad-txns-vout-negative'')
      else if nValue txout > MAX_MONEY then Inl (Tx_invalid TX_CONSENSUS ''bad-txns-vout-toolarge'')
      else let nValueOut = nValueOut + nValue txout
           in if \<not> MoneyRange nValueOut then Inl (Tx_invalid TX_CONSENSUS ''bad-txns-txouttotal-toolarge'')
              else if \<not> CTxOut_IsEmpty txout \<and> nValue txout < MIN_TXOUT_AMOUNT \<and>
                  (sint (tx_nVersion tx) < 3 \<and> \<not> (IsZeroAllowed (tx_nTime tx) \<and> nValue txout = 0))
              then Inl (Tx_invalid TX_CONSENSUS ''bad-txns-txoutvalue-belowminimum'')
              else check_outputs tx outs nValueOut)"

fun unique_inputs :: "CTxIn list \<Rightarrow> COutPoint list \<Rightarrow> bool" where
  "unique_inputs [] vInOutPoints = True"
| "unique_inputs (txin # ins) vInOutPoints =
     (if prevout txin \<in> set vInOutPoints then False else unique_inputs ins (prevout txin # vInOutPoints))"

definition CheckTransaction :: "CTransaction \<Rightarrow> tx_error + unit" where
  "CheckTransaction tx =
     (let invalid = (\<lambda>reason. Inl (Tx_invalid TX_CONSENSUS reason)) in
      if vin tx = [] then invalid ''bad-txns-vin-empty''
      else if vout tx = [] then invalid ''bad-txns-vout-empty''
      else if tx_GetSerializeSize tx (PROTOCOL_VERSION OR SERIALIZE_TRANSACTION_NO_WITNESS) 0 * WITNESS_SCALE_FACTOR > MAX_BLOCK_WEIGHT then invalid ''bad-txns-oversize''
      else ebind (check_outputs tx (vout tx) 0) (\<lambda>_.
        if \<not> unique_inputs (vin tx) [] then invalid ''bad-txns-inputs-duplicate''
        else if IsCoinBase tx then
          if length (scriptSig (vin tx ! 0)) < 2 \<or> length (scriptSig (vin tx ! 0)) > 100 then invalid ''bad-cb-length'' else Inr ()
        else if list_ex (\<lambda>txin. COutPoint_IsNull (prevout txin)) (vin tx) then invalid ''bad-txns-prevout-null''
        else Inr ()))"

subsection \<open>Lock times\<close>

definition LOCKTIME_THRESHOLD :: int where "LOCKTIME_THRESHOLD = 500000000"
definition SEQUENCE_FINAL :: u32 where "SEQUENCE_FINAL = 0xffffffff"
definition SEQUENCE_LOCKTIME_DISABLE_FLAG :: u32 where "SEQUENCE_LOCKTIME_DISABLE_FLAG = push_bit 31 1"
definition SEQUENCE_LOCKTIME_TYPE_FLAG :: u32 where "SEQUENCE_LOCKTIME_TYPE_FLAG = push_bit 22 1"
definition SEQUENCE_LOCKTIME_MASK :: u32 where "SEQUENCE_LOCKTIME_MASK = 0x0000ffff"
definition SEQUENCE_LOCKTIME_GRANULARITY :: nat where "SEQUENCE_LOCKTIME_GRANULARITY = 9"
definition LOCKTIME_VERIFY_SEQUENCE :: u32 where "LOCKTIME_VERIFY_SEQUENCE = push_bit 0 1"
definition LOCKTIME_MEDIAN_TIME_PAST :: u32 where "LOCKTIME_MEDIAN_TIME_PAST = push_bit 1 1"

definition IsFinalTx :: "CTransaction \<Rightarrow> int \<Rightarrow> int \<Rightarrow> bool" where
  "IsFinalTx tx nBlockHeight nBlockTime =
     (if nLockTime tx = 0 then True
      else if uint (nLockTime tx) < (if uint (nLockTime tx) < LOCKTIME_THRESHOLD then nBlockHeight else nBlockTime) then True
      else list_all (\<lambda>txin. nSequence txin = SEQUENCE_FINAL) (vin tx))"

text \<open>The loop over the inputs returns the minimal height and time and the heights with those of disabled inputs cleared.\<close>

fun sequence_locks :: "store \<Rightarrow> ptr \<Rightarrow> (CTxIn \<times> int) list \<Rightarrow> int \<times> int \<Rightarrow> tx_error + (int \<times> int) \<times> int list" where
  "sequence_locks s block [] lockPair = Inr (lockPair, [])"
| "sequence_locks s block ((txin, nCoinHeight) # ins) (nMinHeight, nMinTime) =
     (if nSequence txin AND SEQUENCE_LOCKTIME_DISABLE_FLAG \<noteq> 0 then
        ebind (sequence_locks s block ins (nMinHeight, nMinTime)) (\<lambda>(r, hs). Inr (r, 0 # hs))
      else if nSequence txin AND SEQUENCE_LOCKTIME_TYPE_FLAG \<noteq> 0 then
        (case GetAncestor s block (max (nCoinHeight - 1) 0) of
           None \<Rightarrow> Inl Tx_assert
         | Some None \<Rightarrow> Inl Null_index
         | Some (Some p) \<Rightarrow>
             let nCoinTime = GetMedianTimePast s p;
                 nMinTime = max nMinTime (nCoinTime + uint (push_bit SEQUENCE_LOCKTIME_GRANULARITY (nSequence txin AND SEQUENCE_LOCKTIME_MASK)) - 1)
             in ebind (sequence_locks s block ins (nMinHeight, nMinTime)) (\<lambda>(r, hs). Inr (r, nCoinHeight # hs)))
      else
        ebind (sequence_locks s block ins (max nMinHeight (nCoinHeight + uint (nSequence txin AND SEQUENCE_LOCKTIME_MASK) - 1), nMinTime))
          (\<lambda>(r, hs). Inr (r, nCoinHeight # hs)))"

definition CalculateSequenceLocks :: "store \<Rightarrow> CTransaction \<Rightarrow> u32 \<Rightarrow> int list \<Rightarrow> ptr \<Rightarrow> tx_error + (int \<times> int) \<times> int list" where
  "CalculateSequenceLocks s tx flags prevHeights block =
     (if length prevHeights \<noteq> length (vin tx) then Inl Tx_assert
      else let fEnforceBIP68 = (tx_nVersion tx \<ge> 2 \<and> flags AND LOCKTIME_VERIFY_SEQUENCE \<noteq> 0)
           in if \<not> fEnforceBIP68 then Inr ((- 1, - 1), prevHeights)
              else sequence_locks s block (zip (vin tx) prevHeights) (- 1, - 1))"

definition EvaluateSequenceLocks :: "store \<Rightarrow> ptr \<Rightarrow> int \<times> int \<Rightarrow> tx_error + bool" where
  "EvaluateSequenceLocks s block lockPair =
     (case pprev (s block) of None \<Rightarrow> Inl Tx_assert
      | Some q \<Rightarrow>
          let nBlockTime = GetMedianTimePast s q
          in Inr (\<not> (fst lockPair \<ge> nHeight (s block) \<or> snd lockPair \<ge> nBlockTime)))"

definition SequenceLocks :: "store \<Rightarrow> CTransaction \<Rightarrow> u32 \<Rightarrow> int list \<Rightarrow> ptr \<Rightarrow> tx_error + bool \<times> int list" where
  "SequenceLocks s tx flags prevHeights block =
     ebind (CalculateSequenceLocks s tx flags prevHeights block) (\<lambda>(lockPair, prevHeights).
       ebind (EvaluateSequenceLocks s block lockPair) (\<lambda>r. Inr (r, prevHeights)))"

subsection \<open>Signature operations\<close>

definition SCRIPT_VERIFY_P2SH :: u32 where "SCRIPT_VERIFY_P2SH = push_bit 0 1"
definition SCRIPT_VERIFY_WITNESS :: u32 where "SCRIPT_VERIFY_WITNESS = push_bit 11 1"

definition GetLegacySigOpCount :: "CTransaction \<Rightarrow> u32" where
  "GetLegacySigOpCount tx =
     sum_list (map (\<lambda>txin. word_of_nat (GetSigOpCount (scriptSig txin) False)) (vin tx)) +
     sum_list (map (\<lambda>txout. word_of_nat (GetSigOpCount (scriptPubKey txout) False)) (vout tx))"

fun p2sh_sigops :: "'b get_coin \<Rightarrow> (Coin \<Rightarrow> u64) \<Rightarrow> CTxIn list \<Rightarrow> u32 \<Rightarrow> 'b CCoinsViewCache \<Rightarrow> tx_error + u32 \<times> 'b CCoinsViewCache" where
  "p2sh_sigops get mem [] nSigOps inputs = Inr (nSigOps, inputs)"
| "p2sh_sigops get mem (txin # ins) nSigOps inputs =
     (let (coin, inputs) = AccessCoin get mem inputs (prevout txin)
      in if IsSpent coin then Inl Tx_assert
         else p2sh_sigops get mem ins
           (if IsPayToScriptHash (scriptPubKey (coin_out coin))
            then nSigOps + word_of_nat (GetSigOpCount_P2SH (scriptPubKey (coin_out coin)) (scriptSig txin)) else nSigOps) inputs)"

definition GetP2SHSigOpCount ::
  "'b get_coin \<Rightarrow> (Coin \<Rightarrow> u64) \<Rightarrow> CTransaction \<Rightarrow> 'b CCoinsViewCache \<Rightarrow> tx_error + u32 \<times> 'b CCoinsViewCache" where
  "GetP2SHSigOpCount get mem tx inputs = (if IsCoinBase tx then Inr (0, inputs) else p2sh_sigops get mem (vin tx) 0 inputs)"

definition WitnessSigOps :: "nat \<Rightarrow> bytes \<Rightarrow> bytes list \<Rightarrow> nat" where
  "WitnessSigOps witversion witprogram stack =
     (if witversion = 0 then
        if length witprogram = 20 then 1
        else if length witprogram = 32 \<and> length stack > 0 then GetSigOpCount (last stack) True
        else 0
      else 0)"

definition CountWitnessSigOps :: "CScript \<Rightarrow> CScript \<Rightarrow> bytes list \<Rightarrow> u32 \<Rightarrow> tx_error + nat" where
  "CountWitnessSigOps sig pubkey witness flags =
     (if flags AND SCRIPT_VERIFY_WITNESS = 0 then Inr 0
      else if flags AND SCRIPT_VERIFY_P2SH = 0 then Inl Tx_assert
      else case IsWitnessProgram pubkey of
             Some (version, prog) \<Rightarrow> Inr (WitnessSigOps version prog witness)
           | None \<Rightarrow>
               if IsPayToScriptHash pubkey \<and> IsPushOnly sig then
                 (case IsWitnessProgram (the (last_push [] sig)) of
                    Some (version, prog) \<Rightarrow> Inr (WitnessSigOps version prog witness)
                  | None \<Rightarrow> Inr 0)
               else Inr 0)"

fun witness_sigops ::
  "'b get_coin \<Rightarrow> (Coin \<Rightarrow> u64) \<Rightarrow> u32 \<Rightarrow> CTxIn list \<Rightarrow> int \<Rightarrow> 'b CCoinsViewCache \<Rightarrow> tx_error + int \<times> 'b CCoinsViewCache" where
  "witness_sigops get mem flags [] nSigOps inputs = Inr (nSigOps, inputs)"
| "witness_sigops get mem flags (txin # ins) nSigOps inputs =
     (let (coin, inputs) = AccessCoin get mem inputs (prevout txin)
      in if IsSpent coin then Inl Tx_assert
         else ebind (CountWitnessSigOps (scriptSig txin) (scriptPubKey (coin_out coin)) (scriptWitness txin) flags) (\<lambda>n.
           witness_sigops get mem flags ins (nSigOps + int n) inputs))"

definition GetTransactionSigOpCost ::
  "'b get_coin \<Rightarrow> (Coin \<Rightarrow> u64) \<Rightarrow> CTransaction \<Rightarrow> 'b CCoinsViewCache \<Rightarrow> u32 \<Rightarrow> tx_error + int \<times> 'b CCoinsViewCache" where
  "GetTransactionSigOpCost get mem tx inputs flags =
     (let nSigOps = uint (GetLegacySigOpCount tx * word_of_nat WITNESS_SCALE_FACTOR)
      in if IsCoinBase tx then Inr (nSigOps, inputs)
         else ebind (if flags AND SCRIPT_VERIFY_P2SH \<noteq> 0
                     then ebind (GetP2SHSigOpCount get mem tx inputs) (\<lambda>(n, inputs). Inr (nSigOps + uint (n * word_of_nat WITNESS_SCALE_FACTOR), inputs))
                     else Inr (nSigOps, inputs)) (\<lambda>(nSigOps, inputs).
           witness_sigops get mem flags (vin tx) nSigOps inputs))"

subsection \<open>Coin age\<close>

type_synonym tx_index = "uint256 \<rightharpoonup> CBlockHeader \<times> CTransaction"

definition effective_age :: "u32 \<Rightarrow> CBlockHeader \<Rightarrow> CTransaction \<Rightarrow> bool \<Rightarrow> int" where
  "effective_age nTimeTx hdr txPrev isTrueCoinAge =
     (let age = uint nTimeTx - (if tx_nTime txPrev \<noteq> 0 then uint (tx_nTime txPrev) else uint (hdr_nTime hdr))
      in if \<not> isTrueCoinAge then min age (365 * 24 * 60 * 60) else age)"

text \<open>The loop over the inputs; \<^term>\<open>None\<close> is the result \<^verbatim>\<open>false\<close>.\<close>

fun coin_age_loop ::
  "Consensus_Params \<Rightarrow> (bytes \<Rightarrow> uint256) \<Rightarrow> 'b get_coin \<Rightarrow> (Coin \<Rightarrow> u64) \<Rightarrow> tx_index \<Rightarrow> u32 \<Rightarrow> bool \<Rightarrow> CTxIn list \<Rightarrow> base_uint \<Rightarrow>
   'b CCoinsViewCache \<Rightarrow> tx_error + base_uint option \<times> 'b CCoinsViewCache" where
  "coin_age_loop params Hash get mem txindex nTimeTx isTrueCoinAge [] bnCentSecond view = Inr (Some bnCentSecond, view)"
| "coin_age_loop params Hash get mem txindex nTimeTx isTrueCoinAge (txin # ins) bnCentSecond view =
     (let (coin, view) = (if isTrueCoinAge then cache_GetCoin get mem view (prevout txin) else (Some Coin_empty, view))
      in case coin of
           None \<Rightarrow> coin_age_loop params Hash get mem txindex nTimeTx isTrueCoinAge ins bnCentSecond view
         | Some coin \<Rightarrow>
             if nTimeTx < coin_nTime coin then Inr (None, view)
             else case txindex (op_hash (prevout txin)) of
                    None \<Rightarrow> Inr (None, view)
                  | Some (hdr, txPrev) \<Rightarrow>
                      if tx_ComputeHash Hash txPrev \<noteq> op_hash (prevout txin) then Inr (None, view)
                      else if uint (hdr_nTime hdr) + nStakeMinAge params > uint nTimeTx
                      then coin_age_loop params Hash get mem txindex nTimeTx isTrueCoinAge ins bnCentSecond view
                      else if unat (op_n (prevout txin)) \<ge> length (vout txPrev) then Inl Index_range
                      else let nValueIn = nValue (vout txPrev ! unat (op_n (prevout txin)));
                               nEffectiveAge = word_of_int (effective_age nTimeTx hdr txPrev isTrueCoinAge)
                           in case uint_div (uint_mul32 (uint_of_u64 8 (word_of_int nValueIn)) nEffectiveAge) (uint_of_u64 8 (word_of_int CENT)) of
                                Inl e \<Rightarrow> Inl Value_out_of_range
                              | Inr age \<Rightarrow> coin_age_loop params Hash get mem txindex nTimeTx isTrueCoinAge ins (uint_add bnCentSecond age) view)"

definition GetCoinAge ::
  "Consensus_Params \<Rightarrow> (bytes \<Rightarrow> uint256) \<Rightarrow> 'b get_coin \<Rightarrow> (Coin \<Rightarrow> u64) \<Rightarrow> tx_index option \<Rightarrow> CTransaction \<Rightarrow> 'b CCoinsViewCache \<Rightarrow> u32 \<Rightarrow> bool \<Rightarrow>
   tx_error + u64 option \<times> 'b CCoinsViewCache" where
  "GetCoinAge params Hash get mem txindex tx view nTimeTx isTrueCoinAge =
     (if IsCoinBase tx then Inr (Some 0, view)
      else case txindex of None \<Rightarrow> Inr (None, view)
           | Some idx \<Rightarrow>
               ebind (coin_age_loop params Hash get mem idx nTimeTx isTrueCoinAge (vin tx) (uint_null 8) view) (\<lambda>(r, view).
                 case r of None \<Rightarrow> Inr (None, view)
                 | Some bnCentSecond \<Rightarrow>
                     (case ebind (uint_div (uint_mul32 bnCentSecond (word_of_int CENT)) (uint_of_u64 8 (word_of_int COIN)))
                             (\<lambda>d. uint_div d (uint_of_u64 8 (24 * 60 * 60))) of
                        Inl e \<Rightarrow> Inl Value_out_of_range
                      | Inr bnCoinDay \<Rightarrow> Inr (Some (GetLow64 bnCoinDay), view))))"

subsection \<open>Checks against the coins\<close>

definition min_fee :: "nat \<Rightarrow> int" where
  "min_fee nBytes =
     (let nMinFee = (if nBytes < 100 then MIN_TX_FEE else int nBytes * cdiv PERKB_TX_FEE 1000)
      in if \<not> MoneyRange nMinFee then MAX_MONEY else nMinFee)"

definition GetMinFee :: "CTransaction \<Rightarrow> int" where
  "GetMinFee tx = min_fee (tx_GetSerializeSize tx SER_NETWORK PROTOCOL_VERSION)"

fun check_inputs ::
  "Consensus_Params \<Rightarrow> 'b get_coin \<Rightarrow> (Coin \<Rightarrow> u64) \<Rightarrow> int \<Rightarrow> u32 \<Rightarrow> CTxIn list \<Rightarrow> int \<Rightarrow> 'b CCoinsViewCache \<Rightarrow> tx_error + int \<times> 'b CCoinsViewCache" where
  "check_inputs params get mem nSpendHeight nTimeTx [] nValueIn inputs = Inr (nValueIn, inputs)"
| "check_inputs params get mem nSpendHeight nTimeTx (txin # ins) nValueIn inputs =
     (let (coin, inputs) = AccessCoin get mem inputs (prevout txin)
      in if IsSpent coin then Inl Tx_assert
         else if (fCoinBase coin \<or> fCoinStake coin) \<and> nSpendHeight - uint (coin_nHeight coin) < nCoinbaseMaturity params
         then Inl (Tx_invalid TX_PREMATURE_SPEND ''bad-txns-premature-spend-of-coinbase/coinstake'')
         else if coin_nTime coin > nTimeTx then Inl (Tx_invalid TX_CONSENSUS ''bad-txns-spent-too-early'')
         else let nValueIn = nValueIn + nValue (coin_out coin)
              in if \<not> MoneyRange (nValue (coin_out coin)) \<or> \<not> MoneyRange nValueIn
                 then Inl (Tx_invalid TX_CONSENSUS ''bad-txns-inputvalues-outofrange'')
                 else check_inputs params get mem nSpendHeight nTimeTx ins nValueIn inputs)"

definition CheckTxInputs ::
  "Consensus_Params \<Rightarrow> (bytes \<Rightarrow> uint256) \<Rightarrow> 'b get_coin \<Rightarrow> (Coin \<Rightarrow> u64) \<Rightarrow> tx_index option \<Rightarrow> CTransaction \<Rightarrow> 'b CCoinsViewCache \<Rightarrow> int \<Rightarrow> u32 \<Rightarrow>
   tx_error + int \<times> 'b CCoinsViewCache" where
  "CheckTxInputs params Hash get mem txindex tx inputs nSpendHeight nTimeTx =
     (let (have, inputs) = HaveInputs get mem inputs tx
      in if \<not> have then Inl (Tx_invalid TX_MISSING_INPUTS ''bad-txns-inputs-missingorspent'')
         else ebind (check_inputs params get mem nSpendHeight nTimeTx (vin tx) 0 inputs) (\<lambda>(nValueIn, inputs).
           if IsCoinStake tx then
             ebind (GetCoinAge params Hash get mem txindex tx inputs nTimeTx True) (\<lambda>(age, inputs).
               if age = None then Inl (Tx_invalid TX_CONSENSUS ''unable to get coin age for coinstake'')
               else ebind (GetValueOut tx) (\<lambda>v. Inr (v - nValueIn, inputs)))
           else
             ebind (GetValueOut tx) (\<lambda>value_out.
               if nValueIn < value_out then Inl (Tx_invalid TX_CONSENSUS ''bad-txns-in-belowout'')
               else if \<not> MoneyRange (nValueIn - value_out) then Inl (Tx_invalid TX_CONSENSUS ''bad-txns-fee-outofrange'')
               else if nValueIn - value_out < GetMinFee tx then Inl (Tx_invalid TX_CONSENSUS ''bad-txns-fee-not-enough'')
               else Inr (nValueIn - value_out, inputs))))"

subsection \<open>Values\<close>

lemma MoneyRange_iff: "MoneyRange n \<longleftrightarrow> 0 \<le> n \<and> n \<le> MAX_MONEY"
  by (simp add: MoneyRange_def)

lemma value_out_iff:
  "MoneyRange n \<Longrightarrow> value_out outs n = Inr v \<longleftrightarrow>
     v = n + sum_list (map nValue outs) \<and> (\<forall>out \<in> set outs. MoneyRange (nValue out)) \<and> MoneyRange v"
proof (induction outs arbitrary: n)
  case (Cons out outs)
  have "sum_list (map nValue outs) \<ge> 0" if "\<forall>out \<in> set outs. MoneyRange (nValue out)"
    using that by (intro sum_list_nonneg) (auto simp: MoneyRange_iff)
  then show ?case using Cons.IH [of "n + nValue out"] Cons.prems by (auto simp: MoneyRange_iff)
qed auto

lemma GetValueOut_iff:
  "GetValueOut tx = Inr v \<longleftrightarrow> v = sum_list (map nValue (vout tx)) \<and> (\<forall>out \<in> set (vout tx). MoneyRange (nValue out)) \<and> MoneyRange v"
  using value_out_iff [of 0 "vout tx" v] by (simp add: GetValueOut_def MoneyRange_iff MAX_MONEY_def COIN_def)

subsection \<open>Context-free checks\<close>

lemma unique_inputs_iff: "unique_inputs ins seen \<longleftrightarrow> distinct (map prevout ins) \<and> set (map prevout ins) \<inter> set seen = {}"
  by (induction ins arbitrary: seen) auto

definition output_valid :: "CTransaction \<Rightarrow> CTxOut \<Rightarrow> bool" where
  "output_valid tx out \<longleftrightarrow> 0 \<le> nValue out \<and>
     (nValue out \<ge> MIN_TXOUT_AMOUNT \<or> CTxOut_IsEmpty out \<or> sint (tx_nVersion tx) \<ge> 3 \<or> IsZeroAllowed (tx_nTime tx) \<and> nValue out = 0)"

lemma check_outputs_iff:
  "MoneyRange n \<Longrightarrow> check_outputs tx outs n = Inr u \<longleftrightarrow>
     (\<forall>out \<in> set outs. output_valid tx out) \<and> n + sum_list (map nValue outs) \<le> MAX_MONEY"
proof (induction outs arbitrary: n)
  case Nil
  then show ?case by (simp add: MoneyRange_iff)
next
  case (Cons out outs)
  have "sum_list (map nValue outs) \<ge> 0" if "\<forall>out \<in> set outs. output_valid tx out"
    using that by (intro sum_list_nonneg) (auto simp: output_valid_def)
  then show ?case using Cons.IH [of "n + nValue out"] Cons.prems
    by (auto simp: MoneyRange_iff output_valid_def Let_def not_less)
qed

subsection \<open>Sequence locks\<close>

text \<open>A relative lock time is satisfied in a block.\<close>

definition input_unlocked :: "store \<Rightarrow> ptr \<Rightarrow> CTxIn \<Rightarrow> int \<Rightarrow> bool" where
  "input_unlocked s block txin nCoinHeight \<longleftrightarrow>
     nSequence txin AND SEQUENCE_LOCKTIME_DISABLE_FLAG \<noteq> 0 \<or>
     (if nSequence txin AND SEQUENCE_LOCKTIME_TYPE_FLAG \<noteq> 0
      then GetMedianTimePast s (the (ancestor_at s block (max (nCoinHeight - 1) 0))) + 512 * uint (nSequence txin AND SEQUENCE_LOCKTIME_MASK)
             \<le> GetMedianTimePast s (the (pprev (s block)))
      else nCoinHeight + uint (nSequence txin AND SEQUENCE_LOCKTIME_MASK) \<le> nHeight (s block))"

lemma uint_lock_time:
  "uint (push_bit SEQUENCE_LOCKTIME_GRANULARITY (n AND SEQUENCE_LOCKTIME_MASK)) = 512 * uint (n AND SEQUENCE_LOCKTIME_MASK)"
proof -
  have "n AND SEQUENCE_LOCKTIME_MASK = take_bit 16 n" by (simp add: SEQUENCE_LOCKTIME_MASK_def take_bit_eq_mask mask_eq_exp_minus_1)
  moreover have "uint (take_bit 16 n) < 2 ^ 16" unfolding unsigned_take_bit_eq by (rule take_bit_int_less_exp)
  ultimately show ?thesis
    unfolding SEQUENCE_LOCKTIME_GRANULARITY_def unsigned_push_bit_eq by (simp add: take_bit_int_eq_self push_bit_eq_mult)
qed

lemma sequence_locks_spec:
  assumes "wf_store s" "0 \<le> nHeight (s block)" "\<forall>(txin, h) \<in> set ins. h \<le> nHeight (s block) + 1"
  shows "\<exists>mh mt hs. sequence_locks s block ins (a, b) = Inr ((mh, mt), hs) \<and>
    (mh < nHeight (s block) \<and> mt < GetMedianTimePast s (the (pprev (s block))) \<longleftrightarrow>
     a < nHeight (s block) \<and> b < GetMedianTimePast s (the (pprev (s block))) \<and> (\<forall>(txin, h) \<in> set ins. input_unlocked s block txin h))"
  using assms(3)
proof (induction ins arbitrary: a b)
  case (Cons i ins)
  let ?H = "nHeight (s block)" and ?M = "GetMedianTimePast s (the (pprev (s block)))"
  let ?ok = "\<forall>(txin, h) \<in> set ins. input_unlocked s block txin h"
  obtain txin h where i: "i = (txin, h)" by (cases i)
  have h: "h \<le> ?H + 1" using Cons.prems i by simp
  have step: "\<exists>mh mt hs. sequence_locks s block (i # ins) (a, b) = Inr ((mh, mt), hs) \<and>
      (mh < ?H \<and> mt < ?M \<longleftrightarrow> a < ?H \<and> b < ?M \<and> (\<forall>(txin, h) \<in> set (i # ins). input_unlocked s block txin h))"
    if "sequence_locks s block (i # ins) (a, b) = ebind (sequence_locks s block ins (a', b')) (\<lambda>(r, hs). Inr (r, x # hs))"
      "a' < ?H \<and> b' < ?M \<longleftrightarrow> a < ?H \<and> b < ?M \<and> input_unlocked s block txin h" for a' b' x
  proof -
    have "\<forall>(txin, h) \<in> set ins. h \<le> ?H + 1" using Cons.prems by simp
    from Cons.IH [OF this, of a' b'] obtain mh mt hs where
      "sequence_locks s block ins (a', b') = Inr ((mh, mt), hs)" "mh < ?H \<and> mt < ?M \<longleftrightarrow> a' < ?H \<and> b' < ?M \<and> ?ok" by blast
    then show ?thesis using that i by auto
  qed
  let ?v = "uint (nSequence txin AND SEQUENCE_LOCKTIME_MASK)"
  consider "nSequence txin AND SEQUENCE_LOCKTIME_DISABLE_FLAG \<noteq> 0"
    | "nSequence txin AND SEQUENCE_LOCKTIME_DISABLE_FLAG = 0" "nSequence txin AND SEQUENCE_LOCKTIME_TYPE_FLAG \<noteq> 0"
    | "nSequence txin AND SEQUENCE_LOCKTIME_DISABLE_FLAG = 0" "nSequence txin AND SEQUENCE_LOCKTIME_TYPE_FLAG = 0" by blast
  then show ?case
  proof cases
    case 1
    then show ?thesis using i by (intro step [of a b 0]) (auto simp: input_unlocked_def)
  next
    case 2
    obtain p where p: "ancestor_at s block (max (h - 1) 0) = Some p"
      using ancestor_at_Some [OF assms(1), of "max (h - 1) 0" block] assms(2) h by auto
    then have g: "GetAncestor s block (max (h - 1) 0) = Some (Some p)" using GetAncestor_eq [OF assms(1)] by simp
    have u: "input_unlocked s block txin h \<longleftrightarrow> GetMedianTimePast s p + 512 * ?v \<le> ?M" using 2 p by (simp add: input_unlocked_def)
    show ?thesis using i 2 g
      by (intro step [of a "max b (GetMedianTimePast s p + 512 * ?v - 1)" h]) (auto simp: u uint_lock_time Let_def simp del: push_bit_and)
  next
    case 3
    then show ?thesis using i by (intro step [of "max a (h + ?v - 1)" b h]) (auto simp: input_unlocked_def)
  qed
qed simp

lemma past_times_nonneg: "t \<in> set (past_times s n p) \<Longrightarrow> 0 \<le> t"
  by (induction s n p rule: past_times.induct) (auto simp: GetBlockTime_def)

lemma GetMedianTimePast_nonneg: "wf_store s \<Longrightarrow> 0 \<le> GetMedianTimePast s p"
  using GetMedianTimePast_median [of s p] past_times_nonneg by blast

lemma SequenceLocks_spec:
  assumes "wf_store s" "pprev (s block) = Some q" "length prevHeights = length (vin tx)" "\<forall>h \<in> set prevHeights. h \<le> nHeight (s block) + 1"
  shows "\<exists>hs. SequenceLocks s tx flags prevHeights block =
    Inr (tx_nVersion tx < 2 \<or> flags AND LOCKTIME_VERIFY_SEQUENCE = 0 \<or> (\<forall>(txin, h) \<in> set (zip (vin tx) prevHeights). input_unlocked s block txin h), hs)"
proof -
  have n: "0 \<le> nHeight (s block)" "0 \<le> GetMedianTimePast s q" "the (pprev (s block)) = q"
    using assms(1,2) GetMedianTimePast_nonneg by (auto simp: wf_store_def)
  show ?thesis
  proof (cases "tx_nVersion tx \<ge> 2 \<and> flags AND LOCKTIME_VERIFY_SEQUENCE \<noteq> 0")
    case True
    have "\<forall>(txin, h) \<in> set (zip (vin tx) prevHeights). h \<le> nHeight (s block) + 1" using assms(4) by (auto dest: set_zip_rightD)
    from sequence_locks_spec [OF assms(1) n(1) this, of "- 1" "- 1"] obtain mh mt hs where
      "sequence_locks s block (zip (vin tx) prevHeights) (- 1, - 1) = Inr ((mh, mt), hs)"
      "mh < nHeight (s block) \<and> mt < GetMedianTimePast s q \<longleftrightarrow>
       - 1 < nHeight (s block) \<and> - 1 < GetMedianTimePast s q \<and> (\<forall>(txin, h) \<in> set (zip (vin tx) prevHeights). input_unlocked s block txin h)"
      unfolding n(3) by blast
    moreover have "- 1 < nHeight (s block)" "- 1 < GetMedianTimePast s q" using n(1,2) by linarith+
    ultimately show ?thesis using True assms(2,3)
      by (auto simp: SequenceLocks_def CalculateSequenceLocks_def EvaluateSequenceLocks_def Let_def not_less not_le)
  next
    case False
    then show ?thesis using assms(2,3) n
      by (auto simp: SequenceLocks_def CalculateSequenceLocks_def EvaluateSequenceLocks_def Let_def not_less not_le)
  qed
qed

subsection \<open>Checks against the coins\<close>

text \<open>A computation on a cache leaves the coins it stands for as they are.\<close>

definition coin_value :: "(COutPoint \<rightharpoonup> Coin) \<Rightarrow> COutPoint \<Rightarrow> int" where
  "coin_value u out = nValue (coin_out (the (u out)))"

definition tx_value_in :: "(COutPoint \<rightharpoonup> Coin) \<Rightarrow> CTransaction \<Rightarrow> int" where
  "tx_value_in u tx = sum_list (map (\<lambda>i. coin_value u (prevout i)) (vin tx))"

definition tx_value_out :: "CTransaction \<Rightarrow> int" where
  "tx_value_out tx = sum_list (map nValue (vout tx))"

definition coins_kept ::
  "('b \<Rightarrow> bool) \<Rightarrow> ('b \<Rightarrow> COutPoint \<rightharpoonup> Coin) \<Rightarrow> (Coin \<Rightarrow> u64) \<Rightarrow> 'b CCoinsViewCache \<Rightarrow> 'b CCoinsViewCache \<Rightarrow> bool" where
  "coins_kept ok utxo mem c c' \<longleftrightarrow> cache_ok ok utxo mem c' \<and> cache_utxo utxo c' = cache_utxo utxo c \<and> hashBlock c' = hashBlock c"

context coins_cache
begin

abbreviation same_coins where "same_coins \<equiv> coins_kept ok utxo mem"

lemmas same_coins_def = coins_kept_def [of ok utxo mem]

lemma same_coins_refl: "cok c \<Longrightarrow> same_coins c c"
  by (simp add: same_coins_def)

lemma same_coins_trans: "same_coins c d \<Longrightarrow> same_coins d e \<Longrightarrow> same_coins c e"
  by (simp add: same_coins_def)

lemma AccessCoin_same:
  "cok c \<Longrightarrow> AccessCoin get mem c out = (r, c') \<Longrightarrow> same_coins c c' \<and> (\<not> IsSpent r \<longrightarrow> cu c out = Some r)"
  using AccessCoin_spec [of c out r c'] by (auto simp: same_coins_def)

lemma GetCoin_same:
  assumes "cok c" "cache_GetCoin get mem c out = (r, c')"
  shows "same_coins c c' \<and> r = cu c out"
proof -
  obtain e d where f: "FetchCoin get mem c out = (e, d)" by fastforce
  then have "c' = d" using assms(2) by (cases e) (auto simp: cache_GetCoin_def)
  then show ?thesis using FetchCoin_spec [OF assms(1) f] GetCoin_spec [OF assms] by (simp add: same_coins_def)
qed

lemma have_all_same: "cok c \<Longrightarrow> have_all get mem c ins = (r, c') \<Longrightarrow> same_coins c c'"
proof (induction ins arbitrary: c)
  case (Cons i ins)
  obtain h d where h: "HaveCoin get mem c (prevout i) = (h, d)" by fastforce
  have "same_coins c d" using HaveCoin_spec [OF Cons.prems(1) h] by (simp add: same_coins_def)
  then show ?case using Cons.IH [of d] Cons.prems h by (cases h) (auto intro: same_coins_trans simp: same_coins_def)
qed (simp add: same_coins_refl)

lemma HaveInputs_same: "cok c \<Longrightarrow> HaveInputs get mem c tx = (r, c') \<Longrightarrow> same_coins c c'"
  using have_all_same [of c "vin tx" r c'] by (auto simp: HaveInputs_def same_coins_refl split: if_splits)

lemma p2sh_sigops_same: "cok c \<Longrightarrow> p2sh_sigops get mem ins n c = Inr (r, c') \<Longrightarrow> same_coins c c'"
proof (induction ins arbitrary: c n)
  case (Cons i ins)
  obtain x d where x: "AccessCoin get mem c (prevout i) = (x, d)" by fastforce
  have s: "same_coins c d" using AccessCoin_same [OF Cons.prems(1) x] by blast
  then have "cok d" by (simp add: same_coins_def)
  then show ?case using Cons.IH Cons.prems(2) x s by (auto simp: Let_def intro: same_coins_trans split: if_splits)
qed (simp add: same_coins_refl)

lemma witness_sigops_same: "cok c \<Longrightarrow> witness_sigops get mem flags ins n c = Inr (r, c') \<Longrightarrow> same_coins c c'"
proof (induction ins arbitrary: c n)
  case (Cons i ins)
  obtain x d where x: "AccessCoin get mem c (prevout i) = (x, d)" by fastforce
  have s: "same_coins c d" using AccessCoin_same [OF Cons.prems(1) x] by blast
  then have "cok d" by (simp add: same_coins_def)
  then show ?case using Cons.IH Cons.prems(2) x s by (auto simp: Let_def intro: same_coins_trans split: if_splits)
qed (simp add: same_coins_refl)

lemma GetTransactionSigOpCost_same:
  assumes "cok c" "GetTransactionSigOpCost get mem tx c flags = Inr (r, c')"
  shows "same_coins c c'"
proof (cases "IsCoinBase tx")
  case True
  then show ?thesis using assms by (simp add: GetTransactionSigOpCost_def Let_def same_coins_refl)
next
  case False
  obtain n d where d: "witness_sigops get mem flags (vin tx) n d = Inr (r, c')" "d = c \<or> (\<exists>m. p2sh_sigops get mem (vin tx) 0 c = Inr (m, d))"
    using assms(2) False by (auto simp: GetTransactionSigOpCost_def GetP2SHSigOpCount_def Let_def split: if_splits)
  then have "same_coins c d" using p2sh_sigops_same [OF assms(1)] same_coins_refl [OF assms(1)] by blast
  moreover from this have "cok d" by (simp add: same_coins_def)
  then have "same_coins d c'" using d(1) by (rule witness_sigops_same)
  ultimately show ?thesis by (rule same_coins_trans)
qed

lemma coin_age_loop_same: "cok c \<Longrightarrow> coin_age_loop params Hash get mem idx t b ins n c = Inr (r, c') \<Longrightarrow> same_coins c c'"
proof (induction ins arbitrary: c n)
  case (Cons i ins)
  obtain x d where x: "(if b then cache_GetCoin get mem c (prevout i) else (Some Coin_empty, c)) = (x, d)" by fastforce
  have s: "same_coins c d" using GetCoin_same [OF Cons.prems(1)] x same_coins_refl [OF Cons.prems(1)] by (auto split: if_splits)
  then have "cok d" by (simp add: same_coins_def)
  then have "same_coins d c'" using Cons.IH Cons.prems(2) x
    by (auto simp: Let_def same_coins_refl split: option.splits if_splits prod.splits sum.splits)
  then show ?case using s by (blast intro: same_coins_trans)
qed (simp add: same_coins_refl)

lemma GetCoinAge_same: "cok c \<Longrightarrow> GetCoinAge params Hash get mem idx tx c t b = Inr (r, c') \<Longrightarrow> same_coins c c'"
proof -
  assume c: "cok c" and g: "GetCoinAge params Hash get mem idx tx c t b = Inr (r, c')"
  show ?thesis
  proof (cases "IsCoinBase tx \<or> idx = None")
    case True
    then have "c' = c" using g by (auto simp: GetCoinAge_def split: if_splits)
    then show ?thesis using c by (simp add: same_coins_refl)
  next
    case False
    then obtain i where i: "idx = Some i" by blast
    obtain x d where x: "coin_age_loop params Hash get mem i t b (vin tx) (uint_null 8) c = Inr (x, d)"
      using g False i by (auto simp: GetCoinAge_def)
    have "c' = d" using g False i x by (cases x) (auto simp: GetCoinAge_def split: sum.splits)
    then show ?thesis using coin_age_loop_same [OF c x] by simp
  qed
qed

lemma check_inputs_spec:
  "cok c \<Longrightarrow> check_inputs params get mem h t ins n c = Inr (v, c') \<Longrightarrow> MoneyRange n \<Longrightarrow>
     same_coins c c' \<and> (\<forall>i \<in> set ins. cu c (prevout i) \<noteq> None \<and> MoneyRange (coin_value (cu c) (prevout i))) \<and>
     v = n + sum_list (map (\<lambda>i. coin_value (cu c) (prevout i)) ins) \<and> MoneyRange v"
proof (induction ins arbitrary: c n)
  case (Cons i ins)
  obtain x d where x: "AccessCoin get mem c (prevout i) = (x, d)" by fastforce
  have a: "\<not> IsSpent x" "MoneyRange (nValue (coin_out x))" "MoneyRange (n + nValue (coin_out x))"
    "check_inputs params get mem h t ins (n + nValue (coin_out x)) d = Inr (v, c')"
    using Cons.prems(2) x by (auto simp: Let_def split: if_splits)
  have s: "same_coins c d" "cu c (prevout i) = Some x" using AccessCoin_same [OF Cons.prems(1) x] a(1) by blast+
  have d: "cok d" "cu d = cu c" using s(1) by (simp_all add: same_coins_def)
  note ih = Cons.IH [OF d(1) a(4,3), unfolded d(2)]
  show ?case using ih s a(2) by (auto simp: coin_value_def intro: same_coins_trans)
qed (simp add: same_coins_refl)

text \<open>What an accepted transaction spends, creates and pays.\<close>

lemma CheckTxInputs_spec:
  assumes "cok c" "CheckTxInputs params Hash get mem idx tx c h t = Inr (fee, c')" "\<not> IsCoinBase tx"
  shows "same_coins c c'" "\<forall>i \<in> set (vin tx). cu c (prevout i) \<noteq> None \<and> MoneyRange (coin_value (cu c) (prevout i))"
    "MoneyRange (tx_value_in (cu c) tx)" "\<forall>out \<in> set (vout tx). MoneyRange (nValue out)" "MoneyRange (tx_value_out tx)"
    "if IsCoinStake tx then fee = tx_value_out tx - tx_value_in (cu c) tx
     else fee = tx_value_in (cu c) tx - tx_value_out tx \<and> MoneyRange fee \<and> GetMinFee tx \<le> fee"
proof -
  obtain hv d where hv: "HaveInputs get mem c tx = (hv, d)" by fastforce
  have s: "same_coins c d" by (rule HaveInputs_same [OF assms(1) hv])
  then have d: "cok d" "cu d = cu c" by (simp_all add: same_coins_def)
  obtain v e where e: "check_inputs params get mem h t (vin tx) 0 d = Inr (v, e)"
    using assms(2) hv by (auto simp: CheckTxInputs_def split: if_splits)
  have "MoneyRange 0" by (simp add: MoneyRange_iff MAX_MONEY_def COIN_def)
  note I = check_inputs_spec [OF d(1) e this, unfolded d(2)]
  have v: "v = tx_value_in (cu c) tx" using I by (simp add: tx_value_in_def)
  have se: "same_coins c e" using s I by (blast intro: same_coins_trans)
  have ce: "cok e" using se by (simp add: same_coins_def)
  show "\<forall>i \<in> set (vin tx). cu c (prevout i) \<noteq> None \<and> MoneyRange (coin_value (cu c) (prevout i))" "MoneyRange (tx_value_in (cu c) tx)"
    using I unfolding v [symmetric] by blast+
  have out: "GetValueOut tx = Inr (tx_value_out tx)" "\<forall>out \<in> set (vout tx). MoneyRange (nValue out)" "MoneyRange (tx_value_out tx)"
    using assms(2) hv e by (auto simp: CheckTxInputs_def GetValueOut_iff tx_value_out_def Let_def split: if_splits)
  show "\<forall>out \<in> set (vout tx). MoneyRange (nValue out)" "MoneyRange (tx_value_out tx)" using out by simp_all
  show "same_coins c c'"
  proof (cases "IsCoinStake tx")
    case True
    obtain age where "GetCoinAge params Hash get mem idx tx e t True = Inr (age, c')"
      using assms(2) hv e True by (auto simp: CheckTxInputs_def split: if_splits)
    then show ?thesis using GetCoinAge_same [OF ce] se by (blast intro: same_coins_trans)
  next
    case False
    then have "c' = e" using assms(2) hv e by (auto simp: CheckTxInputs_def Let_def split: if_splits)
    then show ?thesis using se by simp
  qed
  show "if IsCoinStake tx then fee = tx_value_out tx - tx_value_in (cu c) tx
     else fee = tx_value_in (cu c) tx - tx_value_out tx \<and> MoneyRange fee \<and> GetMinFee tx \<le> fee"
    using assms(2) hv e out(1) by (auto simp: CheckTxInputs_def v Let_def split: if_splits)
qed

end

lemma CheckTransaction_iff:
  "CheckTransaction tx = Inr () \<longleftrightarrow>
     vin tx \<noteq> [] \<and> vout tx \<noteq> [] \<and> length (SerializeTransaction True tx) * 4 \<le> MAX_BLOCK_WEIGHT \<and>
     (\<forall>out \<in> set (vout tx). output_valid tx out) \<and> tx_value_out tx \<le> MAX_MONEY \<and> distinct (map prevout (vin tx)) \<and>
     (if IsCoinBase tx then length (scriptSig (vin tx ! 0)) \<in> {2..100} else \<forall>i \<in> set (vin tx). \<not> COutPoint_IsNull (prevout i))"
proof -
  have "MoneyRange 0" by (simp add: MoneyRange_iff MAX_MONEY_def COIN_def)
  note outs = check_outputs_iff [OF this, of tx "vout tx"]
  have size: "tx_GetSerializeSize tx (PROTOCOL_VERSION OR SERIALIZE_TRANSACTION_NO_WITNESS) 0 = length (SerializeTransaction True tx)"
    by (simp add: tx_GetSerializeSize_def)
  show ?thesis
    unfolding CheckTransaction_def Let_def size using outs
    by (auto simp: unique_inputs_iff tx_value_out_def WITNESS_SCALE_FACTOR_def not_less not_le list_ex_iff)
qed

subsection \<open>Properties\<close>

text \<open>
  C10: the context-free check accepts exactly the well-formed transactions: inputs and outputs exist, four times the serialized size
  is at most the weight limit, no output is negative or below the minimum, the outputs sum up to at most \<^verbatim>\<open>MAX_MONEY\<close>
  without overflow on the way, no coin is spent twice, the script of a coinbase has 2 to 100 bytes and no other transaction
  has a null input.
\<close>

theorem CheckTransaction_exact:
  "CheckTransaction tx = Inr () \<longleftrightarrow>
     vin tx \<noteq> [] \<and> vout tx \<noteq> [] \<and> length (SerializeTransaction True tx) * 4 \<le> MAX_BLOCK_WEIGHT \<and>
     (\<forall>out \<in> set (vout tx). output_valid tx out) \<and> tx_value_out tx \<le> MAX_MONEY \<and> distinct (map prevout (vin tx)) \<and>
     (if IsCoinBase tx then length (scriptSig (vin tx ! 0)) \<in> {2..100} else \<forall>i \<in> set (vin tx). \<not> COutPoint_IsNull (prevout i))"
  by (rule CheckTransaction_iff)

definition small_coinbase :: CTransaction where
  "small_coinbase = \<lparr>vin = [\<lparr>prevout = COutPoint_null, scriptSig = [1, 2], nSequence = SEQUENCE_FINAL, scriptWitness = []\<rparr>],
     vout = [\<lparr>nValue = 5 * COIN, scriptPubKey = []\<rparr>], tx_nVersion = 2, tx_nTime = 7, nLockTime = 0\<rparr>"

theorem CheckTransaction_exact_witness: "CheckTransaction small_coinbase = Inr ()"
proof -
  have "length (SerializeTransaction True small_coinbase) \<le> 100"
    by (simp add: SerializeTransaction_def small_coinbase_def HasWitness_def VectorFormatter_ser_def WriteCompactSize_def ser_CTxIn_def ser_CTxOut_def
        ser_COutPoint_def ser_uint256_def ser_bytes_def COutPoint_null_def uint256_null_def ser_CAmount_def ser_writedata8_def ser_writedata32_def ser_writedata64_def)
  then show ?thesis
    unfolding CheckTransaction_exact
    by (auto simp: MAX_BLOCK_WEIGHT_def output_valid_def tx_value_out_def IsCoinBase_def)
       (simp_all add: small_coinbase_def COIN_def CENT_def MIN_TXOUT_AMOUNT_def MAX_MONEY_def COutPoint_IsNull_def COutPoint_null_def uint256_null_def blob_IsNull_def
         list_all_iff NULL_INDEX_def)
qed

text \<open>
  C11: relative lock times. On a well-formed chain \<^verbatim>\<open>SequenceLocks\<close> returns, and it accepts a transaction in a block exactly if the rule is
  not enforced or every input without the disable flag is old enough: its height plus the masked sequence number is at most
  the height of the block, or, with the type flag, the median time past before its block plus 512 seconds per unit is at most the
  median time past before this block.
\<close>

theorem sequence_locks_bip68:
  assumes "wf_store s" "pprev (s block) = Some q" "length prevHeights = length (vin tx)" "\<forall>h \<in> set prevHeights. h \<le> nHeight (s block) + 1"
  shows "\<exists>hs. SequenceLocks s tx flags prevHeights block =
    Inr (tx_nVersion tx < 2 \<or> flags AND LOCKTIME_VERIFY_SEQUENCE = 0 \<or>
         (\<forall>i < length (vin tx). let n = nSequence (vin tx ! i); v = uint (n AND SEQUENCE_LOCKTIME_MASK) in
            n AND SEQUENCE_LOCKTIME_DISABLE_FLAG \<noteq> 0 \<or>
            (if n AND SEQUENCE_LOCKTIME_TYPE_FLAG \<noteq> 0
             then GetMedianTimePast s (the (ancestor_at s block (max (prevHeights ! i - 1) 0))) + 512 * v \<le> GetMedianTimePast s q
             else prevHeights ! i + v \<le> nHeight (s block))), hs)"
proof -
  have iff: "(\<forall>(txin, h) \<in> set (zip (vin tx) prevHeights). input_unlocked s block txin h) \<longleftrightarrow>
      (\<forall>i < length (vin tx). input_unlocked s block (vin tx ! i) (prevHeights ! i))"
    using assms(3) by (auto simp: set_zip)
  show ?thesis using SequenceLocks_spec [OF assms, of flags, unfolded iff] unfolding input_unlocked_def assms(2) option.sel Let_def .
qed

theorem sequence_locks_bip68_witness:
  "\<exists>hs. SequenceLocks sample_store \<lparr>vin = [\<lparr>prevout = COutPoint_null, scriptSig = [], nSequence = 3, scriptWitness = []\<rparr>], vout = [],
       tx_nVersion = 2, tx_nTime = 0, nLockTime = 0\<rparr> 1 [2] 4 = Inr (False, hs)"
proof -
  have pos: "All ((<) (0::nat)) = False" by auto
  show ?thesis
    using sequence_locks_bip68 [of sample_store 4 3 "[2]" "\<lparr>vin = [\<lparr>prevout = COutPoint_null, scriptSig = [], nSequence = 3, scriptWitness = []\<rparr>], vout = [],
       tx_nVersion = 2, tx_nTime = 0, nLockTime = 0\<rparr>" 1] wf_sample_store
    by (simp add: pos sample_store_def SEQUENCE_LOCKTIME_DISABLE_FLAG_def SEQUENCE_LOCKTIME_TYPE_FLAG_def SEQUENCE_LOCKTIME_MASK_def LOCKTIME_VERIFY_SEQUENCE_def)
qed

text \<open>
  C22: witness data gets no discount. Because \<^verbatim>\<open>GetSerializeSize\<close> takes the stream type first, the flag that should leave the witness out is
  passed as the type: the weight of a transaction or a block is four times its full size, not three times the stripped
  size plus the full size as the comment says, and the two differ for every transaction with witness data.
\<close>

theorem weight_without_discount:
  "GetTransactionWeight tx = 4 * length (SerializeTransaction True tx) \<and>
   GetBlockWeight block = 4 * length (ser_CBlock PROTOCOL_VERSION True block) \<and>
   (HasWitness tx \<longrightarrow> length (SerializeTransaction False tx) * 3 + length (SerializeTransaction True tx) < GetTransactionWeight tx)"
proof -
  have "GetTransactionWeight tx = 4 * length (SerializeTransaction True tx)"
    by (simp add: GetTransactionWeight_def tx_GetSerializeSize_def WITNESS_SCALE_FACTOR_def)
  moreover have "header_has_flags (PROTOCOL_VERSION OR SERIALIZE_TRANSACTION_NO_WITNESS) = header_has_flags PROTOCOL_VERSION" by code_simp
  then have "length (ser_CBlock (PROTOCOL_VERSION OR SERIALIZE_TRANSACTION_NO_WITNESS) True block) = length (ser_CBlock PROTOCOL_VERSION True block)"
    by (simp add: ser_CBlock_def ser_CBlockHeader_def)
  then have "GetBlockWeight block = 4 * length (ser_CBlock PROTOCOL_VERSION True block)"
    by (simp add: GetBlockWeight_def block_GetSerializeSize_def WITNESS_SCALE_FACTOR_def)
  moreover have "length (SerializeTransaction False tx) < length (SerializeTransaction True tx)" if "HasWitness tx"
    using that by (simp add: SerializeTransaction_def ser_writedata8_def)
  ultimately show ?thesis by simp
qed

definition witness_tx :: CTransaction where
  "witness_tx = small_coinbase\<lparr>vin := [(vin small_coinbase ! 0)\<lparr>scriptWitness := [[7]]\<rparr>]\<rparr>"

theorem weight_without_discount_witness:
  "length (SerializeTransaction False witness_tx) * 3 + length (SerializeTransaction True witness_tx) < GetTransactionWeight witness_tx"
proof -
  have "HasWitness witness_tx" by (simp add: witness_tx_def HasWitness_def)
  then show ?thesis using weight_without_discount [of witness_tx undefined] by blast
qed

end
