(* ===== verification/Bignum.thy ===== *)
theory Bignum
  imports Script Compact_Bits
begin

text \<open>
  The wrapper of OpenSSL's integers, \<^verbatim>\<open>src/src/bignum.h\<close>. A \<^verbatim>\<open>CBigNum\<close> is an integer; the two OpenSSL
  functions that convert from and to byte strings are arguments of the definitions that call them, with
  their documented format (\<^verbatim>\<open>BN_mpi2bn\<close>, \<^verbatim>\<open>BN_bn2mpi\<close>) as a hypothesis of the lemmas.
\<close>

unbundle bit_operations_syntax

subsection \<open>The MPI format\<close>

text \<open>A big-endian magnitude whose top bit is the sign, behind its length in four bytes.\<close>

definition be_value :: "bytes \<Rightarrow> nat" where
  "be_value b = le_value (rev b)"

definition mpi_value :: "bytes \<Rightarrow> int" where
  "mpi_value p = (case p of [] \<Rightarrow> 0
     | b # bs \<Rightarrow> if b AND 0x80 \<noteq> 0 then - int (be_value ((b AND 0x7f) # bs)) else int (be_value (b # bs)))"

definition mpi_minimal :: "bytes \<Rightarrow> bool" where
  "mpi_minimal p \<longleftrightarrow> (case p of [] \<Rightarrow> True
     | b # bs \<Rightarrow> b AND 0x7f \<noteq> 0 \<or> (case bs of [] \<Rightarrow> False | c # _ \<Rightarrow> c AND 0x80 \<noteq> 0))"

definition be32 :: "nat \<Rightarrow> bytes" where
  "be32 nSize = [word_of_nat (nSize div 2 ^ 24), word_of_nat (nSize div 2 ^ 16), word_of_nat (nSize div 2 ^ 8), word_of_nat nSize]"

definition mpi2bn_spec :: "(bytes \<Rightarrow> int) \<Rightarrow> bool" where
  "mpi2bn_spec mpi2bn \<longleftrightarrow> (\<forall>p. length p < 2 ^ 32 \<longrightarrow> mpi2bn (be32 (length p) @ p) = mpi_value p)"

definition bn2mpi_spec :: "(int \<Rightarrow> bytes) \<Rightarrow> bool" where
  "bn2mpi_spec bn2mpi \<longleftrightarrow> (\<forall>n. \<exists>p. bn2mpi n = be32 (length p) @ p \<and> mpi_value p = n \<and> mpi_minimal p)"

subsection \<open>Conversions\<close>

text \<open>The loop \<^verbatim>\<open>while (m) { *--p = m; m >>= 8; }\<close>.\<close>

function push_front :: "u64 \<Rightarrow> bytes \<Rightarrow> bytes" where
  "push_front m p = (if m \<noteq> 0 then push_front (drop_bit 8 m) (ucast m # p) else p)"
  by pat_completeness auto
termination by (relation "measure (\<lambda>(m, p). unat m)") (auto intro: drop8_less)

declare push_front.simps [simp del]

definition setint64 :: "(bytes \<Rightarrow> int) \<Rightarrow> int \<Rightarrow> int" where
  "setint64 mpi2bn n =
     (let neg = (if n < 0 then 0x80 else 0 :: u8);
          m = (if n < 0 then word_of_int (- n) else word_of_int n :: u64);
          p = push_front m [];
          p = (case p of [] \<Rightarrow> [] | b # bs \<Rightarrow> if b \<ge> 0x80 then neg # b # bs else b # bs);
          p = (case p of [] \<Rightarrow> [] | b # bs \<Rightarrow> (b OR neg) # bs)
      in mpi2bn ([0, 0, 0, word_of_nat (length p)] @ p))"

definition setuint64 :: "(bytes \<Rightarrow> int) \<Rightarrow> u64 \<Rightarrow> int" where
  "setuint64 mpi2bn n =
     (let p = push_front n [];
          p = (case p of [] \<Rightarrow> [] | b # bs \<Rightarrow> if b \<ge> 0x80 then 0 # b # bs else b # bs)
      in mpi2bn ([0, 0, 0, word_of_nat (length p)] @ p))"

text \<open>The loop of \<^verbatim>\<open>setuint256\<close> over the bytes from the most significant one.\<close>

fun skip_leading :: "bool \<Rightarrow> bytes \<Rightarrow> bytes" where
  "skip_leading fLeadingZeroes [] = []"
| "skip_leading fLeadingZeroes (c # cs) =
     (if fLeadingZeroes then
        if c = 0 then skip_leading True cs
        else if c AND 0x80 \<noteq> 0 then 0 # c # skip_leading False cs
        else c # skip_leading False cs
      else c # skip_leading False cs)"

definition setuint256 :: "(bytes \<Rightarrow> int) \<Rightarrow> uint256 \<Rightarrow> int" where
  "setuint256 mpi2bn n = (let p = skip_leading True (rev n) in mpi2bn (be32 (length p) @ p))"

definition low_bytes :: "nat \<Rightarrow> bytes \<Rightarrow> bytes" where
  "low_bytes k vch =
     (let vch = (if length vch > 4 then vch[4 := vch ! 4 AND 0x7f] else vch);
          b = take k (rev (drop 4 vch))
      in b @ replicate (k - length b) 0)"

definition getuint64 :: "(int \<Rightarrow> bytes) \<Rightarrow> int \<Rightarrow> u64" where
  "getuint64 bn2mpi n = (if length (bn2mpi n) < 4 then 0 else word_of_nat (le_value (low_bytes 8 (bn2mpi n))))"

definition getuint256 :: "(int \<Rightarrow> bytes) \<Rightarrow> int \<Rightarrow> uint256" where
  "getuint256 bn2mpi n = (if length (bn2mpi n) < 4 then replicate 32 0 else low_bytes 32 (bn2mpi n))"

definition setvch :: "(bytes \<Rightarrow> int) \<Rightarrow> bytes \<Rightarrow> int" where
  "setvch mpi2bn vch = mpi2bn (be32 (length vch) @ rev vch)"

definition getvch :: "(int \<Rightarrow> bytes) \<Rightarrow> int \<Rightarrow> bytes" where
  "getvch bn2mpi n = (if length (bn2mpi n) \<le> 4 then [] else rev (drop 4 (bn2mpi n)))"

subsection \<open>The compact format\<close>

text \<open>The number of bytes of a magnitude.\<close>

fun BN_num_bytes :: "nat \<Rightarrow> nat" where
  "BN_num_bytes n = (if n = 0 then 0 else Suc (BN_num_bytes (n div 256)))"

declare BN_num_bytes.simps [simp del]

definition bn_SetCompact :: "u32 \<Rightarrow> int" where
  "bn_SetCompact nCompact =
     (let nSize = unat (drop_bit 24 nCompact);
          fNegative = (nCompact AND 0x00800000 \<noteq> 0);
          nWord = nCompact AND 0x007fffff;
          self = (if nSize \<le> 3 then unat (drop_bit (8 * (3 - nSize)) nWord)
                  else push_bit (8 * (nSize - 3)) (unat nWord))
      in if fNegative then - int self else int self)"

definition bn_GetCompact :: "int \<Rightarrow> u32" where
  "bn_GetCompact self =
     (let mag = nat \<bar>self\<bar>;
          nSize = BN_num_bytes mag;
          nCompact = (if nSize \<le> 3 then word_of_nat (push_bit (8 * (3 - nSize)) mag)
                      else word_of_nat (drop_bit (8 * (nSize - 3)) mag) :: u32);
          carry = (nCompact AND 0x00800000 \<noteq> 0);
          nCompact = (if carry then drop_bit 8 nCompact else nCompact);
          nSize = (if carry then nSize + 1 else nSize);
          nCompact = nCompact OR push_bit 24 (word_of_nat nSize)
      in nCompact OR (if self < 0 then 0x00800000 else 0))"

subsection \<open>The conversions give the value\<close>

lemma ucast_low8: "ucast (m AND 0xff) = (ucast (m :: u64) :: u8)"
proof -
  have "unat (ucast (m AND 0xff) :: u8) = unat m mod 256" by (rule unat_low8)
  also have "\<dots> = unat (ucast m :: u8)" unfolding unat_ucast_mod by simp
  finally show ?thesis by (rule word_unat_eq_iff [THEN iffD2])
qed

lemma push_front_eq: "push_front m p = rev (abs_bytes m) @ p"
proof (induction m p rule: push_front.induct)
  case (1 m p)
  then show ?case by (subst push_front.simps, subst abs_bytes.simps) (auto simp: ucast_low8)
qed

lemma length_abs_bytes_le: "unat a < 256 ^ k \<Longrightarrow> length (abs_bytes a) \<le> k"
proof (induction k arbitrary: a)
  case 0
  then show ?case by (subst abs_bytes.simps) (simp add: unat_eq_0)
next
  case (Suc k)
  have "unat (drop_bit 8 a) < 256 ^ k" using Suc.prems by (simp add: unat_drop_bit less_mult_imp_div_less mult.commute)
  then show ?case using Suc.IH by (subst abs_bytes.simps) simp
qed

lemma length_push_front: "length (push_front m []) \<le> 8"
  using length_abs_bytes_le [of m 8] unat_u64_lt [of m] by (simp add: push_front_eq)

lemma be32_small: "n < 256 \<Longrightarrow> be32 n = [0, 0, 0, word_of_nat n]"
  by (simp add: be32_def)

lemma byte_sign: "(b :: u8) AND 0x80 \<noteq> 0 \<longleftrightarrow> 0x80 \<le> b"
  by (simp add: high_flag word_le_nat_alt)

lemma byte_or_sign: "b < 0x80 \<Longrightarrow> (b OR 0x80) AND 0x80 \<noteq> 0 \<and> (b OR 0x80) AND 0x7f = (b :: u8)"
proof -
  assume b: "b < 0x80"
  then have "b AND 0x80 = 0" using byte_sign [of b] by auto
  then have n: "\<not> bit b 7" by (simp add: flag_bit)
  have "bit (b OR 0x80) 7" by (simp add: bit_or_iff flag_bit [symmetric])
  then have 1: "(b OR 0x80) AND 0x80 \<noteq> 0" by (simp add: flag_bit)
  have "(b OR 0x80) AND 0x7f = b"
  proof (rule bit_word_eqI)
    fix i assume "i < LENGTH(8)"
    then have "i \<in> {0, 1, 2, 3, 4, 5, 6, 7}" by auto
    then show "bit ((b OR 0x80) AND 0x7f) i = bit b i" using n by (auto simp: bit_simps)
  qed
  then show ?thesis using 1 by simp
qed

lemma be_value_Cons_0: "be_value (0 # p) = be_value p"
  by (simp add: be_value_def le_value_append)

lemma mpi_value_pos:
  "mpi_value (case p of [] \<Rightarrow> [] | b # bs \<Rightarrow> if b \<ge> 0x80 then 0 # b # bs else b # bs) = int (be_value p)"
  by (cases p) (auto simp: mpi_value_def be_value_Cons_0 byte_sign, simp add: be_value_def)

lemma mpi_value_neg:
  assumes "p \<noteq> []"
  shows "mpi_value (case (case p of [] \<Rightarrow> [] | b # bs \<Rightarrow> if b \<ge> 0x80 then 0x80 # b # bs else b # bs) of
      [] \<Rightarrow> [] | b # bs \<Rightarrow> (b OR 0x80) # bs) = - int (be_value p)"
  using assms byte_or_sign [of "hd p"] by (cases p) (auto simp: mpi_value_def be_value_Cons_0)

lemma be_value_push_front: "be_value (push_front m []) = unat m"
  by (simp add: push_front_eq be_value_def le_value_abs_bytes)

lemma mpi2bn_small:
  assumes "mpi2bn_spec mpi2bn" "length p < 256"
  shows "mpi2bn ([0, 0, 0, word_of_nat (length p)] @ p) = mpi_value p"
proof -
  have "length p < 2 ^ 32" using assms(2) by simp
  then have "mpi2bn (be32 (length p) @ p) = mpi_value p" using assms(1) unfolding mpi2bn_spec_def by blast
  then show ?thesis unfolding be32_small [OF assms(2)] .
qed

lemma setuint64_value:
  assumes "mpi2bn_spec mpi2bn"
  shows "setuint64 mpi2bn n = int (unat n)"
proof -
  define p where "p = (case push_front n [] of [] \<Rightarrow> [] | b # bs \<Rightarrow> if b \<ge> 0x80 then 0 # b # bs else b # bs)"
  have "length p < 256" using length_push_front [of n] by (auto simp: p_def split: list.splits)
  then have "setuint64 mpi2bn n = mpi_value p"
    unfolding setuint64_def Let_def p_def by (rule mpi2bn_small [OF assms])
  then show ?thesis unfolding p_def mpi_value_pos be_value_push_front .
qed

lemma setint64_value:
  assumes "mpi2bn_spec mpi2bn" "fits_int64 n"
  shows "setint64 mpi2bn n = n"
proof -
  define m :: u64 where "m = (if n < 0 then word_of_int (- n) else word_of_int n)"
  have "uint (word_of_int k :: u64) = k" if "0 \<le> k" "k < 2 ^ 64" for k
    using that by (simp add: uint_word_of_int)
  moreover have "\<bar>n\<bar> < 2 ^ 64" using assms(2) by (auto simp: fits_int64_def)
  ultimately have "uint (word_of_int \<bar>n\<bar> :: u64) = \<bar>n\<bar>" by simp
  then have m: "int (unat m) = \<bar>n\<bar>" by (auto simp: m_def abs_if split: if_splits)
  define q where "q = (case push_front m [] of [] \<Rightarrow> [] | b # bs \<Rightarrow> if b \<ge> 0x80 then (if n < 0 then 0x80 else 0) # b # bs else b # bs)"
  define p where "p = (case q of [] \<Rightarrow> [] | b # bs \<Rightarrow> (b OR (if n < 0 then 0x80 else 0)) # bs)"
  have "length p < 256" using length_push_front [of m] by (auto simp: p_def q_def split: list.splits)
  then have v: "setint64 mpi2bn n = mpi_value p"
    unfolding setint64_def Let_def p_def q_def m_def by (rule mpi2bn_small [OF assms(1)])
  show ?thesis
  proof (cases "n < 0")
    case True
    then have "m \<noteq> 0" using m by auto
    then have "push_front m [] \<noteq> []" using be_value_push_front [of m] by (auto simp: be_value_def unat_eq_0)
    from mpi_value_neg [OF this] have "mpi_value p = - int (be_value (push_front m []))"
      using True by (simp add: p_def q_def)
    then show ?thesis using v m True by (simp add: be_value_push_front)
  next
    case False
    then have "p = (case push_front m [] of [] \<Rightarrow> [] | b # bs \<Rightarrow> if b \<ge> 0x80 then 0 # b # bs else b # bs)"
      by (auto simp: p_def q_def split: list.splits)
    then show ?thesis using v m False by (simp add: mpi_value_pos be_value_push_front)
  qed
qed

text \<open>A 256-bit number keeps its value; here the leading zero bytes are skipped.\<close>

lemma skip_leading_False: "skip_leading False cs = cs"
  by (induction cs) simp_all

lemma mpi_value_skip_leading: "mpi_value (skip_leading True cs) = int (be_value cs)"
proof (induction cs)
  case (Cons c cs)
  then show ?case
    by (auto simp: skip_leading_False mpi_value_def be_value_Cons_0)
qed (simp add: mpi_value_def be_value_def)

lemma length_skip_leading: "length (skip_leading z cs) \<le> Suc (length cs)"
  by (induction z cs rule: skip_leading.induct) (auto simp: skip_leading_False)

lemma setuint256_value:
  assumes "mpi2bn_spec mpi2bn" "length n = 32"
  shows "setuint256 mpi2bn n = int (le_value n)"
proof -
  have "length (skip_leading True (rev n)) < 2 ^ 32" using length_skip_leading [of True "rev n"] assms(2) by simp
  then have "setuint256 mpi2bn n = mpi_value (skip_leading True (rev n))"
    using assms(1) unfolding setuint256_def mpi2bn_spec_def Let_def by blast
  then show ?thesis by (simp add: mpi_value_skip_leading be_value_def)
qed

subsection \<open>The compact format\<close>

lemma BN_num_bytes_size: "compact_size x (BN_num_bytes x)"
proof (induction x rule: BN_num_bytes.induct)
  case (1 x)
  show ?case
  proof (cases "x = 0")
    case True
    then show ?thesis by (subst BN_num_bytes.simps) (simp add: compact_size_def)
  next
    case False
    let ?n = "BN_num_bytes (x div 256)"
    have n: "BN_num_bytes x = Suc ?n" using False by (subst BN_num_bytes.simps) simp
    have IH: "x div 256 < 256 ^ ?n" "?n \<noteq> 0 \<Longrightarrow> 256 ^ (?n - 1) \<le> x div 256"
      using 1 [OF False] by (simp_all add: compact_size_def)
    have "x < 256 ^ Suc ?n" using IH(1) by (simp add: div_less_iff_less_mult mult.commute)
    moreover have "256 ^ ?n \<le> x"
    proof (cases ?n)
      case 0
      then show ?thesis using False by simp
    next
      case (Suc k)
      then have "256 ^ k \<le> x div 256" using IH(2) by simp
      then have "256 ^ k * 256 \<le> x" by (simp add: less_eq_div_iff_mult_less_eq)
      then show ?thesis using Suc by (simp add: mult.commute)
    qed
    ultimately show ?thesis unfolding n by (simp add: compact_size_def)
  qed
qed

lemma bn_GetCompact_code:
  assumes n: "0 \<le> self" and c: "compact_code (nat self) (BN_num_bytes (nat self)) = (m, s)" and s256: "s < 256"
  shows "unat (bn_GetCompact self) = m + s * 2 ^ 24"
proof -
  define x where "x = nat self"
  define k where "k = BN_num_bytes x"
  have sz: "compact_size x k" unfolding k_def by (rule BN_num_bytes_size)
  define w :: u32 where "w = (if k \<le> 3 then word_of_nat (push_bit (8 * (3 - k)) x) else word_of_nat (drop_bit (8 * (k - 3)) x))"
  have b: "mant3 x k < 2 ^ 24" by (rule mant3_bound [OF sz])
  have mant: "(if k \<le> 3 then push_bit (8 * (3 - k)) x else drop_bit (8 * (k - 3)) x) = mant3 x k"
    by (simp add: mant3_def pow256 push_bit_eq_mult drop_bit_eq_div)
  have w: "unat w = mant3 x k" unfolding w_def using b mant by (auto simp: unat_word_of_nat split: if_splits)
  have w24: "unat w < 2 ^ 24" using w b by simp
  have carry: "w AND 0x00800000 \<noteq> 0 \<longleftrightarrow> 2 ^ 23 \<le> mant3 x k" using and_bit23 [OF w24] w by simp
  define w1 where "w1 = (if w AND 0x00800000 \<noteq> 0 then drop_bit 8 w else w)"
  have s: "s = (if w AND 0x00800000 \<noteq> 0 then k + 1 else k)" and w1: "unat w1 = m"
    using c w unfolding carry w1_def k_def [symmetric] x_def [symmetric]
    by (auto simp: compact_code_def unat_drop_bit split: if_splits)
  have m: "m < 2 ^ 23" using compact_code_bounds(1) [OF sz] c by (simp add: k_def x_def)
  have "bn_GetCompact self = w1 OR push_bit 24 (word_of_nat s)"
    using n unfolding bn_GetCompact_def Let_def by (simp add: w_def w1_def s k_def x_def)
  then show ?thesis using unat_or_size [of w1 s] w1 m s256 by simp
qed

text \<open>On targets the two implementations of the compact format agree.\<close>

lemma bn_GetCompact_eq:
  assumes "length pn = 8"
  shows "GetCompact pn False = Some (bn_GetCompact (int (le_value pn)))"
proof -
  let ?n = "(bits pn + 7) div 8"
  obtain m s where ms: "compact_code (le_value pn) ?n = (m, s)" by fastforce
  have e: "BN_num_bytes (le_value pn) = ?n" by (rule compact_size_unique [OF BN_num_bytes_size compact_size_bits])
  have "s \<le> ?n + 1" by (rule compact_code_bounds(2) [OF compact_size_bits ms])
  then have "s < 256" using bits_le [of pn] assms by simp
  then have "unat (bn_GetCompact (int (le_value pn))) = m + s * 2 ^ 24"
    using ms by (intro bn_GetCompact_code) (simp_all add: e)
  then show ?thesis using GetCompact_code [OF assms ms] by (auto simp: word_unat_eq_iff)
qed

lemma shift_no_overflow:
  fixes w :: u32
  assumes "unat w < 2 ^ 23" "w \<noteq> 0 \<longrightarrow> \<not> (s > 34 \<or> (w > 0xff \<and> s > 33) \<or> (w > 0xffff \<and> s > 32))"
  shows "unat w * 2 ^ (8 * (s - 3)) < (2 ^ 256 :: nat)"
proof (cases "w = 0")
  case False
  then have no: "s \<le> 34" "s > 33 \<Longrightarrow> unat w \<le> 255" "s > 32 \<Longrightarrow> unat w \<le> 65535"
    using assms(2) by (auto simp: word_less_nat_alt not_less)
  consider "s \<le> 32" | "s = 33" "unat w \<le> 65535" | "s = 34" "unat w \<le> 255"
    using no by (cases "s \<le> 32"; cases "s = 33") auto
  then show ?thesis
  proof cases
    case 1
    then have "(2 :: nat) ^ (8 * (s - 3)) \<le> 2 ^ 232" by (intro power_increasing) auto
    then have "unat w * 2 ^ (8 * (s - 3)) \<le> unat w * 2 ^ 232" by (rule mult_le_mono2)
    also have "\<dots> < 2 ^ 23 * 2 ^ 232" using assms(1) by simp
    also have "\<dots> < 2 ^ 256" by simp
    finally show ?thesis .
  qed simp_all
qed simp

lemma bn_SetCompact_eq:
  assumes "SetCompact c = (v, False, False)"
  shows "bn_SetCompact c = int (le_value v)"
proof -
  define s where "s = unat (drop_bit 24 c)"
  define w where "w = (if s \<le> 3 then drop_bit (8 * (3 - s)) (c AND 0x007fffff) else c AND 0x007fffff)"
  have v: "v = (if s \<le> 3 then uint_of_u64 8 (ucast w) else uint_shl (uint_of_u64 8 (ucast w)) (8 * (s - 3)))"
    and neg: "\<not> (w \<noteq> 0 \<and> c AND 0x00800000 \<noteq> 0)"
    and ovf: "w \<noteq> 0 \<longrightarrow> \<not> (s > 34 \<or> (w > 0xff \<and> s > 33) \<or> (w > 0xffff \<and> s > 32))"
    using assms unfolding SetCompact_def Let_def s_def [symmetric] w_def [symmetric] by auto
  have "unat (c AND 0x007fffff) < 2 ^ 23" unfolding unat_low23 by simp
  moreover have "unat w \<le> unat (c AND 0x007fffff)"
    unfolding w_def by (cases "s \<le> 3") (simp_all only: if_True if_False unat_drop_bit div_le_dividend order_refl)
  ultimately have "unat w < 2 ^ 23" by (rule le_less_trans [rotated])
  from shift_no_overflow [OF this ovf] have lt: "unat w * 2 ^ (8 * (s - 3)) < 2 ^ 256" .
  have val: "le_value v = (if s \<le> 3 then unat w else unat w * 2 ^ (8 * (s - 3)))"
    using lt by (simp add: v val_uint_shl val_uint_of_u64 unat_ucast_up)
  have "bn_SetCompact c = (if c AND 0x00800000 \<noteq> 0 then - int (le_value v) else int (le_value v))"
    unfolding bn_SetCompact_def Let_def s_def [symmetric] val by (simp add: w_def push_bit_eq_mult)
  moreover have "le_value v = 0" if "c AND 0x00800000 \<noteq> 0" using that neg val by simp
  ultimately show ?thesis by auto
qed

subsection \<open>Reading the value back\<close>

lemma take_rev_value:
  fixes b :: bytes
  shows "le_value (take k b @ replicate (k - length (take k b)) 0) = le_value b mod 2 ^ (8 * k)"
proof (cases "length b \<le> k")
  case True
  have "le_value b < 2 ^ (8 * length b)" using le_value_bound [of b] by simp
  also have "\<dots> \<le> (2 :: nat) ^ (8 * k)" using True by (intro power_increasing) auto
  finally show ?thesis using True by (simp add: le_value_append)
next
  case False
  have "le_value b = le_value (take k b) + 2 ^ (8 * k) * le_value (drop k b)"
    using le_value_append [of "take k b" "drop k b"] False by (simp add: min_def)
  moreover have "le_value (take k b) < 2 ^ (8 * k)" using le_value_bound [of "take k b"] False by (simp add: min_def)
  ultimately show ?thesis using False by simp
qed

lemma length_be32: "length (be32 n) = 4"
  by (simp add: be32_def)

lemma low_bytes_mpi:
  "le_value (low_bytes k (be32 (length p) @ p)) = nat \<bar>mpi_value p\<bar> mod 2 ^ (8 * k)"
proof (cases p)
  case Nil
  then show ?thesis by (simp add: low_bytes_def mpi_value_def length_be32)
next
  case (Cons b bs)
  have b7: "b AND 0x80 = 0 \<Longrightarrow> b AND 0x7f = b"
  proof -
    assume "b AND 0x80 = 0"
    then have "b < 0x80" using byte_sign [of b] by (simp add: not_le)
    have "(b OR 0x80) AND 0x7f = b AND 0x7f" by (rule bit_word_eqI) (auto simp: bit_simps less_Suc_eq numeral_eq_Suc)
    then show ?thesis using byte_or_sign [OF \<open>b < 0x80\<close>] by simp
  qed
  then have "nat \<bar>mpi_value p\<bar> = be_value ((b AND 0x7f) # bs)" by (auto simp: mpi_value_def Cons)
  moreover have "(be32 (length p) @ p)[4 := (be32 (length p) @ p) ! 4 AND 0x7f] = be32 (length p) @ (b AND 0x7f) # bs"
    by (simp add: Cons list_update_append nth_append length_be32)
  moreover have "drop 4 (be32 (length p) @ (b AND 0x7f) # bs) = (b AND 0x7f) # bs" by (simp add: length_be32)
  moreover have "4 < length (be32 (length p) @ p)" by (simp add: Cons length_be32)
  ultimately show ?thesis by (simp only: low_bytes_def Let_def if_True take_rev_value be_value_def)
qed

lemma getuint256_value:
  assumes "bn2mpi_spec bn2mpi"
  shows "le_value (getuint256 bn2mpi n) = nat \<bar>n\<bar> mod 2 ^ 256"
proof -
  obtain p where "bn2mpi n = be32 (length p) @ p" "mpi_value p = n" using assms unfolding bn2mpi_spec_def by blast
  then show ?thesis using low_bytes_mpi [of 32 p] by (simp add: getuint256_def length_be32)
qed

lemma length_low_bytes: "length (low_bytes k v) = k"
  by (simp add: low_bytes_def Let_def)

lemma getuint256_setuint256:
  assumes "mpi2bn_spec mpi2bn" "bn2mpi_spec bn2mpi" "length n = 32"
  shows "getuint256 bn2mpi (setuint256 mpi2bn n) = n"
proof -
  have "le_value n < 2 ^ 256" using le_value_bound [of n] assms(3) by simp
  then have "le_value (getuint256 bn2mpi (setuint256 mpi2bn n)) = le_value n"
    by (simp add: getuint256_value [OF assms(2)] setuint256_value [OF assms(1,3)])
  moreover have "length (getuint256 bn2mpi x) = length n" for x
    by (simp add: getuint256_def length_low_bytes assms(3))
  ultimately show ?thesis using le_value_inj by blast
qed

lemma setvch_getvch:
  assumes "mpi2bn_spec mpi2bn" "bn2mpi_spec bn2mpi" "length (getvch bn2mpi n) < 2 ^ 32"
  shows "setvch mpi2bn (getvch bn2mpi n) = n"
proof -
  obtain p where p: "bn2mpi n = be32 (length p) @ p" "mpi_value p = n" using assms(2) unfolding bn2mpi_spec_def by blast
  then have g: "getvch bn2mpi n = rev p" by (auto simp: getvch_def length_be32)
  then have "mpi2bn (be32 (length p) @ p) = mpi_value p" using assms(1,3) unfolding mpi2bn_spec_def by simp
  then show ?thesis using p(2) by (simp add: setvch_def g)
qed

subsection \<open>Properties\<close>

text \<open>
  The conversions into OpenSSL numbers keep the value for every 64-bit and 256-bit number, the
  conversion back returns the 256-bit number, and on targets the compact encoding through OpenSSL and the
  one of \<^verbatim>\<open>arith_uint256\<close> give the same bits.
\<close>

theorem bignum_conversions:
  assumes "mpi2bn_spec mpi2bn" "bn2mpi_spec bn2mpi" "fits_int64 i" "length u = 32" "length pn = 8"
  shows "setint64 mpi2bn i = i \<and> setuint64 mpi2bn w = int (unat w) \<and> setuint256 mpi2bn u = int (le_value u) \<and>
     getuint256 bn2mpi (setuint256 mpi2bn u) = u \<and> GetCompact pn False = Some (bn_GetCompact (int (le_value pn)))"
  using setint64_value [OF assms(1,3)] setuint64_value [OF assms(1), of w] setuint256_value [OF assms(1,4)]
    getuint256_setuint256 [OF assms(1,2,4)] bn_GetCompact_eq [OF assms(5)] by blast

text \<open>Functions with the documented behaviour of \<^verbatim>\<open>BN_mpi2bn\<close> and \<^verbatim>\<open>BN_bn2mpi\<close>.\<close>

definition sample_mpi2bn :: "bytes \<Rightarrow> int" where
  "sample_mpi2bn b = mpi_value (drop 4 b)"

fun be_digits :: "nat \<Rightarrow> bytes \<Rightarrow> bytes" where
  "be_digits n acc = (if n = 0 then acc else be_digits (n div 256) (word_of_nat n # acc))"

declare be_digits.simps [simp del]

definition sample_bn2mpi :: "int \<Rightarrow> bytes" where
  "sample_bn2mpi n =
     (let p = be_digits (nat \<bar>n\<bar>) [];
          p = (case p of [] \<Rightarrow> [] | b # bs \<Rightarrow> if b \<ge> 0x80 then (if n < 0 then 0x80 else 0) # b # bs else b # bs);
          p = (case p of [] \<Rightarrow> [] | b # bs \<Rightarrow> (b OR (if n < 0 then 0x80 else 0)) # bs)
      in be32 (length p) @ p)"

lemma be_digits_value: "be_value (be_digits n []) = n \<and> (if n = 0 then be_digits n [] = [] else be_digits n [] \<noteq> [] \<and> hd (be_digits n []) \<noteq> 0)"
proof -
  have "\<exists>d. be_digits n acc = d @ acc \<and> be_value d = n \<and> (if n = 0 then d = [] else d \<noteq> [] \<and> hd d \<noteq> 0)" for acc
  proof (induction n acc rule: be_digits.induct)
    case (1 n acc)
    show ?case
    proof (cases "n = 0")
      case True
      then show ?thesis by (subst be_digits.simps) (simp add: be_value_def)
    next
      case False
      obtain d where d: "be_digits (n div 256) (word_of_nat n # acc) = d @ word_of_nat n # acc" "be_value d = n div 256"
        "if n div 256 = 0 then d = [] else d \<noteq> [] \<and> hd d \<noteq> 0" using 1 [OF False] by blast
      have u: "unat (word_of_nat n :: u8) = n mod 256" by (simp add: unat_of_nat)
      have dn: "d = [] \<longleftrightarrow> n div 256 = 0" using d(3) by (auto split: if_splits)
      have "hd (d @ [word_of_nat n :: u8]) \<noteq> 0"
      proof (cases "n div 256 = 0")
        case True
        then have "n mod 256 \<noteq> 0" using False by (metis div_mult_mod_eq add_cancel_right_right mult_zero_left)
        then show ?thesis using True dn u by (metis append_Nil list.sel(1) unat_0)
      next
        case False
        then show ?thesis using d(3) by simp
      qed
      moreover have "be_value (d @ [word_of_nat n]) = n" using d(2) u by (simp add: be_value_def)
      ultimately show ?thesis using d(1) False
        by (subst be_digits.simps) (auto intro!: exI [of _ "d @ [word_of_nat n]"])
    qed
  qed
  from this [of "[]"] show ?thesis by auto
qed

lemma sample_specs: "mpi2bn_spec sample_mpi2bn" "bn2mpi_spec sample_bn2mpi"
proof -
  show "mpi2bn_spec sample_mpi2bn" by (simp add: mpi2bn_spec_def sample_mpi2bn_def length_be32)
  have "\<exists>p. sample_bn2mpi n = be32 (length p) @ p \<and> mpi_value p = n \<and> mpi_minimal p" for n
  proof -
    define d where "d = be_digits (nat \<bar>n\<bar>) []"
    define q where "q = (case d of [] \<Rightarrow> [] | b # bs \<Rightarrow> if b \<ge> 0x80 then (if n < 0 then 0x80 else 0) # b # bs else b # bs)"
    define p where "p = (case q of [] \<Rightarrow> [] | b # bs \<Rightarrow> (b OR (if n < 0 then 0x80 else 0)) # bs)"
    have d: "be_value d = nat \<bar>n\<bar>" "if n = 0 then d = [] else d \<noteq> [] \<and> hd d \<noteq> 0" using be_digits_value [of "nat \<bar>n\<bar>"] by (auto simp: d_def)
    have "mpi_value p = n"
    proof (cases "n < 0")
      case True
      then have "mpi_value p = - int (be_value d)" using mpi_value_neg [of d] d(2) by (simp add: p_def q_def)
      then show ?thesis using d(1) True by simp
    next
      case False
      then have "p = (case d of [] \<Rightarrow> [] | b # bs \<Rightarrow> if b \<ge> 0x80 then 0 # b # bs else b # bs)"
        by (auto simp: p_def q_def split: list.splits)
      then show ?thesis using d(1) False by (simp add: mpi_value_pos)
    qed
    moreover have "mpi_minimal p"
    proof (cases d)
      case Nil
      then show ?thesis by (simp add: p_def q_def mpi_minimal_def)
    next
      case (Cons b bs)
      then have b0: "b \<noteq> 0" using d(2) by (auto split: if_splits)
      have b7: "b < 0x80 \<Longrightarrow> b AND 0x7f \<noteq> 0 \<and> (b OR 0x80) AND 0x7f \<noteq> 0"
      proof -
        assume lt: "b < 0x80"
        have "(b OR 0x80) AND 0x7f = b AND 0x7f" by (rule bit_word_eqI) (auto simp: bit_simps less_Suc_eq numeral_eq_Suc)
        then show ?thesis using byte_or_sign [OF lt] b0 by simp
      qed
      show ?thesis using Cons b7 byte_sign [of b] by (auto simp: p_def q_def mpi_minimal_def not_le)
    qed
    moreover have "sample_bn2mpi n = be32 (length p) @ p" by (simp add: sample_bn2mpi_def p_def q_def d_def Let_def)
    ultimately show ?thesis by blast
  qed
  then show "bn2mpi_spec sample_bn2mpi" by (simp add: bn2mpi_spec_def)
qed

theorem bignum_conversions_witness:
  "setint64 sample_mpi2bn (- 128) = - 128 \<and> setuint256 sample_mpi2bn (replicate 32 0x80) = int (le_value (replicate 32 (0x80 :: u8)))"
  using bignum_conversions [OF sample_specs, of "- 128" "replicate 32 0x80" "replicate 8 0"]
  by (simp add: fits_int64_def)

end
