(* ===== verification/Ghost_Rider.thy ===== *)
theory Ghost_Rider
  imports Primitives "HOL-Library.Multiset"
begin

text \<open>
  The proof-of-work hash: \<^verbatim>\<open>HashGR\<close> of \<^verbatim>\<open>src/src/hash.h\<close> and the selection of its rounds in
  \<^verbatim>\<open>src/src/hash_selection.cpp\<close>. The sixteen hash functions of \<^verbatim>\<open>crypto/sph_*\<close> and the six CryptoNight
  variants are arguments.
\<close>

unbundle bit_operations_syntax

subsection \<open>Selection\<close>

definition GetNibble :: "uint256 \<Rightarrow> nat \<Rightarrow> nat" where
  "GetNibble m_data index =
     (let index = 63 - index
      in if index mod 2 = 1 then unat (drop_bit 4 (m_data ! (index div 2)))
         else unat (m_data ! (index div 2) AND 0x0F))"

text \<open>
  The loop of \<^verbatim>\<open>getRandomIndexes\<close> over \<^verbatim>\<open>i\<close> from \<open>n - 1\<close> down; the result says whether it ran to the end,
  which the code reads off \<^verbatim>\<open>i < 0\<close>.
\<close>

fun select_loop :: "uint256 \<Rightarrow> nat \<Rightarrow> nat \<Rightarrow> nat \<Rightarrow> int list \<Rightarrow> int list \<Rightarrow> bool \<times> nat \<times> int list \<times> int list" where
  "select_loop prev totalIndexes 0 indexCount indexes groupIndexes = (True, indexCount, indexes, groupIndexes)"
| "select_loop prev totalIndexes (Suc i) indexCount indexes groupIndexes =
     (let hashSelection = GetNibble prev i;
          hashSelection = (if hashSelection \<ge> totalIndexes then hashSelection mod totalIndexes else hashSelection);
          index = indexes ! hashSelection;
          (indexCount, indexes, groupIndexes) =
            (if index \<ge> 0 then (indexCount + 1, indexes[hashSelection := - 1], groupIndexes @ [index])
             else (indexCount, indexes, groupIndexes))
      in if indexCount = length indexes then (False, indexCount, indexes, groupIndexes)
         else select_loop prev totalIndexes i indexCount indexes groupIndexes)"

definition getRandomIndexes :: "uint256 \<Rightarrow> int list \<Rightarrow> int list" where
  "getRandomIndexes prev indexes =
     (case select_loop prev (length indexes) 64 0 indexes [] of (ended, indexCount, left, groupIndexes) \<Rightarrow>
        if ended \<and> indexCount < length indexes then groupIndexes @ filter (\<lambda>index. index \<ge> 0) left
        else groupIndexes)"

subsection \<open>The hash\<close>

text \<open>A selection outside the table leaves the output as it was.\<close>

definition coreHash :: "(int \<Rightarrow> bytes \<Rightarrow> bytes) \<Rightarrow> bytes \<Rightarrow> bytes \<Rightarrow> int \<Rightarrow> bytes" where
  "coreHash sph toHash hash hashSelection = (if hashSelection \<in> {0..15} then sph hashSelection toHash else hash)"

definition cnHash :: "(int \<Rightarrow> bytes \<Rightarrow> bytes) \<Rightarrow> bytes \<Rightarrow> bytes \<Rightarrow> int \<Rightarrow> bytes" where
  "cnHash cn toHash hash hashSelection = (if hashSelection \<in> {0..5} then cn hashSelection toHash else hash)"

definition round_selection :: "int list \<Rightarrow> int list \<Rightarrow> nat \<Rightarrow> int \<times> int" where
  "round_selection coreHashIndexes randomCNs i =
     (if i < 5 then (coreHashIndexes ! i, - 1)
      else if i = 5 then (- 1, randomCNs ! 0)
      else if i < 11 then (coreHashIndexes ! (i - 1), - 1)
      else if i = 11 then (- 1, randomCNs ! 1)
      else if i < 17 then (coreHashIndexes ! (i - 2), - 1)
      else if i = 17 then (- 1, randomCNs ! 2)
      else (- 1, - 1))"

definition gr_round ::
  "(int \<Rightarrow> bytes \<Rightarrow> bytes) \<Rightarrow> (int \<Rightarrow> bytes \<Rightarrow> bytes) \<Rightarrow> int list \<Rightarrow> int list \<Rightarrow> bytes \<Rightarrow> bytes list \<Rightarrow> nat \<Rightarrow> bytes list" where
  "gr_round sph cn coreHashIndexes randomCNs input hash i =
     (let toHash = (if i = 0 then input else hash ! (i - 1));
          (coreSelection, cnSelection) = round_selection coreHashIndexes randomCNs i;
          hash = hash[i := coreHash sph toHash (hash ! i) coreSelection]
      in hash[i := cnHash cn toHash (hash ! i) cnSelection])"

definition HashGR :: "(int \<Rightarrow> bytes \<Rightarrow> bytes) \<Rightarrow> (int \<Rightarrow> bytes \<Rightarrow> bytes) \<Rightarrow> bytes \<Rightarrow> uint256 \<Rightarrow> uint256" where
  "HashGR sph cn input PrevBlockHash =
     (let randomCNs = getRandomIndexes PrevBlockHash [0, 1, 2, 3, 4, 5];
          coreHashIndexes = getRandomIndexes PrevBlockHash [0, 1, 2, 3, 4, 5, 6, 7, 8, 9, 10, 11, 12, 13, 14];
          hash = foldl (gr_round sph cn coreHashIndexes randomCNs input) (replicate 18 (replicate 64 0)) [0..<18]
      in take 32 (hash ! 17))"

subsection \<open>The selection is a permutation\<close>

lemma GetNibble_less: "GetNibble m i < 16"
proof -
  have "unat (drop_bit 4 b) < 16" for b :: u8
    using unat_u8_lt [of b] by (simp add: unat_drop_bit less_mult_imp_div_less)
  moreover have "unat (b AND 0x0F) < 16" for b :: u8
  proof -
    have "b AND 0x0F = take_bit 4 b" by (simp add: take_bit_eq_mask mask_eq_exp_minus_1)
    moreover have "unat (take_bit 4 b) = unat b mod 2 ^ 4" unfolding unsigned_take_bit_eq by (simp add: take_bit_eq_mod)
    ultimately show ?thesis by simp
  qed
  ultimately show ?thesis by (simp add: GetNibble_def Let_def)
qed

lemma mset_filter_update:
  assumes "h < length xs" "xs ! h \<ge> 0"
  shows "mset (filter (\<lambda>x. x \<ge> 0) xs) = add_mset (xs ! h) (mset (filter (\<lambda>x. x \<ge> 0) (xs[h := - 1 :: int])))"
  using assms by (simp add: mset_update filter_mset_add_mset)

lemma select_loop_inv:
  assumes "select_loop prev (length indexes) n cnt indexes grp = (ended, cnt', left, grp')"
    and "indexes \<noteq> []"
    and "cnt = length grp" "mset grp + mset (filter (\<lambda>x. x \<ge> 0) indexes) = M" "size M = length indexes" "cnt < length indexes"
  shows "cnt' = length grp' \<and> mset grp' + mset (filter (\<lambda>x. x \<ge> 0) left) = M \<and> length left = length indexes \<and>
    (ended \<longrightarrow> cnt' < length left) \<and> (\<not> ended \<longrightarrow> cnt' = length left)"
  using assms
proof (induction n arbitrary: cnt indexes grp)
  case 0
  then show ?case by auto
next
  case (Suc n)
  define h where "h = (if GetNibble prev n \<ge> length indexes then GetNibble prev n mod length indexes else GetNibble prev n)"
  have h: "h < length indexes" using Suc.prems(2) by (simp add: h_def)
  define st where "st = (if indexes ! h \<ge> 0 then (cnt + 1, indexes[h := - 1], grp @ [indexes ! h]) else (cnt, indexes, grp))"
  obtain c1 i1 g1 where st1: "st = (c1, i1, g1)" by (cases st)
  have inv: "c1 = length g1" "mset g1 + mset (filter (\<lambda>x. x \<ge> 0) i1) = M" "length i1 = length indexes" "c1 \<le> cnt + 1"
    using st1 Suc.prems(3,4) mset_filter_update [OF h] by (auto simp: st_def split: if_splits)
  have run: "(if c1 = length i1 then (False, c1, i1, g1) else select_loop prev (length indexes) n c1 i1 g1) = (ended, cnt', left, grp')"
    using Suc.prems(1) unfolding select_loop.simps Let_def h_def [symmetric] st_def [symmetric] st1 by simp
  show ?case
  proof (cases "c1 = length i1")
    case True
    then show ?thesis using run inv by auto
  next
    case False
    then have lt: "c1 < length i1" using inv(3,4) Suc.prems(6) by simp
    have "select_loop prev (length i1) n c1 i1 g1 = (ended, cnt', left, grp')" using run False inv(3) by simp
    moreover have "i1 \<noteq> []" using inv(3) Suc.prems(2) by auto
    moreover have "size M = length i1" using inv(3) Suc.prems(5) by simp
    ultimately show ?thesis using Suc.IH [OF _ _ inv(1,2) _ lt] unfolding inv(3) by blast
  qed
qed

lemma getRandomIndexes_perm:
  assumes "indexes \<noteq> []" "\<forall>x \<in> set indexes. x \<ge> 0"
  shows "mset (getRandomIndexes prev indexes) = mset indexes"
proof -
  obtain ended cnt left grp where r: "select_loop prev (length indexes) 64 0 indexes [] = (ended, cnt, left, grp)"
    by (metis prod_cases4)
  have f: "filter (\<lambda>x. x \<ge> 0) indexes = indexes" using assms(2) by (simp add: filter_id_conv)
  have inv: "cnt = length grp" "mset grp + mset (filter (\<lambda>x. x \<ge> 0) left) = mset indexes" "length left = length indexes"
    "ended \<longrightarrow> cnt < length left" "\<not> ended \<longrightarrow> cnt = length left"
    using select_loop_inv [OF r assms(1), of "mset indexes"] assms(1) f by auto
  show ?thesis
  proof (cases ended)
    case True
    then show ?thesis using inv r by (simp add: getRandomIndexes_def)
  next
    case False
    then have "size (mset grp) = size (mset indexes)" using inv by simp
    then have "mset (filter (\<lambda>x. x \<ge> 0) left) = {#}" using inv(2)
      by (metis add_cancel_right_right size_eq_0_iff_empty size_union)
    then show ?thesis using inv r False by (simp add: getRandomIndexes_def)
  qed
qed

lemma getRandomIndexes_upto:
  assumes "0 < n"
  shows "distinct (getRandomIndexes prev (map int [0..<n]))" "set (getRandomIndexes prev (map int [0..<n])) = {0..<int n}"
    "length (getRandomIndexes prev (map int [0..<n])) = n"
proof -
  let ?xs = "map int [0..<n]"
  have m: "mset (getRandomIndexes prev ?xs) = mset ?xs" using assms by (intro getRandomIndexes_perm) auto
  have d: "distinct ?xs" by (simp add: distinct_map)
  then show "distinct (getRandomIndexes prev ?xs)" using m by (metis mset_eq_imp_distinct_iff)
  have "set (getRandomIndexes prev ?xs) = set ?xs" using m by (metis mset_eq_setD)
  also have "\<dots> = {0..<int n}" by (auto simp: image_iff intro!: bexI [of _ "nat _"])
  finally show "set (getRandomIndexes prev ?xs) = {0..<int n}" .
  show "length (getRandomIndexes prev ?xs) = n" using m by (metis mset_eq_length length_map length_upt minus_nat.diff_0)
qed

subsection \<open>The rounds\<close>

text \<open>The functions that are applied, in their order.\<close>

definition gr_stages :: "(int \<Rightarrow> bytes \<Rightarrow> bytes) \<Rightarrow> (int \<Rightarrow> bytes \<Rightarrow> bytes) \<Rightarrow> int list \<Rightarrow> int list \<Rightarrow> (bytes \<Rightarrow> bytes) list" where
  "gr_stages sph cn a c =
     map (\<lambda>i. sph (a ! i)) [0..<5] @ [cn (c ! 0)] @ map (\<lambda>i. sph (a ! i)) [5..<10] @ [cn (c ! 1)] @
     map (\<lambda>i. sph (a ! i)) [10..<15] @ [cn (c ! 2)]"

lemma round_selection_valid:
  assumes "length a = 15" "set a \<subseteq> {0..14}" "length c = 6" "set c \<subseteq> {0..5}" "i < 18"
  shows "round_selection a c i \<in> {0..14} \<times> {- 1} \<or> round_selection a c i \<in> {- 1} \<times> {0..5}"
proof -
  have "a ! j \<in> {0..14}" if "j < 15" for j using assms(1,2) that by (metis nth_mem subsetD)
  moreover have "c ! j \<in> {0..5}" if "j < 6" for j using assms(3,4) that by (metis nth_mem subsetD)
  ultimately show ?thesis using assms(5) by (auto simp: round_selection_def)
qed

definition gr_stage :: "(int \<Rightarrow> bytes \<Rightarrow> bytes) \<Rightarrow> (int \<Rightarrow> bytes \<Rightarrow> bytes) \<Rightarrow> int list \<Rightarrow> int list \<Rightarrow> nat \<Rightarrow> bytes \<Rightarrow> bytes" where
  "gr_stage sph cn a c i = (case round_selection a c i of (core, cns) \<Rightarrow> if cns = - 1 then sph core else cn cns)"

lemma gr_round_stage:
  assumes v: "round_selection a c i \<in> {0..14} \<times> {- 1} \<or> round_selection a c i \<in> {- 1} \<times> {0..5}"
    and "length h = 18" "i < 18"
  shows "gr_round sph cn a c input h i = h[i := gr_stage sph cn a c i (if i = 0 then input else h ! (i - 1))]"
proof -
  obtain core cns where r: "round_selection a c i = (core, cns)" by fastforce
  have "core \<in> {0..14} \<and> cns = - 1 \<or> core = - 1 \<and> cns \<in> {0..5}" using v by (auto simp: r)
  then show ?thesis
  proof
    assume "core \<in> {0..14} \<and> cns = - 1"
    then show ?thesis using assms(2,3) by (simp add: gr_round_def gr_stage_def r coreHash_def cnHash_def Let_def)
  next
    assume "core = - 1 \<and> cns \<in> {0..5}"
    then show ?thesis using assms(2,3) by (simp add: gr_round_def gr_stage_def r coreHash_def cnHash_def Let_def)
  qed
qed

lemma gr_rounds:
  assumes sel: "\<And>i. i < 18 \<Longrightarrow> round_selection a c i \<in> {0..14} \<times> {- 1} \<or> round_selection a c i \<in> {- 1} \<times> {0..5}"
    and "k \<le> 18" "length h0 = 18"
  shows "let h = foldl (gr_round sph cn a c input) h0 [0..<k] in
    length h = 18 \<and> (k > 0 \<longrightarrow> h ! (k - 1) = fold (gr_stage sph cn a c) [0..<k] input)"
  using assms(2)
proof (induction k)
  case 0
  then show ?case by (simp add: assms(3))
next
  case (Suc k)
  define h where "h = foldl (gr_round sph cn a c input) h0 [0..<k]"
  have IH: "length h = 18" "k > 0 \<Longrightarrow> h ! (k - 1) = fold (gr_stage sph cn a c) [0..<k] input"
    using Suc by (auto simp: h_def Let_def)
  have "(if k = 0 then input else h ! (k - 1)) = fold (gr_stage sph cn a c) [0..<k] input"
    using IH(2) by simp
  then have "gr_round sph cn a c input h k = h[k := fold (gr_stage sph cn a c) [0..<Suc k] input]"
    using gr_round_stage [OF sel IH(1), of k sph cn input] Suc.prems by simp
  then show ?case using IH(1) Suc.prems by (simp add: h_def [symmetric])
qed

lemma fold_stages:
  "fold (gr_stage sph cn a c) [0..<18] input = fold (\<lambda>f. f) (map (gr_stage sph cn a c) [0..<18]) input"
  by (simp add: fold_map o_def)

lemma map_gr_stage:
  assumes "\<And>i. i < 18 \<Longrightarrow> round_selection a c i \<in> {0..14} \<times> {- 1} \<or> round_selection a c i \<in> {- 1} \<times> {0..5}"
  shows "map (gr_stage sph cn a c) [0..<18] = gr_stages sph cn a c"
proof -
  have cn: "c ! 0 \<noteq> - 1" "c ! 1 \<noteq> - 1" "c ! 2 \<noteq> - 1"
    using assms [of 5] assms [of 11] assms [of 17] by (auto simp: round_selection_def)
  have "[0..<18] = [0..<5] @ [5] @ [6..<11] @ [11] @ [12..<17] @ [17 :: nat]" by (simp add: upt_rec)
  then show ?thesis using cn by (simp add: gr_stages_def gr_stage_def round_selection_def upt_rec numeral_eq_Suc)
qed

lemma HashGR_eq:
  defines "a \<equiv> \<lambda>prev. getRandomIndexes prev (map int [0..<15])" and "c \<equiv> \<lambda>prev. getRandomIndexes prev (map int [0..<6])"
  shows "HashGR sph cn input prev = take 32 (fold (\<lambda>f. f) (gr_stages sph cn (a prev) (c prev)) input)"
proof -
  have e: "map int [0..<15] = [0, 1, 2, 3, 4, 5, 6, 7, 8, 9, 10, 11, 12, 13, 14]" "map int [0..<6] = [0, 1, 2, 3, 4, 5]"
    by (simp_all add: upt_rec)
  have sel: "round_selection (a prev) (c prev) i \<in> {0..14} \<times> {- 1} \<or> round_selection (a prev) (c prev) i \<in> {- 1} \<times> {0..5}"
    if "i < 18" for i
    unfolding a_def c_def by (rule round_selection_valid) (use getRandomIndexes_upto [of 15 prev] getRandomIndexes_upto [of 6 prev] that in auto)
  have "foldl (gr_round sph cn (a prev) (c prev) input) (replicate 18 (replicate 64 0)) [0..<18] ! 17 =
      fold (gr_stage sph cn (a prev) (c prev)) [0..<18] input"
    using gr_rounds [OF sel, of 18 "replicate 18 (replicate 64 0)" sph cn input] by (simp add: Let_def)
  moreover have "map (gr_stage sph cn (a prev) (c prev)) [0..<18] = gr_stages sph cn (a prev) (c prev)"
    by (rule map_gr_stage [OF sel])
  ultimately show ?thesis
    by (simp only: HashGR_def Let_def e [symmetric] a_def c_def fold_stages)
qed

subsection \<open>Properties\<close>

text \<open>
  Whatever the previous block hash, the proof-of-work hash of a header runs eighteen rounds that
  use each of the fifteen core functions exactly once and three different CryptoNight variants, in the
  fixed pattern of five core rounds followed by one CryptoNight round; the selection never leaves the
  tables and never runs out of indexes.
\<close>

theorem HashGR_rounds:
  "\<exists>a c. distinct a \<and> set a = {0..14} \<and> distinct c \<and> set c = {0..5} \<and>
     HashGR sph cn input prev = take 32 (fold (\<lambda>f. f)
       (map (\<lambda>i. sph (a ! i)) [0..<5] @ [cn (c ! 0)] @ map (\<lambda>i. sph (a ! i)) [5..<10] @ [cn (c ! 1)] @
        map (\<lambda>i. sph (a ! i)) [10..<15] @ [cn (c ! 2)]) input)"
proof -
  have "{0..<int 15} = {0..14}" "{0..<int 6} = {0..5}" by auto
  then show ?thesis
    using getRandomIndexes_upto [of 15 prev] getRandomIndexes_upto [of 6 prev] HashGR_eq [of sph cn input prev]
    unfolding gr_stages_def by (metis zero_less_numeral)
qed

end
