(* ===== verification/Powcache.thy ===== *)
theory Powcache
  imports Ghost_Rider
begin

text \<open>
  The proof-of-work hash of a header and its cache: \<^verbatim>\<open>src/src/util/unordered_lru_cache.h\<close>,
  \<^verbatim>\<open>src/src/primitives/powcache.h\<close>, \<^verbatim>\<open>src/src/primitives/powcache.cpp\<close> and \<^verbatim>\<open>CBlockHeader::GetPOWHash\<close>.
  The hash table is the list of its entries in iteration order, which the lemmas never rely on.
\<close>

unbundle bit_operations_syntax

subsection \<open>The least-recently-used cache\<close>

record ('k, 'v) lru =
  cacheMap :: "('k \<times> 'v \<times> int) list"
  maxSize :: nat
  truncateThreshold :: nat
  accessCounter :: int

text \<open>The constructor; \<^term>\<open>None\<close> is its assertion.\<close>

definition lru_new :: "nat \<Rightarrow> nat \<Rightarrow> ('k, 'v) lru option" where
  "lru_new maxSize0 threshold =
     (if maxSize0 = 0 then None
      else Some \<lparr>cacheMap = [], maxSize = maxSize0,
        truncateThreshold = (if threshold = 0 then maxSize0 * 2 else threshold), accessCounter = 0\<rparr>)"

definition setMaxSize :: "('k, 'v, 'z) lru_scheme \<Rightarrow> nat \<Rightarrow> nat \<Rightarrow> ('k, 'v, 'z) lru_scheme option" where
  "setMaxSize c n threshold =
     (if n = 0 then None
      else Some (c\<lparr>maxSize := n, truncateThreshold := (if threshold = 0 then n * 2 else threshold)\<rparr>))"

definition last_access :: "'k \<times> 'v \<times> int \<Rightarrow> int" where
  "last_access e = snd (snd e)"

definition truncate_if_needed :: "('k, 'v, 'z) lru_scheme \<Rightarrow> ('k, 'v, 'z) lru_scheme" where
  "truncate_if_needed c =
     (if length (cacheMap c) \<le> truncateThreshold c then c
      else let vec = rev (sort_key last_access (cacheMap c));
               erased = map fst (drop (maxSize c) vec)
           in c\<lparr>cacheMap := filter (\<lambda>e. fst e \<notin> set erased) (cacheMap c)\<rparr>)"

definition touch :: "'k \<Rightarrow> ('v \<Rightarrow> 'v) \<Rightarrow> int \<Rightarrow> ('k \<times> 'v \<times> int) list \<Rightarrow> ('k \<times> 'v \<times> int) list" where
  "touch key f t es = map (\<lambda>(k, v, a). if k = key then (k, f v, t) else (k, v, a)) es"

definition lru_insert :: "('k, 'v, 'z) lru_scheme \<Rightarrow> 'k \<Rightarrow> 'v \<Rightarrow> ('k, 'v, 'z) lru_scheme" where
  "lru_insert c key v =
     (let c = truncate_if_needed c
      in case map_of (cacheMap c) key of
           None \<Rightarrow> c\<lparr>cacheMap := cacheMap c @ [(key, v, accessCounter c)], accessCounter := accessCounter c + 1\<rparr>
         | Some _ \<Rightarrow> c\<lparr>cacheMap := touch key (\<lambda>_. v) (accessCounter c) (cacheMap c), accessCounter := accessCounter c + 1\<rparr>)"

definition lru_get :: "('k, 'v, 'z) lru_scheme \<Rightarrow> 'k \<Rightarrow> 'v option \<times> ('k, 'v, 'z) lru_scheme" where
  "lru_get c key =
     (case map_of (cacheMap c) key of
        None \<Rightarrow> (None, c)
      | Some (v, _) \<Rightarrow>
          (Some v, c\<lparr>cacheMap := touch key (\<lambda>v. v) (accessCounter c) (cacheMap c), accessCounter := accessCounter c + 1\<rparr>))"

definition lru_exists :: "('k, 'v, 'z) lru_scheme \<Rightarrow> 'k \<Rightarrow> bool \<times> ('k, 'v, 'z) lru_scheme" where
  "lru_exists c key = (let (r, c) = lru_get c key in (r \<noteq> None, c))"

definition lru_erase :: "('k, 'v, 'z) lru_scheme \<Rightarrow> 'k \<Rightarrow> ('k, 'v, 'z) lru_scheme" where
  "lru_erase c key = c\<lparr>cacheMap := filter (\<lambda>e. fst e \<noteq> key) (cacheMap c)\<rparr>"

definition lru_clear :: "('k, 'v, 'z) lru_scheme \<Rightarrow> ('k, 'v, 'z) lru_scheme" where
  "lru_clear c = c\<lparr>cacheMap := []\<rparr>"

definition lru_size :: "('k, 'v, 'z) lru_scheme \<Rightarrow> nat" where
  "lru_size c = length (cacheMap c)"

subsection \<open>The cache of proof-of-work hashes\<close>

record CPowCache = "(uint256, uint256) lru" +
  pc_nVersion :: u32
  nSavedSize :: u64
  nSaveInterval :: int
  bValidate :: bool

definition POWCACHE_CURRENT_VERSION :: u32 where "POWCACHE_CURRENT_VERSION = 1"

definition SetMaxElements :: "CPowCache \<Rightarrow> int \<Rightarrow> CPowCache" where
  "SetMaxElements c maxElements = (if maxElements > 0 then c\<lparr>maxSize := nat maxElements\<rparr> else c)"

text \<open>The subtraction of sizes is unsigned, and the interval is converted to an unsigned number.\<close>

definition WantsToSave :: "CPowCache \<Rightarrow> bool" where
  "WantsToSave c \<longleftrightarrow> word_of_nat (lru_size c) - nSavedSize c \<ge> (word_of_int (nSaveInterval c) :: u64)"

definition PowCache_Serialize :: "CPowCache \<Rightarrow> bytes \<times> CPowCache" where
  "PowCache_Serialize c =
     (ser_writedata32 (pc_nVersion c) @ WriteCompactSize (word_of_nat (lru_size c)) @
        concat (map (\<lambda>(headerHash, powHash, _). ser_uint256 headerHash @ ser_uint256 powHash) (cacheMap c)),
      c\<lparr>nSavedSize := word_of_nat (lru_size c)\<rparr>)"

fun read_entries :: "nat \<Rightarrow> CPowCache \<Rightarrow> bytes \<Rightarrow> ser_error + CPowCache \<times> bytes" where
  "read_entries 0 c s = Inr (c, s)"
| "read_entries (Suc n) c s =
     ebind (unser_uint256 s) (\<lambda>(headerHash, s).
     ebind (unser_uint256 s) (\<lambda>(powHash, s).
       read_entries n (lru_insert c headerHash powHash) s))"

definition PowCache_Unserialize :: "CPowCache \<Rightarrow> bytes \<Rightarrow> ser_error + CPowCache \<times> bytes" where
  "PowCache_Unserialize c s =
     ebind (ser_readdata32 s) (\<lambda>(_, s).
     ebind (ReadCompactSize True s) (\<lambda>(cacheSize, s).
     ebind (read_entries (unat cacheSize) c s) (\<lambda>(c, s).
       Inr (c\<lparr>pc_nVersion := POWCACHE_CURRENT_VERSION, nSavedSize := word_of_nat (lru_size c)\<rparr>, s))))"

subsection \<open>The hash of a header\<close>

text \<open>
  The pattern of \<^verbatim>\<open>GetPOWHash\<close> over the operations of a cache: read, recompute when there is no entry or
  entries are validated, and then replace the entry.
\<close>

definition cached_value ::
  "('c \<Rightarrow> 'k \<Rightarrow> 'v option \<times> 'c) \<Rightarrow> ('c \<Rightarrow> 'k \<Rightarrow> 'c) \<Rightarrow> ('c \<Rightarrow> 'k \<Rightarrow> 'v \<Rightarrow> 'c) \<Rightarrow> ('c \<Rightarrow> bool) \<Rightarrow>
   bool \<Rightarrow> 'k \<Rightarrow> 'v \<Rightarrow> 'c \<Rightarrow> 'v \<times> 'c" where
  "cached_value get erase ins validate readCache key computed c =
     (let (found, c) = (if readCache then get c key else (None, c))
      in case found of
           Some v \<Rightarrow> if validate c then (computed, ins (erase c key) key computed) else (v, c)
         | None \<Rightarrow> (computed, ins (erase c key) key computed))"

text \<open>\<open>Hash\<close> is the double SHA-256 that identifies a header.\<close>

definition header_ComputeHash :: "(int \<Rightarrow> bytes \<Rightarrow> bytes) \<Rightarrow> (int \<Rightarrow> bytes \<Rightarrow> bytes) \<Rightarrow> CBlockHeader \<Rightarrow> uint256" where
  "header_ComputeHash sph cn h = HashGR sph cn (ser_CBlockHeader SER_GETHASH h) (hashPrevBlock h)"

definition GetPOWHash ::
  "(bytes \<Rightarrow> uint256) \<Rightarrow> (int \<Rightarrow> bytes \<Rightarrow> bytes) \<Rightarrow> (int \<Rightarrow> bytes \<Rightarrow> bytes) \<Rightarrow> CBlockHeader \<Rightarrow> bool \<Rightarrow>
   CPowCache \<Rightarrow> uint256 \<times> CPowCache" where
  "GetPOWHash Hash sph cn h readCache cache =
     cached_value lru_get lru_erase lru_insert bValidate readCache
       (header_GetHash Hash h) (header_ComputeHash sph cn h) cache"

subsection \<open>The invariant of the cache\<close>

definition lru_ok :: "('k, 'v, 'z) lru_scheme \<Rightarrow> bool" where
  "lru_ok c \<longleftrightarrow> distinct (map fst (cacheMap c)) \<and> distinct (map last_access (cacheMap c)) \<and>
     (\<forall>e \<in> set (cacheMap c). last_access e < accessCounter c)"

definition lru_lookup :: "('k, 'v, 'z) lru_scheme \<Rightarrow> 'k \<Rightarrow> 'v option" where
  "lru_lookup c k = map_option fst (map_of (cacheMap c) k)"

lemma touch_simps [simp]: "touch key f t [] = []"
  "touch key f t ((k, v, a) # es) = (if k = key then (k, f v, t) else (k, v, a)) # touch key f t es"
  by (simp_all add: touch_def)

lemma fst_touch [simp]: "map fst (touch key f t es) = map fst es"
  by (induction es) (auto simp: touch_def)

lemma fst_set_touch [simp]: "fst ` set (touch key f t es) = fst ` set es"
  by (metis fst_touch list.set_map)

lemma map_of_touch: "map_of (touch key f t es) k =
    (if k = key then map_option (\<lambda>(v, a). (f v, t)) (map_of es k) else map_of es k)"
  by (induction es) (auto simp: touch_def)

lemma set_touch: "e \<in> set (touch key f t es) \<Longrightarrow> last_access e = t \<or> e \<in> set es"
  by (induction es) (auto simp: touch_def last_access_def split: if_splits)

lemma touch_id: "key \<notin> set (map fst es) \<Longrightarrow> touch key f t es = es"
  by (induction es) (auto simp: touch_def)

lemma distinct_touch:
  "distinct (map fst es) \<Longrightarrow> distinct (map last_access es) \<Longrightarrow> \<forall>e \<in> set es. last_access e < t \<Longrightarrow>
   distinct (map last_access (touch key f t es))"
proof (induction es)
  case (Cons e es)
  obtain k v a where e: "e = (k, v, a)" by (cases e)
  show ?case
  proof (cases "k = key")
    case True
    then have id: "touch key f t es = es" using Cons.prems(1) e by (intro touch_id) simp
    have "t \<notin> last_access ` set es" using Cons.prems(3) by fastforce
    then show ?thesis using True Cons.prems(2) id by (simp add: e last_access_def)
  next
    case False
    have "a \<notin> last_access ` set (touch key f t es)"
    proof
      assume "a \<in> last_access ` set (touch key f t es)"
      then obtain x where x: "x \<in> set (touch key f t es)" "a = last_access x" by blast
      then show False using set_touch [OF x(1)] Cons.prems(2,3) e by (auto simp: last_access_def image_iff)
    qed
    then show ?thesis using False Cons by (simp add: e last_access_def)
  qed
qed simp

lemma lru_ok_touch:
  assumes "lru_ok c"
  shows "lru_ok (c\<lparr>cacheMap := touch key f (accessCounter c) (cacheMap c), accessCounter := accessCounter c + 1\<rparr>)"
  using assms distinct_touch [of "cacheMap c" "accessCounter c" key f] set_touch [of _ key f "accessCounter c" "cacheMap c"]
  by (fastforce simp: lru_ok_def)

lemma map_of_filter_fst:
  "distinct (map fst es) \<Longrightarrow> map_of (filter (\<lambda>e. P (fst e)) es) k = (if P k then map_of es k else None)"
  by (induction es) (auto simp: map_of_eq_None_iff image_iff split: if_splits)

lemma lru_ok_filter: "lru_ok c \<Longrightarrow> lru_ok (c\<lparr>cacheMap := filter P (cacheMap c)\<rparr>)"
  by (auto simp: lru_ok_def distinct_map_filter)

lemma lru_ok_truncate: "lru_ok c \<Longrightarrow> lru_ok (truncate_if_needed c)"
  by (simp add: truncate_if_needed_def Let_def lru_ok_filter)

lemma truncate_fields [simp]: "accessCounter (truncate_if_needed c) = accessCounter c"
  "maxSize (truncate_if_needed c) = maxSize c" "truncateThreshold (truncate_if_needed c) = truncateThreshold c"
  by (simp_all add: truncate_if_needed_def Let_def)

lemma truncate_filter: "\<exists>S. cacheMap (truncate_if_needed c) = filter (\<lambda>e. fst e \<notin> S) (cacheMap c)"
proof (cases "length (cacheMap c) \<le> truncateThreshold c")
  case True
  then show ?thesis by (intro exI [of _ "{}"]) (simp add: truncate_if_needed_def)
next
  case False
  then show ?thesis unfolding truncate_if_needed_def Let_def by auto
qed

lemma lookup_truncate:
  assumes "lru_ok c"
  shows "lru_lookup (truncate_if_needed c) k \<in> {lru_lookup c k, None}"
proof -
  obtain S where S: "cacheMap (truncate_if_needed c) = filter (\<lambda>e. fst e \<notin> S) (cacheMap c)"
    using truncate_filter by blast
  have "distinct (map fst (cacheMap c))" using assms by (simp add: lru_ok_def)
  from map_of_filter_fst [OF this, of "\<lambda>x. x \<notin> S" k] show ?thesis by (simp add: lru_lookup_def S)
qed

subsection \<open>Operations\<close>

lemma lru_ok_insert: "lru_ok c \<Longrightarrow> lru_ok (lru_insert c k v)"
proof -
  assume "lru_ok c"
  then have ok: "lru_ok (truncate_if_needed c)" by (rule lru_ok_truncate)
  then show ?thesis
    using lru_ok_touch [OF ok, of k "\<lambda>_. v"]
    by (fastforce simp: lru_insert_def Let_def lru_ok_def last_access_def map_of_eq_None_iff split: option.splits)
qed

lemma lookup_insert:
  assumes "lru_ok c"
  shows "lru_lookup (lru_insert c k v) k' =
     (if k' = k then Some v else lru_lookup (truncate_if_needed c) k')"
  by (auto simp: lru_insert_def Let_def lru_lookup_def map_of_touch map_add_def split: option.splits)

lemma lookup_get:
  assumes "lru_ok c" "lru_get c k = (r, c')"
  shows "r = lru_lookup c k \<and> lru_lookup c' = lru_lookup c \<and> lru_ok c'"
  using assms lru_ok_touch [OF assms(1), of k "\<lambda>v. v"]
  by (auto simp: lru_get_def lru_lookup_def map_of_touch fun_eq_iff split: option.splits prod.splits)

lemma lookup_erase:
  assumes "lru_ok c"
  shows "lru_lookup (lru_erase c k) = (lru_lookup c)(k := None) \<and> lru_ok (lru_erase c k)"
  using assms map_of_filter_fst [of "cacheMap c" "\<lambda>x. x \<noteq> k"] lru_ok_filter [OF assms, of "\<lambda>e. fst e \<noteq> k"]
  by (auto simp: lru_erase_def lru_lookup_def fun_eq_iff lru_ok_def)

subsection \<open>What a client relies on\<close>

text \<open>Every entry found under the key of a header is the value computed from it.\<close>

definition faithful :: "('c \<Rightarrow> 'k \<Rightarrow> 'v option) \<Rightarrow> ('h \<Rightarrow> 'k) \<Rightarrow> ('h \<Rightarrow> 'v) \<Rightarrow> 'c \<Rightarrow> bool" where
  "faithful lookup key compute c \<longleftrightarrow> (\<forall>h v. lookup c (key h) = Some v \<longrightarrow> v = compute h)"

locale value_cache =
  fixes lookup :: "'c \<Rightarrow> 'k \<Rightarrow> 'v option" and get :: "'c \<Rightarrow> 'k \<Rightarrow> 'v option \<times> 'c"
    and erase :: "'c \<Rightarrow> 'k \<Rightarrow> 'c" and ins :: "'c \<Rightarrow> 'k \<Rightarrow> 'v \<Rightarrow> 'c" and ok :: "'c \<Rightarrow> bool"
  assumes get: "ok c \<Longrightarrow> get c k = (r, c') \<Longrightarrow> r = lookup c k \<and> lookup c' = lookup c \<and> ok c'"
    and erase: "ok c \<Longrightarrow> lookup (erase c k) = (lookup c)(k := None) \<and> ok (erase c k)"
    and ins_same: "ok c \<Longrightarrow> lookup (ins c k v) k = Some v"
    and ins_other: "ok c \<Longrightarrow> k' \<noteq> k \<Longrightarrow> lookup (ins c k v) k' \<in> {lookup c k', None}"
    and ins_ok: "ok c \<Longrightarrow> ok (ins c k v)"
begin

lemma replaced:
  assumes "ok c" "faithful lookup key compute c" "\<And>h'. key h' = key h \<Longrightarrow> compute h' = compute h"
  shows "ok (ins (erase c (key h)) (key h) (compute h)) \<and>
    faithful lookup key compute (ins (erase c (key h)) (key h) (compute h))"
proof -
  have e: "ok (erase c (key h))" "lookup (erase c (key h)) = (lookup c)(key h := None)"
    using erase [OF assms(1)] by simp_all
  have "v = compute h'" if "lookup (ins (erase c (key h)) (key h) (compute h)) (key h') = Some v" for h' v
  proof (cases "key h' = key h")
    case True
    then show ?thesis using that ins_same [OF e(1), of "key h" "compute h"] assms(3) [OF True] by simp
  next
    case False
    then have "lookup c (key h') = Some v"
      using that ins_other [OF e(1) False, of "compute h"] e(2) by auto
    then show ?thesis using assms(2) by (simp add: faithful_def)
  qed
  then show ?thesis using ins_ok [OF e(1)] by (simp add: faithful_def)
qed

lemma cached_value_faithful:
  assumes "ok c" "faithful lookup key compute c" "\<And>h'. key h' = key h \<Longrightarrow> compute h' = compute h"
    and run: "cached_value get erase ins validate readCache (key h) (compute h) c = (v, c')"
  shows "v = compute h \<and> ok c' \<and> faithful lookup key compute c'"
proof -
  obtain found c1 where g: "(if readCache then get c (key h) else (None, c)) = (found, c1)" by fastforce
  have c1: "ok c1" "lookup c1 = lookup c" "found \<noteq> None \<Longrightarrow> found = lookup c (key h)"
    using g get [OF assms(1), of "key h" found c1] assms(1) by (auto split: if_splits)
  then have f1: "faithful lookup key compute c1" using assms(2) by (simp add: faithful_def)
  note r = replaced [OF c1(1) f1 assms(3)]
  show ?thesis
  proof (cases found)
    case None
    then show ?thesis using run g r by (auto simp: cached_value_def)
  next
    case (Some w)
    then have "w = compute h" using c1(3) assms(2) by (auto simp: faithful_def)
    then show ?thesis using run g r Some c1(1) f1 by (auto simp: cached_value_def split: if_splits)
  qed
qed

end

interpretation lru: value_cache lru_lookup "lru_get :: ('k, 'v, 'z) lru_scheme \<Rightarrow> 'k \<Rightarrow> _" lru_erase lru_insert lru_ok
proof unfold_locales
  show "lru_lookup (lru_insert c k v) k' \<in> {lru_lookup c k', None}"
    if "lru_ok c" "k' \<noteq> k" for c :: "('k, 'v, 'z) lru_scheme" and k k' v
    using lookup_truncate [OF that(1), of k'] that by (simp add: lookup_insert)
qed (use lookup_get lookup_erase in \<open>simp_all add: lookup_insert lru_ok_insert\<close>)

subsection \<open>What truncation keeps\<close>

lemma sort_key_drop_gt:
  assumes "distinct (map f xs)" "e \<in> set (take n (rev (sort_key f xs)))" "e' \<in> set (drop n (rev (sort_key f xs)))"
  shows "f e' < (f e :: int)"
proof -
  define ys where "ys = rev (sort_key f xs)"
  have sd: "sorted_wrt (\<lambda>a b. f b \<le> f a) ys"
  proof -
    have "sorted_wrt (\<lambda>a b. f a \<le> f b) (sort_key f xs)" using sorted_sort_key [of f xs] by (simp add: sorted_map)
    then show ?thesis by (simp add: ys_def sorted_wrt_rev)
  qed
  have d: "distinct (map f ys)" using assms(1) by (simp add: ys_def distinct_map rev_map [symmetric])
  have "f e' \<le> f e" using sd assms(2,3) sorted_wrt_append [of "\<lambda>a b. f b \<le> f a" "take n ys" "drop n ys"]
    by (auto simp: ys_def)
  moreover have "f e \<noteq> f e'"
  proof
    assume eq: "f e = f e'"
    have "distinct (map f (take n ys @ drop n ys))" using d by simp
    then have "f ` set (take n ys) \<inter> f ` set (drop n ys) = {}" by (simp only: map_append distinct_append list.set_map)
    then show False using assms(2,3) eq by (auto simp: ys_def)
  qed
  ultimately show ?thesis by simp
qed

lemma truncate_keeps:
  assumes ok: "lru_ok c" and big: "truncateThreshold c < length (cacheMap c)"
  defines "kept \<equiv> set (cacheMap (truncate_if_needed c))"
  shows "kept = set (take (maxSize c) (rev (sort_key last_access (cacheMap c))))"
    and "card kept = min (maxSize c) (length (cacheMap c))"
proof -
  define ys where "ys = rev (sort_key last_access (cacheMap c))"
  have set: "set ys = set (cacheMap c)" by (simp add: ys_def)
  have d: "distinct (map fst (cacheMap c))" using ok by (simp add: lru_ok_def)
  have dys: "distinct ys" using d by (simp add: ys_def distinct_map)
  have inj: "inj_on fst (set ys)" using d unfolding set by (simp add: distinct_map)
  have td: "set (take (maxSize c) ys) \<union> set (drop (maxSize c) ys) = set ys"
    "set (take (maxSize c) ys) \<inter> set (drop (maxSize c) ys) = {}"
    using dys by (metis append_take_drop_id set_append, metis append_take_drop_id distinct_append)
  have "kept = {e \<in> set ys. fst e \<notin> fst ` set (drop (maxSize c) ys)}"
    using big by (auto simp: kept_def truncate_if_needed_def Let_def ys_def)
  also have "\<dots> = set (take (maxSize c) ys)"
  proof
    show "{e \<in> set ys. fst e \<notin> fst ` set (drop (maxSize c) ys)} \<subseteq> set (take (maxSize c) ys)" using td(1) by blast
    show "set (take (maxSize c) ys) \<subseteq> {e \<in> set ys. fst e \<notin> fst ` set (drop (maxSize c) ys)}"
    proof
      fix e assume e: "e \<in> set (take (maxSize c) ys)"
      then have "e \<in> set ys" using td(1) by blast
      moreover have "fst e \<notin> fst ` set (drop (maxSize c) ys)"
      proof
        assume "fst e \<in> fst ` set (drop (maxSize c) ys)"
        then obtain e' where e': "e' \<in> set (drop (maxSize c) ys)" "fst e = fst e'" by blast
        then have "e = e'" using inj \<open>e \<in> set ys\<close> td(1) by (auto simp: inj_on_def)
        then show False using e e'(1) td(2) by blast
      qed
      ultimately show "e \<in> {e \<in> set ys. fst e \<notin> fst ` set (drop (maxSize c) ys)}" by blast
    qed
  qed
  finally show k: "kept = set (take (maxSize c) (rev (sort_key last_access (cacheMap c))))" by (simp add: ys_def)
  have "card (set (take (maxSize c) ys)) = length (take (maxSize c) ys)" using dys by (intro distinct_card) simp
  then show "card kept = min (maxSize c) (length (cacheMap c))" by (simp add: k ys_def min.commute)
qed

lemma lru_size_insert:
  assumes "lru_ok c"
  shows "lru_size (lru_insert c k v) \<le> max (truncateThreshold c) (maxSize c) + 1"
proof -
  have "length (cacheMap (truncate_if_needed c)) \<le> max (truncateThreshold c) (maxSize c)"
  proof (cases "truncateThreshold c < length (cacheMap c)")
    case True
    have "distinct (cacheMap (truncate_if_needed c))"
      using lru_ok_truncate [OF assms] by (simp add: lru_ok_def distinct_map)
    then show ?thesis using truncate_keeps(2) [OF assms True] by (simp add: distinct_card)
  next
    case False
    then show ?thesis by (simp add: truncate_if_needed_def)
  qed
  then show ?thesis
    by (auto simp: lru_insert_def lru_size_def Let_def touch_def split: option.splits)
qed

subsection \<open>Saving and loading\<close>

lemma truncate_small: "lru_size c \<le> truncateThreshold c \<Longrightarrow> truncate_if_needed c = c"
  by (simp add: truncate_if_needed_def lru_size_def)

definition entry_ok :: "uint256 \<times> uint256 \<times> int \<Rightarrow> bool" where
  "entry_ok e \<longleftrightarrow> uint256_ok (fst e) \<and> uint256_ok (fst (snd e))"

abbreviation insert_all :: "CPowCache \<Rightarrow> (uint256 \<times> uint256 \<times> int) list \<Rightarrow> CPowCache" where
  "insert_all c es \<equiv> foldl (\<lambda>c e. lru_insert c (fst e) (fst (snd e))) c es"

lemma read_entries_ser:
  "list_all entry_ok es \<Longrightarrow>
   read_entries (length es) c
     (concat (map (\<lambda>(headerHash, powHash, _). ser_uint256 headerHash @ ser_uint256 powHash) es) @ s) =
   Inr (insert_all c es, s)"
  by (induction es arbitrary: c) (auto simp: entry_ok_def codec_ser)

lemma size_insert_new: "lru_size c \<le> truncateThreshold c \<Longrightarrow> lru_lookup c k = None \<Longrightarrow> lru_size (lru_insert c k v) = Suc (lru_size c)"
  by (auto simp: lru_insert_def truncate_small lru_size_def lru_lookup_def split: option.splits)

lemma threshold_insert [simp]: "truncateThreshold (lru_insert c k v) = truncateThreshold c"
  by (simp add: lru_insert_def Let_def split: option.splits)

lemma lookup_insert_all:
  assumes "lru_ok c" "distinct (map fst es)" "\<forall>e \<in> set es. lru_lookup c (fst e) = None"
    "lru_size c + length es \<le> truncateThreshold c"
  shows "lru_lookup (insert_all c es) k = (case map_of es k of Some (v, _) \<Rightarrow> Some v | None \<Rightarrow> lru_lookup c k) \<and>
    lru_size (insert_all c es) = lru_size c + length es \<and> lru_ok (insert_all c es)"
  using assms
proof (induction es arbitrary: c)
  case (Cons e es)
  obtain h p a where e: "e = (h, p, a)" by (cases e)
  define c1 where "c1 = lru_insert c h p"
  have t: "truncate_if_needed c = c" using Cons.prems(4) by (intro truncate_small) simp
  have l: "lru_lookup c1 k = (if k = h then Some p else lru_lookup c k)" for k
    using lookup_insert [OF Cons.prems(1), of h p k] by (simp add: c1_def t)
  have "lru_size c1 = Suc (lru_size c)" using Cons.prems e by (simp add: c1_def size_insert_new)
  moreover have "\<forall>x \<in> set es. lru_lookup c1 (fst x) = None" using Cons.prems(2,3) e by (auto simp: l image_iff)
  ultimately have "lru_lookup (insert_all c1 es) k = (case map_of es k of Some (v, _) \<Rightarrow> Some v | None \<Rightarrow> lru_lookup c1 k) \<and>
    lru_size (insert_all c1 es) = lru_size c1 + length es \<and> lru_ok (insert_all c1 es)"
    using Cons.prems lru_ok_insert [OF Cons.prems(1)] by (intro Cons.IH) (simp_all add: c1_def)
  moreover have "map_of es h = None" using Cons.prems(2) e by (simp add: map_of_eq_None_iff)
  ultimately show ?case using \<open>lru_size c1 = Suc (lru_size c)\<close> by (auto simp: e c1_def [symmetric] l split: option.splits)
qed simp

lemma powcache_roundtrip:
  assumes "lru_ok c" "list_all entry_ok (cacheMap c)" "lru_size c \<le> unat MAX_SIZE"
    and fresh: "cacheMap d = []" "lru_size c \<le> truncateThreshold d"
  shows "\<exists>d'. PowCache_Unserialize d (fst (PowCache_Serialize c) @ s) = Inr (d', s) \<and> lru_lookup d' = lru_lookup c \<and>
    lru_size d' = lru_size c \<and> lru_ok d'"
proof -
  have n: "unat (word_of_nat (lru_size c) :: u64) = lru_size c"
    using assms(3) by (simp add: unat_word_of_nat MAX_SIZE_def)
  then have le: "(word_of_nat (lru_size c) :: u64) \<le> MAX_SIZE" using assms(3) by (simp add: word_le_nat_alt)
  have okd: "lru_ok d" by (simp add: lru_ok_def fresh)
  have emp: "lru_lookup d k = None" "lru_size d = 0" for k by (simp_all add: lru_lookup_def lru_size_def fresh)
  define d1 where "d1 = insert_all d (cacheMap c)"
  have d1: "lru_lookup d1 k = lru_lookup c k \<and> lru_size d1 = lru_size c \<and> lru_ok d1" for k
    using lookup_insert_all [OF okd, of "cacheMap c" k] assms(1) fresh(2) emp
    by (auto simp: d1_def lru_ok_def lru_size_def lru_lookup_def split: option.splits)
  have r: "read_entries (lru_size c) d (concat (map (\<lambda>(headerHash, powHash, _). ser_uint256 headerHash @ ser_uint256 powHash) (cacheMap c)) @ s) = Inr (d1, s)"
    using read_entries_ser [OF assms(2), of d s] by (simp add: lru_size_def d1_def)
  let ?d' = "d1\<lparr>pc_nVersion := POWCACHE_CURRENT_VERSION, nSavedSize := word_of_nat (lru_size d1)\<rparr>"
  have "PowCache_Unserialize d (fst (PowCache_Serialize c) @ s) = Inr (?d', s)"
    using r n le by (simp add: PowCache_Unserialize_def PowCache_Serialize_def codec_ser)
  moreover have "lru_lookup ?d' = lru_lookup c" "lru_size ?d' = lru_size c" "lru_ok ?d'" 
    using d1 by (auto simp: lru_lookup_def lru_size_def lru_ok_def fun_eq_iff)
  ultimately show ?thesis by blast
qed

subsection \<open>Properties\<close>

text \<open>
  C40: the cache is transparent. If every entry is the proof-of-work hash of the headers stored under its
  key, and headers with the same identity hash have the same proof-of-work hash, then \<^verbatim>\<open>GetPOWHash\<close> returns
  the computed hash whether it reads the cache, validates it or bypasses it, and the cache stays correct,
  whatever entries truncation drops on the way.
\<close>

theorem GetPOWHash_transparent:
  fixes h :: CBlockHeader and Hash :: "bytes \<Rightarrow> uint256" and sph cn :: "int \<Rightarrow> bytes \<Rightarrow> bytes"
  defines "key \<equiv> header_GetHash Hash" and "pow \<equiv> header_ComputeHash sph cn"
  assumes "lru_ok c" "faithful lru_lookup key pow c" "\<forall>h'. key h' = key h \<longrightarrow> pow h' = pow h"
  shows "fst (GetPOWHash Hash sph cn h readCache c) = pow h \<and> lru_ok (snd (GetPOWHash Hash sph cn h readCache c)) \<and>
     faithful lru_lookup key pow (snd (GetPOWHash Hash sph cn h readCache c))"
proof -
  obtain v c' where r: "GetPOWHash Hash sph cn h readCache c = (v, c')" by fastforce
  have "v = pow h \<and> lru_ok c' \<and> faithful lru_lookup key pow c'"
    using lru.cached_value_faithful [of c key pow h bValidate readCache v c'] assms(3-5) r
    unfolding GetPOWHash_def key_def pow_def by blast
  then show ?thesis by (simp add: r)
qed

definition empty_cache :: CPowCache where
  "empty_cache = \<lparr>cacheMap = [], maxSize = 2, truncateThreshold = 4, accessCounter = 0,
     pc_nVersion = 1, nSavedSize = 0, nSaveInterval = 720, bValidate = False\<rparr>"

definition sample_header :: CBlockHeader where
  "sample_header = \<lparr>hdr_nVersion = 4, hashPrevBlock = replicate 32 1, hashMerkleRoot = replicate 32 2, hdr_nTime = 3,
     hdr_nBits = 4, hdr_nNonce = 5, hdr_nFlags = 0\<rparr>"

theorem GetPOWHash_transparent_witness:
  "fst (GetPOWHash (\<lambda>b. b) (\<lambda>_ b. b) (\<lambda>_ _. replicate 64 9) sample_header True empty_cache) =
     header_ComputeHash (\<lambda>_ b. b) (\<lambda>_ _. replicate 64 9) sample_header"
proof -
  have "fold (\<lambda>f. f) (gr_stages sph (\<lambda>_ _. x) a c) input = x" for sph x a c input
    by (simp only: gr_stages_def fold_append fold_simps o_apply)
  then have "header_ComputeHash (\<lambda>_ b. b) (\<lambda>_ _. replicate 64 9) h = replicate 32 9" for h
    by (simp only: header_ComputeHash_def HashGR_eq) simp
  then show ?thesis
    using GetPOWHash_transparent [of empty_cache "\<lambda>b. b" "\<lambda>_ b. b" "\<lambda>_ _. replicate 64 9" sample_header True]
    by (simp add: lru_ok_def faithful_def lru_lookup_def empty_cache_def)
qed

text \<open>
  Truncation keeps exactly the \<^verbatim>\<open>maxSize\<close> entries that were accessed last, whatever the iteration order
  of the hash table, and after an insertion the cache never holds more than one entry above the larger of
  its two limits.
\<close>

theorem lru_truncation:
  assumes "lru_ok c" "truncateThreshold c < lru_size c"
  shows "card (set (cacheMap (truncate_if_needed c))) = min (maxSize c) (lru_size c) \<and>
    (\<forall>e e'. e \<in> set (cacheMap (truncate_if_needed c)) \<and> e' \<in> set (cacheMap c) - set (cacheMap (truncate_if_needed c)) \<longrightarrow>
       last_access e' < last_access e) \<and>
    lru_size (lru_insert c k v) \<le> max (truncateThreshold c) (maxSize c) + 1"
proof -
  let ?ys = "rev (sort_key last_access (cacheMap c))"
  have big: "truncateThreshold c < length (cacheMap c)" using assms(2) by (simp add: lru_size_def)
  have d: "distinct (map last_access (cacheMap c))" using assms(1) by (simp add: lru_ok_def)
  have "set (cacheMap c) = set (take (maxSize c) ?ys) \<union> set (drop (maxSize c) ?ys)"
    by (metis append_take_drop_id set_append set_rev set_sort)
  then show ?thesis
    using truncate_keeps [OF assms(1) big] sort_key_drop_gt [OF d] lru_size_insert [OF assms(1), of k v]
    by (auto simp: lru_size_def)
qed

theorem lru_truncation_witness:
  "card (set (cacheMap (truncate_if_needed (empty_cache\<lparr>cacheMap := [([1], [1], 5), ([2], [2], 3), ([3], [3], 4)],
     truncateThreshold := 2, accessCounter := 6\<rparr>)))) = 2"
  using lru_truncation [of "empty_cache\<lparr>cacheMap := [([1], [1], 5), ([2], [2], 3), ([3], [3], 4)],
     truncateThreshold := 2, accessCounter := 6\<rparr>"]
  by (simp add: lru_ok_def last_access_def lru_size_def empty_cache_def)

text \<open>
  A cache that was saved is loaded with the same entries into an empty cache that is large enough.
\<close>

theorem powcache_save_load:
  assumes "lru_ok c" "list_all entry_ok (cacheMap c)" "lru_size c \<le> unat MAX_SIZE"
    "cacheMap d = []" "lru_size c \<le> truncateThreshold d"
  shows "\<exists>d'. PowCache_Unserialize d (fst (PowCache_Serialize c) @ s) = Inr (d', s) \<and> lru_lookup d' = lru_lookup c \<and>
    lru_size d' = lru_size c \<and> lru_ok d'"
  by (rule powcache_roundtrip [OF assms])

theorem powcache_save_load_witness:
  "\<exists>d'. PowCache_Unserialize empty_cache (fst (PowCache_Serialize
      (empty_cache\<lparr>cacheMap := [(replicate 32 7, replicate 32 8, 0)], accessCounter := 1\<rparr>))) = Inr (d', []) \<and>
    lru_lookup d' (replicate 32 7) = Some (replicate 32 8)"
proof -
  let ?c = "empty_cache\<lparr>cacheMap := [(replicate 32 7, replicate 32 8, 0)], accessCounter := 1\<rparr>"
  obtain d' where "PowCache_Unserialize empty_cache (fst (PowCache_Serialize ?c) @ []) = Inr (d', [])" "lru_lookup d' = lru_lookup ?c"
    using powcache_save_load [of ?c empty_cache "[]"]
    by (auto simp: lru_ok_def last_access_def lru_size_def empty_cache_def entry_ok_def uint256_ok_def MAX_SIZE_def)
  moreover have "lru_lookup ?c (replicate 32 7) = Some (replicate 32 8)" by (simp add: lru_lookup_def)
  ultimately show ?thesis by auto
qed

text \<open>
  C40: \<^verbatim>\<open>WantsToSave\<close> asks for a save after \<^verbatim>\<open>nSaveInterval\<close> new elements as long as the cache has not shrunk
  since the last save; once it has, the unsigned difference wraps and every call asks for a save.
\<close>

theorem WantsToSave_wraps:
  assumes "0 \<le> nSaveInterval c" "nSaveInterval c < 2 ^ 31" "lru_size c < 2 ^ 62" "unat (nSavedSize c) < 2 ^ 62"
  shows "WantsToSave c \<longleftrightarrow> lru_size c < unat (nSavedSize c) \<or> int (lru_size c) - int (unat (nSavedSize c)) \<ge> nSaveInterval c"
proof -
  define a b where "a = lru_size c" and "b = unat (nSavedSize c)"
  have i: "unat (word_of_int (nSaveInterval c) :: u64) = nat (nSaveInterval c)"
    using assms(1,2) by (simp add: unat_eq_nat_uint uint_word_of_int)
  have "unat (word_of_nat a - nSavedSize c :: u64) = (if b \<le> a then a - b else a + 2 ^ 64 - b)"
    using assms(3) by (simp add: unat_sub_if' unat_word_of_nat a_def b_def)
  then have "WantsToSave c \<longleftrightarrow> nat (nSaveInterval c) \<le> (if b \<le> a then a - b else a + 2 ^ 64 - b)"
    unfolding WantsToSave_def word_le_nat_alt i a_def [symmetric] by simp
  then show ?thesis using assms unfolding a_def [symmetric] b_def [symmetric] by auto
qed

theorem WantsToSave_wraps_witness:
  "WantsToSave (empty_cache\<lparr>nSavedSize := 1\<rparr>)"
  using WantsToSave_wraps [of "empty_cache\<lparr>nSavedSize := 1\<rparr>"] by (simp add: empty_cache_def lru_size_def)

end
