(* ===== verification/Pow.thy ===== *)
theory Pow
  imports Chain_Params Bignum Block_Index Powcache
begin

text \<open>
  Difficulty and the proof-of-work check, \<^verbatim>\<open>src/src/pow.cpp\<close>. The result \<^term>\<open>Inl e\<close> stands for a failed
  assertion, a null pointer that is followed or an exception. The function-local static variable
  \<^verbatim>\<open>DGWenabled\<close> is an argument and a result.
\<close>

unbundle bit_operations_syntax

subsection \<open>Numbers of 512 bits\<close>

definition arith512_of_256 :: "base_uint \<Rightarrow> base_uint" where
  "arith512_of_256 b = b @ replicate 8 0"

definition trim256 :: "base_uint \<Rightarrow> base_uint" where
  "trim256 a = take 8 a"

subsection \<open>Dark Gravity Wave\<close>

datatype pow_error = Assertion | Null_pointer | Arith_error uint_error | Bignum_error

definition compact_result :: "base_uint \<Rightarrow> pow_error + u32" where
  "compact_result t = (case GetCompact t False of None \<Rightarrow> Inl Assertion | Some c \<Rightarrow> Inr c)"

definition arith_result :: "uint_error + base_uint \<Rightarrow> pow_error + base_uint" where
  "arith_result r = (case r of Inl e \<Rightarrow> Inl (Arith_error e) | Inr x \<Rightarrow> Inr x)"

text \<open>The inner loop of the walk; it runs at most once per ancestor. \<^term>\<open>Some None\<close> is its assertion.\<close>

definition find_kind :: "store \<Rightarrow> bool \<Rightarrow> ptr option \<Rightarrow> ptr option option" where
  "find_kind s fProofOfStake q =
     while_option (\<lambda>q. case q of None \<Rightarrow> False | Some p \<Rightarrow> IsProofOfStake (s p) \<noteq> fProofOfStake)
       (\<lambda>q. pprev (s (the q))) q"

definition dgw_prev :: "store \<Rightarrow> bool \<Rightarrow> ptr \<Rightarrow> pow_error + ptr" where
  "dgw_prev s fProofOfStake pindex =
     (case pprev (s pindex) of None \<Rightarrow> Inl Assertion
      | Some q \<Rightarrow> (case find_kind s fProofOfStake (Some q) of
          Some (Some r) \<Rightarrow> Inr r
        | _ \<Rightarrow> Inl Assertion))"

function dgw_loop :: "store \<Rightarrow> bool \<Rightarrow> int \<Rightarrow> nat \<Rightarrow> ptr \<Rightarrow> base_uint \<Rightarrow> pow_error + ptr \<times> base_uint" where
  "dgw_loop s fProofOfStake nPastBlocks nCountBlocks pindex bnPastTargetAvg =
     (if int nCountBlocks \<le> nPastBlocks then
        let bnTarget = arith512_of_256 (fst (SetCompact (bi_nBits (s pindex))))
        in ebind (if nCountBlocks = 1 then Inr bnTarget
                  else arith_result (uint_div (uint_add (uint_mul32 bnPastTargetAvg (word_of_nat nCountBlocks)) bnTarget)
                                       (uint_of_u64 16 (word_of_nat (nCountBlocks + 1)))))
             (\<lambda>avg. ebind (if int nCountBlocks \<noteq> nPastBlocks then dgw_prev s fProofOfStake pindex else Inr pindex)
               (\<lambda>pindex. dgw_loop s fProofOfStake nPastBlocks (nCountBlocks + 1) pindex avg))
      else Inr (pindex, bnPastTargetAvg))"
  by pat_completeness auto
termination by (relation "measure (\<lambda>(s, f, n, c, p, a). nat (n + 1 - int c))") auto

declare dgw_loop.simps [simp del]

definition DarkGravityWave :: "Consensus_Params \<Rightarrow> store \<Rightarrow> ptr option \<Rightarrow> bool \<Rightarrow> pow_error + u32" where
  "DarkGravityWave params s pindexLast fProofOfStake =
     (let bnPowLimit = UintToArith256 (powLimit params);
          nPastBlocks = DGWBlocksAvg params
      in case pindexLast of
           None \<Rightarrow> compact_result bnPowLimit
         | Some pLast \<Rightarrow>
             if nHeight (s pLast) < nPastBlocks then compact_result bnPowLimit
             else ebind (dgw_loop s fProofOfStake nPastBlocks 1 pLast (uint_null 16)) (\<lambda>(pindex, bnPastTargetAvg).
               let nActualTimespan = GetBlockTime (s pLast) - GetBlockTime (s pindex);
                   nTargetTimespan0 = nPastBlocks *
                     (if fProofOfStake then nStakeTargetSpacing params else nPowTargetSpacing params);
                   nTargetTimespan1 = (if nHeight (s pLast) > nPoSActivationHeight params
                                      then nTargetTimespan0 * 2 else nTargetTimespan0);
                   nActualTimespan = max nActualTimespan (cdiv nTargetTimespan1 3);
                   nActualTimespan = min nActualTimespan (nTargetTimespan1 * 3)
               in ebind (arith_result (uint_div (uint_mul32 bnPastTargetAvg (word_of_int nActualTimespan))
                                         (uint_of_u64 16 (word_of_int nTargetTimespan1)))) (\<lambda>bnNew.
                  let bnFinal = trim256 bnNew;
                      bnFinal = (if CompareTo bnFinal (uint_of_u64 8 0) \<le> 0 \<or> CompareTo bnFinal bnPowLimit > 0
                                 then bnPowLimit else bnFinal)
                  in compact_result bnFinal)))"

subsection \<open>Retargeting\<close>

definition CalculateNextWorkRequired :: "Consensus_Params \<Rightarrow> CBlockIndex \<Rightarrow> int \<Rightarrow> pow_error + u32" where
  "CalculateNextWorkRequired params blk nFirstBlockTime =
     (if fPowNoRetargeting params then Inr (bi_nBits blk)
      else let nActualTimespan = GetBlockTime blk - nFirstBlockTime;
               nActualTimespan = max nActualTimespan (cdiv (nTargetTimespan params) 4);
               nActualTimespan = min nActualTimespan (nTargetTimespan params * 4);
               bnPowLimit = UintToArith256 (powLimit params);
               bnNew = fst (SetCompact (bi_nBits blk))
           in ebind (arith_result (uint_div (uint_mul32 bnNew (word_of_int nActualTimespan))
                                    (uint_of_u64 8 (word_of_int (nTargetTimespan params))))) (\<lambda>bnNew.
              compact_result (if CompareTo bnNew bnPowLimit > 0 then bnPowLimit else bnNew)))"

text \<open>
  The loop of \<^verbatim>\<open>IsPosDGWenabled\<close>: the next proof-of-stake block behind \<open>pindex\<close>, counted; the walks end at
  the genesis block.
\<close>

partial_function (option) dgw_count :: "store \<Rightarrow> int \<Rightarrow> int \<Rightarrow> ptr option \<Rightarrow> bool option" where
  "dgw_count s limit cnt pindex =
     (if pindex = None then Some False
      else do {
        q \<leftarrow> find_kind s True (pprev (s (the pindex)));
        if q = None then Some False
        else if cnt + 1 > limit then Some True
        else dgw_count s limit (cnt + 1) q })"

definition IsPosDGWenabled :: "Consensus_Params \<Rightarrow> store \<Rightarrow> bool \<Rightarrow> ptr \<Rightarrow> bool option" where
  "IsPosDGWenabled params s DGWenabled pindexLast =
     (if DGWenabled then Some True else dgw_count s (nPowDGWHeight params + 1) 0 (Some pindexLast))"

definition last_index :: "store \<Rightarrow> ptr \<Rightarrow> bool \<Rightarrow> pow_error + ptr" where
  "last_index s p fProofOfStake =
     (case GetLastBlockIndex s (Some p) fProofOfStake of Some (Some q) \<Rightarrow> Inr q | _ \<Rightarrow> Inl Null_pointer)"

definition cap_target :: "Consensus_Params \<Rightarrow> int \<Rightarrow> u32" where
  "cap_target params bnNew =
     (let bnPowLimit = int (le_value (powLimit params)) in bn_GetCompact (if bnNew > bnPowLimit then bnPowLimit else bnNew))"

text \<open>
  The part of \<^verbatim>\<open>GetNextTargetRequired\<close> behind the early returns. The target moves exponentially towards the
  target spacing, unless the chain is long enough for Dark Gravity Wave.
\<close>

definition retarget ::
  "Consensus_Params \<Rightarrow> network \<Rightarrow> store \<Rightarrow> bool \<Rightarrow> ptr \<Rightarrow> ptr \<Rightarrow> ptr \<Rightarrow> bool \<Rightarrow> pow_error + u32 \<times> bool" where
  "retarget params net s DGWenabled pLast pindexPrev pindexPrevPrev fProofOfStake =
     (let nActualSpacing = GetBlockTime (s pindexPrev) - GetBlockTime (s pindexPrevPrev);
          nHypotheticalSpacing = GetBlockTime (s pLast) - GetBlockTime (s pindexPrev);
          nActualSpacing = (if \<not> fProofOfStake \<and> nHypotheticalSpacing > nActualSpacing
                            then nHypotheticalSpacing else nActualSpacing);
          bnNew = bn_SetCompact (bi_nBits (s pindexPrev))
      in if net = REGTEST then Inr (cap_target params bnNew, DGWenabled)
         else let nTargetSpacing = (if fProofOfStake then nStakeTargetSpacing params * 2 else nPowTargetSpacing params);
                  nInterval = cdiv (nTargetTimespan params) nTargetSpacing
              in case (if fProofOfStake then IsPosDGWenabled params s DGWenabled pindexPrev else Some DGWenabled) of
                   None \<Rightarrow> Inl Null_pointer
                 | Some enabled \<Rightarrow>
                     if fProofOfStake \<and> \<not> enabled \<or> nHeight (s pLast) + 1 < nPowDGWHeight params then
                       let d = (nInterval + 1) * nTargetSpacing;
                           n = bnNew * ((nInterval - 1) * nTargetSpacing + nActualSpacing + nActualSpacing)
                       in if d = 0 then Inl Bignum_error else Inr (cap_target params (cdiv n d), enabled)
                     else ebind (DarkGravityWave params s (Some pindexPrev) fProofOfStake) (\<lambda>c. Inr (c, enabled)))"

definition GetNextTargetRequired ::
  "Consensus_Params \<Rightarrow> network \<Rightarrow> store \<Rightarrow> bool \<Rightarrow> ptr option \<Rightarrow> bool \<Rightarrow> pow_error + u32 \<times> bool" where
  "GetNextTargetRequired params net s DGWenabled pindexLast fProofOfStake =
     (let limit = (\<lambda>t. ebind (compact_result (UintToArith256 t)) (\<lambda>c. Inr (c, DGWenabled)))
      in case pindexLast of None \<Rightarrow> limit (powLimit params)
         | Some pLast \<Rightarrow>
             ebind (last_index s pLast fProofOfStake) (\<lambda>pindexPrev.
               case pprev (s pindexPrev) of None \<Rightarrow> limit (bnInitialHashTarget params)
               | Some pp \<Rightarrow>
                   ebind (last_index s pp fProofOfStake) (\<lambda>pindexPrevPrev.
                     if pprev (s pindexPrevPrev) = None then limit (bnInitialHashTarget params)
                     else retarget params net s DGWenabled pLast pindexPrev pindexPrevPrev fProofOfStake)))"

subsection \<open>The check\<close>

definition CheckProofOfWork :: "Consensus_Params \<Rightarrow> uint256 \<Rightarrow> u32 \<Rightarrow> bool" where
  "CheckProofOfWork params hash nBits =
     (let (bnTarget, fNegative, fOverflow) = SetCompact nBits
      in if fNegative \<or> EqualTo bnTarget 0 \<or> fOverflow \<or> CompareTo bnTarget (UintToArith256 (powLimit params)) > 0 then False
         else \<not> CompareTo (UintToArith256 hash) bnTarget > 0)"

definition CheckPOW ::
  "Consensus_Params \<Rightarrow> (bytes \<Rightarrow> uint256) \<Rightarrow> (int \<Rightarrow> bytes \<Rightarrow> bytes) \<Rightarrow> (int \<Rightarrow> bytes \<Rightarrow> bytes) \<Rightarrow> CBlock \<Rightarrow>
   CPowCache \<Rightarrow> bool \<times> CPowCache" where
  "CheckPOW params Hash sph cn block cache =
     (if block_IsProofOfStake block then (True, cache)
      else let (hash, cache) = GetPOWHash Hash sph cn (header block) True cache
           in if CheckProofOfWork params hash (hdr_nBits (header block)) then (True, cache)
              else let (hash, cache) = GetPOWHash Hash sph cn (header block) False cache
                   in (CheckProofOfWork params hash (hdr_nBits (header block)), cache))"

subsection \<open>The check is exact\<close>

lemma CheckProofOfWork_value:
  assumes "length hash = 32" "length (powLimit params) = 32"
  shows "CheckProofOfWork params hash nBits \<longleftrightarrow>
    (\<exists>t. SetCompact nBits = (t, False, False) \<and> 0 < le_value t \<and> le_value t \<le> le_value (powLimit params) \<and> le_value hash \<le> le_value t)"
proof -
  obtain t fn fo where c: "SetCompact nBits = (t, fn, fo)" by (metis prod_cases3)
  have len: "length t = 8" by (rule length_SetCompact [OF c])
  have l: "length (UintToArith256 x) = 8" for x by (rule length_UintToArith256)
  show ?thesis
    using assms by (auto simp: CheckProofOfWork_def c CompareTo_simps len l EqualTo_value le_value_UintToArith256)
qed

subsection \<open>Walks\<close>

lemma find_kind_None [simp]: "find_kind s f None = Some None"
  unfolding find_kind_def by (subst while_option_unfold) simp

lemma find_kind_Some: "find_kind s f (Some p) = (if IsProofOfStake (s p) = f then Some (Some p) else find_kind s f (pprev (s p)))"
  unfolding find_kind_def by (subst while_option_unfold) simp

lemma find_kind_spec:
  assumes "wf_store s"
  shows "\<exists>r. find_kind s f (Some p) = Some r \<and>
    (case r of None \<Rightarrow> \<forall>q. is_ancestor s q p \<longrightarrow> IsProofOfStake (s q) \<noteq> f
     | Some q \<Rightarrow> is_ancestor s q p \<and> IsProofOfStake (s q) = f \<and>
         (\<forall>a. is_ancestor s a p \<and> IsProofOfStake (s a) = f \<longrightarrow> height s a \<le> height s q))"
proof -
  have "(\<lambda>q. case q of None \<Rightarrow> False | Some p \<Rightarrow> IsProofOfStake (s p) \<noteq> f) =
      (\<lambda>q. q \<noteq> None \<and> \<not> IsProofOfStake (s (the q)) = f)" by (rule ext) (auto split: option.splits)
  then have "find_kind s f (Some p) = while_option (\<lambda>q. q \<noteq> None \<and> \<not> IsProofOfStake (s (the q)) = f) (\<lambda>q. pprev (s (the q))) (Some p)"
    by (simp only: find_kind_def)
  then show ?thesis using walk_back [OF assms, of "\<lambda>q. IsProofOfStake (s q) = f" p] by simp
qed

lemma find_kind_total: "wf_store s \<Longrightarrow> \<exists>r. find_kind s f q = Some r"
  using find_kind_spec by (cases q) fastforce+

primrec nth_kind :: "store \<Rightarrow> bool \<Rightarrow> nat \<Rightarrow> ptr \<Rightarrow> ptr option" where
  "nth_kind s f 0 p = Some p"
| "nth_kind s f (Suc n) p = (case dgw_prev s f p of Inl _ \<Rightarrow> None | Inr r \<Rightarrow> nth_kind s f n r)"

lemma dgw_prev_ancestor: "wf_store s \<Longrightarrow> dgw_prev s f p = Inr r \<Longrightarrow> is_ancestor s r p"
proof -
  assume wf: "wf_store s" and d: "dgw_prev s f p = Inr r"
  then obtain q where q: "pprev (s p) = Some q" "find_kind s f (Some q) = Some (Some r)"
    by (auto simp: dgw_prev_def split: option.splits)
  then have "is_ancestor s r q" using find_kind_spec [OF wf, of f q] by auto
  then show ?thesis using is_ancestor_trans is_ancestor_prev q(1) by blast
qed

subsection \<open>The average\<close>

abbreviation target_value :: "CBlockIndex \<Rightarrow> nat" where
  "target_value b \<equiv> le_value (fst (SetCompact (bi_nBits b)))"

lemma val_arith512 [simp]: "le_value (arith512_of_256 b) = le_value b"
  by (simp add: arith512_of_256_def le_value_append)

lemma length_arith512 [simp]: "length b = 8 \<Longrightarrow> length (arith512_of_256 b) = 16"
  by (simp add: arith512_of_256_def)

lemma length_target [simp]: "length (fst (SetCompact c)) = 8"
  using length_SetCompact [of c] by (metis prod.collapse)

lemma average_step:
  assumes "length avg = 16" "le_value avg \<le> L" "target_value b \<le> L" "L < 2 ^ 256" "k < 2 ^ 31"
  shows "\<exists>avg'. uint_div (uint_add (uint_mul32 avg (word_of_nat k)) (arith512_of_256 (fst (SetCompact (bi_nBits b)))))
      (uint_of_u64 16 (word_of_nat (k + 1))) = Inr avg' \<and> length avg' = 16 \<and>
      le_value avg' = (le_value avg * k + target_value b) div (k + 1) \<and> le_value avg' \<le> L"
proof -
  let ?n = "uint_add (uint_mul32 avg (word_of_nat k)) (arith512_of_256 (fst (SetCompact (bi_nBits b))))"
  let ?d = "uint_of_u64 16 (word_of_nat (k + 1))"
  have k: "unat (word_of_nat k :: u32) = k" "unat (word_of_nat (k + 1) :: u64) = k + 1"
    using assms(5) by (simp_all add: unat_word_of_nat del: of_nat_add of_nat_Suc)
  have "le_value avg * k \<le> L * 2 ^ 31" using assms(2,5) by (intro mult_le_mono) auto
  also have "\<dots> < 2 ^ 256 * 2 ^ 31" using assms(4) by simp
  finally have p: "le_value avg * k < 2 ^ 287" by simp
  have mul: "le_value (uint_mul32 avg (word_of_nat k)) = le_value avg * k"
    using p by (simp add: val_uint_mul32 k assms(1))
  have "le_value avg * k + target_value b < 2 ^ 287 + 2 ^ 256" using p assms(3,4) by linarith
  then have n: "le_value ?n = le_value avg * k + target_value b" by (simp add: val_uint_add mul assms(1))
  have d: "le_value ?d = k + 1" unfolding val_uint_of_u64 by (rule k(2))
  have "length ?n = 16" "length ?d = 16" using assms(1) by simp_all
  then obtain q where q: "uint_div ?n ?d = Inr q" "length q = 16" "le_value q = (le_value avg * k + target_value b) div (k + 1)"
    using uint_div_correct [of ?n ?d] n d by auto
  have "le_value avg * k + target_value b \<le> L * k + L" using assms(2,3) by (intro add_mono mult_le_mono1)
  then have "(le_value avg * k + target_value b) div (k + 1) \<le> (L * (k + 1)) div (k + 1)" by (intro div_le_mono) simp
  also have "\<dots> = L" by (rule nonzero_mult_div_cancel_right) simp
  finally have "le_value q \<le> L" unfolding q(3) .
  then show ?thesis using q by blast
qed

lemma dgw_loop_end: "n < k \<Longrightarrow> dgw_loop s f (int n) k p a = Inr (p, a)"
  by (subst dgw_loop.simps) simp

lemma dgw_loop_average:
  assumes wf: "wf_store s" and tb: "\<And>a. is_ancestor s a p0 \<Longrightarrow> target_value (s a) \<le> L" and L: "L < 2 ^ 256" and n: "n < 2 ^ 31"
    and "is_ancestor s p p0" "1 \<le> k" "k \<le> n" "nth_kind s f (n - k) p = Some first" "1 < k \<Longrightarrow> length avg = 16 \<and> le_value avg \<le> L"
  shows "\<exists>avg'. dgw_loop s f (int n) k p avg = Inr (first, avg') \<and> length avg' = 16 \<and> le_value avg' \<le> L"
  using assms(5-)
proof (induction "n - k" arbitrary: k p avg)
  case 0
  then have kn: "k = n" "first = p" by simp_all
  obtain a where a: "(if k = 1 then Inr (arith512_of_256 (fst (SetCompact (bi_nBits (s p))))) else
      arith_result (uint_div (uint_add (uint_mul32 avg (word_of_nat k)) (arith512_of_256 (fst (SetCompact (bi_nBits (s p))))))
        (uint_of_u64 16 (word_of_nat (k + 1))))) = Inr a" "length a = 16" "le_value a \<le> L"
    using average_step [of avg L "s p" k] 0 tb [OF 0(2)] L n kn by (cases "k = 1") (auto simp: arith_result_def)
  show ?case using a kn by (subst dgw_loop.simps) (simp add: ebind_def dgw_loop_end)
next
  case (Suc m)
  then have kn: "k < n" by simp
  obtain a where a: "(if k = 1 then Inr (arith512_of_256 (fst (SetCompact (bi_nBits (s p))))) else
      arith_result (uint_div (uint_add (uint_mul32 avg (word_of_nat k)) (arith512_of_256 (fst (SetCompact (bi_nBits (s p))))))
        (uint_of_u64 16 (word_of_nat (k + 1))))) = Inr a" "length a = 16" "le_value a \<le> L"
    using average_step [of avg L "s p" k] Suc.prems tb [OF Suc.prems(1)] L n kn by (cases "k = 1") (auto simp: arith_result_def)
  have "n - k = Suc (n - Suc k)" and m: "m = n - (k + 1)" using kn Suc.hyps(2) by simp_all
  then obtain r where r: "dgw_prev s f p = Inr r" "nth_kind s f (n - Suc k) r = Some first"
    using Suc.prems(4) by (auto split: sum.splits)
  have "is_ancestor s r p0" using dgw_prev_ancestor [OF wf r(1)] Suc.prems(1) is_ancestor_trans by blast
  then obtain avg' where "dgw_loop s f (int n) (k + 1) r a = Inr (first, avg')" "length avg' = 16" "le_value avg' \<le> L"
    using Suc.hyps(1) [of "k + 1" r a] m r(2) a kn by auto
  then show ?case using a r kn by (subst dgw_loop.simps) (simp add: ebind_def)
qed

subsection \<open>The new target\<close>

lemma compact_result_value:
  assumes "length t = 8"
  shows "\<exists>c v. compact_result t = Inr c \<and> SetCompact c = (v, False, False) \<and> le_value v \<le> le_value t \<and>
    (0 < le_value t \<longrightarrow> 0 < le_value v) \<and> c = bn_GetCompact (int (le_value t))"
proof -
  obtain c v where cv: "GetCompact t False = Some c" "SetCompact c = (v, False, False)" "le_value v \<le> le_value t"
    "(le_value t - le_value v) * 2 ^ 15 \<le> le_value t"
    using GetCompact_SetCompact [OF assms] by blast
  have "le_value t = 0" if "le_value v = 0" using cv(4) that by simp
  then show ?thesis using cv bn_GetCompact_eq [OF assms] by (auto simp: compact_result_def)
qed

lemma length_trim256 [simp]: "length a = 16 \<Longrightarrow> length (trim256 a) = 8"
  by (simp add: trim256_def)

lemma val_trim256:
  assumes "length a = 16"
  shows "le_value (trim256 a) = le_value a mod 2 ^ 256"
proof -
  have "le_value a = le_value (take 8 a) + 2 ^ 256 * le_value (drop 8 a)"
    using le_value_append [of "take 8 a" "drop 8 a"] assms by simp
  moreover have "le_value (take 8 a) < 2 ^ 256" using le_value_bound [of "take 8 a"] assms by simp
  ultimately show ?thesis by (simp add: trim256_def)
qed

definition dgw_timespan :: "Consensus_Params \<Rightarrow> CBlockIndex \<Rightarrow> bool \<Rightarrow> int" where
  "dgw_timespan params b f = (let t = DGWBlocksAvg params * (if f then nStakeTargetSpacing params else nPowTargetSpacing params)
     in if nHeight b > nPoSActivationHeight params then t * 2 else t)"

definition dgw_clamp :: "int \<Rightarrow> int \<Rightarrow> int" where
  "dgw_clamp span actual = min (max actual (span div 3)) (span * 3)"

lemma scaled_target:
  assumes "length avg = 16" "le_value avg \<le> L" "L < 2 ^ 256" "0 < span" "span * 3 < 2 ^ 32" "0 \<le> actual" "actual \<le> span * 3"
  shows "\<exists>new. uint_div (uint_mul32 avg (word_of_int actual)) (uint_of_u64 16 (word_of_int span)) = Inr new \<and> length new = 16 \<and>
    le_value new = le_value avg * nat actual div nat span"
proof -
  let ?n = "uint_mul32 avg (word_of_int actual)" and ?d = "uint_of_u64 16 (word_of_int span)"
  have a: "unat (word_of_int actual :: u32) = nat actual" using assms(5-7) by (simp add: unat_eq_nat_uint uint_word_of_int)
  have "nat actual < 2 ^ 32" using assms(5-7) by simp
  then have "le_value avg * nat actual < 2 ^ 256 * 2 ^ 32" using assms(2,3) by (intro mult_strict_mono') auto
  then have n: "le_value ?n = le_value avg * nat actual" by (simp add: val_uint_mul32 a assms(1))
  have d: "le_value ?d = nat span" unfolding val_uint_of_u64 using assms(4,5) by (simp add: unat_eq_nat_uint uint_word_of_int)
  show ?thesis using uint_div_correct [of ?n ?d] n d assms(1,4) by auto
qed

lemma DarkGravityWave_target:
  fixes n :: nat
  assumes wf: "wf_store s" and len: "length (powLimit params) = 32" and avgn: "DGWBlocksAvg params = int n" "1 \<le> n" "n < 2 ^ 31"
    and h: "int n \<le> nHeight (s p)" and kinds: "nth_kind s f (n - 1) p = Some first"
    and tb: "\<And>a. is_ancestor s a p \<Longrightarrow> target_value (s a) \<le> le_value (powLimit params)"
    and lim: "0 < le_value (powLimit params)" "le_value (powLimit params) * 3 < 2 ^ 256"
    and span: "0 < dgw_timespan params (s p) f" "dgw_timespan params (s p) f * 3 < 2 ^ 32"
  shows "\<exists>avg c v. DarkGravityWave params s (Some p) f = Inr c \<and> SetCompact c = (v, False, False) \<and>
    0 < le_value v \<and> le_value v \<le> le_value (powLimit params) \<and> avg \<le> le_value (powLimit params) \<and>
    (let span = dgw_timespan params (s p) f;
         x = avg * nat (dgw_clamp span (GetBlockTime (s p) - GetBlockTime (s first))) div nat span
     in c = bn_GetCompact (int (if x = 0 \<or> x > le_value (powLimit params) then le_value (powLimit params) else x)))"
proof -
  define L where "L = le_value (powLimit params)"
  define sp where "sp = dgw_timespan params (s p) f"
  define act where "act = dgw_clamp sp (GetBlockTime (s p) - GetBlockTime (s first))"
  have L: "L < 2 ^ 256" using lim(2) by (simp add: L_def)
  obtain avg where avg: "dgw_loop s f (int n) 1 p (uint_null 16) = Inr (first, avg)" "length avg = 16" "le_value avg \<le> L"
    using dgw_loop_average [OF wf tb [folded L_def] L avgn(3) is_ancestor_refl _ avgn(2) kinds, of "uint_null 16"] by auto
  have sp: "0 < sp" "sp * 3 < 2 ^ 32" using span by (simp_all add: sp_def)
  have act: "0 \<le> act" "act \<le> sp * 3" using sp(1) by (auto simp: act_def dgw_clamp_def)
  obtain new where new: "uint_div (uint_mul32 avg (word_of_int act)) (uint_of_u64 16 (word_of_int sp)) = Inr new"
    "length new = 16" "le_value new = le_value avg * nat act div nat sp"
    using scaled_target [OF avg(2,3) L sp act] by blast
  have "nat act \<le> nat sp * 3" using act(2) sp(1) by linarith
  then have "le_value avg * nat act \<le> L * (nat sp * 3)" by (rule mult_le_mono [OF avg(3)])
  then have "le_value new \<le> (L * 3) * nat sp div nat sp" unfolding new(3) by (intro div_le_mono) (simp only: ac_simps)
  also have "\<dots> = L * 3" by (rule nonzero_mult_div_cancel_right) (use sp(1) in simp)
  finally have tr: "le_value (trim256 new) = le_value new" using lim(2) by (simp add: val_trim256 new(2) L_def)
  define fin where "fin = (if le_value new = 0 \<or> le_value new > L then UintToArith256 (powLimit params) else trim256 new)"
  have fl: "length fin = 8" "le_value fin = (if le_value new = 0 \<or> le_value new > L then L else le_value new)" "0 < le_value fin" "le_value fin \<le> L"
    using new(2) tr lim(1) len by (auto simp: fin_def L_def le_value_UintToArith256 length_UintToArith256)
  have cmp: "(CompareTo (trim256 new) (uint_of_u64 8 0) \<le> 0 \<or> CompareTo (trim256 new) (UintToArith256 (powLimit params)) > 0) =
      (le_value new = 0 \<or> le_value new > L)"
    using len by (simp add: CompareTo_simps length_UintToArith256 new(2) tr le_value_UintToArith256 L_def val_uint_of_u64)
  have sps: "sp = (if nHeight (s p) > nPoSActivationHeight params
      then int n * (if f then nStakeTargetSpacing params else nPowTargetSpacing params) * 2
      else int n * (if f then nStakeTargetSpacing params else nPowTargetSpacing params))"
    by (simp add: sp_def dgw_timespan_def avgn(1) Let_def)
  have "DarkGravityWave params s (Some p) f = compact_result fin"
    using h avg(1) new(1) sp(1)
    by (simp add: DarkGravityWave_def avgn(1) Let_def ebind_def sps [symmetric] cdiv_nonneg act_def [unfolded dgw_clamp_def, symmetric]
        arith_result_def cmp fin_def)
  moreover obtain c v where "compact_result fin = Inr c" "SetCompact c = (v, False, False)" "le_value v \<le> le_value fin"
    "0 < le_value v" "c = bn_GetCompact (int (le_value fin))"
    using compact_result_value [OF fl(1)] fl(3) by blast
  ultimately show ?thesis using fl(2,4) avg(3) new(3)
    by (intro exI [of _ "le_value avg"] exI [of _ c] exI [of _ v]) (simp add: Let_def L_def sp_def [symmetric] act_def [symmetric])
qed

subsection \<open>Counting proof-of-stake blocks\<close>

definition pos_ancestors :: "store \<Rightarrow> ptr \<Rightarrow> ptr set" where
  "pos_ancestors s p = {a. is_ancestor s a p \<and> a \<noteq> p \<and> IsProofOfStake (s a)}"

lemma finite_ancestors: "wf_store s \<Longrightarrow> finite {a. is_ancestor s a p}"
proof (rule finite_subset)
  assume wf: "wf_store s"
  show "{a. is_ancestor s a p} \<subseteq> the ` (\<lambda>k. nth_prev s k p) ` {..height s p}"
  proof
    fix a assume "a \<in> {a. is_ancestor s a p}"
    then obtain k where k: "nth_prev s k p = Some a" by (auto simp: is_ancestor_def)
    then have "k \<le> height s p" using nth_prev_height [OF wf] by blast
    then show "a \<in> the ` (\<lambda>k. nth_prev s k p) ` {..height s p}" using k by (force simp: image_iff)
  qed
qed simp

lemma pos_ancestors_step:
  assumes wf: "wf_store s" and r: "find_kind s True (pprev (s p)) = Some r"
  shows "pos_ancestors s p = (case r of None \<Rightarrow> {} | Some q \<Rightarrow> insert q (pos_ancestors s q))"
    and "\<And>q. r = Some q \<Longrightarrow> q \<notin> pos_ancestors s q \<and> height s q < height s p"
proof -
  note proper = proper_ancestor_iff [OF wf, of _ p]
  show "pos_ancestors s p = (case r of None \<Rightarrow> {} | Some q \<Rightarrow> insert q (pos_ancestors s q))"
  proof (cases "pprev (s p)")
    case None
    then show ?thesis using r proper by (auto simp: pos_ancestors_def)
  next
    case (Some p')
    have pa: "pos_ancestors s p = {a. is_ancestor s a p' \<and> IsProofOfStake (s a)}" using proper Some by (auto simp: pos_ancestors_def)
    show ?thesis
    proof (cases r)
      case None
      then show ?thesis using find_kind_spec [OF wf, of True p'] r pa by (auto simp: \<open>pprev (s p) = Some p'\<close>)
    next
      case (Some q)
      then have q: "is_ancestor s q p'" "IsProofOfStake (s q)"
        "\<And>a. is_ancestor s a p' \<Longrightarrow> IsProofOfStake (s a) \<Longrightarrow> height s a \<le> height s q"
        using find_kind_spec [OF wf, of True p'] r by (auto simp: \<open>pprev (s p) = Some p'\<close>)
      have "is_ancestor s a p' \<and> IsProofOfStake (s a) \<longleftrightarrow> a = q \<or> a \<in> pos_ancestors s q" for a
        using q is_ancestor_between [OF wf, of a p' q] is_ancestor_trans [of s a q p'] by (auto simp: pos_ancestors_def)
      then show ?thesis using pa Some by auto
    qed
  qed
  show "q \<notin> pos_ancestors s q \<and> height s q < height s p" if rq: "r = Some q" for q
  proof -
    obtain p' where p': "pprev (s p) = Some p'" using r rq by (cases "pprev (s p)") auto
    then have "is_ancestor s q p'" using find_kind_spec [OF wf, of True p'] r rq by auto
    then show ?thesis using is_ancestor_height [OF wf] wf_prev [OF wf p'] by (fastforce simp: pos_ancestors_def)
  qed
qed

lemma dgw_count_spec:
  assumes wf: "wf_store s" and "cnt \<le> limit"
  shows "dgw_count s limit cnt (Some p) = Some (cnt + int (card (pos_ancestors s p)) > limit)"
  using assms(2)
proof (induction "height s p" arbitrary: p cnt rule: less_induct)
  case less
  obtain r where r: "find_kind s True (pprev (s p)) = Some r" using find_kind_total [OF wf] by blast
  note st = pos_ancestors_step [OF wf r]
  show ?case
  proof (cases r)
    case None
    then show ?thesis using r st(1) less.prems by (subst dgw_count.simps) simp
  next
    case (Some q)
    then have q: "q \<notin> pos_ancestors s q" "height s q < height s p" using st(2) by auto
    have "finite (pos_ancestors s q)"
      by (rule finite_subset [OF _ finite_ancestors [OF wf, of q]]) (auto simp: pos_ancestors_def)
    then have c: "card (pos_ancestors s p) = Suc (card (pos_ancestors s q))" using st(1) Some q(1) by simp
    show ?thesis
    proof (cases "cnt + 1 > limit")
      case True
      then show ?thesis using r Some c less.prems by (subst dgw_count.simps) simp
    next
      case False
      then have "dgw_count s limit (cnt + 1) (Some q) = Some (cnt + 1 + int (card (pos_ancestors s q)) > limit)"
        using less.hyps [OF q(2), of "cnt + 1"] by simp
      then show ?thesis using r Some c False by (subst dgw_count.simps) (simp add: algebra_simps)
    qed
  qed
qed

lemma IsPosDGWenabled_spec:
  assumes "wf_store s" "0 \<le> nPowDGWHeight params"
  shows "IsPosDGWenabled params s DGWenabled p =
    Some (DGWenabled \<or> int (card (pos_ancestors s p)) > nPowDGWHeight params + 1)"
  using dgw_count_spec [OF assms(1), of 0 "nPowDGWHeight params + 1" p] assms(2) by (simp add: IsPosDGWenabled_def)

subsection \<open>The cap\<close>

lemma cap_target_value:
  assumes "0 \<le> bn" "length (powLimit params) = 32"
  shows "\<exists>v. SetCompact (cap_target params bn) = (v, False, False) \<and> le_value v \<le> le_value (powLimit params) \<and> int (le_value v) \<le> bn"
proof -
  define x where "x = nat (if bn > int (le_value (powLimit params)) then int (le_value (powLimit params)) else bn)"
  have x: "x \<le> le_value (powLimit params)" "int x \<le> bn" "int x = (if bn > int (le_value (powLimit params)) then int (le_value (powLimit params)) else bn)"
    using assms(1) by (auto simp: x_def)
  have "le_value (powLimit params) < 2 ^ 256" using le_value_bound [of "powLimit params"] assms(2) by simp
  then have "x < 2 ^ (32 * 8)" using x(1) by simp
  define pn :: base_uint where "pn = le_digits 8 x"
  have pn: "length pn = 8" "le_value pn = x" using \<open>x < 2 ^ (32 * 8)\<close> by (simp_all add: pn_def le_value_le_digits)
  obtain c v where cv: "compact_result pn = Inr c" "SetCompact c = (v, False, False)" "le_value v \<le> le_value pn"
    "c = bn_GetCompact (int (le_value pn))"
    using compact_result_value [OF pn(1)] by blast
  then have "cap_target params bn = c" using x(3) pn(2) by (simp add: cap_target_def Let_def)
  then show ?thesis using cv x pn(2) by auto
qed

lemma last_index_spec:
  assumes "wf_store s"
  shows "\<exists>q. last_index s p f = Inr q \<and> is_ancestor s q p \<and> (IsProofOfStake (s q) = f \<or> pprev (s q) = None)"
  using GetLastBlockIndex_spec [OF assms, of p f] by (auto simp: last_index_def)

subsection \<open>The next target\<close>

definition sane_params :: "Consensus_Params \<Rightarrow> bool" where
  "sane_params params \<longleftrightarrow> length (powLimit params) = 32 \<and> length (bnInitialHashTarget params) = 32 \<and>
     le_value (bnInitialHashTarget params) \<le> le_value (powLimit params) \<and>
     0 < le_value (powLimit params) \<and> le_value (powLimit params) * 3 < 2 ^ 256 \<and>
     1 \<le> DGWBlocksAvg params \<and> DGWBlocksAvg params < 2 ^ 12 \<and> 0 \<le> nPowDGWHeight params \<and>
     0 < nPowTargetSpacing params \<and> nPowTargetSpacing params < 2 ^ 16 \<and>
     0 < nStakeTargetSpacing params \<and> nStakeTargetSpacing params < 2 ^ 16 \<and> 0 \<le> nTargetTimespan params"

lemma sane_main: "sane_params CMainParams"
proof -
  define x :: bytes where "x = replicate 31 0xff @ [0]"
  have "replicate 31 (0xff :: u8) = 0xff # replicate 30 0xff" by (simp add: numeral_eq_Suc)
  then have "0 < le_value x" by (simp add: x_def)
  moreover have "le_value x < 2 ^ 248" using le_value_bound [of "replicate 31 (0xff :: u8)"] by (simp add: x_def le_value_append)
  moreover have "length x = 32" by (simp add: x_def)
  ultimately show ?thesis unfolding sane_params_def CMainParams_def x_def [symmetric] by simp
qed

definition valid_targets :: "Consensus_Params \<Rightarrow> store \<Rightarrow> ptr \<Rightarrow> bool" where
  "valid_targets params s p \<longleftrightarrow> (\<forall>a. is_ancestor s a p \<longrightarrow>
     (\<exists>t. SetCompact (bi_nBits (s a)) = (t, False, False) \<and> le_value t \<le> le_value (powLimit params)))"

text \<open>Block times may run backwards, but by less than half the target timespan.\<close>

definition calm_times :: "Consensus_Params \<Rightarrow> store \<Rightarrow> ptr \<Rightarrow> bool" where
  "calm_times params s p \<longleftrightarrow> (\<forall>a b. is_ancestor s b p \<and> is_ancestor s a b \<longrightarrow>
     2 * (GetBlockTime (s b) - GetBlockTime (s a)) + nTargetTimespan params \<ge>
       2 * max (nPowTargetSpacing params) (nStakeTargetSpacing params * 2))"

lemma interval_bound: "0 < sp \<Longrightarrow> 0 \<le> t \<Longrightarrow> (cdiv t sp - 1) * sp \<ge> t - 2 * sp"
proof -
  assume "0 < sp" "0 \<le> t"
  then have "t div sp * sp > t - sp" using div_mult_mod_eq [of t sp] pos_mod_bound [of sp t] by linarith
  then show ?thesis using \<open>0 < sp\<close> \<open>0 \<le> t\<close> by (simp add: cdiv_nonneg left_diff_distrib)
qed

lemma dgw_short: "length (powLimit params) = 32 \<Longrightarrow> nHeight (s p) < DGWBlocksAvg params \<Longrightarrow>
    DarkGravityWave params s (Some p) f = compact_result (UintToArith256 (powLimit params))"
  by (simp add: DarkGravityWave_def)

definition bounded_target :: "Consensus_Params \<Rightarrow> u32 \<Rightarrow> bool" where
  "bounded_target params c \<longleftrightarrow> (\<exists>v. SetCompact c = (v, False, False) \<and> le_value v \<le> le_value (powLimit params))"

lemma compact_limit:
  assumes "length t = 32" "le_value t \<le> le_value (powLimit params)"
  shows "\<exists>c. compact_result (UintToArith256 t) = Inr c \<and> bounded_target params c"
  using compact_result_value [OF length_UintToArith256, of t] assms by (fastforce simp: bounded_target_def le_value_UintToArith256)

lemma DarkGravityWave_bounded:
  assumes wf: "wf_store s" and sane: "sane_params params" and vt: "valid_targets params s p"
    and kinds: "DGWBlocksAvg params \<le> nHeight (s p) \<Longrightarrow> nth_kind s f (nat (DGWBlocksAvg params) - 1) p \<noteq> None"
  shows "\<exists>c. DarkGravityWave params s (Some p) f = Inr c \<and> bounded_target params c"
proof (cases "nHeight (s p) < DGWBlocksAvg params")
  case True
  then show ?thesis using dgw_short compact_limit sane by (simp add: sane_params_def)
next
  case False
  then obtain first where k: "nth_kind s f (nat (DGWBlocksAvg params) - 1) p = Some first" using kinds by force
  let ?sp = "if f then nStakeTargetSpacing params else nPowTargetSpacing params"
  have sp: "0 < ?sp" "?sp < 2 ^ 16" "1 \<le> DGWBlocksAvg params" "DGWBlocksAvg params < 2 ^ 12"
    using sane by (auto simp: sane_params_def)
  then have "0 < DGWBlocksAvg params * ?sp" by simp
  moreover have "DGWBlocksAvg params * ?sp < 2 ^ 12 * 2 ^ 16" using sp by (intro mult_strict_mono) auto
  ultimately have span: "0 < dgw_timespan params (s p) f" "dgw_timespan params (s p) f * 3 < 2 ^ 32"
    by (auto simp: dgw_timespan_def Let_def)
  have tb: "target_value (s a) \<le> le_value (powLimit params)" if "is_ancestor s a p" for a
    using vt that by (fastforce simp: valid_targets_def)
  show ?thesis
    using DarkGravityWave_target [OF wf _ _ _ _ _ k tb _ _ span] sane sp False
    by (fastforce simp: sane_params_def bounded_target_def)
qed

lemma retarget_bounded:
  assumes wf: "wf_store s" and sane: "sane_params params" and vt: "valid_targets params s p" and ct: "calm_times params s p"
    and q: "is_ancestor s q p" and r: "is_ancestor s r q"
    and kinds: "DGWBlocksAvg params \<le> nHeight (s q) \<Longrightarrow> nth_kind s f (nat (DGWBlocksAvg params) - 1) q \<noteq> None"
  shows "\<exists>c e. retarget params net s e0 p q r f = Inr (c, e) \<and> bounded_target params c"
proof -
  obtain t where "SetCompact (bi_nBits (s q)) = (t, False, False)" using vt q by (auto simp: valid_targets_def)
  then have bn: "0 \<le> bn_SetCompact (bi_nBits (s q))" by (simp add: bn_SetCompact_eq)
  have len: "length (powLimit params) = 32" using sane by (simp add: sane_params_def)
  have cap: "bounded_target params (cap_target params x)" if "0 \<le> x" for x
    using cap_target_value [OF that len] by (auto simp: bounded_target_def)
  define act where "act = (if \<not> f \<and> GetBlockTime (s p) - GetBlockTime (s q) > GetBlockTime (s q) - GetBlockTime (s r)
      then GetBlockTime (s p) - GetBlockTime (s q) else GetBlockTime (s q) - GetBlockTime (s r))"
  define sp where "sp = (if f then nStakeTargetSpacing params * 2 else nPowTargetSpacing params)"
  define iv where "iv = cdiv (nTargetTimespan params) sp"
  have sp: "0 < sp" "0 \<le> nTargetTimespan params" using sane by (auto simp: sp_def sane_params_def)
  have "2 * act + nTargetTimespan params \<ge> 2 * sp"
    using ct q r is_ancestor_trans [OF r q] unfolding calm_times_def act_def sp_def
    by (smt (verit, best) is_ancestor_refl)
  then have "0 \<le> (iv - 1) * sp + act + act" using interval_bound [OF sp] by (simp add: iv_def)
  moreover have "0 < (iv + 1) * sp" using sp cdiv_ge_0 [of "nTargetTimespan params" sp] by (simp add: iv_def)
  ultimately have pos: "0 \<le> cdiv (bn_SetCompact (bi_nBits (s q)) * ((iv - 1) * sp + act + act)) ((iv + 1) * sp)" "(iv + 1) * sp \<noteq> 0"
    using bn by (auto intro!: cdiv_ge_0)
  obtain en where en: "(if f then IsPosDGWenabled params s e0 q else Some e0) = Some en"
    using IsPosDGWenabled_spec [OF wf, of params e0 q] sane by (cases f) (auto simp: sane_params_def)
  have "valid_targets params s q" using vt q is_ancestor_trans by (auto simp: valid_targets_def)
  from DarkGravityWave_bounded [OF wf sane this kinds] obtain c where c: "DarkGravityWave params s (Some q) f = Inr c" "bounded_target params c"
    by blast
  show ?thesis
    using cap [OF bn] cap [OF pos(1)] pos(2) c en
    unfolding retarget_def Let_def act_def [symmetric] sp_def [symmetric] iv_def [symmetric]
    by (auto simp: ebind_def)
qed

lemma GetNextTargetRequired_bounded:
  assumes wf: "wf_store s" and sane: "sane_params params" and vt: "valid_targets params s p" and ct: "calm_times params s p"
    and kinds: "\<And>q. is_ancestor s q p \<Longrightarrow> DGWBlocksAvg params \<le> nHeight (s q) \<Longrightarrow>
      nth_kind s f (nat (DGWBlocksAvg params) - 1) q \<noteq> None"
  shows "\<exists>c e. GetNextTargetRequired params net s e0 (Some p) f = Inr (c, e) \<and> bounded_target params c"
proof -
  obtain q where q: "last_index s p f = Inr q" "is_ancestor s q p" using last_index_spec [OF wf] by blast
  obtain c0 where c0: "compact_result (UintToArith256 (bnInitialHashTarget params)) = Inr c0" "bounded_target params c0"
    using compact_limit sane by (auto simp: sane_params_def)
  show ?thesis
  proof (cases "pprev (s q)")
    case None
    then show ?thesis using q c0 by (simp add: GetNextTargetRequired_def ebind_def)
  next
    case (Some q')
    obtain r where r: "last_index s q' f = Inr r" "is_ancestor s r q'" using last_index_spec [OF wf] by blast
    have "is_ancestor s r q" using r(2) is_ancestor_prev [of s q, OF Some] is_ancestor_trans by blast
    from retarget_bounded [OF wf sane vt ct q(2) this kinds [OF q(2)], of net e0] show ?thesis
      using q(1) r(1) c0 Some by (auto simp: GetNextTargetRequired_def ebind_def)
  qed
qed

subsection \<open>A line of proof-of-stake blocks\<close>

definition pos_line :: store where
  "pos_line p = CBlockIndex_default\<lparr>nHeight := int p, pprev := (if p = 0 then None else Some (p - 1)),
     bi_nFlags := BLOCK_PROOF_OF_STAKE, bi_nBits := 0x1c00ffff, bi_nTime := 1000 + 240 * word_of_nat p\<rparr>"

lemma pos_line_prev [simp]: "nth_prev pos_line k p = (if k \<le> p then Some (p - k) else None)"
  by (induction k arbitrary: p) (auto simp: pos_line_def split: option.splits)

lemma wf_pos_line: "wf_store pos_line"
  by (auto simp: wf_store_def pos_line_def CBlockIndex_default_def)

lemma pos_line_ancestor: "is_ancestor pos_line a p \<longleftrightarrow> a \<le> p"
  unfolding is_ancestor_def pos_line_prev by (auto intro: exI [of _ "p - a"])

lemma pos_line_pos [simp]: "IsProofOfStake (pos_line p)"
  by (simp add: IsProofOfStake_def pos_line_def BLOCK_PROOF_OF_STAKE_def)

lemma card_pos_line: "card (pos_ancestors pos_line p) = p"
proof -
  have "pos_ancestors pos_line p = {..<p}" by (auto simp: pos_ancestors_def pos_line_ancestor)
  then show ?thesis by simp
qed

lemma pos_line_last: "last_index pos_line p True = Inr p"
proof -
  have "GetLastBlockIndex pos_line (Some p) True = Some (Some p)"
    unfolding GetLastBlockIndex_def by (subst while_option_unfold) simp
  then show ?thesis by (simp add: last_index_def)
qed

lemma pos_line_fields: "nHeight (pos_line p) = int p" "pprev (pos_line p) = (if p = 0 then None else Some (p - 1))"
  "bi_nBits (pos_line p) = 0x1c00ffff"
  by (simp_all add: pos_line_def)

lemma retarget_pos_line:
  "retarget CMainParams MAIN pos_line False 59 59 58 True = Inr (cap_target CMainParams (bn_SetCompact 0x1c00ffff), False)"
  "retarget CMainParams MAIN pos_line True 59 59 58 True =
     ebind (compact_result (UintToArith256 (powLimit CMainParams))) (\<lambda>c. Inr (c, True))"
proof -
  have t: "GetBlockTime (pos_line 59) - GetBlockTime (pos_line 58) = 240"
    by (simp add: GetBlockTime_def pos_line_def)
  have en: "IsPosDGWenabled CMainParams pos_line e 59 = Some e" for e
    by (subst IsPosDGWenabled_spec [OF wf_pos_line]) (simp_all add: CMainParams_def card_pos_line)
  have c: "cdiv 86400 240 = 360" by (simp add: cdiv_nonneg)
  have bn: "0 \<le> bn_SetCompact 0x1c00ffff" by (simp add: bn_SetCompact_def)
  show "retarget CMainParams MAIN pos_line False 59 59 58 True = Inr (cap_target CMainParams (bn_SetCompact 0x1c00ffff), False)"
    unfolding retarget_def Let_def t en using bn
    by (simp add: CMainParams_def pos_line_fields c cdiv_nonneg)
  show "retarget CMainParams MAIN pos_line True 59 59 58 True =
     ebind (compact_result (UintToArith256 (powLimit CMainParams))) (\<lambda>c. Inr (c, True))"
    unfolding retarget_def Let_def t en
    by (simp add: CMainParams_def pos_line_fields DarkGravityWave_def Let_def)
qed

lemma bn_pos_line: "bn_SetCompact 0x1c00ffff = 65535 * 2 ^ 200"
  by (simp add: bn_SetCompact_def push_bit_eq_mult)

subsection \<open>Properties\<close>


lemma nth_kind_pos_line: "k \<le> q \<Longrightarrow> nth_kind pos_line True k q = Some (q - k)"
proof (induction k arbitrary: q)
  case (Suc k)
  then have "dgw_prev pos_line True q = Inr (q - 1)" by (simp add: dgw_prev_def pos_line_fields find_kind_Some)
  then show ?case using Suc by simp
qed simp

lemma main_limit: "2 ^ 240 \<le> le_value (powLimit CMainParams)"
proof -
  have "replicate 31 (0xff :: u8) = replicate 30 0xff @ [0xff]" by (simp add: numeral_eq_Suc)
  then have "powLimit CMainParams = replicate 30 0xff @ [0xff, 0]" by (simp add: CMainParams_def)
  then show ?thesis by (simp add: le_value_append)
qed

lemma pos_line_target:
  "SetCompact 0x1c00ffff = ([0, 0, 0, 0, 0, 0, 0x00ffff00, 0], False, False)"
  "le_value ([0, 0, 0, 0, 0, 0, 0x00ffff00, 0] :: base_uint) \<le> le_value (powLimit CMainParams)"
proof -
  show "SetCompact 0x1c00ffff = ([0, 0, 0, 0, 0, 0, 0x00ffff00, 0], False, False)" by code_simp
  show "le_value ([0, 0, 0, 0, 0, 0, 0x00ffff00, 0] :: base_uint) \<le> le_value (powLimit CMainParams)"
    by (rule order_trans [OF _ main_limit]) simp
qed

lemma pos_line_targets: "valid_targets CMainParams pos_line p"
  using pos_line_target by (auto simp: valid_targets_def pos_line_fields)

lemma pos_line_times: "calm_times CMainParams pos_line 100"
proof -
  have t: "GetBlockTime (pos_line a) = 1000 + 240 * int a" if "a \<le> 100" for a
  proof -
    have "unat (1000 + 240 * word_of_nat a :: u32) = 1000 + 240 * a"
      using that unat_of_nat [of "1000 + 240 * a", where 'a = 32] by simp
    then have "uint (1000 + 240 * word_of_nat a :: u32) = 1000 + 240 * int a" unfolding uint_nat by simp
    then show ?thesis by (simp add: GetBlockTime_def pos_line_def)
  qed
  show ?thesis by (auto simp: calm_times_def pos_line_ancestor t CMainParams_def)
qed




text \<open>
  C32: the proof-of-work check is exact. It accepts a hash iff the bits decode without the negative and
  overflow flags to a positive target within the limit and the hash, as a number, is at most the target.
\<close>

theorem CheckProofOfWork_exact:
  assumes "length hash = 32" "length (powLimit params) = 32"
  shows "CheckProofOfWork params hash nBits \<longleftrightarrow>
    (\<exists>t. SetCompact nBits = (t, False, False) \<and> 0 < le_value t \<and> le_value t \<le> le_value (powLimit params) \<and> le_value hash \<le> le_value t)"
  by (rule CheckProofOfWork_value [OF assms])

theorem CheckProofOfWork_exact_witness:
  "CheckProofOfWork CMainParams (replicate 26 1 @ replicate 6 0) 0x1c00ffff"
proof -
  have "le_value (replicate 26 (1 :: u8) @ replicate 6 0) < 2 ^ 208"
    using le_value_bound [of "replicate 26 (1 :: u8)"] by (simp add: le_value_append)
  moreover have "length (powLimit CMainParams) = 32" using sane_main by (simp add: sane_params_def)
  ultimately show ?thesis
    using CheckProofOfWork_exact [of "replicate 26 1 @ replicate 6 0" CMainParams "0x1c00ffff"] pos_line_target by simp
qed

text \<open>
  C29: \<^verbatim>\<open>CheckPOW\<close> with a correct cache is the check of the computed hash: a proof-of-stake block passes, any
  other block passes iff the Ghost Rider hash of its header passes \<^verbatim>\<open>CheckProofOfWork\<close>, and the cache stays
  correct.
\<close>

theorem CheckPOW_exact:
  fixes block :: CBlock and Hash :: "bytes \<Rightarrow> uint256" and sph cn :: "int \<Rightarrow> bytes \<Rightarrow> bytes"
  defines "key \<equiv> header_GetHash Hash" and "pow \<equiv> header_ComputeHash sph cn"
  assumes "lru_ok c" "faithful lru_lookup key pow c" "\<forall>h'. key h' = key (header block) \<longrightarrow> pow h' = pow (header block)"
  shows "(fst (CheckPOW params Hash sph cn block c) \<longleftrightarrow>
      block_IsProofOfStake block \<or> CheckProofOfWork params (pow (header block)) (hdr_nBits (header block))) \<and>
    lru_ok (snd (CheckPOW params Hash sph cn block c)) \<and> faithful lru_lookup key pow (snd (CheckPOW params Hash sph cn block c))"
proof -
  have step: "\<exists>c'. GetPOWHash Hash sph cn (header block) r c0 = (pow (header block), c') \<and> lru_ok c' \<and> faithful lru_lookup key pow c'"
    if "lru_ok c0" "faithful lru_lookup key pow c0" for c0 r
    using lru.cached_value_faithful [of c0 key pow "header block" bValidate r] that assms(5)
    unfolding GetPOWHash_def key_def pow_def by (metis surj_pair)
  obtain c1 where c1: "GetPOWHash Hash sph cn (header block) True c = (pow (header block), c1)" "lru_ok c1" "faithful lru_lookup key pow c1"
    using step [OF assms(3,4)] by blast
  obtain c2 where "GetPOWHash Hash sph cn (header block) False c1 = (pow (header block), c2)" "lru_ok c2" "faithful lru_lookup key pow c2"
    using step [OF c1(2,3)] by blast
  then show ?thesis using c1 assms(3,4) by (simp add: CheckPOW_def)
qed

definition sample_block :: CBlock where
  "sample_block = \<lparr>header = sample_header\<lparr>hdr_nBits := 0x1c00ffff\<rparr>, vtx = [], vchBlockSig = []\<rparr>"

theorem CheckPOW_exact_witness:
  "fst (CheckPOW CMainParams (\<lambda>b. b) (\<lambda>_ b. b) (\<lambda>_ _. replicate 64 0) sample_block empty_cache)"
proof -
  have "fold (\<lambda>f. f) (gr_stages sph (\<lambda>_ _. x) a c) input = x" for sph x a c input
    by (simp only: gr_stages_def fold_append fold_simps o_apply)
  then have z: "header_ComputeHash (\<lambda>_ b. b) (\<lambda>_ _. replicate 64 0) h = replicate 32 0" for h
    by (simp only: header_ComputeHash_def HashGR_eq) simp
  have "length (powLimit CMainParams) = 32" using sane_main by (simp add: sane_params_def)
  then have "CheckProofOfWork CMainParams (replicate 32 0) 0x1c00ffff" using pos_line_target by (simp add: CheckProofOfWork_value)
  then show ?thesis
    using CheckPOW_exact [of empty_cache "\<lambda>b. b" "\<lambda>_ b. b" "\<lambda>_ _. replicate 64 0" sample_block CMainParams]
    by (simp add: z lru_ok_def faithful_def lru_lookup_def empty_cache_def sample_block_def)
qed

text \<open>
  C33: the next proof-of-stake target is not a function of the chain. The switch to Dark Gravity Wave counts
  the proof-of-stake ancestors, but its outcome is kept in a static variable, and on the same chain of sixty
  proof-of-stake blocks a node whose variable is already set requires another target than one whose
  variable is not.
\<close>

theorem next_target_depends_on_history:
  "IsPosDGWenabled CMainParams pos_line False 59 = Some False \<and> IsPosDGWenabled CMainParams pos_line False 62 = Some True \<and>
   (\<exists>c c'. GetNextTargetRequired CMainParams MAIN pos_line False (Some 59) True = Inr (c, False) \<and>
      GetNextTargetRequired CMainParams MAIN pos_line True (Some 59) True = Inr (c', True) \<and> c \<noteq> c')"
proof -
  let ?L = "le_value (powLimit CMainParams)"
  have lim: "length (powLimit CMainParams) = 32" using sane_main by (simp add: sane_params_def)
  have "\<exists>v. SetCompact (cap_target CMainParams (bn_SetCompact 0x1c00ffff)) = (v, False, False) \<and> le_value v \<le> 65535 * 2 ^ 200"
    using cap_target_value [of "65535 * 2 ^ 200" CMainParams] lim unfolding bn_pos_line by auto
  then obtain v where v: "SetCompact (cap_target CMainParams (bn_SetCompact 0x1c00ffff)) = (v, False, False)" "le_value v \<le> 65535 * 2 ^ 200"
    by blast
  obtain c u where c: "GetCompact (UintToArith256 (powLimit CMainParams)) False = Some c" "SetCompact c = (u, False, False)"
    "(?L - le_value u) * 2 ^ 15 \<le> ?L"
    using GetCompact_SetCompact [OF length_UintToArith256, of "powLimit CMainParams"] lim by (auto simp: le_value_UintToArith256)
  have "c \<noteq> cap_target CMainParams (bn_SetCompact 0x1c00ffff)"
  proof
    assume "c = cap_target CMainParams (bn_SetCompact 0x1c00ffff)"
    then have "u = v" using c(2) v(1) by simp
    then have "le_value u \<le> 65535 * 2 ^ 200" using v(2) by simp
    then show False using c(3) main_limit by simp
  qed
  moreover have "GetNextTargetRequired CMainParams MAIN pos_line e (Some 59) True = retarget CMainParams MAIN pos_line e 59 59 58 True" for e
    by (simp add: GetNextTargetRequired_def pos_line_last ebind_def pos_line_fields)
  moreover have "IsPosDGWenabled CMainParams pos_line False p = Some (int p > 61)" for p
    by (subst IsPosDGWenabled_spec [OF wf_pos_line]) (simp_all add: CMainParams_def card_pos_line)
  ultimately show ?thesis using c(1) by (simp add: retarget_pos_line compact_result_def ebind_def)
qed

end
