(* ===== verification/Kernel.thy ===== *)
theory Kernel
  imports Pow Compressor "HOL-Library.Product_Lexorder"
begin

text \<open>
  Proof of stake: the stake modifier and the kernel check, \<^verbatim>\<open>src/src/kernel.cpp\<close>. The block index map of the
  chain state is a map from block hashes to addresses. The random numbers of the shuffle, the transaction
  index with the block files behind it, the script check and the hash function are arguments. The command
  line's debug output is not modelled.
\<close>

unbundle bit_operations_syntax

subsection \<open>Stake modifiers\<close>

type_synonym BlockMap = "uint256 \<rightharpoonup> ptr"

datatype kernel_error = Kernel_assert | No_generation | Unable_to_select nat | Too_old | Reached_genesis
  | Not_returned

definition nBTC16BIPsSwitchTime :: u32 where "nBTC16BIPsSwitchTime = 1677525510"
definition nBTC16BIPsTestSwitchTime :: u32 where "nBTC16BIPsTestSwitchTime = 1677525510"

definition IsBTC16BIPsEnabled :: "network \<Rightarrow> u32 \<Rightarrow> bool" where
  "IsBTC16BIPsEnabled net nTimeTx \<longleftrightarrow> nTimeTx \<ge> (if net \<noteq> MAIN then nBTC16BIPsTestSwitchTime else nBTC16BIPsSwitchTime)"

definition GetLastStakeModifier :: "store \<Rightarrow> ptr \<Rightarrow> kernel_error + u64 \<times> int" where
  "GetLastStakeModifier s pindex =
     (case while_option (\<lambda>q. pprev (s q) \<noteq> None \<and> \<not> GeneratedStakeModifier (s q)) (\<lambda>q. the (pprev (s q))) pindex of
        None \<Rightarrow> Inl Not_returned
      | Some q \<Rightarrow> if \<not> GeneratedStakeModifier (s q) then Inl No_generation
                  else Inr (nStakeModifier (s q), GetBlockTime (s q)))"

definition MODIFIER_INTERVAL_RATIO :: int where "MODIFIER_INTERVAL_RATIO = 3"

definition GetStakeModifierSelectionIntervalSection :: "Consensus_Params \<Rightarrow> nat \<Rightarrow> kernel_error + int" where
  "GetStakeModifierSelectionIntervalSection params nSection =
     (if \<not> nSection < 64 then Inl Kernel_assert
      else Inr (cdiv (nModifierInterval params * 63) (63 + (63 - int nSection) * (MODIFIER_INTERVAL_RATIO - 1))))"

definition GetStakeModifierSelectionInterval :: "Consensus_Params \<Rightarrow> kernel_error + int" where
  "GetStakeModifierSelectionInterval params =
     foldl (\<lambda>r nSection. ebind r (\<lambda>nSelectionInterval. ebind (GetStakeModifierSelectionIntervalSection params nSection)
       (\<lambda>d. Inr (nSelectionInterval + d)))) (Inr 0) [0..<64]"

text \<open>The hash by which candidates compete; it is divided by two to the 32 for proof-of-stake blocks.\<close>

definition selection_hash :: "(bytes \<Rightarrow> uint256) \<Rightarrow> u64 \<Rightarrow> CBlockIndex \<Rightarrow> base_uint" where
  "selection_hash Hash nStakeModifierPrev b =
     (let hashProof = (if IsProofOfStake b then hashProofOfStake b else phashBlock b);
          hashSelection = UintToArith256 (Hash (ser_uint256 hashProof @ ser_writedata64 nStakeModifierPrev))
      in if IsProofOfStake b then uint_shr hashSelection 32 else hashSelection)"

text \<open>The loop over the candidates; the best one so far with its hash. \<open>Inl ()\<close> is a hash that is not indexed.\<close>

fun candidate_loop ::
  "(bytes \<Rightarrow> uint256) \<Rightarrow> store \<Rightarrow> BlockMap \<Rightarrow> BlockMap \<Rightarrow> int \<Rightarrow> u64 \<Rightarrow> (base_uint \<times> ptr) option \<Rightarrow>
   (int \<times> uint256) list \<Rightarrow> unit + (base_uint \<times> ptr) option" where
  "candidate_loop Hash s bm sel stop prev best [] = Inr best"
| "candidate_loop Hash s bm sel stop prev best (item # items) =
     (case bm (snd item) of
        None \<Rightarrow> Inl ()
      | Some p \<Rightarrow>
          if best \<noteq> None \<and> GetBlockTime (s p) > stop then Inr best
          else if sel (phashBlock (s p)) \<noteq> None then candidate_loop Hash s bm sel stop prev best items
          else let h = selection_hash Hash prev (s p)
               in candidate_loop Hash s bm sel stop prev
                    (case best of None \<Rightarrow> Some (h, p)
                     | Some (hashBest, q) \<Rightarrow> if CompareTo h hashBest < 0 then Some (h, p) else best) items)"

definition SelectBlockFromCandidates ::
  "(bytes \<Rightarrow> uint256) \<Rightarrow> store \<Rightarrow> BlockMap \<Rightarrow> (int \<times> uint256) list \<Rightarrow> BlockMap \<Rightarrow> int \<Rightarrow> u64 \<Rightarrow> ptr option" where
  "SelectBlockFromCandidates Hash s bm vSortedByTimestamp mapSelectedBlocks nSelectionIntervalStop nStakeModifierPrev =
     (case candidate_loop Hash s bm mapSelectedBlocks nSelectionIntervalStop nStakeModifierPrev None vSortedByTimestamp of
        Inr (Some (_, p)) \<Rightarrow> Some p
      | _ \<Rightarrow> None)"

text \<open>The candidates, from the previous block backwards.\<close>

definition collect_candidates :: "store \<Rightarrow> int \<Rightarrow> ptr \<Rightarrow> (int \<times> uint256) list option" where
  "collect_candidates s start p =
     map_option fst (while_option (\<lambda>(v, q). case q of None \<Rightarrow> False | Some r \<Rightarrow> GetBlockTime (s r) \<ge> start)
       (\<lambda>(v, q). (v @ [(GetBlockTime (s (the q)), phashBlock (s (the q)))], pprev (s (the q)))) ([], Some p))"

text \<open>The shuffle, with \<open>rand i\<close> for \<^verbatim>\<open>GetRand(i)\<close>.\<close>

definition swap_at :: "nat \<Rightarrow> nat \<Rightarrow> 'a list \<Rightarrow> 'a list" where
  "swap_at i j v = v[i := v ! j, j := v ! i]"

definition shuffle_candidates :: "(nat \<Rightarrow> nat) \<Rightarrow> 'a list \<Rightarrow> 'a list" where
  "shuffle_candidates rand v = foldl (\<lambda>v i. swap_at i (rand i) v) v (rev [2..<length v])"

text \<open>The comparison of the sort: by time, then by the words of the hash from the most significant one.\<close>

fun words_less :: "nat \<Rightarrow> u32 list \<Rightarrow> u32 list \<Rightarrow> bool" where
  "words_less 0 pa pb = False"
| "words_less (Suc cnt) pa pb = (if pa ! cnt \<noteq> pb ! cnt then pa ! cnt < pb ! cnt else words_less cnt pa pb)"

definition candidate_less :: "int \<times> uint256 \<Rightarrow> int \<times> uint256 \<Rightarrow> bool" where
  "candidate_less a b = (if fst a \<noteq> fst b then fst a < fst b
     else words_less 8 (UintToArith256 (snd a)) (UintToArith256 (snd b)))"

fun insert_candidate :: "int \<times> uint256 \<Rightarrow> (int \<times> uint256) list \<Rightarrow> (int \<times> uint256) list" where
  "insert_candidate x [] = [x]"
| "insert_candidate x (y # ys) = (if candidate_less y x then y # insert_candidate x ys else x # y # ys)"

definition sort_candidates :: "(int \<times> uint256) list \<Rightarrow> (int \<times> uint256) list" where
  "sort_candidates v = foldr insert_candidate v []"

text \<open>The rounds: each adds a section to the interval, selects a block and sets one bit.\<close>

fun modifier_rounds ::
  "Consensus_Params \<Rightarrow> (bytes \<Rightarrow> uint256) \<Rightarrow> store \<Rightarrow> BlockMap \<Rightarrow> (int \<times> uint256) list \<Rightarrow> u64 \<Rightarrow> nat list \<Rightarrow>
   int \<Rightarrow> u64 \<Rightarrow> BlockMap \<Rightarrow> kernel_error + u64" where
  "modifier_rounds params Hash s bm v prev [] stop nStakeModifierNew sel = Inr nStakeModifierNew"
| "modifier_rounds params Hash s bm v prev (nRound # rounds) stop nStakeModifierNew sel =
     ebind (GetStakeModifierSelectionIntervalSection params nRound) (\<lambda>d.
       case SelectBlockFromCandidates Hash s bm v sel (stop + d) prev of
         None \<Rightarrow> Inl (Unable_to_select nRound)
       | Some p \<Rightarrow> modifier_rounds params Hash s bm v prev rounds (stop + d)
           (nStakeModifierNew OR push_bit nRound (ucast (GetStakeEntropyBit (s p)))) (sel(phashBlock (s p) \<mapsto> p)))"

definition ComputeNextStakeModifier ::
  "Consensus_Params \<Rightarrow> (bytes \<Rightarrow> uint256) \<Rightarrow> (nat \<Rightarrow> nat) \<Rightarrow> store \<Rightarrow> BlockMap \<Rightarrow> ptr \<Rightarrow> kernel_error + u64 \<times> bool" where
  "ComputeNextStakeModifier params Hash rand s bm pindexCurrent =
     (case pprev (s pindexCurrent) of None \<Rightarrow> Inr (0, True)
      | Some pindexPrev \<Rightarrow>
          ebind (GetLastStakeModifier s pindexPrev) (\<lambda>(prev, nModifierTime).
            let interval = nModifierInterval params in
            if cdiv nModifierTime interval \<ge> cdiv (GetBlockTime (s pindexPrev)) interval then Inr (prev, False)
            else if cdiv nModifierTime interval \<ge> cdiv (GetBlockTime (s pindexCurrent)) interval then Inr (prev, False)
            else ebind (GetStakeModifierSelectionInterval params) (\<lambda>nSelectionInterval.
              let start = cdiv (GetBlockTime (s pindexPrev)) interval * interval - nSelectionInterval in
              case collect_candidates s start pindexPrev of
                None \<Rightarrow> Inl Not_returned
              | Some v \<Rightarrow>
                  let v = sort_candidates (shuffle_candidates rand v)
                  in ebind (modifier_rounds params Hash s bm v prev [0..<min 64 (length v)] start 0 Map.empty)
                       (\<lambda>nStakeModifierNew. Inr (nStakeModifierNew, True)))))"

subsection \<open>The kernel\<close>

text \<open>The loop of \<^verbatim>\<open>GetKernelStakeModifierV05\<close>; \<open>age\<close> is the minimum age less the selection interval.\<close>

partial_function (option) modifier_loop ::
  "store \<Rightarrow> int \<Rightarrow> int \<Rightarrow> ptr \<Rightarrow> int \<Rightarrow> int \<Rightarrow> (kernel_error + u64 \<times> int \<times> int) option" where
  "modifier_loop s age nTimeTx pindex nStakeModifierHeight nStakeModifierTime =
     (if nStakeModifierTime + age > nTimeTx then
        if pprev (s pindex) = None then Some (Inl Reached_genesis)
        else let q = the (pprev (s pindex)) in
          if GeneratedStakeModifier (s q) then modifier_loop s age nTimeTx q (nHeight (s q)) (GetBlockTime (s q))
          else modifier_loop s age nTimeTx q nStakeModifierHeight nStakeModifierTime
      else Some (Inr (nStakeModifier (s pindex), nStakeModifierHeight, nStakeModifierTime)))"

definition GetKernelStakeModifierV05 :: "Consensus_Params \<Rightarrow> store \<Rightarrow> ptr \<Rightarrow> u32 \<Rightarrow> kernel_error + u64 \<times> int \<times> int" where
  "GetKernelStakeModifierV05 params s pindexPrev nTimeTx =
     ebind (GetStakeModifierSelectionInterval params) (\<lambda>interval.
       let t = GetBlockTime (s pindexPrev); age = nStakeMinAge params - interval in
       if t + age \<le> uint nTimeTx then Inl Too_old
       else case modifier_loop s age (uint nTimeTx) pindexPrev (nHeight (s pindexPrev)) t of
              None \<Rightarrow> Inl Not_returned
            | Some r \<Rightarrow> r)"

definition GetKernelStakeModifier :: "Consensus_Params \<Rightarrow> store \<Rightarrow> ptr \<Rightarrow> u32 \<Rightarrow> kernel_error + u64 \<times> int \<times> int" where
  "GetKernelStakeModifier params s pindexPrev nTimeTx = GetKernelStakeModifierV05 params s pindexPrev nTimeTx"

datatype stake_error = Time_violation | Min_age_violation | No_modifier kernel_error | Out_of_range
  | Target_missed uint256 | Not_coinstake | No_txindex | Tx_not_found | Read_error | Txid_mismatch | Invalid_pos_script
  | Kernel_failed stake_error

definition kernel_time :: "CTransaction \<Rightarrow> u32 \<Rightarrow> u32" where
  "kernel_time txPrev nTimeBlockFrom = (if tx_nTime txPrev \<noteq> 0 then tx_nTime txPrev else nTimeBlockFrom)"

definition kernel_weight :: "Consensus_Params \<Rightarrow> int \<Rightarrow> int \<Rightarrow> int" where
  "kernel_weight params nValueIn nTime =
     (let nTimeWeight = min nTime (nStakeMaxAge params) - nStakeMinAge params
      in cdiv (cdiv (nValueIn * nTimeWeight) COIN) (24 * 60 * 60))"

definition kernel_preimage :: "u64 \<Rightarrow> u32 \<Rightarrow> u32 \<Rightarrow> u32 \<Rightarrow> u32 \<Rightarrow> u32 \<Rightarrow> bytes" where
  "kernel_preimage modifier nTimeBlockFrom nTxPrevOffset nTimeTxPrev n nTimeTx =
     ser_writedata64 modifier @ ser_writedata32 nTimeBlockFrom @ ser_writedata32 nTxPrevOffset @
     ser_writedata32 nTimeTxPrev @ ser_writedata32 n @ ser_writedata32 nTimeTx"

text \<open>The result is \<^verbatim>\<open>hashProofOfStake\<close>; a kernel that misses its target carries it too.\<close>

definition CheckStakeKernelHash ::
  "Consensus_Params \<Rightarrow> (bytes \<Rightarrow> uint256) \<Rightarrow> store \<Rightarrow> u32 \<Rightarrow> ptr \<Rightarrow> CBlockHeader \<Rightarrow> u32 \<Rightarrow> CTransaction \<Rightarrow> COutPoint \<Rightarrow> u32 \<Rightarrow>
   stake_error + uint256" where
  "CheckStakeKernelHash params Hash s nBits pindexPrev blockFrom nTxPrevOffset txPrev out nTimeTx =
     (let nTimeBlockFrom = hdr_nTime blockFrom; nTimeTxPrev = kernel_time txPrev nTimeBlockFrom in
      if nTimeTx < nTimeTxPrev then Inl Time_violation
      else if uint nTimeBlockFrom + nStakeMinAge params > uint nTimeTx then Inl Min_age_violation
      else if \<not> unat (op_n out) < length (vout txPrev) then Inl Out_of_range
      else let bnTargetPerCoinDay = bn_SetCompact nBits;
               nValueIn = nValue (vout txPrev ! unat (op_n out));
               bnCoinDayWeight = kernel_weight params nValueIn (uint nTimeTx - uint nTimeTxPrev)
           in case GetKernelStakeModifier params s pindexPrev nTimeTx of
                Inl e \<Rightarrow> Inl (No_modifier e)
              | Inr (modifier, _, _) \<Rightarrow>
                  let hashProof = Hash (kernel_preimage modifier nTimeBlockFrom nTxPrevOffset nTimeTxPrev (op_n out) nTimeTx)
                  in if int (le_value hashProof) > bnCoinDayWeight * bnTargetPerCoinDay then Inl (Target_missed hashProof)
                     else Inr hashProof)"

text \<open>
  \<open>txindex\<close> is \<^term>\<open>None\<close> when there is no transaction index; it gives the offset of a transaction in its
  block, and with it the header and the transaction as read from the cache or the block file.
\<close>

type_synonym txindex = "uint256 \<Rightarrow> (u32 \<times> (CBlockHeader \<times> CTransaction) option) option"

definition NORMAL_SERIALIZE_SIZE :: u32 where "NORMAL_SERIALIZE_SIZE = 80"

definition CheckProofOfStake ::
  "Consensus_Params \<Rightarrow> (bytes \<Rightarrow> uint256) \<Rightarrow> store \<Rightarrow> txindex option \<Rightarrow> (CTransaction \<Rightarrow> nat \<Rightarrow> CTxOut \<Rightarrow> bool) \<Rightarrow>
   ptr \<Rightarrow> CTransaction \<Rightarrow> u32 \<Rightarrow> u32 \<Rightarrow> stake_error + uint256" where
  "CheckProofOfStake params Hash s g_txindex VerifyScript pindexPrev tx nBits nTimeTx =
     (if \<not> IsCoinStake tx then Inl Not_coinstake
      else case g_txindex of None \<Rightarrow> Inl No_txindex
      | Some idx \<Rightarrow>
          let out = prevout (vin tx ! 0) in
          case idx (op_hash out) of None \<Rightarrow> Inl Tx_not_found
          | Some (nTxOffset, None) \<Rightarrow> Inl Read_error
          | Some (nTxOffset, Some (blockFrom, txPrev)) \<Rightarrow>
              if tx_ComputeHash Hash txPrev \<noteq> op_hash out then Inl Txid_mismatch
              else if \<not> unat (op_n out) < length (vout txPrev) then Inl Out_of_range
              else if \<not> VerifyScript tx 0 (vout txPrev ! unat (op_n out)) then Inl Invalid_pos_script
              else case CheckStakeKernelHash params Hash s nBits pindexPrev blockFrom (nTxOffset + NORMAL_SERIALIZE_SIZE) txPrev out nTimeTx of
                     Inl e \<Rightarrow> Inl (Kernel_failed e)
                   | Inr h \<Rightarrow> Inr h)"

definition CheckCoinStakeTimestamp :: "int \<Rightarrow> int \<Rightarrow> bool" where
  "CheckCoinStakeTimestamp nTimeBlock nTimeTx \<longleftrightarrow> nTimeBlock = nTimeTx"

subsection \<open>Checksums, versions, entropy\<close>

definition GetStakeModifierChecksum :: "(bytes \<Rightarrow> uint256) \<Rightarrow> uint256 \<Rightarrow> store \<Rightarrow> ptr \<Rightarrow> u32 option" where
  "GetStakeModifierChecksum Hash hashGenesisBlock s pindex =
     (if pprev (s pindex) = None \<and> phashBlock (s pindex) \<noteq> hashGenesisBlock then None
      else let ss = (case pprev (s pindex) of None \<Rightarrow> [] | Some q \<Rightarrow> ser_writedata32 (nStakeModifierChecksum (s q))) @
                    ser_writedata32 (bi_nFlags (s pindex)) @ ser_uint256 (hashProofOfStake (s pindex)) @
                    ser_writedata64 (nStakeModifier (s pindex));
               hashChecksum = uint_shr (UintToArith256 (Hash ss)) (256 - 32)
           in Some (ucast (GetLow64 hashChecksum)))"

definition mapStakeModifierCheckpoints :: "int \<rightharpoonup> u32" where
  "mapStakeModifierCheckpoints = [1000000 \<mapsto> 0x0e00670b]"

definition mapStakeModifierTestnetCheckpoints :: "int \<rightharpoonup> u32" where
  "mapStakeModifierTestnetCheckpoints = [1000000 \<mapsto> 0x0e00670b]"

definition CheckStakeModifierCheckpoints :: "network \<Rightarrow> int \<Rightarrow> u32 \<Rightarrow> bool" where
  "CheckStakeModifierCheckpoints net h checksum =
     (case (if net = TESTNET then mapStakeModifierTestnetCheckpoints else mapStakeModifierCheckpoints) h of
        Some c \<Rightarrow> checksum = c
      | None \<Rightarrow> True)"

text \<open>The walk of \<^verbatim>\<open>HowSuperMajority\<close>; only proof-of-stake blocks count against \<open>nToCheck\<close>.\<close>

definition HowSuperMajority :: "store \<Rightarrow> int \<Rightarrow> ptr option \<Rightarrow> nat \<Rightarrow> nat \<Rightarrow> nat option" where
  "HowSuperMajority s minVersion pstart nRequired nToCheck =
     map_option (\<lambda>(i, nFound, p). nFound)
       (while_option (\<lambda>(i, nFound, p). i < nToCheck \<and> nFound < nRequired \<and> p \<noteq> None)
         (\<lambda>(i, nFound, p). let b = s (the p) in
            if \<not> IsProofOfStake b then (i, nFound, pprev b)
            else (i + 1, (if sint (bi_nVersion b) \<ge> minVersion then nFound + 1 else nFound), pprev b))
         (0, 0, pstart))"

definition IsSuperMajority :: "store \<Rightarrow> int \<Rightarrow> ptr option \<Rightarrow> nat \<Rightarrow> nat \<Rightarrow> bool option" where
  "IsSuperMajority s minVersion pstart nRequired nToCheck =
     map_option (\<lambda>n. n \<ge> nRequired) (HowSuperMajority s minVersion pstart nRequired nToCheck)"

definition block_GetStakeEntropyBit :: "(bytes \<Rightarrow> uint256) \<Rightarrow> CBlock \<Rightarrow> u32" where
  "block_GetStakeEntropyBit Hash block = ucast (GetLow64 (UintToArith256 (header_GetHash Hash (header block))) AND 1)"

subsection \<open>The shuffle does not matter\<close>

lemma mset_swap_at: "i < length v \<Longrightarrow> j < length v \<Longrightarrow> mset (swap_at i j v) = mset v"
  unfolding swap_at_def by (rule mset_swap)

lemma mset_shuffle:
  assumes "\<And>i. 0 < i \<Longrightarrow> rand i < i"
  shows "mset (shuffle_candidates rand v) = mset v"
proof -
  have "mset (foldl (\<lambda>v i. swap_at i (rand i) v) v is) = mset v" if "\<forall>i \<in> set is. 0 < i \<and> i < length v" for "is"
    using that
  proof (induction "is" arbitrary: v)
    case (Cons i "is")
    then have i: "0 < i" "i < length v" "rand i < length v" using assms [of i] by auto
    have l: "length (swap_at i (rand i) v) = length v" by (simp add: swap_at_def)
    show ?case using Cons.IH [of "swap_at i (rand i) v"] Cons.prems l mset_swap_at [OF i(2,3)] by simp
  qed simp
  then show ?thesis by (simp add: shuffle_candidates_def)
qed

lemma words_less_value:
  assumes "length a = length b" "n \<le> length a"
  shows "words_less n a b \<longleftrightarrow> le_value (take n a) < le_value (take n b)"
  using assms(2)
proof (induction n)
  case (Suc n)
  let ?m = "2 ^ (32 * n) :: nat"
  have t: "take (Suc n) a = take n a @ [a ! n]" "take (Suc n) b = take n b @ [b ! n]"
    using Suc.prems assms(1) by (simp_all add: take_Suc_conv_app_nth)
  have l: "length (take n a) = n" "length (take n b) = n" using Suc.prems assms(1) by simp_all
  have bd: "le_value (take n a) < ?m" "le_value (take n b) < ?m"
    using le_value_bound [of "take n a"] le_value_bound [of "take n b"] l by simp_all
  have v: "le_value (take (Suc n) a) = le_value (take n a) + ?m * unat (a ! n)"
    "le_value (take (Suc n) b) = le_value (take n b) + ?m * unat (b ! n)"
    unfolding t le_value_append using l by simp_all
  consider "a ! n = b ! n" | "a ! n < b ! n" | "b ! n < a ! n" by (rule linorder_cases)
  then show ?case
  proof cases
    case 2
    then have "Suc (unat (a ! n)) \<le> unat (b ! n)" by (simp add: word_less_nat_alt)
    then have "?m * Suc (unat (a ! n)) \<le> ?m * unat (b ! n)" by (rule mult_le_mono2)
    then show ?thesis using 2 v bd by auto
  next
    case 3
    then have "Suc (unat (b ! n)) \<le> unat (a ! n)" by (simp add: word_less_nat_alt)
    then have "?m * Suc (unat (b ! n)) \<le> ?m * unat (a ! n)" by (rule mult_le_mono2)
    then show ?thesis using 3 v bd by auto
  qed (use Suc v in simp)
qed simp

definition candidate_key :: "int \<times> uint256 \<Rightarrow> int \<times> nat" where
  "candidate_key x = (fst x, le_value (UintToArith256 (snd x)))"

lemma candidate_less_key: "candidate_less a b \<longleftrightarrow> candidate_key a < candidate_key b"
  using words_less_value [of "UintToArith256 (snd a)" "UintToArith256 (snd b)" 8]
  by (auto simp: candidate_less_def candidate_key_def length_UintToArith256)

lemma sort_candidates_key: "sort_candidates v = sort_key candidate_key v"
proof -
  have "insert_candidate x ys = insort_key candidate_key x ys" for x ys
    by (induction ys) (auto simp: candidate_less_key not_le)
  then have "insert_candidate = insort_key candidate_key" by (intro ext)
  then show ?thesis by (simp add: sort_candidates_def sort_key_def)
qed

lemma inj_candidate_key: "\<forall>x \<in> A. length (snd x) = 32 \<Longrightarrow> inj_on candidate_key A"
  by (rule inj_onI) (auto simp: candidate_key_def le_value_UintToArith256 le_value_inj prod_eq_iff)

lemma sort_shuffle:
  assumes "\<And>i. 0 < i \<Longrightarrow> rand i < i" "\<forall>x \<in> set v. length (snd x) = 32"
  shows "sort_candidates (shuffle_candidates rand v) = sort_candidates v"
proof -
  have m: "mset (shuffle_candidates rand v) = mset v" by (rule mset_shuffle [OF assms(1)])
  then have "set (shuffle_candidates rand v) = set v" by (metis set_mset_mset)
  then have "inj_on candidate_key (set (shuffle_candidates rand v))" using inj_candidate_key assms(2) by simp
  then show ?thesis unfolding sort_candidates_key by (intro sort_key_inj_key_eq) (simp_all add: m)
qed

subsection \<open>The candidates\<close>

lemma while_option_step: "while_option b c x = (if b x then while_option b c (c x) else Some x)"
  by (rule while_option_unfold)

definition candidate :: "store \<Rightarrow> ptr \<Rightarrow> int \<times> uint256" where
  "candidate s q = (GetBlockTime (s q), phashBlock (s q))"

lemma collect_loop:
  assumes wf: "wf_store s"
  shows "\<exists>ps r. while_option (\<lambda>(v, q). case q of None \<Rightarrow> False | Some r \<Rightarrow> GetBlockTime (s r) \<ge> start)
      (\<lambda>(v, q). (v @ [(GetBlockTime (s (the q)), phashBlock (s (the q)))], pprev (s (the q)))) (v, Some p) =
      Some (v @ map (candidate s) ps, r) \<and> distinct ps \<and> (\<forall>a \<in> set ps. is_ancestor s a p) \<and>
      (GetBlockTime (s p) \<ge> start \<longrightarrow> p \<in> set ps)"
proof (induction "height s p" arbitrary: p v rule: less_induct)
  case less
  show ?case
  proof (cases "GetBlockTime (s p) \<ge> start")
    case False
    then show ?thesis by (subst while_option_step) (auto intro: exI [of _ "[]"])
  next
    case True
    show ?thesis
    proof (cases "pprev (s p)")
      case None
      then show ?thesis using True
        by (subst while_option_step, subst while_option_step) (auto simp: candidate_def intro!: exI [of _ "[p]"])
    next
      case (Some q)
      have "height s q < height s p" using wf_prev [OF wf Some] by simp
      from less [OF this, of "v @ [candidate s p]"] obtain ps r where ps:
        "while_option (\<lambda>(v, q). case q of None \<Rightarrow> False | Some r \<Rightarrow> GetBlockTime (s r) \<ge> start)
          (\<lambda>(v, q). (v @ [(GetBlockTime (s (the q)), phashBlock (s (the q)))], pprev (s (the q)))) (v @ [candidate s p], Some q) =
          Some ((v @ [candidate s p]) @ map (candidate s) ps, r)" "distinct ps" "\<forall>a \<in> set ps. is_ancestor s a q" by blast
      have "\<forall>a \<in> set ps. is_ancestor s a p \<and> a \<noteq> p" using ps(3) proper_ancestor_iff [OF wf] Some by blast
      then show ?thesis using ps True Some
        by (subst while_option_step) (auto simp: candidate_def intro!: exI [of _ "p # ps"])
    qed
  qed
qed

lemma collect_candidates_spec:
  assumes "wf_store s"
  shows "\<exists>ps. collect_candidates s start p = Some (map (candidate s) ps) \<and> distinct ps \<and> (\<forall>a \<in> set ps. is_ancestor s a p) \<and>
    (GetBlockTime (s p) \<ge> start \<longrightarrow> p \<in> set ps)"
  using collect_loop [OF assms, of start "[]" p] by (auto simp: collect_candidates_def)

lemma interval_section: "n < 64 \<Longrightarrow> \<exists>d. GetStakeModifierSelectionIntervalSection params n = Inr d"
  by (simp add: GetStakeModifierSelectionIntervalSection_def)

lemma selection_interval: "\<exists>d. GetStakeModifierSelectionInterval params = Inr d"
proof -
  have "\<exists>d. foldl (\<lambda>r nSection. ebind r (\<lambda>nSelectionInterval. ebind (GetStakeModifierSelectionIntervalSection params nSection)
       (\<lambda>d. Inr (nSelectionInterval + d)))) (Inr a) ns = Inr d" if "\<forall>n \<in> set ns. n < 64" for ns a
    using that
  proof (induction ns arbitrary: a)
    case (Cons n ns)
    then obtain d where "GetStakeModifierSelectionIntervalSection params n = Inr d" using interval_section [of n params] by auto
    then show ?case using Cons by (simp add: ebind_def)
  qed simp
  then show ?thesis unfolding GetStakeModifierSelectionInterval_def by simp
qed

subsection \<open>One selection\<close>

definition selection_value :: "(bytes \<Rightarrow> uint256) \<Rightarrow> store \<Rightarrow> u64 \<Rightarrow> ptr \<Rightarrow> nat" where
  "selection_value Hash s prev p = le_value (selection_hash Hash prev (s p))"

text \<open>
  The block a round elects among the available ones: the least selection hash in the interval, or the
  earliest block when the interval holds none.
\<close>

definition elected :: "(bytes \<Rightarrow> uint256) \<Rightarrow> store \<Rightarrow> u64 \<Rightarrow> int \<Rightarrow> ptr set \<Rightarrow> ptr \<Rightarrow> bool" where
  "elected Hash s prev stop avail p \<longleftrightarrow> p \<in> avail \<and>
     (\<forall>q \<in> avail. GetBlockTime (s q) \<le> stop \<longrightarrow> selection_value Hash s prev p \<le> selection_value Hash s prev q) \<and>
     (GetBlockTime (s p) \<le> stop \<or> (\<forall>q \<in> avail. candidate_key (candidate s p) \<le> candidate_key (candidate s q)))"

lemma length_selection_hash [simp]: "length (selection_hash Hash prev b) = 8"
  by (simp add: selection_hash_def Let_def length_UintToArith256)

lemma selection_less: "CompareTo (selection_hash Hash prev (s p)) (selection_hash Hash prev (s q)) < 0 \<longleftrightarrow>
    selection_value Hash s prev p < selection_value Hash s prev q"
  by (simp add: CompareTo_simps selection_value_def)

lemma candidate_loop_best:
  assumes "sorted (map (\<lambda>q. GetBlockTime (s q)) ps)" "\<forall>q \<in> set ps. bm (phashBlock (s q)) = Some q"
  shows "\<exists>p. candidate_loop Hash s bm sel stop prev (Some (selection_hash Hash prev (s p0), p0)) (map (candidate s) ps) =
      Inr (Some (selection_hash Hash prev (s p), p)) \<and>
    (p = p0 \<or> p \<in> set ps \<and> sel (phashBlock (s p)) = None \<and> GetBlockTime (s p) \<le> stop) \<and>
    selection_value Hash s prev p \<le> selection_value Hash s prev p0 \<and>
    (\<forall>q \<in> set ps. sel (phashBlock (s q)) = None \<and> GetBlockTime (s q) \<le> stop \<longrightarrow>
       selection_value Hash s prev p \<le> selection_value Hash s prev q)"
  using assms
proof (induction ps arbitrary: p0)
  case (Cons x ps)
  have bm: "bm (snd (candidate s x)) = Some x" "\<forall>q \<in> set ps. bm (phashBlock (s q)) = Some q" and
    so: "sorted (map (\<lambda>q. GetBlockTime (s q)) ps)" "\<forall>q \<in> set ps. GetBlockTime (s x) \<le> GetBlockTime (s q)"
    using Cons.prems by (auto simp: candidate_def)
  note IH = Cons.IH [OF so(1) bm(2)]
  consider (late) "GetBlockTime (s x) > stop" | (old) "GetBlockTime (s x) \<le> stop" "sel (phashBlock (s x)) \<noteq> None"
    | (less) "GetBlockTime (s x) \<le> stop" "sel (phashBlock (s x)) = None" "selection_value Hash s prev x < selection_value Hash s prev p0"
    | (more) "GetBlockTime (s x) \<le> stop" "sel (phashBlock (s x)) = None" "selection_value Hash s prev p0 \<le> selection_value Hash s prev x"
    by linarith
  then show ?case
  proof cases
    case late
    then show ?thesis using bm(1) so(2) by (intro exI [of _ p0]) auto
  next
    case old
    obtain p where "candidate_loop Hash s bm sel stop prev (Some (selection_hash Hash prev (s p0), p0)) (map (candidate s) ps) =
        Inr (Some (selection_hash Hash prev (s p), p))"
      "p = p0 \<or> p \<in> set ps \<and> sel (phashBlock (s p)) = None \<and> GetBlockTime (s p) \<le> stop"
      "selection_value Hash s prev p \<le> selection_value Hash s prev p0"
      "\<forall>q \<in> set ps. sel (phashBlock (s q)) = None \<and> GetBlockTime (s q) \<le> stop \<longrightarrow>
         selection_value Hash s prev p \<le> selection_value Hash s prev q" using IH [of p0] by blast
    then show ?thesis using old bm(1) by (intro exI [of _ p]) auto
  next
    case less
    obtain p where "candidate_loop Hash s bm sel stop prev (Some (selection_hash Hash prev (s x), x)) (map (candidate s) ps) =
        Inr (Some (selection_hash Hash prev (s p), p))"
      "p = x \<or> p \<in> set ps \<and> sel (phashBlock (s p)) = None \<and> GetBlockTime (s p) \<le> stop"
      "selection_value Hash s prev p \<le> selection_value Hash s prev x"
      "\<forall>q \<in> set ps. sel (phashBlock (s q)) = None \<and> GetBlockTime (s q) \<le> stop \<longrightarrow>
         selection_value Hash s prev p \<le> selection_value Hash s prev q" using IH [of x] by blast
    then show ?thesis using less bm(1) by (intro exI [of _ p]) (auto simp: selection_less Let_def)
  next
    case more
    obtain p where "candidate_loop Hash s bm sel stop prev (Some (selection_hash Hash prev (s p0), p0)) (map (candidate s) ps) =
        Inr (Some (selection_hash Hash prev (s p), p))"
      "p = p0 \<or> p \<in> set ps \<and> sel (phashBlock (s p)) = None \<and> GetBlockTime (s p) \<le> stop"
      "selection_value Hash s prev p \<le> selection_value Hash s prev p0"
      "\<forall>q \<in> set ps. sel (phashBlock (s q)) = None \<and> GetBlockTime (s q) \<le> stop \<longrightarrow>
         selection_value Hash s prev p \<le> selection_value Hash s prev q" using IH [of p0] by blast
    then show ?thesis using more bm(1) by (intro exI [of _ p]) (auto simp: selection_less Let_def)
  qed
qed simp

lemma candidate_loop_skip:
  "\<forall>q \<in> set pre. bm (phashBlock (s q)) = Some q \<and> sel (phashBlock (s q)) \<noteq> None \<Longrightarrow>
   candidate_loop Hash s bm sel stop prev None (map (candidate s) pre @ rest) = candidate_loop Hash s bm sel stop prev None rest"
  by (induction pre) (auto simp: candidate_def)

lemma SelectBlockFromCandidates_elected:
  assumes so: "sorted (map (\<lambda>q. candidate_key (candidate s q)) ps)" and bm: "\<forall>q \<in> set ps. bm (phashBlock (s q)) = Some q"
    and ne: "{q \<in> set ps. sel (phashBlock (s q)) = None} \<noteq> {}"
  shows "\<exists>p. SelectBlockFromCandidates Hash s bm (map (candidate s) ps) sel stop prev = Some p \<and>
    elected Hash s prev stop {q \<in> set ps. sel (phashBlock (s q)) = None} p"
proof -
  obtain pre x post where ps: "ps = pre @ x # post" "sel (phashBlock (s x)) = None" "\<forall>q \<in> set pre. sel (phashBlock (s q)) \<noteq> None"
    using split_list_first_prop [of ps "\<lambda>q. sel (phashBlock (s q)) = None"] ne by auto
  have st: "sorted (map (\<lambda>q. GetBlockTime (s q)) post)"
    using so ps(1) by (auto simp: sorted_append sorted_map candidate_key_def candidate_def elim: sorted_wrt_mono_rel [rotated])
  have key: "\<forall>q \<in> set post. candidate_key (candidate s x) \<le> candidate_key (candidate s q)" using so ps(1) by (simp add: sorted_append)
  obtain p where p: "candidate_loop Hash s bm sel stop prev (Some (selection_hash Hash prev (s x), x)) (map (candidate s) post) =
      Inr (Some (selection_hash Hash prev (s p), p))"
    "p = x \<or> p \<in> set post \<and> sel (phashBlock (s p)) = None \<and> GetBlockTime (s p) \<le> stop"
    "selection_value Hash s prev p \<le> selection_value Hash s prev x"
    "\<forall>q \<in> set post. sel (phashBlock (s q)) = None \<and> GetBlockTime (s q) \<le> stop \<longrightarrow>
       selection_value Hash s prev p \<le> selection_value Hash s prev q"
    using candidate_loop_best [OF st, of bm] bm ps(1) by fastforce
  have "candidate_loop Hash s bm sel stop prev None (map (candidate s) ps) =
      candidate_loop Hash s bm sel stop prev (Some (selection_hash Hash prev (s x), x)) (map (candidate s) post)"
    using candidate_loop_skip [of pre bm s sel Hash stop prev] bm ps by (simp add: candidate_def Let_def)
  then have "SelectBlockFromCandidates Hash s bm (map (candidate s) ps) sel stop prev = Some p"
    by (simp add: SelectBlockFromCandidates_def p(1))
  moreover have "elected Hash s prev stop {q \<in> set ps. sel (phashBlock (s q)) = None} p"
    using p ps key by (auto simp: elected_def)
  ultimately show ?thesis by blast
qed

subsection \<open>The rounds\<close>

definition section_length :: "Consensus_Params \<Rightarrow> nat \<Rightarrow> int" where
  "section_length params n = cdiv (nModifierInterval params * 63) (63 + (63 - int n) * (MODIFIER_INTERVAL_RATIO - 1))"

lemma section_eq: "n < 64 \<Longrightarrow> GetStakeModifierSelectionIntervalSection params n = Inr (section_length params n)"
  by (simp add: GetStakeModifierSelectionIntervalSection_def section_length_def)

lemma entropy_bit: "bit (ucast (GetStakeEntropyBit b) :: u64) i \<longleftrightarrow> i = 0 \<and> bit (bi_nFlags b) 1"
  by (cases i) (auto simp: GetStakeEntropyBit_def BLOCK_STAKE_ENTROPY_def bit_simps)

lemma modifier_rounds_elected:
  assumes so: "sorted (map (\<lambda>q. candidate_key (candidate s q)) ps)" and bm: "\<forall>q \<in> set ps. bm (phashBlock (s q)) = Some q"
    and d: "distinct ps" and m: "m \<le> 64" "m \<le> length ps"
  shows "k \<le> m \<Longrightarrow> distinct qs0 \<Longrightarrow> set qs0 \<subseteq> set ps \<Longrightarrow> length qs0 = k \<Longrightarrow> dom sel = (\<lambda>q. phashBlock (s q)) ` set qs0 \<Longrightarrow>
    \<exists>w qs. modifier_rounds params Hash s bm (map (candidate s) ps) prev [k..<m] stop new sel = Inr w \<and> length qs = m - k \<and>
      distinct (qs0 @ qs) \<and> set qs \<subseteq> set ps \<and>
      (\<forall>i. bit w i \<longleftrightarrow> bit new i \<or> k \<le> i \<and> i < m \<and> bit (bi_nFlags (s (qs ! (i - k)))) 1) \<and>
      (\<forall>i < m - k. elected Hash s prev (stop + (\<Sum>j \<in> {k..k + i}. section_length params j)) (set ps - set (qs0 @ take i qs)) (qs ! i))"
proof (induction "m - k" arbitrary: k qs0 sel stop new)
  case 0
  then show ?case by auto
next
  case (Suc r)
  then have km: "k < m" "r = m - Suc k" by simp_all
  have inj: "phashBlock (s a) = phashBlock (s b) \<Longrightarrow> a = b" if "a \<in> set ps" "b \<in> set ps" for a b
    using bm that by (metis option.inject)
  let ?av = "{q \<in> set ps. sel (phashBlock (s q)) = None}"
  have av: "?av = set ps - set qs0"
  proof -
    have "sel (phashBlock (s q)) = None \<longleftrightarrow> q \<notin> set qs0" if "q \<in> set ps" for q
      using Suc.prems(3,5) inj [OF that] unfolding domIff [symmetric] by auto
    then show ?thesis by auto
  qed
  have "card (set qs0) < card (set ps)" using Suc.prems(2,4) d m(2) km(1) by (simp add: distinct_card)
  then have "?av \<noteq> {}" unfolding av using card_mono [of "set qs0" "set ps"] by auto
  let ?stop = "stop + section_length params k"
  obtain p where p: "SelectBlockFromCandidates Hash s bm (map (candidate s) ps) sel ?stop prev = Some p" "elected Hash s prev ?stop ?av p"
    using SelectBlockFromCandidates_elected [OF so bm \<open>?av \<noteq> {}\<close>] by blast
  have pa: "p \<in> set ps" "p \<notin> set qs0" using p(2) av by (auto simp: elected_def)
  let ?new = "new OR push_bit k (ucast (GetStakeEntropyBit (s p)))" and ?sel = "sel(phashBlock (s p) \<mapsto> p)"
  obtain w qs where w: "modifier_rounds params Hash s bm (map (candidate s) ps) prev [Suc k..<m] ?stop ?new ?sel = Inr w"
    "length qs = m - Suc k" "distinct ((qs0 @ [p]) @ qs)" "set qs \<subseteq> set ps"
    "\<And>i. bit w i \<longleftrightarrow> bit ?new i \<or> Suc k \<le> i \<and> i < m \<and> bit (bi_nFlags (s (qs ! (i - Suc k)))) 1"
    "\<And>i. i < m - Suc k \<Longrightarrow>
       elected Hash s prev (?stop + (\<Sum>j \<in> {Suc k..Suc k + i}. section_length params j)) (set ps - set ((qs0 @ [p]) @ take i qs)) (qs ! i)"
    using Suc(1) [OF km(2), of "qs0 @ [p]" ?sel ?stop ?new] Suc.prems pa km(1) by auto
  have "modifier_rounds params Hash s bm (map (candidate s) ps) prev [k..<m] stop new sel = Inr w"
    using km(1) m(1) by (simp add: upt_conv_Cons section_eq ebind_def p(1) w(1))
  moreover have "bit w i \<longleftrightarrow> bit new i \<or> k \<le> i \<and> i < m \<and> bit (bi_nFlags (s ((p # qs) ! (i - k)))) 1" for i
    using km(1) m(1) unfolding w(5)
    by (cases "i = k") (auto simp: bit_or_iff bit_push_bit_iff entropy_bit possible_bit_def nth_Cons' intro: le_neq_implies_less)
  moreover have "elected Hash s prev (stop + (\<Sum>j \<in> {k..k + i}. section_length params j)) (set ps - set (qs0 @ take i (p # qs))) ((p # qs) ! i)"
    if "i < m - k" for i
  proof (cases i)
    case 0
    then show ?thesis using p(2) av by simp
  next
    case (Suc j)
    have "(\<Sum>l \<in> {k..k + i}. section_length params l) = section_length params k + (\<Sum>l \<in> {Suc k..Suc k + j}. section_length params l)"
      using Suc by (simp add: sum.atLeast_Suc_atMost)
    then show ?thesis using w(6) [of j] Suc that by (simp add: add.assoc)
  qed
  ultimately show ?case using w(2-4) pa km(1) by (intro exI [of _ w] exI [of _ "p # qs"]) auto
qed

subsection \<open>The next stake modifier\<close>

lemma GetLastStakeModifier_spec:
  assumes wf: "wf_store s" and gen: "\<forall>a. is_ancestor s a p \<and> pprev (s a) = None \<longrightarrow> GeneratedStakeModifier (s a)"
  shows "\<exists>q. GetLastStakeModifier s p = Inr (nStakeModifier (s q), GetBlockTime (s q)) \<and> is_ancestor s q p \<and>
    GeneratedStakeModifier (s q) \<and> (\<forall>a. is_ancestor s a p \<and> GeneratedStakeModifier (s a) \<longrightarrow> height s a \<le> height s q)"
  using gen
proof (induction "height s p" arbitrary: p rule: less_induct)
  case less
  show ?case
  proof (cases "GeneratedStakeModifier (s p)")
    case True
    then have "GetLastStakeModifier s p = Inr (nStakeModifier (s p), GetBlockTime (s p))"
      unfolding GetLastStakeModifier_def by (subst while_option_unfold) simp
    then show ?thesis using True is_ancestor_height [OF wf] by (intro exI [of _ p]) auto
  next
    case False
    then obtain r where r: "pprev (s p) = Some r" using less.prems is_ancestor_refl [of s p] by (cases "pprev (s p)") auto
    have eq: "GetLastStakeModifier s p = GetLastStakeModifier s r"
      unfolding GetLastStakeModifier_def using r False by (subst while_option_unfold) simp
    have up: "is_ancestor s a r \<Longrightarrow> is_ancestor s a p" for a using is_ancestor_trans [of s a r p] is_ancestor_prev [of s p r, OF r] by blast
    have down: "is_ancestor s a p \<Longrightarrow> GeneratedStakeModifier (s a) \<Longrightarrow> is_ancestor s a r" for a
      using False r proper_ancestor_prev [of s a p] by auto
    have "height s r < height s p" using wf_prev [OF wf r] by simp
    then show ?thesis using less.hyps [of r] less.prems up down unfolding eq by blast
  qed
qed

definition indexed :: "store \<Rightarrow> BlockMap \<Rightarrow> ptr \<Rightarrow> bool" where
  "indexed s bm p \<longleftrightarrow> (\<forall>a. is_ancestor s a p \<longrightarrow> bm (phashBlock (s a)) = Some a \<and> length (phashBlock (s a)) = 32)"

lemma sorted_candidates:
  assumes bm: "\<forall>a \<in> set ps. bm (phashBlock (s a)) = Some a \<and> length (phashBlock (s a)) = 32" and d: "distinct ps"
    and rand: "\<And>i. 0 < i \<Longrightarrow> rand i < i"
  shows "\<exists>ps'. sort_candidates (shuffle_candidates rand (map (candidate s) ps)) = map (candidate s) ps' \<and> distinct ps' \<and>
    set ps' = set ps \<and> sorted (map (\<lambda>q. candidate_key (candidate s q)) ps')"
proof -
  let ?g = "\<lambda>x. the (bm (snd x))"
  define v where "v = sort_candidates (shuffle_candidates rand (map (candidate s) ps))"
  have m: "mset v = mset (map (candidate s) ps)"
    unfolding v_def sort_candidates_key using mset_shuffle [of rand "map (candidate s) ps"] rand by simp
  have g: "map ?g (map (candidate s) ps) = ps" using bm by (simp add: candidate_def map_idI)
  have set: "set v = candidate s ` set ps" using m by (metis set_map set_mset_mset)
  have v: "v = map (candidate s) (map ?g v)"
    using bm set by (auto simp: candidate_def intro!: map_idI [symmetric])
  have "mset (map ?g v) = mset (map ?g (map (candidate s) ps))" using m by (metis mset_map)
  then have mg: "mset (map ?g v) = mset ps" unfolding g .
  have "sorted (map candidate_key v)" by (simp add: v_def sort_candidates_key)
  then have "sorted (map candidate_key (map (candidate s) (map ?g v)))" using v by simp
  then have so: "sorted (map (\<lambda>q. candidate_key (candidate s q)) (map ?g v))" by (simp add: o_def)
  have "distinct (map ?g v)" "set (map ?g v) = set ps"
    using mg d by (metis mset_eq_imp_distinct_iff, metis set_mset_mset)
  with so v show ?thesis unfolding v_def [symmetric] by blast
qed

definition modifier_of :: "(bytes \<Rightarrow> uint256) \<Rightarrow> Consensus_Params \<Rightarrow> store \<Rightarrow> u64 \<Rightarrow> int \<Rightarrow> ptr set \<Rightarrow> u64 \<Rightarrow> bool" where
  "modifier_of Hash params s prev start cands m \<longleftrightarrow> (\<exists>qs. length qs = min 64 (card cands) \<and> distinct qs \<and> set qs \<subseteq> cands \<and>
     (\<forall>i. bit m i \<longleftrightarrow> i < length qs \<and> bit (bi_nFlags (s (qs ! i))) 1) \<and>
     (\<forall>i < length qs. elected Hash s prev (start + (\<Sum>j \<in> {0..i}. section_length params j)) (cands - set (take i qs)) (qs ! i)))"

lemma modifier_rounds_of:
  assumes "\<forall>a \<in> set ps. bm (phashBlock (s a)) = Some a \<and> length (phashBlock (s a)) = 32" "distinct ps" "\<And>i. 0 < i \<Longrightarrow> rand i < i"
  defines "v \<equiv> sort_candidates (shuffle_candidates rand (map (candidate s) ps))"
  shows "\<exists>m. modifier_rounds params Hash s bm v prev [0..<min 64 (length v)] start 0 Map.empty = Inr m \<and>
    modifier_of Hash params s prev start (set ps) m"
proof -
  obtain ps' where ps': "v = map (candidate s) ps'" "distinct ps'" "set ps' = set ps"
    "sorted (map (\<lambda>q. candidate_key (candidate s q)) ps')"
    using sorted_candidates [OF assms(1-3)] unfolding v_def by blast
  have bm: "\<forall>q \<in> set ps'. bm (phashBlock (s q)) = Some q" using assms(1) ps'(3) by simp
  have len: "length v = card (set ps)" using ps'(1-3) distinct_card by fastforce
  have mi: "min 64 (length v) \<le> 64" "min 64 (length v) \<le> length ps'" by (simp_all add: ps'(1))
  obtain m qs where m: "modifier_rounds params Hash s bm (map (candidate s) ps') prev [0..<min 64 (length v)] start 0 Map.empty = Inr m"
    "length qs = min 64 (length v)" "distinct qs" "set qs \<subseteq> set ps'"
    "\<forall>i. bit m i \<longleftrightarrow> bit (0 :: u64) i \<or> 0 \<le> i \<and> i < min 64 (length v) \<and> bit (bi_nFlags (s (qs ! (i - 0)))) 1"
    "\<forall>i < min 64 (length v) - 0. elected Hash s prev (start + (\<Sum>j \<in> {0..0 + i}. section_length params j)) (set ps' - set ([] @ take i qs)) (qs ! i)"
    using modifier_rounds_elected [OF ps'(4) bm ps'(2) mi, of 0 "[]" Map.empty params Hash prev start 0] by auto
  have "modifier_of Hash params s prev start (set ps) m"
    unfolding modifier_of_def len [symmetric] using m(2-6) ps'(3) by (intro exI [of _ qs]) auto
  then show ?thesis using m(1) ps'(1) by simp
qed

lemma ComputeNextStakeModifier_spec:
  assumes wf: "wf_store s" and ix: "indexed s bm p" and prev: "pprev (s p) = Some q0"
    and gen: "\<forall>a. is_ancestor s a p \<and> pprev (s a) = None \<longrightarrow> GeneratedStakeModifier (s a)" and rand: "\<And>i. 0 < i \<Longrightarrow> rand i < i"
  shows "\<exists>q m f. ComputeNextStakeModifier params Hash rand s bm p = Inr (m, f) \<and>
    is_ancestor s q q0 \<and> GeneratedStakeModifier (s q) \<and> (\<forall>a. is_ancestor s a q0 \<and> GeneratedStakeModifier (s a) \<longrightarrow> height s a \<le> height s q) \<and>
    f = (cdiv (GetBlockTime (s q)) (nModifierInterval params) < cdiv (GetBlockTime (s q0)) (nModifierInterval params) \<and>
         cdiv (GetBlockTime (s q)) (nModifierInterval params) < cdiv (GetBlockTime (s p)) (nModifierInterval params)) \<and>
    (if f then \<exists>ps start. collect_candidates s start q0 = Some (map (candidate s) ps) \<and>
         modifier_of Hash params s (nStakeModifier (s q)) start (set ps) m
     else m = nStakeModifier (s q))"
proof -
  have up: "is_ancestor s a q0 \<Longrightarrow> is_ancestor s a p" for a using is_ancestor_trans [of s a q0 p] is_ancestor_prev [of s p q0, OF prev] by blast
  obtain q where q: "GetLastStakeModifier s q0 = Inr (nStakeModifier (s q), GetBlockTime (s q))" "is_ancestor s q q0"
    "GeneratedStakeModifier (s q)" "\<forall>a. is_ancestor s a q0 \<and> GeneratedStakeModifier (s a) \<longrightarrow> height s a \<le> height s q"
    using GetLastStakeModifier_spec [OF wf, of q0] gen up by blast
  obtain sel where sel: "GetStakeModifierSelectionInterval params = Inr sel" using selection_interval by blast
  define iv where "iv = nModifierInterval params"
  define start where "start = cdiv (GetBlockTime (s q0)) iv * iv - sel"
  obtain ps where ps: "collect_candidates s start q0 = Some (map (candidate s) ps)" "distinct ps" "\<forall>a \<in> set ps. is_ancestor s a q0"
    using collect_candidates_spec [OF wf, of start q0] by blast
  have "\<forall>a \<in> set ps. bm (phashBlock (s a)) = Some a \<and> length (phashBlock (s a)) = 32" using ps(3) up ix by (auto simp: indexed_def)
  then obtain m where m: "(let v = sort_candidates (shuffle_candidates rand (map (candidate s) ps)) in
      modifier_rounds params Hash s bm v (nStakeModifier (s q)) [0..<min 64 (length v)] start 0 Map.empty) = Inr m"
    "modifier_of Hash params s (nStakeModifier (s q)) start (set ps) m"
    using modifier_rounds_of [OF _ ps(2) rand, of bm s params Hash "nStakeModifier (s q)" start] unfolding Let_def by blast
  let ?keep = "cdiv (GetBlockTime (s q)) iv \<ge> cdiv (GetBlockTime (s q0)) iv \<or> cdiv (GetBlockTime (s q)) iv \<ge> cdiv (GetBlockTime (s p)) iv"
  have "ComputeNextStakeModifier params Hash rand s bm p = (if ?keep then Inr (nStakeModifier (s q), False) else Inr (m, True))"
    unfolding ComputeNextStakeModifier_def prev using ps(1) m(1) q(1) sel
    by (simp add: ebind_def Let_def iv_def [symmetric] start_def [symmetric])
  then show ?thesis using q(2-4) ps(1) m(2) by (cases ?keep) (auto simp: iv_def intro!: exI [of _ q])
qed

lemma ComputeNextStakeModifier_rand:
  assumes wf: "wf_store s" and ix: "indexed s bm p" and rand: "\<And>i. 0 < i \<Longrightarrow> rand i < i" "\<And>i. 0 < i \<Longrightarrow> rand' i < i"
  shows "ComputeNextStakeModifier params Hash rand s bm p = ComputeNextStakeModifier params Hash rand' s bm p"
proof (cases "pprev (s p)")
  case (Some q0)
  have "sort_candidates (shuffle_candidates rand v) = sort_candidates (shuffle_candidates rand' v)"
    if "collect_candidates s start q0 = Some v" for start v
  proof -
    obtain ps where ps: "v = map (candidate s) ps" "\<forall>a \<in> set ps. is_ancestor s a q0"
      using collect_candidates_spec [OF wf, of start q0] \<open>collect_candidates s start q0 = Some v\<close> by auto
    have "is_ancestor s a p" if "a \<in> set ps" for a
      using ps(2) that is_ancestor_trans [of s a q0 p] is_ancestor_prev [of s p q0, OF Some] by blast
    then have "\<forall>x \<in> set v. length (snd x) = 32" using ix by (auto simp: ps(1) candidate_def indexed_def)
    then show ?thesis using sort_shuffle [of rand v] sort_shuffle [of rand' v] rand by simp
  qed
  then show ?thesis unfolding ComputeNextStakeModifier_def Some
    by (auto simp: ebind_def Let_def split: sum.splits option.splits)
qed (simp add: ComputeNextStakeModifier_def)

subsection \<open>The modifier of a kernel\<close>

text \<open>The blocks whose modifier a kernel may use: old enough, with a modifier of their own.\<close>

definition aged_modifier :: "store \<Rightarrow> int \<Rightarrow> int \<Rightarrow> ptr \<Rightarrow> ptr \<Rightarrow> bool" where
  "aged_modifier s age nTimeTx p a \<longleftrightarrow> is_ancestor s a p \<and> a \<noteq> p \<and> GeneratedStakeModifier (s a) \<and> GetBlockTime (s a) + age \<le> nTimeTx"

lemma modifier_loop_spec:
  assumes wf: "wf_store s" and "t + age > nTimeTx"
  shows "\<exists>r. modifier_loop s age nTimeTx p h t = Some r \<and>
    (case r of Inl e \<Rightarrow> e = Reached_genesis \<and> (\<forall>a. \<not> aged_modifier s age nTimeTx p a)
     | Inr x \<Rightarrow> \<exists>q. x = (nStakeModifier (s q), nHeight (s q), GetBlockTime (s q)) \<and> aged_modifier s age nTimeTx p q \<and>
         (\<forall>a. aged_modifier s age nTimeTx p a \<longrightarrow> height s a \<le> height s q))"
  using assms(2)
proof (induction "height s p" arbitrary: p h t rule: less_induct)
  case less
  show ?case
  proof (cases "pprev (s p)")
    case None
    then have "\<not> aged_modifier s age nTimeTx p a" for a using proper_ancestor_prev [of s a p] by (auto simp: aged_modifier_def)
    then show ?thesis using None less.prems by (subst modifier_loop.simps) simp
  next
    case (Some q)
    have lt: "height s q < height s p" using wf_prev [OF wf Some] by simp
    have am: "aged_modifier s age nTimeTx p a \<longleftrightarrow>
        (a = q \<and> GeneratedStakeModifier (s q) \<and> GetBlockTime (s q) + age \<le> nTimeTx) \<or> aged_modifier s age nTimeTx q a" for a
      using proper_ancestor_iff [OF wf, of a p] Some is_ancestor_refl [of s q] by (auto simp: aged_modifier_def)
    show ?thesis
    proof (cases "GeneratedStakeModifier (s q) \<and> GetBlockTime (s q) + age \<le> nTimeTx")
      case True
      have "modifier_loop s age nTimeTx p h t = Some (Inr (nStakeModifier (s q), nHeight (s q), GetBlockTime (s q)))"
        using True less.prems Some by (subst modifier_loop.simps, subst modifier_loop.simps) (simp add: Let_def)
      moreover have "height s a \<le> height s q" if "aged_modifier s age nTimeTx p a" for a
        using that am is_ancestor_height [OF wf, of a q] by (auto simp: aged_modifier_def)
      ultimately show ?thesis using True am by auto
    next
      case False
      define h' t' where "h' = (if GeneratedStakeModifier (s q) then nHeight (s q) else h)"
        and "t' = (if GeneratedStakeModifier (s q) then GetBlockTime (s q) else t)"
      have late: "t' + age > nTimeTx" using False less.prems by (auto simp: t'_def)
      have st: "modifier_loop s age nTimeTx p h t = modifier_loop s age nTimeTx q h' t'"
        using less.prems Some by (subst modifier_loop.simps) (simp add: Let_def h'_def t'_def)
      have same: "aged_modifier s age nTimeTx p = aged_modifier s age nTimeTx q" using am False by (intro ext) blast
      show ?thesis using less.hyps [OF lt late, of h'] unfolding st same .
    qed
  qed
qed

lemma GetKernelStakeModifier_spec:
  assumes wf: "wf_store s"
  obtains age where "GetStakeModifierSelectionInterval params = Inr (nStakeMinAge params - age)"
    "case GetKernelStakeModifier params s p nTimeTx of
       Inl e \<Rightarrow> e = Too_old \<and> GetBlockTime (s p) + age \<le> uint nTimeTx \<or>
         e = Reached_genesis \<and> GetBlockTime (s p) + age > uint nTimeTx \<and> (\<forall>a. \<not> aged_modifier s age (uint nTimeTx) p a)
     | Inr x \<Rightarrow> GetBlockTime (s p) + age > uint nTimeTx \<and>
         (\<exists>q. x = (nStakeModifier (s q), nHeight (s q), GetBlockTime (s q)) \<and> aged_modifier s age (uint nTimeTx) p q \<and>
            (\<forall>a. aged_modifier s age (uint nTimeTx) p a \<longrightarrow> height s a \<le> height s q))"
proof -
  obtain sel where sel: "GetStakeModifierSelectionInterval params = Inr sel" using selection_interval by blast
  define age where "age = nStakeMinAge params - sel"
  show thesis
  proof (rule that [of age])
    show "GetStakeModifierSelectionInterval params = Inr (nStakeMinAge params - age)" by (simp add: sel age_def)
    show "case GetKernelStakeModifier params s p nTimeTx of
       Inl e \<Rightarrow> e = Too_old \<and> GetBlockTime (s p) + age \<le> uint nTimeTx \<or>
         e = Reached_genesis \<and> GetBlockTime (s p) + age > uint nTimeTx \<and> (\<forall>a. \<not> aged_modifier s age (uint nTimeTx) p a)
     | Inr x \<Rightarrow> GetBlockTime (s p) + age > uint nTimeTx \<and>
         (\<exists>q. x = (nStakeModifier (s q), nHeight (s q), GetBlockTime (s q)) \<and> aged_modifier s age (uint nTimeTx) p q \<and>
            (\<forall>a. aged_modifier s age (uint nTimeTx) p a \<longrightarrow> height s a \<le> height s q))"
    proof (cases "GetBlockTime (s p) + age \<le> uint nTimeTx")
      case True
      then show ?thesis by (simp add: GetKernelStakeModifier_def GetKernelStakeModifierV05_def sel ebind_def age_def Let_def)
    next
      case False
      obtain r where r: "modifier_loop s age (uint nTimeTx) p (nHeight (s p)) (GetBlockTime (s p)) = Some r"
        "case r of Inl e \<Rightarrow> e = Reached_genesis \<and> (\<forall>a. \<not> aged_modifier s age (uint nTimeTx) p a)
         | Inr x \<Rightarrow> \<exists>q. x = (nStakeModifier (s q), nHeight (s q), GetBlockTime (s q)) \<and> aged_modifier s age (uint nTimeTx) p q \<and>
             (\<forall>a. aged_modifier s age (uint nTimeTx) p a \<longrightarrow> height s a \<le> height s q)"
        using modifier_loop_spec [OF wf, of "uint nTimeTx" "GetBlockTime (s p)" age p "nHeight (s p)"] False by auto
      have "GetKernelStakeModifier params s p nTimeTx = r"
        using False r(1) by (simp add: GetKernelStakeModifier_def GetKernelStakeModifierV05_def sel ebind_def age_def [symmetric] Let_def)
      then show ?thesis using r(2) False by (cases r) auto
    qed
  qed
qed

subsection \<open>The weight of a kernel\<close>

lemma kernel_weight_div:
  assumes "0 \<le> nValueIn" "nStakeMinAge params \<le> t" "nStakeMinAge params \<le> nStakeMaxAge params"
  shows "kernel_weight params nValueIn t = nValueIn * (min t (nStakeMaxAge params) - nStakeMinAge params) div (COIN * 86400)"
proof -
  have "0 \<le> nValueIn * (min t (nStakeMaxAge params) - nStakeMinAge params)" using assms by simp
  then show ?thesis by (simp add: kernel_weight_def Let_def cdiv_nonneg COIN_def zdiv_zmult2_eq)
qed

lemma kernel_weight_mono:
  assumes "0 \<le> v" "v \<le> v'" "nStakeMinAge params \<le> t" "t \<le> t'" "nStakeMinAge params \<le> nStakeMaxAge params"
  shows "0 \<le> kernel_weight params v t \<and> kernel_weight params v t \<le> kernel_weight params v' t'"
proof -
  have "v * (min t (nStakeMaxAge params) - nStakeMinAge params) \<le> v' * (min t' (nStakeMaxAge params) - nStakeMinAge params)"
    using assms by (intro mult_mono) auto
  then show ?thesis using assms
    by (simp add: kernel_weight_div pos_imp_zdiv_nonneg_iff zdiv_mono1 COIN_def)
qed

lemma CheckStakeKernelHash_Inr:
  "CheckStakeKernelHash params Hash s nBits pindexPrev blockFrom nTxPrevOffset txPrev out nTimeTx = Inr h \<longleftrightarrow>
   (let t0 = kernel_time txPrev (hdr_nTime blockFrom) in
     t0 \<le> nTimeTx \<and> uint (hdr_nTime blockFrom) + nStakeMinAge params \<le> uint nTimeTx \<and> unat (op_n out) < length (vout txPrev) \<and>
     (\<exists>m x. GetKernelStakeModifier params s pindexPrev nTimeTx = Inr (m, x) \<and>
        h = Hash (kernel_preimage m (hdr_nTime blockFrom) nTxPrevOffset t0 (op_n out) nTimeTx)) \<and>
     int (le_value h) \<le> kernel_weight params (nValue (vout txPrev ! unat (op_n out))) (uint nTimeTx - uint t0) * bn_SetCompact nBits)"
  by (auto simp: CheckStakeKernelHash_def Let_def not_less not_le split: sum.splits)

lemma bn_SetCompact_nonneg: "nBits AND 0x00800000 = 0 \<Longrightarrow> 0 \<le> bn_SetCompact nBits"
  by (simp add: bn_SetCompact_def Let_def)

subsection \<open>Version counts\<close>

definition pos_chain :: "store \<Rightarrow> ptr \<Rightarrow> ptr list" where
  "pos_chain s p = filter (\<lambda>q. IsProofOfStake (s q)) (map (\<lambda>k. the (nth_prev s k p)) [0..<Suc (height s p)])"

lemma pos_chain_step:
  assumes wf: "wf_store s"
  shows "pos_chain s p = (if IsProofOfStake (s p) then [p] else []) @ (case pprev (s p) of None \<Rightarrow> [] | Some q \<Rightarrow> pos_chain s q)"
proof -
  have up: "[0..<Suc (height s p)] = 0 # map Suc [0..<height s p]" by (simp only: upt_conv_Cons map_Suc_upt zero_less_Suc)
  show ?thesis
  proof (cases "pprev (s p)")
    case None
    then have "height s p = 0" using wf_genesis [OF wf, of p] by simp
    then show ?thesis using None by (simp add: pos_chain_def)
  next
    case (Some q)
    have "height s p = Suc (height s q)" by (rule wf_prev [OF wf Some])
    then show ?thesis using Some unfolding pos_chain_def up by (simp add: o_def del: upt_Suc)
  qed
qed

lemma HowSuperMajority_loop:
  assumes wf: "wf_store s" and "nFound \<le> nRequired" "i \<le> nToCheck"
  shows "map_option (\<lambda>(i, nFound, p). nFound)
    (while_option (\<lambda>(i, nFound, p). i < nToCheck \<and> nFound < nRequired \<and> p \<noteq> None)
      (\<lambda>(i, nFound, p). let b = s (the p) in
         if \<not> IsProofOfStake b then (i, nFound, pprev b)
         else (i + 1, (if sint (bi_nVersion b) \<ge> minVersion then nFound + 1 else nFound), pprev b)) (i, nFound, Some p)) =
    Some (min nRequired (nFound + length (filter (\<lambda>q. sint (bi_nVersion (s q)) \<ge> minVersion) (take (nToCheck - i) (pos_chain s p)))))"
  using assms(2,3)
proof (induction "height s p" arbitrary: p i nFound rule: less_induct)
  case less
  let ?w = "\<lambda>x. map_option (\<lambda>(i, nFound, p). nFound)
    (while_option (\<lambda>(i, nFound, p). i < nToCheck \<and> nFound < nRequired \<and> p \<noteq> None)
      (\<lambda>(i, nFound, p). let b = s (the p) in
         if \<not> IsProofOfStake b then (i, nFound, pprev b)
         else (i + 1, (if sint (bi_nVersion b) \<ge> minVersion then nFound + 1 else nFound), pprev b)) x)"
  show ?case
  proof (cases "i < nToCheck \<and> nFound < nRequired")
    case False
    then have "?w (i, nFound, Some p) = Some nFound" by (subst while_option_unfold) auto
    then show ?thesis using False less.prems by auto
  next
    case True
    define i' n' where "i' = (if IsProofOfStake (s p) then i + 1 else i)"
      and "n' = (if IsProofOfStake (s p) \<and> sint (bi_nVersion (s p)) \<ge> minVersion then nFound + 1 else nFound)"
    have st: "?w (i, nFound, Some p) = ?w (i', n', pprev (s p))"
      using True by (subst while_option_unfold) (simp add: Let_def i'_def n'_def)
    have le: "n' \<le> nRequired" "i' \<le> nToCheck" using True by (auto simp: i'_def n'_def)
    have tk: "nToCheck - i = Suc (nToCheck - Suc i)" using True by (simp add: Suc_diff_Suc)
    show ?thesis
    proof (cases "pprev (s p)")
      case None
      have w: "?w (i, nFound, Some p) = Some n'" unfolding st None by (subst while_option_unfold) simp
      show ?thesis unfolding w using None le True tk by (auto simp: pos_chain_step [OF wf, of p] n'_def)
    next
      case (Some q)
      have "height s q < height s p" using wf_prev [OF wf Some] by simp
      then have w: "?w (i, nFound, Some p) =
          Some (min nRequired (n' + length (filter (\<lambda>q. sint (bi_nVersion (s q)) \<ge> minVersion) (take (nToCheck - i') (pos_chain s q)))))"
        unfolding st Some by (rule less.hyps [OF _ le])
      show ?thesis unfolding w using Some tk by (simp add: pos_chain_step [OF wf, of p] n'_def i'_def)
    qed
  qed
qed

lemma HowSuperMajority_count:
  "wf_store s \<Longrightarrow> HowSuperMajority s minVersion (Some p) nRequired nToCheck =
     Some (min nRequired (length (filter (\<lambda>q. sint (bi_nVersion (s q)) \<ge> minVersion) (take nToCheck (pos_chain s p)))))"
  using HowSuperMajority_loop [of s 0 nRequired 0 nToCheck minVersion p] unfolding HowSuperMajority_def by simp

subsection \<open>Properties\<close>


text \<open>A line of proof-of-stake blocks, four minutes apart, whose genesis block generated a modifier.\<close>

definition stake_line :: store where
  "stake_line p = (pos_line p)\<lparr>phashBlock := le_digits 32 p, bi_nFlags := (if p = 0 then 4 else if odd p then 1 else 3)\<rparr>"

definition stake_map :: BlockMap where
  "stake_map h = Some (le_value h)"

lemma stake_line_fields:
  "nHeight (stake_line p) = int p" "pprev (stake_line p) = (if p = 0 then None else Some (p - 1))"
  "GetBlockTime (stake_line p) = GetBlockTime (pos_line p)" "GeneratedStakeModifier (stake_line p) = (p = 0)"
  by (auto simp: stake_line_def pos_line_def GetBlockTime_def GeneratedStakeModifier_def BLOCK_STAKE_MODIFIER_def)

lemma stake_line_ancestor: "is_ancestor stake_line a p \<longleftrightarrow> a \<le> p"
proof -
  have "pprev (stake_line p) = pprev (pos_line p)" for p by (simp add: stake_line_fields pos_line_fields)
  then have "nth_prev stake_line n p = nth_prev pos_line n p" for n p by (rule nth_prev_cong)
  then show ?thesis using pos_line_ancestor by (simp add: is_ancestor_def)
qed

lemma wf_stake_line: "wf_store stake_line"
  by (auto simp: wf_store_def stake_line_def pos_line_def CBlockIndex_default_def)

lemma indexed_stake_line: "p < 2 ^ 64 \<Longrightarrow> indexed stake_line stake_map p"
proof -
  assume p: "p < 2 ^ 64"
  have "le_value (le_digits 32 a :: bytes) = a" if "a \<le> p" for a
  proof -
    have "a < 2 ^ 64" using that p by simp
    also have "(2 :: nat) ^ 64 < 2 ^ (8 * 32)" by (rule power_strict_increasing) simp_all
    finally show ?thesis by (simp add: le_value_le_digits)
  qed
  then show ?thesis by (auto simp: indexed_def stake_line_ancestor stake_map_def stake_line_def)
qed


text \<open>
  C35: the stake modifier is deterministic. The candidates are shuffled with random numbers before they are
  sorted, but the comparison is a total order on candidates, so that every node computes the same modifier whatever numbers
  it drew.
\<close>

theorem stake_modifier_deterministic:
  assumes "wf_store s" "indexed s bm p" "\<forall>i. 0 < i \<longrightarrow> rand i < i" "\<forall>i. 0 < i \<longrightarrow> rand' i < i"
  shows "ComputeNextStakeModifier params Hash rand s bm p = ComputeNextStakeModifier params Hash rand' s bm p"
  using ComputeNextStakeModifier_rand [OF assms(1,2), of rand rand'] assms(3,4) by blast

theorem stake_modifier_deterministic_witness:
  "ComputeNextStakeModifier CMainParams (\<lambda>b. b) (\<lambda>i. 0) stake_line stake_map 100 =
   ComputeNextStakeModifier CMainParams (\<lambda>b. b) (\<lambda>i. i - 1) stake_line stake_map 100"
proof -
  have "indexed stake_line stake_map 100" by (rule indexed_stake_line) simp
  then show ?thesis
    using stake_modifier_deterministic [OF wf_stake_line, of stake_map 100 "\<lambda>i. 0" "\<lambda>i. i - 1" CMainParams "\<lambda>b. b"] by simp
qed

text \<open>
  C36: the modifier of a kernel. The search returns on every well-formed chain. It fails exactly when the
  previous block is already too old or no proper ancestor with a modifier of its own is old enough, and otherwise it
  returns the modifier, height and time of the highest such ancestor.
\<close>

theorem kernel_modifier_choice:
  assumes "wf_store s"
  shows "\<exists>age. GetStakeModifierSelectionInterval params = Inr (nStakeMinAge params - age) \<and>
    (case GetKernelStakeModifier params s p nTimeTx of
       Inl e \<Rightarrow> e = Too_old \<and> GetBlockTime (s p) + age \<le> uint nTimeTx \<or>
         e = Reached_genesis \<and> GetBlockTime (s p) + age > uint nTimeTx \<and> (\<forall>a. \<not> aged_modifier s age (uint nTimeTx) p a)
     | Inr x \<Rightarrow> GetBlockTime (s p) + age > uint nTimeTx \<and>
         (\<exists>q. x = (nStakeModifier (s q), nHeight (s q), GetBlockTime (s q)) \<and> aged_modifier s age (uint nTimeTx) p q \<and>
            (\<forall>a. aged_modifier s age (uint nTimeTx) p a \<longrightarrow> height s a \<le> height s q)))"
  using GetKernelStakeModifier_spec [OF assms] by blast

lemma main_selection_interval: "GetStakeModifierSelectionInterval CMainParams = Inr 761920"
  unfolding GetStakeModifierSelectionInterval_def GetStakeModifierSelectionIntervalSection_def CMainParams_def
    MODIFIER_INTERVAL_RATIO_def ebind_def
  by code_simp

lemma stake_line_choice:
  assumes "GetStakeModifierSelectionInterval CMainParams = Inr (nStakeMinAge CMainParams - age)"
    and "case r of
       Inl e \<Rightarrow> e = Too_old \<and> GetBlockTime (stake_line 4000) + age \<le> uint (1210600 :: u32) \<or>
         e = Reached_genesis \<and> GetBlockTime (stake_line 4000) + age > uint (1210600 :: u32) \<and> (\<forall>a. \<not> aged_modifier stake_line age (uint (1210600 :: u32)) 4000 a)
     | Inr x \<Rightarrow> GetBlockTime (stake_line 4000) + age > uint (1210600 :: u32) \<and>
         (\<exists>q. x = (nStakeModifier (stake_line q), nHeight (stake_line q), GetBlockTime (stake_line q)) \<and>
            aged_modifier stake_line age (uint (1210600 :: u32)) 4000 q \<and>
            (\<forall>a. aged_modifier stake_line age (uint (1210600 :: u32)) 4000 a \<longrightarrow> height stake_line a \<le> height stake_line q))"
  shows "r = Inr (0, 0, 1000)"
proof -
  have age': "age = 447680" using assms(1) by (simp add: main_selection_interval) (simp add: CMainParams_def)
  have t: "GetBlockTime (stake_line 0) = 1000" "GetBlockTime (stake_line 4000) = 961000" "uint (1210600 :: u32) = 1210600"
    by (simp_all add: stake_line_fields, simp_all add: GetBlockTime_def pos_line_def)
  have m0: "nStakeModifier (stake_line 0) = 0" by (simp add: stake_line_def pos_line_def CBlockIndex_default_def)
  have am: "aged_modifier stake_line 447680 1210600 4000 a \<longleftrightarrow> a = 0" for a
    by (auto simp: aged_modifier_def stake_line_fields(4) stake_line_ancestor t(1))
  show ?thesis using assms(2) unfolding age' t am by (auto simp: stake_line_fields(1) t(1) m0 split: sum.splits)
qed

theorem kernel_modifier_choice_witness:
  "GetKernelStakeModifier CMainParams stake_line 4000 1210600 = Inr (0, 0, 1000)"
  using kernel_modifier_choice [OF wf_stake_line, of CMainParams 4000 1210600] stake_line_choice by blast

text \<open>
  C37: more stake never hurts. If a kernel meets its target, then the same kernel with a larger amount meets
  it too, with the same proof hash: neither the amount nor anything else of the coin enters the hash.
\<close>

theorem kernel_monotone_in_stake:
  assumes "CheckStakeKernelHash params Hash s nBits p blockFrom off txPrev out nTimeTx = Inr h"
    and "0 \<le> nValue (vout txPrev ! unat (op_n out))" "nValue (vout txPrev ! unat (op_n out)) \<le> v"
    and "tx_nTime txPrev \<le> hdr_nTime blockFrom" "nStakeMinAge params \<le> nStakeMaxAge params" "nBits AND 0x00800000 = 0"
  shows "CheckStakeKernelHash params Hash s nBits p blockFrom off
    (txPrev\<lparr>vout := (vout txPrev)[unat (op_n out) := (vout txPrev ! unat (op_n out))\<lparr>nValue := v\<rparr>]\<rparr>) out nTimeTx = Inr h"
proof -
  let ?t0 = "kernel_time txPrev (hdr_nTime blockFrom)" and ?tx = "txPrev\<lparr>vout := (vout txPrev)[unat (op_n out) := (vout txPrev ! unat (op_n out))\<lparr>nValue := v\<rparr>]\<rparr>"
  have k: "?t0 \<le> nTimeTx" "uint (hdr_nTime blockFrom) + nStakeMinAge params \<le> uint nTimeTx" "unat (op_n out) < length (vout txPrev)"
    "int (le_value h) \<le> kernel_weight params (nValue (vout txPrev ! unat (op_n out))) (uint nTimeTx - uint ?t0) * bn_SetCompact nBits"
    using assms(1) unfolding CheckStakeKernelHash_Inr Let_def by auto
  have "uint ?t0 \<le> uint (hdr_nTime blockFrom)" using assms(4) by (auto simp: kernel_time_def word_le_def)
  then have "kernel_weight params (nValue (vout txPrev ! unat (op_n out))) (uint nTimeTx - uint ?t0) \<le> kernel_weight params v (uint nTimeTx - uint ?t0)"
    using kernel_weight_mono [OF assms(2,3) _ order_refl assms(5), of "uint nTimeTx - uint ?t0"] k(2) by linarith
  then have "kernel_weight params (nValue (vout txPrev ! unat (op_n out))) (uint nTimeTx - uint ?t0) * bn_SetCompact nBits \<le>
      kernel_weight params v (uint nTimeTx - uint ?t0) * bn_SetCompact nBits"
    by (rule mult_right_mono) (rule bn_SetCompact_nonneg [OF assms(6)])
  with k(4) have "int (le_value h) \<le> kernel_weight params v (uint nTimeTx - uint ?t0) * bn_SetCompact nBits" by linarith
  moreover have "kernel_time ?tx b = kernel_time txPrev b" "nValue (vout ?tx ! unat (op_n out)) = v" for b
    using k(3) by (simp_all add: kernel_time_def)
  ultimately show ?thesis using assms(1) unfolding CheckStakeKernelHash_Inr Let_def by simp
qed

definition stake_tx :: "int \<Rightarrow> CTransaction" where
  "stake_tx v = \<lparr>vin = [], vout = [\<lparr>nValue = v, scriptPubKey = []\<rparr>], tx_nVersion = 3, tx_nTime = 0, nLockTime = 0\<rparr>"

definition stake_header :: CBlockHeader where
  "stake_header = \<lparr>hdr_nVersion = 4, hashPrevBlock = replicate 32 1, hashMerkleRoot = replicate 32 2, hdr_nTime = 0,
     hdr_nBits = 4, hdr_nNonce = 5, hdr_nFlags = 0\<rparr>"

lemma stake_kernel:
  "CheckStakeKernelHash CMainParams (\<lambda>_. 9 # replicate 31 0) stake_line 0x1c00ffff 4000 stake_header 80 (stake_tx (10000 * COIN))
     \<lparr>op_hash = replicate 32 3, op_n = 0\<rparr> 1210600 = Inr (9 # replicate 31 0)"
proof -
  have m: "GetKernelStakeModifier CMainParams stake_line 4000 1210600 = Inr (0, 0, 1000)"
    by (rule GetKernelStakeModifier_spec [OF wf_stake_line, of CMainParams 4000 1210600]) (rule stake_line_choice)
  have w: "kernel_weight CMainParams (10000 * COIN) 1210600 = 115"
    by (simp add: kernel_weight_def CMainParams_def COIN_def cdiv_nonneg)
  show ?thesis unfolding CheckStakeKernelHash_Inr using m
    by (simp add: stake_tx_def stake_header_def kernel_time_def w bn_pos_line) (simp add: CMainParams_def)
qed

theorem kernel_monotone_in_stake_witness:
  "CheckStakeKernelHash CMainParams (\<lambda>_. 9 # replicate 31 0) stake_line 0x1c00ffff 4000 stake_header 80 (stake_tx (20000 * COIN))
     \<lparr>op_hash = replicate 32 3, op_n = 0\<rparr> 1210600 = Inr (9 # replicate 31 0)"
  using kernel_monotone_in_stake [OF stake_kernel, of "20000 * COIN"]
  by (simp add: stake_tx_def stake_header_def COIN_def CMainParams_def)

text \<open>
  The version count is exact. \<^verbatim>\<open>HowSuperMajority\<close> returns the number of blocks of at least the given version
  among the last \<open>nToCheck\<close> proof-of-stake blocks, cut off at \<open>nRequired\<close>, and \<^verbatim>\<open>IsSuperMajority\<close> holds iff that number
  without the cut reaches \<open>nRequired\<close>.
\<close>

theorem super_majority_count:
  assumes "wf_store s"
  shows "let n = length (filter (\<lambda>q. sint (bi_nVersion (s q)) \<ge> minVersion) (take nToCheck (pos_chain s p)))
    in HowSuperMajority s minVersion (Some p) nRequired nToCheck = Some (min nRequired n) \<and>
       IsSuperMajority s minVersion (Some p) nRequired nToCheck = Some (nRequired \<le> n)"
  by (simp add: HowSuperMajority_count [OF assms] IsSuperMajority_def Let_def)

theorem super_majority_count_witness:
  "IsSuperMajority stake_line 0 (Some 3) 3 4 = Some True \<and> IsSuperMajority stake_line 1 (Some 3) 3 4 = Some False"
proof -
  have p: "pos_chain stake_line 3 = [3, 2, 1]"
    by (simp add: pos_chain_step [OF wf_stake_line] stake_line_fields, simp add: stake_line_def IsProofOfStake_def BLOCK_PROOF_OF_STAKE_def)
  have v: "sint (bi_nVersion (stake_line q)) = 0" for q by (simp add: stake_line_def pos_line_def CBlockIndex_default_def)
  show ?thesis
    using super_majority_count [OF wf_stake_line, of 0 4 3 3] super_majority_count [OF wf_stake_line, of 1 4 3 3]
    unfolding p v by simp
qed

end
