(* ===== verification/Standard.thy ===== *)
theory Standard
  imports Script
begin

text \<open>
  Standard output scripts, \<^verbatim>\<open>src/src/script/standard.h\<close> and \<^verbatim>\<open>src/src/script/standard.cpp\<close>: the recognition of the
  script templates, the destination of a script and the script of a destination. A public key is its bytes; the hash of
  public keys and scripts is a parameter.
\<close>

subsection \<open>Public key sizes\<close>

definition PUBKEY_SIZE :: nat where "PUBKEY_SIZE = 65"
definition PUBKEY_COMPRESSED_SIZE :: nat where "PUBKEY_COMPRESSED_SIZE = 33"

definition GetLen :: "u8 \<Rightarrow> nat" where
  "GetLen chHeader =
     (if chHeader = 2 \<or> chHeader = 3 then PUBKEY_COMPRESSED_SIZE
      else if chHeader = 4 \<or> chHeader = 6 \<or> chHeader = 7 then PUBKEY_SIZE
      else 0)"

definition ValidSize :: "bytes \<Rightarrow> bool" where
  "ValidSize vch \<longleftrightarrow> length vch > 0 \<and> GetLen (vch ! 0) = length vch"

subsection \<open>Templates\<close>

datatype TxoutType = NONSTANDARD | PUBKEY | PUBKEYHASH | SCRIPTHASH | MULTISIG | NULL_DATA | WITNESS_V0_SCRIPTHASH |
  WITNESS_V0_KEYHASH | WITNESS_V1_TAPROOT | WITNESS_UNKNOWN

definition GetTxnOutputType :: "TxoutType \<Rightarrow> string" where
  "GetTxnOutputType t =
     (case t of NONSTANDARD \<Rightarrow> ''nonstandard'' | PUBKEY \<Rightarrow> ''pubkey'' | PUBKEYHASH \<Rightarrow> ''pubkeyhash''
      | SCRIPTHASH \<Rightarrow> ''scripthash'' | MULTISIG \<Rightarrow> ''multisig'' | NULL_DATA \<Rightarrow> ''nulldata''
      | WITNESS_V0_KEYHASH \<Rightarrow> ''witness_v0_keyhash'' | WITNESS_V0_SCRIPTHASH \<Rightarrow> ''witness_v0_scripthash''
      | WITNESS_V1_TAPROOT \<Rightarrow> ''witness_v1_taproot'' | WITNESS_UNKNOWN \<Rightarrow> ''witness_unknown'')"

text \<open>A match returns what it extracts, \<^term>\<open>None\<close> is the result \<^verbatim>\<open>false\<close>.\<close>

definition MatchPayToPubkey :: "CScript \<Rightarrow> bytes option" where
  "MatchPayToPubkey script =
     (if length script = PUBKEY_SIZE + 2 \<and> unat (script ! 0) = PUBKEY_SIZE \<and> last script = OP_CHECKSIG
      then let pubkey = take PUBKEY_SIZE (drop 1 script) in if ValidSize pubkey then Some pubkey else None
      else if length script = PUBKEY_COMPRESSED_SIZE + 2 \<and> unat (script ! 0) = PUBKEY_COMPRESSED_SIZE \<and> last script = OP_CHECKSIG
      then let pubkey = take PUBKEY_COMPRESSED_SIZE (drop 1 script) in if ValidSize pubkey then Some pubkey else None
      else None)"

definition MatchPayToPubkeyHash :: "CScript \<Rightarrow> bytes option" where
  "MatchPayToPubkeyHash script =
     (if length script = 25 \<and> script ! 0 = OP_DUP \<and> script ! 1 = OP_HASH160 \<and> script ! 2 = 20 \<and>
         script ! 23 = OP_EQUALVERIFY \<and> script ! 24 = OP_CHECKSIG
      then Some (take 20 (drop 3 script)) else None)"

definition IsSmallInteger :: "opcodetype \<Rightarrow> bool" where
  "IsSmallInteger opcode \<longleftrightarrow> opcode \<ge> OP_1 \<and> opcode \<le> OP_16"

definition IsPushdataOp :: "opcodetype \<Rightarrow> bool" where
  "IsPushdataOp opcode \<longleftrightarrow> opcode > OP_FALSE \<and> opcode \<le> OP_PUSHDATA4"

definition IsValidMultisigKeyCount :: "int \<Rightarrow> bool" where
  "IsValidMultisigKeyCount n_keys \<longleftrightarrow> n_keys > 0 \<and> n_keys \<le> int MAX_PUBKEYS_PER_MULTISIG"

definition CheckMinimalPush :: "bytes \<Rightarrow> opcodetype \<Rightarrow> bool" where
  "CheckMinimalPush data opcode =
     (if length data = 0 then opcode = OP_0
      else if length data = 1 \<and> data ! 0 \<ge> 1 \<and> data ! 0 \<le> 16 then False
      else if length data = 1 \<and> data ! 0 = 0x81 then False
      else if length data \<le> 75 then unat opcode = length data
      else if length data \<le> 255 then opcode = OP_PUSHDATA1
      else if length data \<le> 65535 then opcode = OP_PUSHDATA2
      else True)"

definition GetMultisigKeyCount :: "opcodetype \<Rightarrow> bytes \<Rightarrow> int option" where
  "GetMultisigKeyCount opcode data =
     (if IsSmallInteger opcode
      then let n = int (the (DecodeOP_N opcode)) in if IsValidMultisigKeyCount n then Some n else None
      else if IsPushdataOp opcode
      then if \<not> CheckMinimalPush data opcode then None
           else case CScriptNum data True 4 of
                  Inr v \<Rightarrow> if IsValidMultisigKeyCount (getint v) then Some (getint v) else None
                | Inl _ \<Rightarrow> None
      else None)"

text \<open>
  The loop that collects the keys returns the keys, the opcode and the data of the instruction that ended it, and the position
  behind that instruction. A failed \<^verbatim>\<open>GetOp\<close> leaves \<^verbatim>\<open>OP_INVALIDOPCODE\<close> and no data.
\<close>

function multisig_keys :: "bytes \<Rightarrow> bytes list \<Rightarrow> bytes list \<times> opcodetype \<times> bytes \<times> bytes" where
  "multisig_keys it pubkeys =
     (case GetScriptOp it of None \<Rightarrow> (pubkeys, OP_INVALIDOPCODE, [], it)
      | Some (opcode, data, it') \<Rightarrow>
          if ValidSize data then multisig_keys it' (pubkeys @ [data]) else (pubkeys, opcode, data, it'))"
  by pat_completeness auto
termination by (relation "measure (\<lambda>(it, k). length it)") (auto dest: GetScriptOp_less)

declare multisig_keys.simps [simp del]

definition MatchMultisig :: "CScript \<Rightarrow> (int \<times> bytes list) option" where
  "MatchMultisig script =
     (if length script < 1 \<or> last script \<noteq> OP_CHECKMULTISIG then None
      else case GetScriptOp script of None \<Rightarrow> None
           | Some (opcode, data, it) \<Rightarrow>
               (case GetMultisigKeyCount opcode data of None \<Rightarrow> None
                | Some required_sigs \<Rightarrow>
                    let (pubkeys, opcode, data, it) = multisig_keys it [] in
                    case GetMultisigKeyCount opcode data of None \<Rightarrow> None
                    | Some num_keys \<Rightarrow>
                        if int (length pubkeys) \<noteq> num_keys \<or> num_keys < required_sigs then None
                        else if length it = 1 then Some (required_sigs, pubkeys) else None))"

definition WITNESS_V0_SCRIPTHASH_SIZE :: nat where "WITNESS_V0_SCRIPTHASH_SIZE = 32"
definition WITNESS_V0_KEYHASH_SIZE :: nat where "WITNESS_V0_KEYHASH_SIZE = 20"
definition WITNESS_V1_TAPROOT_SIZE :: nat where "WITNESS_V1_TAPROOT_SIZE = 32"

definition Solver :: "CScript \<Rightarrow> TxoutType \<times> bytes list" where
  "Solver scriptPubKey =
     (if IsPayToScriptHash scriptPubKey then (SCRIPTHASH, [take 20 (drop 2 scriptPubKey)])
      else case IsWitnessProgram scriptPubKey of
        Some (witnessversion, witnessprogram) \<Rightarrow>
          if witnessversion = 0 \<and> length witnessprogram = WITNESS_V0_KEYHASH_SIZE then (WITNESS_V0_KEYHASH, [witnessprogram])
          else if witnessversion = 0 \<and> length witnessprogram = WITNESS_V0_SCRIPTHASH_SIZE then (WITNESS_V0_SCRIPTHASH, [witnessprogram])
          else if witnessversion = 1 \<and> length witnessprogram = WITNESS_V1_TAPROOT_SIZE then (WITNESS_V1_TAPROOT, [witnessprogram])
          else if witnessversion \<noteq> 0 then (WITNESS_UNKNOWN, [[word_of_nat witnessversion], witnessprogram])
          else (NONSTANDARD, [])
      | None \<Rightarrow>
          if length scriptPubKey \<ge> 1 \<and> scriptPubKey ! 0 = OP_RETURN \<and> IsPushOnly (drop 1 scriptPubKey) then (NULL_DATA, [])
          else case MatchPayToPubkey scriptPubKey of Some data \<Rightarrow> (PUBKEY, [data])
          | None \<Rightarrow>
            (case MatchPayToPubkeyHash scriptPubKey of Some data \<Rightarrow> (PUBKEYHASH, [data])
             | None \<Rightarrow>
               (case MatchMultisig scriptPubKey of
                  Some (required, keys) \<Rightarrow> (MULTISIG, [word_of_int required] # keys @ [[word_of_nat (length keys)]])
                | None \<Rightarrow> (NONSTANDARD, []))))"

subsection \<open>Destinations\<close>

datatype CTxDestination = CNoDestination | PKHash bytes | ScriptHash bytes | WitnessV0ScriptHash bytes | WitnessV0KeyHash bytes |
  WitnessV1Taproot bytes | WitnessUnknown nat bytes

definition ExtractDestination :: "(bytes \<Rightarrow> bytes) \<Rightarrow> CScript \<Rightarrow> CTxDestination option" where
  "ExtractDestination Hash160 scriptPubKey =
     (let (whichType, vSolutions) = Solver scriptPubKey in
      case whichType of
        PUBKEY \<Rightarrow> if \<not> ValidSize (vSolutions ! 0) then None else Some (PKHash (Hash160 (vSolutions ! 0)))
      | PUBKEYHASH \<Rightarrow> Some (PKHash (vSolutions ! 0))
      | SCRIPTHASH \<Rightarrow> Some (ScriptHash (vSolutions ! 0))
      | WITNESS_V0_KEYHASH \<Rightarrow> Some (WitnessV0KeyHash (vSolutions ! 0))
      | WITNESS_V0_SCRIPTHASH \<Rightarrow> Some (WitnessV0ScriptHash (vSolutions ! 0))
      | WITNESS_V1_TAPROOT \<Rightarrow> Some (WitnessV1Taproot (vSolutions ! 0))
      | WITNESS_UNKNOWN \<Rightarrow> Some (WitnessUnknown (unat (vSolutions ! 0 ! 0)) (vSolutions ! 1))
      | _ \<Rightarrow> None)"

text \<open>\<^term>\<open>None\<close> is the failed assertion of \<^verbatim>\<open>EncodeOP_N\<close>.\<close>

definition GetScriptForDestination :: "CTxDestination \<Rightarrow> CScript option" where
  "GetScriptForDestination dest =
     (case dest of
        CNoDestination \<Rightarrow> Some []
      | PKHash keyID \<Rightarrow> Some ([OP_DUP, OP_HASH160] @ push_data keyID @ [OP_EQUALVERIFY, OP_CHECKSIG])
      | ScriptHash scriptID \<Rightarrow> Some ([OP_HASH160] @ push_data scriptID @ [OP_EQUAL])
      | WitnessV0KeyHash i \<Rightarrow> Some ([OP_0] @ push_data i)
      | WitnessV0ScriptHash i \<Rightarrow> Some ([OP_0] @ push_data i)
      | WitnessV1Taproot tap \<Rightarrow> Some ([OP_1] @ push_data tap)
      | WitnessUnknown version program \<Rightarrow> map_option (\<lambda>opcode. [opcode] @ push_data program) (EncodeOP_N version))"

definition GetScriptForRawPubKey :: "bytes \<Rightarrow> CScript" where
  "GetScriptForRawPubKey pubKey = push_data pubKey @ [OP_CHECKSIG]"

definition GetScriptForMultisig :: "int \<Rightarrow> bytes list \<Rightarrow> CScript" where
  "GetScriptForMultisig nRequired keys =
     push_int64 nRequired @ concat (map push_data keys) @ push_int64 (int (length keys)) @ [OP_CHECKMULTISIG]"

definition IsValidDestination :: "CTxDestination \<Rightarrow> bool" where
  "IsValidDestination dest \<longleftrightarrow> dest \<noteq> CNoDestination"

subsection \<open>The shapes the templates match\<close>

lemma split_three: "s = take a s @ take b (drop a s) @ drop (a + b) s"
  by (metis append_take_drop_id drop_drop add.commute)

lemma take_one: "0 < length s \<Longrightarrow> take (Suc 0) s = [s ! 0]"
  by (cases s) auto

lemma take_two: "1 < length s \<Longrightarrow> take 2 s = [s ! 0, s ! 1]"
  by (cases s; cases "tl s") (auto simp: numeral_2_eq_2)

lemma take_three: "2 < length s \<Longrightarrow> take 3 s = [s ! 0, s ! 1, s ! 2]"
  by (cases s; cases "tl s"; cases "tl (tl s)") (auto simp: numeral_3_eq_3 numeral_2_eq_2)

lemma drop_last: "length s = Suc n \<Longrightarrow> drop n s = [s ! n]"
  by (simp add: Cons_nth_drop_Suc [symmetric])

lemma drop_last_two: "length s = Suc (Suc n) \<Longrightarrow> drop n s = [s ! n, s ! Suc n]"
  by (simp add: Cons_nth_drop_Suc [symmetric])

lemma push_data_short: "length b < 76 \<Longrightarrow> push_data b = word_of_nat (length b) # b"
  by (simp add: push_data_def)

lemma IsPayToScriptHash_iff:
  "IsPayToScriptHash s \<longleftrightarrow> (\<exists>h. length h = 20 \<and> s = OP_HASH160 # push_data h @ [OP_EQUAL])"
proof
  assume a: "IsPayToScriptHash s"
  then have s: "s = take 2 s @ take 20 (drop 2 s) @ drop (2 + 20) s" using split_three by blast
  have "take 2 s = [OP_HASH160, 20]" "drop 22 s = [OP_EQUAL]"
    using a by (simp_all add: IsPayToScriptHash_def take_two drop_last)
  then have "s = OP_HASH160 # push_data (take 20 (drop 2 s)) @ [OP_EQUAL]"
    using s a by (simp add: push_data_short IsPayToScriptHash_def)
  then show "\<exists>h. length h = 20 \<and> s = OP_HASH160 # push_data h @ [OP_EQUAL]"
    using a by (intro exI [of _ "take 20 (drop 2 s)"]) (simp add: IsPayToScriptHash_def)
next
  assume "\<exists>h. length h = 20 \<and> s = OP_HASH160 # push_data h @ [OP_EQUAL]"
  then show "IsPayToScriptHash s" by (auto simp: IsPayToScriptHash_def push_data_short nth_append)
qed

lemma MatchPayToPubkeyHash_iff:
  "MatchPayToPubkeyHash s = Some h \<longleftrightarrow> length h = 20 \<and> s = [OP_DUP, OP_HASH160] @ push_data h @ [OP_EQUALVERIFY, OP_CHECKSIG]"
proof
  assume a: "MatchPayToPubkeyHash s = Some h"
  then have f: "length s = 25" "take 3 s = [OP_DUP, OP_HASH160, 20]" "drop 23 s = [OP_EQUALVERIFY, OP_CHECKSIG]" "h = take 20 (drop 3 s)"
    by (auto simp: MatchPayToPubkeyHash_def take_three drop_last_two split: if_splits)
  have "s = take 3 s @ take 20 (drop 3 s) @ drop (3 + 20) s" by (rule split_three)
  then show "length h = 20 \<and> s = [OP_DUP, OP_HASH160] @ push_data h @ [OP_EQUALVERIFY, OP_CHECKSIG]"
    using f by (simp add: push_data_short)
next
  assume "length h = 20 \<and> s = [OP_DUP, OP_HASH160] @ push_data h @ [OP_EQUALVERIFY, OP_CHECKSIG]"
  then show "MatchPayToPubkeyHash s = Some h"
    by (auto simp: MatchPayToPubkeyHash_def push_data_short nth_append)
qed

lemma ValidSize_length: "ValidSize k \<Longrightarrow> length k = 33 \<or> length k = 65"
  by (auto simp: ValidSize_def GetLen_def PUBKEY_SIZE_def PUBKEY_COMPRESSED_SIZE_def split: if_splits)

lemma pubkey_push:
  assumes "length s = n + 2" "unat (s ! 0) = n" "last s = OP_CHECKSIG" "n < 76"
  shows "s = push_data (take n (drop 1 s)) @ [OP_CHECKSIG]"
proof -
  have "s = take 1 s @ take n (drop 1 s) @ drop (1 + n) s" by (rule split_three)
  moreover have "drop (1 + n) s = [OP_CHECKSIG]"
    using assms(1,3) by (simp add: drop_last last_conv_nth) (metis Suc_eq_plus1 add_2_eq_Suc' diff_Suc_1 last_conv_nth list.size(3) nat.distinct(1))
  moreover have "take 1 s = [word_of_nat n]" using assms(1) by (simp add: take_one assms(2) [symmetric])
  ultimately show ?thesis using assms(1,4) by (simp add: push_data_short)
qed

lemma MatchPayToPubkey_iff: "MatchPayToPubkey s = Some k \<longleftrightarrow> ValidSize k \<and> s = GetScriptForRawPubKey k"
proof
  assume "MatchPayToPubkey s = Some k"
  then show "ValidSize k \<and> s = GetScriptForRawPubKey k"
    using pubkey_push [of s 65] pubkey_push [of s 33]
    by (auto simp: MatchPayToPubkey_def GetScriptForRawPubKey_def Let_def PUBKEY_SIZE_def PUBKEY_COMPRESSED_SIZE_def split: if_splits)
next
  assume "ValidSize k \<and> s = GetScriptForRawPubKey k"
  then show "MatchPayToPubkey s = Some k"
    using ValidSize_length [of k]
    by (auto simp: MatchPayToPubkey_def GetScriptForRawPubKey_def push_data_short PUBKEY_SIZE_def PUBKEY_COMPRESSED_SIZE_def)
qed

subsection \<open>Scripts and destinations\<close>

definition dest_ok :: "CTxDestination \<Rightarrow> bool" where
  "dest_ok d =
     (case d of CNoDestination \<Rightarrow> False
      | PKHash h \<Rightarrow> length h = 20 | ScriptHash h \<Rightarrow> length h = 20
      | WitnessV0KeyHash h \<Rightarrow> length h = 20 | WitnessV0ScriptHash h \<Rightarrow> length h = 32 | WitnessV1Taproot h \<Rightarrow> length h = 32
      | WitnessUnknown v p \<Rightarrow> v \<in> {1..16} \<and> length p \<in> {2..40} \<and> (v = 1 \<longrightarrow> length p \<noteq> 32))"

lemma IsWitnessProgram_head:
  assumes "IsWitnessProgram (x # s) = Some vp"
  shows "x = 0 \<or> 81 \<le> unat x \<and> unat x \<le> 96"
  using assms by (auto simp: IsWitnessProgram_def word_less_nat_alt word_le_nat_alt not_less split: if_splits)

lemma EncodeOP_N_facts:
  "EncodeOP_N 0 = Some OP_0" "EncodeOP_N 1 = Some OP_1"
  by (simp_all add: EncodeOP_N_def)

lemma IsWitnessProgram_dest: "\<lbrakk>EncodeOP_N v = Some opcode; 2 \<le> length p; length p \<le> 40\<rbrakk> \<Longrightarrow> IsWitnessProgram (opcode # push_data p) = Some (v, p)"
  using IsWitnessProgram_iff by blast

lemma not_P2SH_witness: "IsWitnessProgram s = Some vp \<Longrightarrow> \<not> IsPayToScriptHash s"
  by (cases s) (auto simp: IsPayToScriptHash_def dest: IsWitnessProgram_head)

lemma not_witness_head: "\<lbrakk>x \<noteq> 0; unat x < 81 \<or> 96 < unat x\<rbrakk> \<Longrightarrow> IsWitnessProgram (x # s) = None"
  using IsWitnessProgram_head [of x s] by (cases "IsWitnessProgram (x # s)") auto

lemma Solver_P2SH: "length h = 20 \<Longrightarrow> Solver (OP_HASH160 # push_data h @ [OP_EQUAL]) = (SCRIPTHASH, [h])"
  using IsPayToScriptHash_iff [of "OP_HASH160 # push_data h @ [OP_EQUAL]"] by (auto simp: Solver_def push_data_short)

lemma Solver_P2PKH: "length h = 20 \<Longrightarrow> Solver ([OP_DUP, OP_HASH160] @ push_data h @ [OP_EQUALVERIFY, OP_CHECKSIG]) = (PUBKEYHASH, [h])"
  using MatchPayToPubkeyHash_iff [of "[OP_DUP, OP_HASH160] @ push_data h @ [OP_EQUALVERIFY, OP_CHECKSIG]" h]
  by (simp add: Solver_def IsPayToScriptHash_def not_witness_head MatchPayToPubkey_def PUBKEY_SIZE_def PUBKEY_COMPRESSED_SIZE_def)

lemma Solver_P2PK: "ValidSize k \<Longrightarrow> Solver (GetScriptForRawPubKey k) = (PUBKEY, [k])"
  using MatchPayToPubkey_iff [of "GetScriptForRawPubKey k" k] ValidSize_length [of k]
  by (auto simp: Solver_def GetScriptForRawPubKey_def push_data_short IsPayToScriptHash_def not_witness_head)

lemma Solver_witness:
  assumes "EncodeOP_N v = Some opcode" "2 \<le> length p" "length p \<le> 40"
  shows "Solver (opcode # push_data p) =
    (if v = 0 then if length p = 20 then (WITNESS_V0_KEYHASH, [p]) else if length p = 32 then (WITNESS_V0_SCRIPTHASH, [p]) else (NONSTANDARD, [])
     else if v = 1 \<and> length p = 32 then (WITNESS_V1_TAPROOT, [p]) else (WITNESS_UNKNOWN, [[word_of_nat v], p]))"
  using IsWitnessProgram_dest [OF assms] not_P2SH_witness [OF IsWitnessProgram_dest [OF assms]]
  by (simp add: Solver_def WITNESS_V0_KEYHASH_SIZE_def WITNESS_V0_SCRIPTHASH_SIZE_def WITNESS_V1_TAPROOT_SIZE_def)

lemma ExtractDestination_script:
  assumes "dest_ok d"
  shows "\<exists>s. GetScriptForDestination d = Some s \<and> ExtractDestination Hash160 s = Some d"
proof (cases d)
  case (WitnessUnknown v p)
  then have "EncodeOP_N v = Some (OP_1 + word_of_nat v - 1)" using assms by (auto simp: dest_ok_def EncodeOP_N_def)
  moreover have "unat (word_of_nat v :: u8) = v" using assms WitnessUnknown by (intro unat_word_of_nat) (auto simp: dest_ok_def)
  ultimately show ?thesis
    using assms WitnessUnknown Solver_witness [of v "OP_1 + word_of_nat v - 1" p]
    by (auto simp: dest_ok_def GetScriptForDestination_def ExtractDestination_def)
qed (use assms Solver_P2PKH Solver_P2SH Solver_witness [OF EncodeOP_N_facts(1)] Solver_witness [OF EncodeOP_N_facts(2)] in
  \<open>auto simp: dest_ok_def GetScriptForDestination_def ExtractDestination_def\<close>)

lemma ExtractDestination_shape:
  assumes "ExtractDestination Hash160 s = Some d"
  shows "dest_ok d \<and> GetScriptForDestination d = Some s \<or> (\<exists>k. ValidSize k \<and> s = GetScriptForRawPubKey k \<and> d = PKHash (Hash160 k))"
proof -
  consider (p2sh) h where "length h = 20" "s = OP_HASH160 # push_data h @ [OP_EQUAL]"
    | (witness) v opcode p where "EncodeOP_N v = Some opcode" "2 \<le> length p" "length p \<le> 40" "s = opcode # push_data p"
    | (other) "\<not> IsPayToScriptHash s" "IsWitnessProgram s = None"
  proof (cases "IsWitnessProgram s")
    case None
    then show ?thesis using p2sh other IsPayToScriptHash_iff [of s] by blast
  next
    case (Some vp)
    then show ?thesis using witness IsWitnessProgram_iff [of s "fst vp" "snd vp"] by auto
  qed
  then show ?thesis
  proof cases
    case p2sh
    then show ?thesis using assms by (auto simp: ExtractDestination_def Solver_P2SH dest_ok_def GetScriptForDestination_def)
  next
    case witness
    moreover have "v \<le> 16" using witness(1) by (simp add: EncodeOP_N_def split: if_splits)
    moreover then have "unat (word_of_nat v :: u8) = v" by (intro unat_word_of_nat) simp
    ultimately show ?thesis using assms EncodeOP_N_facts
      by (auto simp: ExtractDestination_def Solver_witness [OF witness(1-3)] dest_ok_def GetScriptForDestination_def split: if_splits)
  next
    case other
    then show ?thesis
      using assms
      by (auto simp: ExtractDestination_def Solver_def dest_ok_def GetScriptForDestination_def
        dest!: MatchPayToPubkey_iff [THEN iffD1] MatchPayToPubkeyHash_iff [THEN iffD1] split: if_splits option.splits)
  qed
qed

subsection \<open>Multisignature scripts\<close>

lemma small_counts:
  "list_all (\<lambda>n. push_int64 n = [word_of_int (n + 80)] \<and> GetMultisigKeyCount (word_of_int (n + 80)) [] = Some n \<and> OP_PUSHDATA4 < word_of_int (n + 80) \<and> (word_of_int (n + 80) :: u8) \<noteq> OP_RETURN) [1..16]"
  by code_simp

lemma pushed_counts:
  "list_all (\<lambda>n. push_int64 n = [1, word_of_int n] \<and> GetMultisigKeyCount 1 [word_of_int n] = Some n \<and> \<not> ValidSize [word_of_int n]) [17..20]"
  by code_simp

lemma multisig_count_push:
  assumes "1 \<le> n" "n \<le> 20"
  shows "\<exists>opcode data. (\<forall>rest. GetScriptOp (push_int64 n @ rest) = Some (opcode, data, rest)) \<and> GetMultisigKeyCount opcode data = Some n \<and> \<not> ValidSize data"
proof (cases "n \<le> 16")
  case True
  then have "n \<in> set [1..16]" using assms unfolding set_upto atLeastAtMost_iff by linarith
  from bspec [OF small_counts [unfolded list_all_iff] this] have "push_int64 n = [word_of_int (n + 80)]" "GetMultisigKeyCount (word_of_int (n + 80)) [] = Some n" "OP_PUSHDATA4 < word_of_int (n + 80)"
    by blast+
  then show ?thesis using GetScriptOp_nonpush by (intro exI [of _ "word_of_int (n + 80)"] exI [of _ "[]"]) (simp add: ValidSize_def)
next
  case False
  then have "n \<in> set [17..20]" using assms unfolding set_upto atLeastAtMost_iff by linarith
  from bspec [OF pushed_counts [unfolded list_all_iff] this] have "push_int64 n = [1, word_of_int n]" "GetMultisigKeyCount 1 [word_of_int n] = Some n" "\<not> ValidSize [word_of_int n]"
    by blast+
  then show ?thesis by (intro exI [of _ 1] exI [of _ "[word_of_int n]"]) (simp add: GetScriptOp_def read_push_size_def)
qed

lemma multisig_keys_pushes:
  assumes "\<forall>k \<in> set keys. ValidSize k" "GetScriptOp rest = Some (opcode, data, it)" "\<not> ValidSize data"
  shows "multisig_keys (concat (map push_data keys) @ rest) acc = (acc @ keys, opcode, data, it)"
  using assms(1)
proof (induction keys arbitrary: acc)
  case Nil
  then show ?case using assms by (simp add: multisig_keys.simps)
next
  case (Cons k keys)
  then have "length k < 2 ^ 32" using ValidSize_length [of k] by auto
  then obtain opc where "GetScriptOp (push_data k @ concat (map push_data keys) @ rest) = Some (opc, k, concat (map push_data keys) @ rest)"
    using GetScriptOp_push_data by blast
  then show ?case using Cons by (subst multisig_keys.simps) simp
qed

lemma MatchMultisig_script:
  assumes "1 \<le> m" "m \<le> int (length keys)" "length keys \<le> 20" "\<forall>k \<in> set keys. ValidSize k"
  shows "MatchMultisig (GetScriptForMultisig m keys) = Some (m, keys)"
proof -
  obtain op1 d1 where 1: "\<forall>rest. GetScriptOp (push_int64 m @ rest) = Some (op1, d1, rest)" "GetMultisigKeyCount op1 d1 = Some m"
    using assms multisig_count_push [of m] by auto
  obtain op2 d2 where 2: "\<forall>rest. GetScriptOp (push_int64 (int (length keys)) @ rest) = Some (op2, d2, rest)"
    "GetMultisigKeyCount op2 d2 = Some (int (length keys))" "\<not> ValidSize d2"
    using assms multisig_count_push [of "int (length keys)"] by auto
  show ?thesis
    using assms 1(2) 2(2) multisig_keys_pushes [OF assms(4) 2(1) [rule_format] 2(3), of "[OP_CHECKMULTISIG]" "[]"]
    by (simp add: MatchMultisig_def GetScriptForMultisig_def 1(1))
qed

lemma push_int64_head: "\<lbrakk>1 \<le> n; n \<le> 20\<rbrakk> \<Longrightarrow> (\<exists>v. push_int64 n = [v] \<and> v \<noteq> OP_RETURN) \<or> push_int64 n = [1, word_of_int n]"
proof (cases "n \<le> 16")
  case True
  assume "1 \<le> n"
  then have "n \<in> set [1..16]" using True unfolding set_upto atLeastAtMost_iff by linarith
  note all = bspec [OF small_counts [unfolded list_all_iff] this]
  then have "push_int64 n = [word_of_int (n + 80)]" by (elim conjE)
  moreover from all have "(word_of_int (n + 80) :: u8) \<noteq> OP_RETURN" by (elim conjE)
  ultimately show ?thesis by (intro disjI1 exI [of _ "word_of_int (n + 80)"] conjI)
next
  case False
  assume "n \<le> 20"
  then have "n \<in> set [17..20]" using False unfolding set_upto atLeastAtMost_iff by linarith
  from bspec [OF pushed_counts [unfolded list_all_iff] this] have "push_int64 n = [1, word_of_int n]" by blast
  then show ?thesis by (rule disjI2)
qed

lemma Solver_multisig:
  assumes "1 \<le> m" "m \<le> int (length keys)" "length keys \<le> 20" "\<forall>k \<in> set keys. ValidSize k"
  shows "Solver (GetScriptForMultisig m keys) = (MULTISIG, [word_of_int m] # keys @ [[word_of_nat (length keys)]])"
proof -
  let ?s = "GetScriptForMultisig m keys"
  have last: "last ?s = OP_CHECKMULTISIG" "?s \<noteq> []" by (simp_all add: GetScriptForMultisig_def)
  have at: "?s ! n = OP_CHECKMULTISIG" if "length ?s = Suc n" for n using last that by (simp add: last_conv_nth)
  obtain k ks where keys: "keys = k # ks" using assms by (cases keys) auto
  have k: "length k = 33 \<or> length k = 65" using assms(4) keys ValidSize_length by simp
  have "1 \<le> m" "m \<le> 20" using assms by auto
  from push_int64_head [OF this]
  have w: "IsWitnessProgram ?s = None \<and> ?s ! 0 \<noteq> OP_RETURN"
  proof
    assume "\<exists>v. push_int64 m = [v] \<and> v \<noteq> OP_RETURN"
    then obtain v where "push_int64 m = [v]" "v \<noteq> OP_RETURN" by blast
    then show ?thesis using k by (auto simp: GetScriptForMultisig_def keys IsWitnessProgram_def push_data_short)
  next
    assume "push_int64 m = [1, word_of_int m]"
    then show ?thesis by (simp add: GetScriptForMultisig_def not_witness_head)
  qed
  moreover have "\<not> IsPayToScriptHash ?s" using at [of 22] by (auto simp: IsPayToScriptHash_def)
  moreover have "MatchPayToPubkey ?s = None" using last by (simp add: MatchPayToPubkey_def)
  moreover have "MatchPayToPubkeyHash ?s = None" using at [of 24] by (auto simp: MatchPayToPubkeyHash_def)
  ultimately show ?thesis using MatchMultisig_script [OF assms] by (simp add: Solver_def)
qed

subsection \<open>Properties\<close>

text \<open>
  C18: Scripts and addresses correspond. A script pays to a destination exactly if it is the script of that well-formed destination
  or a pay-to-public-key script whose key hashes to it; so addresses and their scripts determine each other.
\<close>

theorem standard_destinations:
  "ExtractDestination Hash160 s = Some d \<longleftrightarrow>
     dest_ok d \<and> GetScriptForDestination d = Some s \<or> (\<exists>k. ValidSize k \<and> s = GetScriptForRawPubKey k \<and> d = PKHash (Hash160 k))"
proof
  assume "dest_ok d \<and> GetScriptForDestination d = Some s \<or> (\<exists>k. ValidSize k \<and> s = GetScriptForRawPubKey k \<and> d = PKHash (Hash160 k))"
  then show "ExtractDestination Hash160 s = Some d"
    using ExtractDestination_script [of d Hash160] Solver_P2PK by (auto simp: ExtractDestination_def)
qed (rule ExtractDestination_shape)

text \<open>
  The multisignature script of one to twenty keys is recognised as such, with the number of signatures, the keys in order and
  their number, also where the numbers exceed sixteen and are pushed as data.
\<close>

theorem multisig_solved:
  assumes "1 \<le> m" "m \<le> int (length keys)" "length keys \<le> 20" "\<forall>k \<in> set keys. ValidSize k"
  shows "Solver (GetScriptForMultisig m keys) = (MULTISIG, [word_of_int m] # keys @ [[word_of_nat (length keys)]])"
  by (rule Solver_multisig [OF assms])

theorem multisig_solved_witness:
  "Solver (GetScriptForMultisig 17 (replicate 18 (2 # replicate 32 7))) = (MULTISIG, [17] # replicate 18 (2 # replicate 32 7) @ [[18]])"
  using multisig_solved [of 17 "replicate 18 (2 # replicate 32 7)"]
  by (simp add: ValidSize_def GetLen_def PUBKEY_COMPRESSED_SIZE_def)

end
