(* ===== verification/Check_Block.thy ===== *)
theory Check_Block
  imports Tx_Verify Kernel Standard
begin

text \<open>
  Checks of blocks and headers that do not need the coins, \<^verbatim>\<open>src/src/validation.cpp\<close>: the block reward, the block signature,
  \<^verbatim>\<open>CheckBlock\<close>, the contextual checks of headers and blocks, and the witness commitment of a new block. What a node is
  configured with and the code it calls outside the sources are the fields of a record: chain parameters, hash functions,
  the check of signatures and scripts, random numbers and the transaction index.
\<close>

subsection \<open>Configuration and errors\<close>

record node_env =
  ep_params :: Consensus_Params
  ep_net :: network
  hashGenesisBlock :: uint256
  BIP16Exception :: uint256
  BIP34Height :: int
  BIP34Hash :: uint256
  signet_blocks :: bool
  ep_Hash :: "bytes \<Rightarrow> uint256"
  ep_sph :: "int \<Rightarrow> bytes \<Rightarrow> bytes"
  ep_cn :: "int \<Rightarrow> bytes \<Rightarrow> bytes"
  ep_txindex :: "txindex option"
  ep_VerifyScript :: "CTransaction \<Rightarrow> nat \<Rightarrow> CTxOut \<Rightarrow> u32 \<Rightarrow> bool"
  ep_rand :: "nat \<Rightarrow> nat"
  CheckSignetBlockSolution :: "CBlock \<Rightarrow> bool"
  ep_Verify :: "bytes \<Rightarrow> uint256 \<Rightarrow> bytes \<Rightarrow> bool"

datatype BlockValidationResult = BLOCK_RESULT_UNSET | BLOCK_CONSENSUS | BLOCK_RECENT_CONSENSUS_CHANGE | BLOCK_CACHED_INVALID |
  BLOCK_INVALID_HEADER | BLOCK_MUTATED | BLOCK_MISSING_PREV | BLOCK_INVALID_PREV | BLOCK_TIME_FUTURE | BLOCK_CHECKPOINT

text \<open>
  The failures: an invalid block with its reason, errors and exceptions of the called functions, a duplicate stake (with the block
  invalidated or not), another \<^verbatim>\<open>return error\<close>, a failed assertion, an aborted node, and an undefined shift.
\<close>

datatype block_error = Blk_invalid BlockValidationResult string | Blk_tx tx_error | Blk_coins coins_error | Blk_stake stake_error |
  Blk_kernel kernel_error | Blk_pow pow_error | Duplicate_stake bool | Blk_error string | Blk_assert | Blk_abort | Undefined_shift

definition MAX_BLOCK_SIGOPS_COST :: int where "MAX_BLOCK_SIGOPS_COST = 80000"
definition MAX_FUTURE_BLOCK_TIME :: int where "MAX_FUTURE_BLOCK_TIME = 15 * 60"

subsection \<open>Block reward\<close>

text \<open>Shifting a 64-bit number by 64 or more places is undefined: \<^term>\<open>None\<close>.\<close>

definition GetBlockReward :: "int \<Rightarrow> Consensus_Params \<Rightarrow> int option" where
  "GetBlockReward h params =
     (let nSubsidy = 188 * COIN
      in if h = 1 then Some (12600000 * COIN)
         else if h \<le> 1440 then Some (10 * COIN)
         else let halvings = cdiv h (nSubsidyHalvingInterval params)
              in if halvings \<ge> 128 then Some 0
                 else if halvings \<ge> 64 \<or> halvings < 0 then None
                 else Some (drop_bit (nat halvings) nSubsidy))"

subsection \<open>Context-free checks\<close>

definition CBlock_of_header :: "CBlockHeader \<Rightarrow> CBlock" where
  "CBlock_of_header h = \<lparr>header = h, vtx = [], vchBlockSig = []\<rparr>"

definition CheckBlockHeader :: "node_env \<Rightarrow> CBlockHeader \<Rightarrow> bool \<Rightarrow> CPowCache \<Rightarrow> (block_error + unit) \<times> CPowCache" where
  "CheckBlockHeader env hdr fCheckPOW cache =
     (if fCheckPOW
      then let (ok, cache) = CheckPOW (ep_params env) (ep_Hash env) (ep_sph env) (ep_cn env) (CBlock_of_header hdr) cache
           in (if ok then Inr () else Inl (Blk_invalid BLOCK_INVALID_HEADER ''high-hash''), cache)
      else (Inr (), cache))"

text \<open>\<^term>\<open>None\<close>: the output whose key is to be checked does not exist.\<close>

definition CheckBlockSignature :: "node_env \<Rightarrow> CBlock \<Rightarrow> bool option" where
  "CheckBlockSignature env block =
     (if header_GetHash (ep_Hash env) (header block) = hashGenesisBlock env then Some (vchBlockSig block = [])
      else let (t, j) = (if block_IsProofOfStake block then (1, 1) else (0, 0)) in
           if t \<ge> length (vtx block) \<or> j \<ge> length (vout (vtx block ! t)) then None
           else case Solver (scriptPubKey (vout (vtx block ! t) ! j)) of
                  (PUBKEY, vSolutions) \<Rightarrow>
                    if vchBlockSig block = [] then Some False
                    else Some (ep_Verify env (vSolutions ! 0) (header_GetHash (ep_Hash env) (header block)) (vchBlockSig block))
                | _ \<Rightarrow> Some False)"

fun check_transactions :: "CTransaction list \<Rightarrow> block_error + unit" where
  "check_transactions [] = Inr ()"
| "check_transactions (tx # txs) =
     (case CheckTransaction tx of
        Inr _ \<Rightarrow> check_transactions txs
      | Inl (Tx_invalid result reason) \<Rightarrow> if result = TX_CONSENSUS then Inl (Blk_invalid BLOCK_CONSENSUS reason) else Inl Blk_assert
      | Inl e \<Rightarrow> Inl (Blk_tx e))"

definition check_merkle_root :: "node_env \<Rightarrow> CBlock \<Rightarrow> block_error + unit" where
  "check_merkle_root env block =
     (let (hashMerkleRoot2, mutated) = BlockMerkleRoot (ep_Hash env) block True
      in if hashMerkleRoot (header block) \<noteq> hashMerkleRoot2 then Inl (Blk_invalid BLOCK_MUTATED ''bad-txnmrklroot'')
         else if mutated then Inl (Blk_invalid BLOCK_MUTATED ''bad-txns-duplicate'')
         else Inr ())"

definition block_time :: "CBlock \<Rightarrow> int" where "block_time block = uint (hdr_nTime (header block))"

definition tx_time :: "CBlock \<Rightarrow> CTransaction \<Rightarrow> int" where
  "tx_time block tx = (if tx_nTime tx \<noteq> 0 then uint (tx_nTime tx) else block_time block)"

text \<open>The checks between the Merkle root and the signature.\<close>

definition check_contents :: "CBlock \<Rightarrow> block_error + unit" where
  "check_contents block =
     (let invalid = (\<lambda>reason. Inl (Blk_invalid BLOCK_CONSENSUS reason)) in
      if vtx block = [] \<or> length (vtx block) * WITNESS_SCALE_FACTOR > MAX_BLOCK_WEIGHT \<or>
         block_GetSerializeSize block (PROTOCOL_VERSION OR SERIALIZE_TRANSACTION_NO_WITNESS) 0 * WITNESS_SCALE_FACTOR > MAX_BLOCK_WEIGHT
      then invalid ''bad-blk-length''
      else if vtx block = [] \<or> \<not> IsCoinBase (vtx block ! 0) then invalid ''bad-cb-missing''
      else if list_ex IsCoinBase (drop 1 (vtx block)) then invalid ''bad-cb-multiple''
      else if list_ex IsCoinStake (drop 2 (vtx block)) then invalid ''bad-cs-missing''
      else if block_IsProofOfStake block \<and> \<not> CTxOut_IsEmpty (vout (vtx block ! 0) ! 0) then invalid ''bad-cb-notempty''
      else if block_time block > tx_time block (vtx block ! 0) + MAX_FUTURE_BLOCK_TIME then invalid ''bad-cb-time''
      else if block_IsProofOfStake block \<and> \<not> CheckCoinStakeTimestamp (block_time block) (tx_time block (vtx block ! 1)) then invalid ''bad-cs-time''
      else ebind (check_transactions (vtx block)) (\<lambda>_.
        let nSigOps = sum_list (map GetLegacySigOpCount (vtx block))
        in if uint (nSigOps * word_of_nat WITNESS_SCALE_FACTOR) > MAX_BLOCK_SIGOPS_COST then invalid ''bad-blk-sigops''
           else Inr ()))"

text \<open>
  The result comes with the flag \<^verbatim>\<open>fChecked\<close> of the block, which is set before the signature is checked, and with the cache of
  proof-of-work hashes.
\<close>

definition CheckBlock ::
  "node_env \<Rightarrow> CBlock \<Rightarrow> bool \<Rightarrow> bool \<Rightarrow> bool \<Rightarrow> bool \<Rightarrow> CPowCache \<Rightarrow> (block_error + unit) \<times> bool \<times> CPowCache" where
  "CheckBlock env block fCheckPOW fCheckMerkleRoot fCheckSignature fChecked cache =
     (if fChecked then (Inr (), fChecked, cache)
      else let (r, cache) = CheckBlockHeader env (header block) (fCheckPOW \<and> \<not> block_IsProofOfStake block) cache;
               r = ebind r (\<lambda>_.
                     if signet_blocks env \<and> fCheckPOW \<and> \<not> CheckSignetBlockSolution env block
                     then Inl (Blk_invalid BLOCK_CONSENSUS ''bad-signet-blksig'')
                     else ebind (if fCheckMerkleRoot then check_merkle_root env block else Inr ()) (\<lambda>_. check_contents block))
           in case r of Inl e \<Rightarrow> (Inl e, fChecked, cache)
              | Inr _ \<Rightarrow>
                  let fChecked = (fChecked \<or> fCheckPOW \<and> fCheckMerkleRoot)
                  in if fCheckMerkleRoot \<and> fCheckSignature \<and>
                        (block_IsProofOfStake block \<or> \<not> IsBTC16BIPsEnabled (ep_net env) (hdr_nTime (header block)))
                     then case CheckBlockSignature env block of
                            None \<Rightarrow> (Inl Blk_assert, fChecked, cache)
                          | Some ok \<Rightarrow> (if ok then Inr () else Inl (Blk_invalid BLOCK_CONSENSUS ''bad-blk-sign''), fChecked, cache)
                     else (Inr (), fChecked, cache))"

subsection \<open>Witness commitments\<close>

definition MINIMUM_WITNESS_COMMITMENT :: nat where "MINIMUM_WITNESS_COMMITMENT = 38"

definition is_witness_commitment :: "CTxOut \<Rightarrow> bool" where
  "is_witness_commitment out \<longleftrightarrow>
     length (scriptPubKey out) \<ge> MINIMUM_WITNESS_COMMITMENT \<and> scriptPubKey out ! 0 = OP_RETURN \<and> scriptPubKey out ! 1 = 0x24 \<and>
     scriptPubKey out ! 2 = 0xaa \<and> scriptPubKey out ! 3 = 0x21 \<and> scriptPubKey out ! 4 = 0xa9 \<and> scriptPubKey out ! 5 = 0xed"

text \<open>\<^term>\<open>None\<close> stands for \<^verbatim>\<open>NO_WITNESS_COMMITMENT\<close>.\<close>

fun commitment_index :: "CTxOut list \<Rightarrow> nat \<Rightarrow> nat option \<Rightarrow> nat option" where
  "commitment_index [] j commitpos = commitpos"
| "commitment_index (out # outs) j commitpos =
     commitment_index outs (j + 1) (if is_witness_commitment out then Some j else commitpos)"

definition GetWitnessCommitmentIndex :: "CBlock \<Rightarrow> nat option" where
  "GetWitnessCommitmentIndex block = (case vtx block of [] \<Rightarrow> None | tx # _ \<Rightarrow> commitment_index (vout tx) 0 None)"

definition UpdateUncommittedBlockStructures :: "node_env \<Rightarrow> CBlock \<Rightarrow> CBlockIndex \<Rightarrow> CBlock" where
  "UpdateUncommittedBlockStructures env block pindexPrev =
     (if GetWitnessCommitmentIndex block \<noteq> None \<and> IsBTC16BIPsEnabled (ep_net env) (bi_nTime pindexPrev) \<and> \<not> HasWitness (vtx block ! 0)
      then let tx = vtx block ! 0; txin = vin tx ! 0
           in block\<lparr>vtx := (vtx block)[0 := tx\<lparr>vin := (vin tx)[0 := txin\<lparr>scriptWitness := [replicate 32 0]\<rparr>]\<rparr>]\<rparr>
      else block)"

definition GenerateCoinbaseCommitment :: "node_env \<Rightarrow> CBlock \<Rightarrow> CBlockIndex \<Rightarrow> (bytes \<times> CBlock) option" where
  "GenerateCoinbaseCommitment env block pindexPrev =
     (if GetWitnessCommitmentIndex block = None
      then case BlockWitnessMerkleRoot (ep_Hash env) block False of None \<Rightarrow> None
           | Some (witnessroot, _) \<Rightarrow>
               let script = [OP_RETURN, 0x24, 0xaa, 0x21, 0xa9, 0xed] @ ep_Hash env (witnessroot @ replicate 32 0);
                   tx = vtx block ! 0;
                   block = block\<lparr>vtx := (vtx block)[0 := tx\<lparr>vout := vout tx @ [\<lparr>nValue = 0, scriptPubKey = script\<rparr>]\<rparr>]\<rparr>
               in Some (script, UpdateUncommittedBlockStructures env block pindexPrev)
      else Some ([], UpdateUncommittedBlockStructures env block pindexPrev))"

subsection \<open>Checks in the context of the chain\<close>

text \<open>The checkpoints as a list in the order of their heights.\<close>

fun last_checkpoint :: "BlockMap \<Rightarrow> (int \<times> uint256) list \<Rightarrow> ptr option" where
  "last_checkpoint m_block_index [] = None"
| "last_checkpoint m_block_index ((_, hash) # cps) =
     (case m_block_index hash of Some pindex \<Rightarrow> Some pindex | None \<Rightarrow> last_checkpoint m_block_index cps)"

definition GetLastCheckpoint :: "BlockMap \<Rightarrow> (int \<times> uint256) list \<Rightarrow> ptr option" where
  "GetLastCheckpoint m_block_index checkpoints = last_checkpoint m_block_index (rev checkpoints)"

definition bad_version :: "u32 \<Rightarrow> string" where
  "bad_version v = ''bad-version(0x'' @ map (\<lambda>i. ''0123456789abcdef'' ! unat (drop_bit (28 - 4 * i) v AND 15)) [0..<8] @ '')''"

text \<open>
  On success the result is the new value of the static variable of \<^verbatim>\<open>IsPosDGWenabled\<close>; the checkpoints are \<^term>\<open>None\<close> if they
  are disabled.
\<close>

definition ContextualCheckBlockHeader ::
  "node_env \<Rightarrow> store \<Rightarrow> BlockMap \<Rightarrow> (int \<times> uint256) list option \<Rightarrow> bool \<Rightarrow> CBlockHeader \<Rightarrow> ptr \<Rightarrow> int \<Rightarrow> block_error + bool" where
  "ContextualCheckBlockHeader env s m_block_index checkpoints DGWenabled hdr pindexPrev nAdjustedTime =
     (let h = nHeight (s pindexPrev) + 1; time = uint (hdr_nTime hdr) in
      case GetNextTargetRequired (ep_params env) (ep_net env) s DGWenabled (Some pindexPrev) (hdr_nFlags hdr AND BLOCK_PROOF_OF_STAKE \<noteq> 0) of
        Inl e \<Rightarrow> Inl (Blk_pow e)
      | Inr (nBits, DGWenabled) \<Rightarrow>
          if hdr_nBits hdr \<noteq> nBits then Inl (Blk_invalid BLOCK_INVALID_HEADER ''bad-diffbits'')
          else if (case checkpoints of None \<Rightarrow> False
                   | Some cps \<Rightarrow> (case GetLastCheckpoint m_block_index cps of None \<Rightarrow> False | Some p \<Rightarrow> h < nHeight (s p)))
          then Inl (Blk_invalid BLOCK_CHECKPOINT ''bad-fork-prior-to-checkpoint'')
          else if time \<le> GetMedianTimePast s pindexPrev \<or> time + MAX_FUTURE_BLOCK_TIME < GetBlockTime (s pindexPrev)
          then Inl (Blk_invalid BLOCK_INVALID_HEADER ''time-too-old'')
          else if time > nAdjustedTime + MAX_FUTURE_BLOCK_TIME then Inl (Blk_invalid BLOCK_TIME_FUTURE ''time-too-new'')
          else if sint (hdr_nVersion hdr) < 2 \<or> sint (hdr_nVersion hdr) < 4
          then Inl (Blk_invalid BLOCK_INVALID_HEADER (bad_version (hdr_nVersion hdr)))
          else Inr DGWenabled)"

definition bips_enabled :: "node_env \<Rightarrow> store \<Rightarrow> ptr option \<Rightarrow> bool" where
  "bips_enabled env s pindexPrev = (case pindexPrev of None \<Rightarrow> False | Some p \<Rightarrow> IsBTC16BIPsEnabled (ep_net env) (bi_nTime (s p)))"

text \<open>The check of the commitment returns whether the block has one.\<close>

definition check_commitment :: "node_env \<Rightarrow> CBlock \<Rightarrow> block_error + bool" where
  "check_commitment env block =
     (case GetWitnessCommitmentIndex block of None \<Rightarrow> Inr False
      | Some commitpos \<Rightarrow>
          (case (BlockWitnessMerkleRoot (ep_Hash env) block True, vin (vtx block ! 0)) of
             (Some (hashWitness, malleated), txin # _) \<Rightarrow>
               if length (scriptWitness txin) \<noteq> 1 \<or> length (scriptWitness txin ! 0) \<noteq> 32
               then Inl (Blk_invalid BLOCK_MUTATED ''bad-witness-nonce-size'')
               else if ep_Hash env (hashWitness @ scriptWitness txin ! 0) \<noteq> take 32 (drop 6 (scriptPubKey (vout (vtx block ! 0) ! commitpos)))
               then Inl (Blk_invalid BLOCK_MUTATED ''bad-witness-merkle-match'')
               else Inr True
           | _ \<Rightarrow> Inl Blk_assert))"

definition coinbase_starts :: "CBlock \<Rightarrow> bytes \<Rightarrow> block_error + unit" where
  "coinbase_starts block expect =
     (case vtx block of [] \<Rightarrow> Inl Blk_assert
      | tx # _ \<Rightarrow> (case vin tx of [] \<Rightarrow> Inl Blk_assert
          | txin # _ \<Rightarrow> if length (scriptSig txin) < length expect \<or> take (length expect) (scriptSig txin) \<noteq> expect
                        then Inl (Blk_invalid BLOCK_CONSENSUS ''bad-cb-height'') else Inr ()))"

definition ContextualCheckBlock :: "node_env \<Rightarrow> store \<Rightarrow> CBlock \<Rightarrow> ptr option \<Rightarrow> block_error + unit" where
  "ContextualCheckBlock env s block pindexPrev =
     (let h = (case pindexPrev of None \<Rightarrow> 0 | Some p \<Rightarrow> nHeight (s p) + 1);
          nLockTimeFlags = (if bips_enabled env s pindexPrev then LOCKTIME_MEDIAN_TIME_PAST else 0);
          nLockTimeCutoff = (if nLockTimeFlags AND LOCKTIME_MEDIAN_TIME_PAST \<noteq> 0 then GetMedianTimePast s (the pindexPrev) else block_time block) in
      if \<not> list_all (\<lambda>tx. IsFinalTx tx h nLockTimeCutoff) (vtx block) then Inl (Blk_invalid BLOCK_CONSENSUS ''bad-txns-nonfinal'')
      else ebind (if pindexPrev \<noteq> None \<and> sint (hdr_nVersion (header block)) \<ge> 2 then coinbase_starts block (push_int64 h) else Inr ()) (\<lambda>_.
        ebind (if bips_enabled env s pindexPrev then check_commitment env block else Inr False) (\<lambda>fHaveWitness.
          if \<not> fHaveWitness \<and> list_ex HasWitness (vtx block) then Inl (Blk_invalid BLOCK_MUTATED ''unexpected-witness'')
          else if GetBlockWeight block > MAX_BLOCK_WEIGHT then Inl (Blk_invalid BLOCK_CONSENSUS ''bad-blk-weight'')
          else Inr ())))"

subsection \<open>Emission\<close>

lemma sum_group: "(\<Sum>i < n * (k :: nat). f i :: int) = (\<Sum>m < n. \<Sum>i \<in> {m * k..<m * k + k}. f i)"
  by (rule sum.nat_group [symmetric])

definition reward_at :: "Consensus_Params \<Rightarrow> nat \<Rightarrow> int" where
  "reward_at params h = the (GetBlockReward (int h) params)"

lemma reward_era:
  assumes "0 < k" "nSubsidyHalvingInterval params = int k" "h \<in> {m * k..<m * k + k}" "0 < m" "m < 64" "1440 < k"
  shows "GetBlockReward (int h) params = Some (188 * COIN div 2 ^ m)"
proof -
  have "k \<le> m * k" using assms(4) by simp
  then have h: "1440 < h" using assms(3,6) unfolding atLeastLessThan_iff by linarith
  have "h div k = m" using assms by (auto intro: div_nat_eqI simp: algebra_simps)
  then have "cdiv (int h) (int k) = int m" using assms(1) by (simp add: cdiv_nonneg flip: zdiv_int)
  then show ?thesis using assms h by (simp add: GetBlockReward_def drop_bit_eq_div)
qed

lemma reward_first_era:
  assumes "nSubsidyHalvingInterval params = int k" "1440 < k"
  shows "(\<Sum>h < k. reward_at params h) = 12600000 * COIN + 1440 * (10 * COIN) + int (k - 1441) * (188 * COIN)"
proof -
  let ?r = "reward_at params"
  have "{..<k} = {0} \<union> {1} \<union> {2..<1441} \<union> {1441..<k}" using assms(2) by auto
  then have "sum ?r {..<k} = ?r 0 + ?r 1 + sum ?r {2..<1441} + sum ?r {1441..<k}"
    by (simp add: sum.union_disjoint)
  moreover have "?r 0 = 10 * COIN" "?r 1 = 12600000 * COIN" by (simp_all add: reward_at_def GetBlockReward_def)
  moreover have "sum ?r {2..<1441} = (\<Sum>h \<in> {2 :: nat..<1441}. 10 * COIN)" by (rule sum.cong) (auto simp: reward_at_def GetBlockReward_def)
  moreover have "sum ?r {1441..<k} = (\<Sum>h \<in> {1441..<k}. 188 * COIN)"
    using assms by (intro sum.cong) (auto simp: reward_at_def GetBlockReward_def cdiv_nonneg Let_def)
  ultimately show ?thesis by simp
qed

lemma reward_later_eras:
  assumes "nSubsidyHalvingInterval params = int k" "1440 < k" "m < 64" "0 < m"
  shows "(\<Sum>h \<in> {m * k..<m * k + k}. reward_at params h) = int k * (188 * COIN div 2 ^ m)"
proof -
  have "(\<Sum>h \<in> {m * k..<m * k + k}. reward_at params h) = (\<Sum>h \<in> {m * k..<m * k + k}. 188 * COIN div 2 ^ m)"
    using assms reward_era [of k params _ m] by (intro sum.cong) (simp_all add: reward_at_def)
  then show ?thesis by simp
qed

lemma reward_total:
  assumes "nSubsidyHalvingInterval params = int k" "1440 < k"
  shows "(\<Sum>h < 64 * k. reward_at params h) =
    12600000 * COIN + 1440 * (10 * COIN) + int (k - 1441) * (188 * COIN) + int k * sum_list (map (\<lambda>m. 188 * COIN div 2 ^ m) [1..<64])"
proof -
  have "(\<Sum>h < 64 * k. reward_at params h) = (\<Sum>m < 64. \<Sum>h \<in> {m * k..<m * k + k}. reward_at params h)"
    by (rule sum_group)
  also have "\<dots> = (\<Sum>h \<in> {0 * k..<0 * k + k}. reward_at params h) + (\<Sum>m \<in> {1..<64}. \<Sum>h \<in> {m * k..<m * k + k}. reward_at params h)"
    by (simp add: lessThan_atLeast0 sum.atLeast_Suc_lessThan)
  also have "(\<Sum>m \<in> {1..<64}. \<Sum>h \<in> {m * k..<m * k + k}. reward_at params h) = (\<Sum>m \<in> {1..<64}. int k * (188 * COIN div 2 ^ m))"
    using reward_later_eras [OF assms] by (intro sum.cong) auto
  also have "\<dots> = int k * sum_list (map (\<lambda>m. 188 * COIN div 2 ^ m) [1..<64])"
    by (simp only: sum_distrib_left [symmetric] interv_sum_list_conv_sum_set_nat set_upt)
  finally show ?thesis using reward_first_era [OF assms] by (simp add: lessThan_atLeast0)
qed

lemma GetBlockReward_defined:
  assumes "nSubsidyHalvingInterval params = int k" "1440 < k" "h < 64 * k"
  shows "\<exists>r. GetBlockReward (int h) params = Some r \<and> 0 \<le> r"
proof -
  have "h div k < 64" using assms by (simp add: div_less_iff_less_mult mult.commute)
  then have "cdiv (int h) (int k) < 64" by (simp add: cdiv_nonneg flip: zdiv_int)
  moreover have "0 \<le> cdiv (int h) (int k)" by (simp add: cdiv_ge_0)
  ultimately show ?thesis using assms by (auto simp: GetBlockReward_def Let_def COIN_def)
qed

lemma reward_sum_le:
  assumes "nSubsidyHalvingInterval params = int k" "1440 < k" "n < 64 * k"
  shows "(\<Sum>h \<in> {1..n}. reward_at params h) \<le> (\<Sum>h < 64 * k. reward_at params h) - 10 * COIN"
proof -
  have nonneg: "0 \<le> reward_at params h" if "h < 64 * k" for h
    using GetBlockReward_defined [OF assms(1,2) that] by (auto simp: reward_at_def)
  have "(\<Sum>h \<in> {1..n}. reward_at params h) \<le> (\<Sum>h \<in> {1..<64 * k}. reward_at params h)"
    using assms nonneg by (intro sum_mono2) auto
  also have "\<dots> = (\<Sum>h < 64 * k. reward_at params h) - reward_at params 0"
  proof -
    have "{..<64 * k} = insert 0 {1..<64 * k}" using assms(2) by auto
    then have "(\<Sum>h < 64 * k. reward_at params h) = reward_at params 0 + (\<Sum>h \<in> {1..<64 * k}. reward_at params h)" by (simp only: sum.insert finite_atLeastLessThan) simp
    then show ?thesis by linarith
  qed
  finally show ?thesis by (simp add: reward_at_def GetBlockReward_def)
qed

lemma main_emission: "12600000 * COIN + 1440 * (10 * COIN) + int (525600 - 1441) * (188 * COIN) + int 525600 * sum_list (map (\<lambda>m. 188 * COIN div 2 ^ m) [1..<64]) - 10 * COIN
   = 209969076218400"
  by (simp add: COIN_def upt_conv_Cons)

subsection \<open>Witness commitments agree\<close>

lemma merkle_loop_flag: "fst (merkle_loop Hash m hs b) = fst (merkle_loop Hash m' hs b')"
proof (induction Hash m hs b arbitrary: b' rule: merkle_loop.induct)
  case (1 Hash m hs b)
  then show ?case by (simp add: merkle_loop.simps [of Hash m hs] merkle_loop.simps [of Hash m' hs] del: merkle_loop.simps)
qed

lemma ComputeMerkleRoot_flag: "fst (ComputeMerkleRoot Hash hs m) = fst (ComputeMerkleRoot Hash hs m')"
  using merkle_loop_flag [of Hash m hs False m' False] by (simp add: ComputeMerkleRoot_def split_beta)

lemma commitment_index_append:
  "commitment_index (outs @ [out]) j c = (if is_witness_commitment out then Some (j + length outs) else commitment_index outs j c)"
  by (induction outs arbitrary: j c) auto

lemma generated_commitment:
  assumes "GetWitnessCommitmentIndex block = None" "vtx block = cb # txs" "vin cb \<noteq> []" "\<not> HasWitness cb"
    and "IsBTC16BIPsEnabled (ep_net env) (bi_nTime pindexPrev)" "\<forall>b. length (ep_Hash env b) = 32"
  shows "\<exists>c block' cb'. GenerateCoinbaseCommitment env block pindexPrev = Some (c, block') \<and> vtx block' = cb' # txs \<and> header block' = header block \<and>
    vout cb' = vout cb @ [\<lparr>nValue = 0, scriptPubKey = c\<rparr>] \<and> map prevout (vin cb') = map prevout (vin cb) \<and>
    GetWitnessCommitmentIndex block' = Some (length (vout cb)) \<and> check_commitment env block' = Inr True"
proof -
  obtain txin ins where cb: "vin cb = txin # ins" using assms(3) by (cases "vin cb") auto
  define root where "root = fst (ComputeMerkleRoot (ep_Hash env) (uint256_null # map (ComputeWitnessHash (ep_Hash env)) txs) False)"
  have root: "fst (ComputeMerkleRoot (ep_Hash env) (uint256_null # map (ComputeWitnessHash (ep_Hash env)) txs) m) = root" for m
    unfolding root_def by (rule ComputeMerkleRoot_flag)
  define c where "c = [OP_RETURN, 0x24, 0xaa, 0x21, 0xa9, 0xed] @ ep_Hash env (root @ replicate 32 0)"
  define cb1 where "cb1 = cb\<lparr>vout := vout cb @ [\<lparr>nValue = 0, scriptPubKey = c\<rparr>]\<rparr>"
  define cb' where "cb' = cb1\<lparr>vin := txin\<lparr>scriptWitness := [replicate 32 0]\<rparr> # ins\<rparr>"
  have "is_witness_commitment \<lparr>nValue = 0, scriptPubKey = c\<rparr>"
    using assms(6) by (simp add: is_witness_commitment_def c_def MINIMUM_WITNESS_COMMITMENT_def)
  then have index: "commitment_index (vout cb1) 0 None = Some (length (vout cb))"
    by (simp add: cb1_def commitment_index_append)
  have "\<not> HasWitness cb1" using assms(4) by (simp add: HasWitness_def cb1_def)
  then have u: "UpdateUncommittedBlockStructures env (block\<lparr>vtx := cb1 # txs\<rparr>) pindexPrev = block\<lparr>vtx := cb' # txs\<rparr>"
    using assms(5) index cb by (simp add: UpdateUncommittedBlockStructures_def GetWitnessCommitmentIndex_def cb'_def cb1_def)
  have "BlockWitnessMerkleRoot (ep_Hash env) block False = Some (root, snd (ComputeMerkleRoot (ep_Hash env) (uint256_null # map (ComputeWitnessHash (ep_Hash env)) txs) False))"
    using assms(2) by (simp add: BlockWitnessMerkleRoot_def root_def)
  moreover have "[OP_RETURN, 0x24, 0xaa, 0x21, 0xa9, 0xed] @ ep_Hash env (root @ replicate 32 0) = c" by (simp add: c_def)
  ultimately have g: "GenerateCoinbaseCommitment env block pindexPrev = Some (c, block\<lparr>vtx := cb' # txs\<rparr>)"
    using assms(1,2) u by (simp add: GenerateCoinbaseCommitment_def cb1_def Let_def)
  have i: "GetWitnessCommitmentIndex (block\<lparr>vtx := cb' # txs\<rparr>) = Some (length (vout cb))"
    using index by (simp add: GetWitnessCommitmentIndex_def cb'_def)
  have "take 32 (drop 6 c) = ep_Hash env (root @ replicate 32 0)" using assms(6) by (simp add: c_def)
  then have "check_commitment env (block\<lparr>vtx := cb' # txs\<rparr>) = Inr True"
    using i root [of True] by (simp add: check_commitment_def BlockWitnessMerkleRoot_def cb'_def cb1_def split_beta)
  then show ?thesis using g i cb by (intro exI [of _ c] exI [of _ "block\<lparr>vtx := cb' # txs\<rparr>"] exI [of _ cb']) (simp add: cb'_def cb1_def)
qed

subsection \<open>Heights in coinbases\<close>

lemma small_count:
  assumes "1 \<le> n" "n \<le> 16"
  shows "push_int64 n = [word_of_int (n + 80)]" "OP_PUSHDATA4 < (word_of_int (n + 80) :: u8)"
proof -
  have "n \<in> set [1..16]" using assms unfolding set_upto atLeastAtMost_iff by linarith
  note all = bspec [OF small_counts [unfolded list_all_iff] this]
  from all show "push_int64 n = [word_of_int (n + 80)]" by (elim conjE)
  from all show "OP_PUSHDATA4 < (word_of_int (n + 80) :: u8)" by (elim conjE)
qed

lemma push_int64_small: "\<lbrakk>1 \<le> n; n \<le> 16\<rbrakk> \<Longrightarrow> GetScriptOp (push_int64 n @ r) = Some (word_of_int (n + 80), [], r)"
  using small_count [of n] GetScriptOp_nonpush by simp

lemma push_int64_large:
  assumes "16 < n" "n < 2 ^ 31"
  shows "\<exists>opcode. opcode \<le> OP_PUSHDATA4 \<and> GetScriptOp (push_int64 n @ r) = Some (opcode, scriptnum_serialize n, r)"
proof -
  have "length (scriptnum_serialize n) < 2 ^ 32" using serialize_facts(2) [of n] assms by simp
  then show ?thesis using assms GetScriptOp_push_data [of "scriptnum_serialize n" r] by (simp add: push_int64_def)
qed

lemma push_int64_unique:
  assumes "1 \<le> a" "a < 2 ^ 31" "1 \<le> b" "b < 2 ^ 31" "push_int64 a @ r = push_int64 b @ r'"
  shows "a = b"
proof -
  have small: "a = b" if "a \<le> 16" "b \<le> 16"
  proof -
    have "word_of_int (a + 80) = (word_of_int (b + 80) :: u8)"
      using push_int64_small [of a r] push_int64_small [of b r'] that assms(1,3,5) by simp
    then have "uint (word_of_int (a + 80) :: u8) = uint (word_of_int (b + 80) :: u8)" by (rule arg_cong)
    then show ?thesis using that assms unfolding uint_word_of_int_eq by (simp add: take_bit_int_eq_self)
  qed
  have mixed: False if p: "1 \<le> x" "x \<le> 16" "16 < y" "y < 2 ^ 31" "push_int64 x @ q = push_int64 y @ q'" for x y q q'
  proof -
    obtain opcode where "opcode \<le> OP_PUSHDATA4" "GetScriptOp (push_int64 y @ q') = Some (opcode, scriptnum_serialize y, q')"
      using push_int64_large [OF p(3,4)] by blast
    then show False using push_int64_small [OF p(1,2), of q] small_count(2) [OF p(1,2)] p(5) by (simp add: not_le [symmetric])
  qed
  have large: "a = b" if p: "16 < a" "16 < b"
  proof -
    obtain op1 where "GetScriptOp (push_int64 a @ r) = Some (op1, scriptnum_serialize a, r)" using push_int64_large [OF p(1) assms(2)] by blast
    moreover obtain op2 where "GetScriptOp (push_int64 b @ r') = Some (op2, scriptnum_serialize b, r')" using push_int64_large [OF p(2) assms(4)] by blast
    ultimately have "scriptnum_serialize a = scriptnum_serialize b" unfolding assms(5) by simp
    then have "set_vch (scriptnum_serialize a) = set_vch (scriptnum_serialize b)" by (rule arg_cong)
    moreover have "\<bar>a\<bar> < 2 ^ 63" "\<bar>b\<bar> < 2 ^ 63" using assms(1-4) by simp_all
    ultimately show ?thesis by (simp only: set_vch_serialize)
  qed
  consider "a \<le> 16" "b \<le> 16" | "a \<le> 16" "16 < b" | "16 < a" "b \<le> 16" | "16 < a" "16 < b" by linarith
  then show ?thesis
  proof cases
    case 2
    then show ?thesis using mixed [OF assms(1) _ _ assms(4,5)] by blast
  next
    case 3
    then show ?thesis using mixed [OF assms(3) _ _ assms(2) assms(5) [symmetric]] by blast
  qed (fact small, fact large)
qed

subsection \<open>Consequences of the block checks\<close>

lemma check_transactions_iff: "check_transactions txs = Inr () \<longleftrightarrow> (\<forall>tx \<in> set txs. CheckTransaction tx = Inr ())"
proof (induction txs)
  case (Cons tx txs)
  then show ?case by (cases "CheckTransaction tx") (auto split: tx_error.splits)
qed simp

lemma check_contents_accepts:
  assumes "check_contents block = Inr ()"
  obtains cb txs where "vtx block = cb # txs" "IsCoinBase cb" "\<forall>tx \<in> set txs. \<not> IsCoinBase tx"
    "\<forall>tx \<in> set (tl txs). \<not> IsCoinStake tx" "\<forall>tx \<in> set (vtx block). CheckTransaction tx = Inr ()"
    "block_IsProofOfStake block \<longrightarrow> CTxOut_IsEmpty (vout cb ! 0)" "length (ser_CBlock PROTOCOL_VERSION True block) \<le> 1000000"
proof -
  have size: "block_GetSerializeSize block (PROTOCOL_VERSION OR SERIALIZE_TRANSACTION_NO_WITNESS) 0 = length (ser_CBlock PROTOCOL_VERSION True block)"
  proof -
    have "header_has_flags (PROTOCOL_VERSION OR SERIALIZE_TRANSACTION_NO_WITNESS) = header_has_flags PROTOCOL_VERSION" by code_simp
    then show ?thesis by (simp add: block_GetSerializeSize_def ser_CBlock_def ser_CBlockHeader_def)
  qed
  obtain cb txs where v: "vtx block = cb # txs" using assms by (cases "vtx block") (auto simp: check_contents_def)
  show thesis
    using assms v size
    by (intro that [of cb txs])
      (auto simp: check_contents_def Let_def check_transactions_iff list_ex_iff drop_Suc MAX_BLOCK_WEIGHT_def WITNESS_SCALE_FACTOR_def
        simp del: check_transactions.simps split: if_splits)
qed

lemma CheckBlock_contents:
  assumes "CheckBlock env block fCheckPOW fCheckMerkleRoot fCheckSignature False cache = (Inr (), fChecked, cache')"
  shows "check_contents block = Inr ()"
    and "fCheckMerkleRoot \<Longrightarrow> BlockMerkleRoot (ep_Hash env) block True = (hashMerkleRoot (header block), False)"
  using assms
  by (auto simp: CheckBlock_def Let_def check_merkle_root_def split: sum.splits if_splits prod.splits)

lemma coinbase_starts_iff:
  "coinbase_starts block e = Inr () \<longleftrightarrow> (\<exists>tx txs txin ins r. vtx block = tx # txs \<and> vin tx = txin # ins \<and> scriptSig txin = e @ r)"
proof
  assume "coinbase_starts block e = Inr ()"
  then obtain tx txs txin ins where f: "vtx block = tx # txs" "vin tx = txin # ins" "take (length e) (scriptSig txin) = e"
    by (auto simp: coinbase_starts_def split: list.splits if_splits)
  have "scriptSig txin = take (length e) (scriptSig txin) @ drop (length e) (scriptSig txin)" by simp
  then show "\<exists>tx txs txin ins r. vtx block = tx # txs \<and> vin tx = txin # ins \<and> scriptSig txin = e @ r" unfolding f(3) using f(1,2) by blast
qed (auto simp: coinbase_starts_def)

lemma ContextualCheckBlock_height:
  assumes "ContextualCheckBlock env s block (Some p) = Inr ()" "sint (hdr_nVersion (header block)) \<ge> 2"
  obtains r where "scriptSig (vin (vtx block ! 0) ! 0) = push_int64 (nHeight (s p) + 1) @ r"
proof -
  have "coinbase_starts block (push_int64 (nHeight (s p) + 1)) = Inr ()"
    using assms by (simp add: ContextualCheckBlock_def Let_def split: if_splits)
  then show thesis using that by (auto simp: coinbase_starts_iff)
qed

lemma SerializeTransaction_inputs:
  assumes "SerializeTransaction False a = SerializeTransaction False b" "tx_ok False (a\<lparr>vin := map strip (vin a)\<rparr>)" "tx_ok False (b\<lparr>vin := map strip (vin b)\<rparr>)"
  shows "map scriptSig (vin a) = map scriptSig (vin b)"
proof -
  let ?a = "a\<lparr>vin := map strip (vin a)\<rparr>" and ?b = "b\<lparr>vin := map strip (vin b)\<rparr>"
  have "SerializeTransaction False ?a = SerializeTransaction False ?b"
    using assms(1) tx_ComputeHash_strip [of "\<lambda>b. b" a] tx_ComputeHash_strip [of "\<lambda>b. b" b] unfolding tx_ComputeHash_def by simp
  then have "UnserializeTransaction False (SerializeTransaction False ?a @ []) = Inr (?a, []) \<and> UnserializeTransaction False (SerializeTransaction False ?a @ []) = Inr (?b, [])"
    using assms(2,3) UnserializeTransaction_iff [of False] by metis
  then have "?a = ?b" by (metis Inr_inject prod.inject)
  then have "vin ?a = vin ?b" by (rule arg_cong)
  then have "map scriptSig (map strip (vin a)) = map scriptSig (map strip (vin b))" by simp
  then show ?thesis by (simp add: comp_def)
qed

subsection \<open>Properties\<close>



text \<open>
  C16: coinbases of different heights differ. Two blocks of version two or more that pass the contextual check on top of blocks
  of different heights have coinbases with different scripts, and their transaction ids coincide only if two different
  messages have the same hash.
\<close>

theorem coinbase_height_unique:
  assumes "ContextualCheckBlock env s block1 (Some p1) = Inr ()" "ContextualCheckBlock env s block2 (Some p2) = Inr ()"
    and "sint (hdr_nVersion (header block1)) \<ge> 2" "sint (hdr_nVersion (header block2)) \<ge> 2"
    and "nHeight (s p1) \<noteq> nHeight (s p2)" "nHeight (s p1) \<in> {0..<2 ^ 31 - 1}" "nHeight (s p2) \<in> {0..<2 ^ 31 - 1}"
    and "tx_ok False ((vtx block1 ! 0)\<lparr>vin := map strip (vin (vtx block1 ! 0))\<rparr>)" "tx_ok False ((vtx block2 ! 0)\<lparr>vin := map strip (vin (vtx block2 ! 0))\<rparr>)"
  shows "scriptSig (vin (vtx block1 ! 0) ! 0) \<noteq> scriptSig (vin (vtx block2 ! 0) ! 0) \<and>
    SerializeTransaction False (vtx block1 ! 0) \<noteq> SerializeTransaction False (vtx block2 ! 0)"
proof -
  obtain r1 where r1: "scriptSig (vin (vtx block1 ! 0) ! 0) = push_int64 (nHeight (s p1) + 1) @ r1"
    using ContextualCheckBlock_height [OF assms(1,3)] .
  obtain r2 where r2: "scriptSig (vin (vtx block2 ! 0) ! 0) = push_int64 (nHeight (s p2) + 1) @ r2"
    using ContextualCheckBlock_height [OF assms(2,4)] .
  have ne: "vin (vtx block1 ! 0) \<noteq> []" "vin (vtx block2 ! 0) \<noteq> []"
    using assms(1-4) by (auto simp: ContextualCheckBlock_def Let_def coinbase_starts_iff split: if_splits)
  have "scriptSig (vin (vtx block1 ! 0) ! 0) \<noteq> scriptSig (vin (vtx block2 ! 0) ! 0)"
    using push_int64_unique [of "nHeight (s p1) + 1" "nHeight (s p2) + 1" r1 r2] assms(5-7) r1 r2 by auto
  moreover have "scriptSig (vin (vtx block1 ! 0) ! 0) = scriptSig (vin (vtx block2 ! 0) ! 0)"
    if "SerializeTransaction False (vtx block1 ! 0) = SerializeTransaction False (vtx block2 ! 0)"
    using SerializeTransaction_inputs [OF that assms(8,9)] ne by (metis hd_conv_nth hd_map)
  ultimately show ?thesis by blast
qed

text \<open>
  C17: blocks built here commit to their witnesses. If the rules are active, \<^verbatim>\<open>GenerateCoinbaseCommitment\<close> on a block without commitment
  appends one output to the coinbase, keeps the other transactions and the spent outpoints, and the block passes the check of the
  commitment.
\<close>

theorem witness_commitment_roundtrip:
  assumes "GetWitnessCommitmentIndex block = None" "vtx block = cb # txs" "vin cb \<noteq> []" "\<not> HasWitness cb"
    and "IsBTC16BIPsEnabled (ep_net env) (bi_nTime pindexPrev)" "\<forall>b. length (ep_Hash env b) = 32"
  shows "\<exists>c block' cb'. GenerateCoinbaseCommitment env block pindexPrev = Some (c, block') \<and> vtx block' = cb' # txs \<and>
    vout cb' = vout cb @ [\<lparr>nValue = 0, scriptPubKey = c\<rparr>] \<and> map prevout (vin cb') = map prevout (vin cb) \<and>
    GetWitnessCommitmentIndex block' = Some (length (vout cb)) \<and> check_commitment env block' = Inr True"
  using generated_commitment [OF assms] by blast

text \<open>
  C38: the signature of a proof-of-stake block is not checked twice. A block that passes every other check and fails on its
  signature is marked as checked all the same, and the next call accepts it; the same holds if the first call leaves the
  signature out.
\<close>

theorem bad_signature_accepted_later:
  assumes "CheckBlock env block True True False False cache = (Inr (), fChecked, cache')"
    and "block_IsProofOfStake block" "CheckBlockSignature env block = Some False"
  shows "CheckBlock env block True True True False cache = (Inl (Blk_invalid BLOCK_CONSENSUS ''bad-blk-sign''), True, cache') \<and>
    CheckBlock env block True True True fChecked cache' = (Inr (), True, cache')"
  using assms by (auto simp: CheckBlock_def Let_def split: sum.splits if_splits prod.splits)

definition sample_env :: node_env where
  "sample_env = \<lparr>ep_params = CMainParams, ep_net = MAIN, hashGenesisBlock = [], BIP16Exception = uint256_null, BIP34Height = 1, BIP34Hash = uint256_null,
     signet_blocks = False, ep_Hash = (\<lambda>b. word_of_nat (length b) # replicate 31 0), ep_sph = (\<lambda>_ b. b), ep_cn = (\<lambda>_ b. b), ep_txindex = None,
     ep_VerifyScript = (\<lambda>_ _ _ _. True), ep_rand = (\<lambda>n. n), CheckSignetBlockSolution = (\<lambda>_. True), ep_Verify = (\<lambda>_ _ _. False)\<rparr>"

definition height_block :: "u8 \<Rightarrow> CBlock" where
  "height_block b = \<lparr>header = \<lparr>hdr_nVersion = 4, hashPrevBlock = uint256_null, hashMerkleRoot = uint256_null, hdr_nTime = 200, hdr_nBits = 0, hdr_nNonce = 0, hdr_nFlags = 0\<rparr>,
     vtx = [small_coinbase\<lparr>vin := [\<lparr>prevout = COutPoint_null, scriptSig = [b, 0], nSequence = SEQUENCE_FINAL, scriptWitness = []\<rparr>]\<rparr>], vchBlockSig = []\<rparr>"

lemmas ser_length = SerializeTransaction_def VectorFormatter_ser_def WriteCompactSize_def ser_CTxIn_def ser_CTxOut_def ser_COutPoint_def
  ser_uint256_def ser_bytes_def ser_CAmount_def ser_writedata8_def ser_writedata16_def ser_writedata32_def ser_writedata64_def
  ser_CBlock_def ser_CBlockHeader_def

lemma height_block_size: "length (ser_CBlock v w (height_block b)) \<le> 300"
  by (simp add: height_block_def small_coinbase_def HasWitness_def ser_length COutPoint_null_def uint256_null_def)

lemma height_block_weight: "GetBlockWeight (height_block b) \<le> MAX_BLOCK_WEIGHT"
proof -
  have "GetBlockWeight (height_block b) \<le> 300 * 3 + 300"
    unfolding GetBlockWeight_def block_GetSerializeSize_def WITNESS_SCALE_FACTOR_def
    by (intro add_mono) (use height_block_size in \<open>simp_all add: mult_le_mono1\<close>)
  then show ?thesis by (simp add: MAX_BLOCK_WEIGHT_def)
qed

lemma height_block_ok:
  assumes "push_int64 (nHeight (sample_store p) + 1) = [b]" "\<not> bips_enabled sample_env sample_store (Some p)"
  shows "ContextualCheckBlock sample_env sample_store (height_block b) (Some p) = Inr ()"
proof -
  have "IsFinalTx (vtx (height_block b) ! 0) h t" for h t by (simp add: height_block_def small_coinbase_def IsFinalTx_def)
  moreover have "vtx (height_block b) = [vtx (height_block b) ! 0]" by (simp add: height_block_def)
  ultimately have "list_all (\<lambda>tx. IsFinalTx tx h t) (vtx (height_block b))" for h t by (simp add: height_block_def)
  moreover have "coinbase_starts (height_block b) [b] = Inr ()" by (simp add: coinbase_starts_def height_block_def)
  moreover have "\<not> list_ex HasWitness (vtx (height_block b))" by (simp add: height_block_def HasWitness_def)
  moreover have "sint (hdr_nVersion (header (height_block b))) = 4" by (simp add: height_block_def)
  ultimately show ?thesis
    using assms height_block_weight [of b] by (simp add: ContextualCheckBlock_def Let_def not_less)
qed

theorem coinbase_height_unique_witness:
  "scriptSig (vin (vtx (height_block 0x53) ! 0) ! 0) \<noteq> scriptSig (vin (vtx (height_block 0x54) ! 0) ! 0)"
proof -
  have ok: "ContextualCheckBlock sample_env sample_store (height_block 0x53) (Some 2) = Inr ()" "ContextualCheckBlock sample_env sample_store (height_block 0x54) (Some 3) = Inr ()"
    by (rule height_block_ok; simp add: sample_store_def push_int64_def bips_enabled_def IsBTC16BIPsEnabled_def sample_env_def nBTC16BIPsSwitchTime_def)+
  have t: "tx_ok False ((vtx (height_block b) ! 0)\<lparr>vin := map strip (vin (vtx (height_block b) ! 0))\<rparr>)" for b
    by (simp add: height_block_def small_coinbase_def tx_ok_def HasWitness_def vector_ok_def CTxIn_ok_def CTxOut_ok_def blob_ok_def COutPoint_ok_def COutPoint_null_def
        uint256_ok_def uint256_null_def COIN_def fits_int64_def MAX_SIZE_def)
  have v: "sint (hdr_nVersion (header (height_block b))) \<ge> 2" for b by (simp add: height_block_def)
  have "nHeight (sample_store 2) \<noteq> nHeight (sample_store 3)" "nHeight (sample_store 2) \<in> {0..<2 ^ 31 - 1}" "nHeight (sample_store 3) \<in> {0..<2 ^ 31 - 1}"
    by (simp_all add: sample_store_def)
  from coinbase_height_unique [OF ok v v this t t] show ?thesis by (rule conjunct1)
qed

theorem witness_commitment_roundtrip_witness:
  "\<exists>c block'. GenerateCoinbaseCommitment sample_env (height_block 0x53) ((sample_store 2)\<lparr>bi_nTime := 1700000000\<rparr>) = Some (c, block') \<and> check_commitment sample_env block' = Inr True"
proof -
  let ?cb = "vtx (height_block 0x53) ! 0"
  have "GetWitnessCommitmentIndex (height_block 0x53) = None" "vtx (height_block 0x53) = ?cb # []" "vin ?cb \<noteq> []" "\<not> HasWitness ?cb"
    "IsBTC16BIPsEnabled (ep_net sample_env) (bi_nTime ((sample_store 2)\<lparr>bi_nTime := 1700000000\<rparr>))" "\<forall>b. length (ep_Hash sample_env b) = 32"
    by (simp_all add: GetWitnessCommitmentIndex_def height_block_def small_coinbase_def is_witness_commitment_def MINIMUM_WITNESS_COMMITMENT_def HasWitness_def
        IsBTC16BIPsEnabled_def nBTC16BIPsSwitchTime_def sample_env_def)
  from witness_commitment_roundtrip [OF this] show ?thesis by blast
qed

definition stake_coinbase :: CTransaction where
  "stake_coinbase = \<lparr>vin = [\<lparr>prevout = COutPoint_null, scriptSig = [0x53, 0], nSequence = SEQUENCE_FINAL, scriptWitness = []\<rparr>],
     vout = [\<lparr>nValue = 0, scriptPubKey = []\<rparr>], tx_nVersion = 3, tx_nTime = 0, nLockTime = 0\<rparr>"

definition sample_coinstake :: CTransaction where
  "sample_coinstake = \<lparr>vin = [\<lparr>prevout = \<lparr>op_hash = replicate 32 1, op_n = 0\<rparr>, scriptSig = [], nSequence = SEQUENCE_FINAL, scriptWitness = []\<rparr>],
     vout = [\<lparr>nValue = 0, scriptPubKey = []\<rparr>, \<lparr>nValue = 5 * COIN, scriptPubKey = [OP_1]\<rparr>], tx_nVersion = 3, tx_nTime = 0, nLockTime = 0\<rparr>"

definition stake_block :: CBlock where
  "stake_block = \<lparr>header = \<lparr>hdr_nVersion = 4, hashPrevBlock = uint256_null, hashMerkleRoot = 64 # replicate 31 0, hdr_nTime = 1700000000, hdr_nBits = 0, hdr_nNonce = 0, hdr_nFlags = 0\<rparr>,
     vtx = [stake_coinbase, sample_coinstake], vchBlockSig = [1]\<rparr>"

lemmas stake_defs = stake_block_def stake_coinbase_def sample_coinstake_def COutPoint_null_def uint256_null_def HasWitness_def

lemma stake_sizes:
  "length (SerializeTransaction w stake_coinbase) = 62" "length (SerializeTransaction w sample_coinstake) = 70" "length (ser_CBlock v w stake_block) \<le> 300"
  by (simp_all add: stake_defs ser_length)

lemma stake_block_kind: "block_IsProofOfStake stake_block" "IsCoinBase stake_coinbase" "\<not> IsCoinBase sample_coinstake"
  by (simp_all add: block_IsProofOfStake_def IsCoinStake_def IsCoinBase_def stake_defs COutPoint_IsNull_def CTxOut_IsEmpty_def blob_IsNull_def NULL_INDEX_def list_all_iff)

lemma stake_txs_ok: "CheckTransaction stake_coinbase = Inr ()" "CheckTransaction sample_coinstake = Inr ()"
  unfolding CheckTransaction_iff stake_sizes if_P [OF stake_block_kind(2)] if_not_P [OF stake_block_kind(3)]
  by (auto simp: MAX_BLOCK_WEIGHT_def output_valid_def tx_value_out_def stake_defs COIN_def CENT_def MAX_MONEY_def MIN_TXOUT_AMOUNT_def CTxOut_IsEmpty_def
      COutPoint_IsNull_def blob_IsNull_def list_all_iff)

lemma stake_root: "BlockMerkleRoot (ep_Hash sample_env) stake_block True = (hashMerkleRoot (header stake_block), False)"
proof -
  have "map (tx_ComputeHash (ep_Hash sample_env)) (vtx stake_block) = [62 # replicate 31 0, 70 # replicate 31 0]"
    by (simp add: stake_block_def tx_ComputeHash_def sample_env_def stake_sizes)
  moreover have "merkle_loop (ep_Hash sample_env) True [62 # replicate 31 0, 70 # replicate 31 0] False = ([64 # replicate 31 0], False)"
    by (simp add: merkle_loop.simps pad_odd_def sample_env_def)
  ultimately show ?thesis by (simp add: BlockMerkleRoot_def ComputeMerkleRoot_def stake_block_def)
qed

lemma stake_contents: "check_contents stake_block = Inr ()"
proof -
  have "check_transactions (vtx stake_block) = Inr ()" using stake_txs_ok by (simp add: check_transactions_iff) (simp add: stake_block_def)
  moreover have "sum_list (map GetLegacySigOpCount (vtx stake_block)) = 0"
    by (simp add: stake_defs GetLegacySigOpCount_def GetSigOpCount_def sigop_loop.simps GetScriptOp_def read_push_size_def sigop_step_def)
  ultimately show ?thesis
    using stake_block_kind stake_sizes(3) [of "PROTOCOL_VERSION OR SERIALIZE_TRANSACTION_NO_WITNESS" True]
    by (simp add: check_contents_def block_GetSerializeSize_def WITNESS_SCALE_FACTOR_def MAX_BLOCK_WEIGHT_def MAX_BLOCK_SIGOPS_COST_def Let_def)
      (simp add: stake_defs block_time_def tx_time_def CheckCoinStakeTimestamp_def MAX_FUTURE_BLOCK_TIME_def CTxOut_IsEmpty_def)
qed

theorem bad_signature_accepted_later_witness:
  "fst (CheckBlock sample_env stake_block True True True False empty_cache) = Inl (Blk_invalid BLOCK_CONSENSUS ''bad-blk-sign'') \<and>
   CheckBlock sample_env stake_block True True True True empty_cache = (Inr (), True, empty_cache)"
proof -
  have c: "CheckBlock sample_env stake_block True True False False empty_cache = (Inr (), True, empty_cache)"
    using stake_block_kind(1) stake_contents stake_root by (simp add: CheckBlock_def CheckBlockHeader_def check_merkle_root_def) (simp add: sample_env_def)
  have "Solver [OP_1] = (NONSTANDARD, [])" by code_simp
  then have "CheckBlockSignature sample_env stake_block = Some False"
    using stake_block_kind(1) by (simp add: CheckBlockSignature_def) (simp add: stake_defs sample_env_def header_GetHash_def)
  from bad_signature_accepted_later [OF c stake_block_kind(1) this] show ?thesis by simp
qed

definition late_block :: CBlock where
  "late_block = stake_block\<lparr>header := (header stake_block)\<lparr>hashMerkleRoot := 66 # replicate 31 0\<rparr>, vtx := [stake_coinbase\<lparr>tx_nVersion := 2, tx_nTime := 1800000000\<rparr>]\<rparr>"

text \<open>
  The time of a transaction is not compared with the time of its block. The comparison stands behind the return statement of the
  failure branch, and a block with a transaction more than three years in its future is accepted.
\<close>

theorem late_transaction_accepted:
  "block_time late_block + 100000000 \<le> uint (tx_nTime (vtx late_block ! 0)) \<and>
   CheckBlock sample_env late_block False True True False empty_cache = (Inr (), False, empty_cache)"
proof -
  let ?cb = "stake_coinbase\<lparr>tx_nVersion := 2, tx_nTime := 1800000000\<rparr>"
  have size: "length (SerializeTransaction w ?cb) = 66" "length (ser_CBlock v w late_block) \<le> 300" for v w
    by (simp_all add: late_block_def stake_defs ser_length)
  have kind: "\<not> block_IsProofOfStake late_block" "IsCoinBase ?cb"
    by (simp_all add: late_block_def block_IsProofOfStake_def IsCoinBase_def stake_defs COutPoint_IsNull_def blob_IsNull_def NULL_INDEX_def list_all_iff)
  have tx: "CheckTransaction ?cb = Inr ()"
    unfolding CheckTransaction_iff size if_P [OF kind(2)]
    by (auto simp: MAX_BLOCK_WEIGHT_def output_valid_def tx_value_out_def stake_defs COIN_def MAX_MONEY_def CTxOut_IsEmpty_def)
  have "check_transactions (vtx late_block) = Inr ()" using tx by (simp add: check_transactions_iff late_block_def)
  moreover have "sum_list (map GetLegacySigOpCount (vtx late_block)) = 0"
    by (simp add: late_block_def stake_defs GetLegacySigOpCount_def GetSigOpCount_def sigop_loop.simps GetScriptOp_def read_push_size_def sigop_step_def)
  ultimately have contents: "check_contents late_block = Inr ()"
    using kind size(2) [of "PROTOCOL_VERSION OR SERIALIZE_TRANSACTION_NO_WITNESS" True]
    by (simp add: check_contents_def block_GetSerializeSize_def WITNESS_SCALE_FACTOR_def MAX_BLOCK_WEIGHT_def MAX_BLOCK_SIGOPS_COST_def Let_def)
      (simp add: late_block_def stake_defs block_time_def tx_time_def MAX_FUTURE_BLOCK_TIME_def)
  have "BlockMerkleRoot (ep_Hash sample_env) late_block True = (hashMerkleRoot (header late_block), False)"
    using size(1) [of False] by (simp add: BlockMerkleRoot_def ComputeMerkleRoot_def late_block_def merkle_loop.simps tx_ComputeHash_def sample_env_def)
  moreover have "IsBTC16BIPsEnabled (ep_net sample_env) (hdr_nTime (header late_block))"
    by (simp add: IsBTC16BIPsEnabled_def sample_env_def late_block_def stake_block_def nBTC16BIPsSwitchTime_def)
  ultimately have "CheckBlock sample_env late_block False True True False empty_cache = (Inr (), False, empty_cache)"
    using kind contents by (simp add: CheckBlock_def CheckBlockHeader_def check_merkle_root_def)
  then show ?thesis by (simp add: late_block_def stake_block_def block_time_def)
qed

end
