(* ===== verification/Script_Eval.thy ===== *)
theory Script_Eval
  imports Standard Tx_Verify "HOL-Library.Sublist"
begin

text \<open>
  The script interpreter, \<^verbatim>\<open>EvalScript\<close> of \<^verbatim>\<open>src/src/script/interpreter.cpp\<close>: encodings of signatures and public keys, the condition
  stack, the signature opcodes and every other opcode. A stack is a list with its top first. The exceptions of the code (an
  access below the stack, a malformed number) end in \<^verbatim>\<open>SCRIPT_ERR_UNKNOWN_ERROR\<close>, as its \<^verbatim>\<open>catch\<close> does; a failed assertion is
  a failure of its own. Hash functions and elliptic curve operations are parameters, and so is the signature checker, an
  abstract class of the code.
\<close>

subsection \<open>Errors and flags\<close>

datatype ScriptError = SCRIPT_ERR_OK | SCRIPT_ERR_UNKNOWN_ERROR | SCRIPT_ERR_EVAL_FALSE | SCRIPT_ERR_OP_RETURN |
  SCRIPT_ERR_SCRIPT_SIZE | SCRIPT_ERR_PUSH_SIZE | SCRIPT_ERR_OP_COUNT | SCRIPT_ERR_STACK_SIZE | SCRIPT_ERR_SIG_COUNT |
  SCRIPT_ERR_PUBKEY_COUNT | SCRIPT_ERR_VERIFY | SCRIPT_ERR_EQUALVERIFY | SCRIPT_ERR_CHECKMULTISIGVERIFY |
  SCRIPT_ERR_CHECKSIGVERIFY | SCRIPT_ERR_NUMEQUALVERIFY | SCRIPT_ERR_BAD_OPCODE | SCRIPT_ERR_DISABLED_OPCODE |
  SCRIPT_ERR_INVALID_STACK_OPERATION | SCRIPT_ERR_INVALID_ALTSTACK_OPERATION | SCRIPT_ERR_UNBALANCED_CONDITIONAL |
  SCRIPT_ERR_NEGATIVE_LOCKTIME | SCRIPT_ERR_UNSATISFIED_LOCKTIME | SCRIPT_ERR_SIG_HASHTYPE | SCRIPT_ERR_SIG_DER |
  SCRIPT_ERR_MINIMALDATA | SCRIPT_ERR_SIG_PUSHONLY | SCRIPT_ERR_SIG_HIGH_S | SCRIPT_ERR_SIG_NULLDUMMY | SCRIPT_ERR_PUBKEYTYPE |
  SCRIPT_ERR_CLEANSTACK | SCRIPT_ERR_MINIMALIF | SCRIPT_ERR_SIG_NULLFAIL | SCRIPT_ERR_DISCOURAGE_UPGRADABLE_NOPS |
  SCRIPT_ERR_DISCOURAGE_UPGRADABLE_WITNESS_PROGRAM | SCRIPT_ERR_DISCOURAGE_UPGRADABLE_TAPROOT_VERSION |
  SCRIPT_ERR_DISCOURAGE_OP_SUCCESS | SCRIPT_ERR_DISCOURAGE_UPGRADABLE_PUBKEYTYPE | SCRIPT_ERR_WITNESS_PROGRAM_WRONG_LENGTH |
  SCRIPT_ERR_WITNESS_PROGRAM_WITNESS_EMPTY | SCRIPT_ERR_WITNESS_PROGRAM_MISMATCH | SCRIPT_ERR_WITNESS_MALLEATED |
  SCRIPT_ERR_WITNESS_MALLEATED_P2SH | SCRIPT_ERR_WITNESS_UNEXPECTED | SCRIPT_ERR_WITNESS_PUBKEYTYPE |
  SCRIPT_ERR_SCHNORR_SIG_SIZE | SCRIPT_ERR_SCHNORR_SIG_HASHTYPE | SCRIPT_ERR_SCHNORR_SIG |
  SCRIPT_ERR_TAPROOT_WRONG_CONTROL_SIZE | SCRIPT_ERR_TAPSCRIPT_VALIDATION_WEIGHT | SCRIPT_ERR_TAPSCRIPT_CHECKMULTISIG |
  SCRIPT_ERR_TAPSCRIPT_MINIMALIF | SCRIPT_ERR_OP_CODESEPARATOR | SCRIPT_ERR_SIG_FINDANDDELETE | SCRIPT_ERR_ERROR_COUNT

definition ScriptErrorString :: "ScriptError \<Rightarrow> string" where
  "ScriptErrorString serror =
     (case serror of
        SCRIPT_ERR_OK \<Rightarrow> ''No error''
      | SCRIPT_ERR_EVAL_FALSE \<Rightarrow> ''Script evaluated without error but finished with a false/empty top stack element''
      | SCRIPT_ERR_VERIFY \<Rightarrow> ''Script failed an OP_VERIFY operation''
      | SCRIPT_ERR_EQUALVERIFY \<Rightarrow> ''Script failed an OP_EQUALVERIFY operation''
      | SCRIPT_ERR_CHECKMULTISIGVERIFY \<Rightarrow> ''Script failed an OP_CHECKMULTISIGVERIFY operation''
      | SCRIPT_ERR_CHECKSIGVERIFY \<Rightarrow> ''Script failed an OP_CHECKSIGVERIFY operation''
      | SCRIPT_ERR_NUMEQUALVERIFY \<Rightarrow> ''Script failed an OP_NUMEQUALVERIFY operation''
      | SCRIPT_ERR_SCRIPT_SIZE \<Rightarrow> ''Script is too big''
      | SCRIPT_ERR_PUSH_SIZE \<Rightarrow> ''Push value size limit exceeded''
      | SCRIPT_ERR_OP_COUNT \<Rightarrow> ''Operation limit exceeded''
      | SCRIPT_ERR_STACK_SIZE \<Rightarrow> ''Stack size limit exceeded''
      | SCRIPT_ERR_SIG_COUNT \<Rightarrow> ''Signature count negative or greater than pubkey count''
      | SCRIPT_ERR_PUBKEY_COUNT \<Rightarrow> ''Pubkey count negative or limit exceeded''
      | SCRIPT_ERR_BAD_OPCODE \<Rightarrow> ''Opcode missing or not understood''
      | SCRIPT_ERR_DISABLED_OPCODE \<Rightarrow> ''Attempted to use a disabled opcode''
      | SCRIPT_ERR_INVALID_STACK_OPERATION \<Rightarrow> ''Operation not valid with the current stack size''
      | SCRIPT_ERR_INVALID_ALTSTACK_OPERATION \<Rightarrow> ''Operation not valid with the current altstack size''
      | SCRIPT_ERR_OP_RETURN \<Rightarrow> ''OP_RETURN was encountered''
      | SCRIPT_ERR_UNBALANCED_CONDITIONAL \<Rightarrow> ''Invalid OP_IF construction''
      | SCRIPT_ERR_NEGATIVE_LOCKTIME \<Rightarrow> ''Negative locktime''
      | SCRIPT_ERR_UNSATISFIED_LOCKTIME \<Rightarrow> ''Locktime requirement not satisfied''
      | SCRIPT_ERR_SIG_HASHTYPE \<Rightarrow> ''Signature hash type missing or not understood''
      | SCRIPT_ERR_SIG_DER \<Rightarrow> ''Non-canonical DER signature''
      | SCRIPT_ERR_MINIMALDATA \<Rightarrow> ''Data push larger than necessary''
      | SCRIPT_ERR_SIG_PUSHONLY \<Rightarrow> ''Only push operators allowed in signatures''
      | SCRIPT_ERR_SIG_HIGH_S \<Rightarrow> ''Non-canonical signature: S value is unnecessarily high''
      | SCRIPT_ERR_SIG_NULLDUMMY \<Rightarrow> ''Dummy CHECKMULTISIG argument must be zero''
      | SCRIPT_ERR_MINIMALIF \<Rightarrow> ''OP_IF/NOTIF argument must be minimal''
      | SCRIPT_ERR_SIG_NULLFAIL \<Rightarrow> ''Signature must be zero for failed CHECK(MULTI)SIG operation''
      | SCRIPT_ERR_DISCOURAGE_UPGRADABLE_NOPS \<Rightarrow> ''NOPx reserved for soft-fork upgrades''
      | SCRIPT_ERR_DISCOURAGE_UPGRADABLE_WITNESS_PROGRAM \<Rightarrow> ''Witness version reserved for soft-fork upgrades''
      | SCRIPT_ERR_DISCOURAGE_UPGRADABLE_TAPROOT_VERSION \<Rightarrow> ''Taproot version reserved for soft-fork upgrades''
      | SCRIPT_ERR_DISCOURAGE_OP_SUCCESS \<Rightarrow> ''OP_SUCCESSx reserved for soft-fork upgrades''
      | SCRIPT_ERR_DISCOURAGE_UPGRADABLE_PUBKEYTYPE \<Rightarrow> ''Public key version reserved for soft-fork upgrades''
      | SCRIPT_ERR_PUBKEYTYPE \<Rightarrow> ''Public key is neither compressed or uncompressed''
      | SCRIPT_ERR_CLEANSTACK \<Rightarrow> ''Stack size must be exactly one after execution''
      | SCRIPT_ERR_WITNESS_PROGRAM_WRONG_LENGTH \<Rightarrow> ''Witness program has incorrect length''
      | SCRIPT_ERR_WITNESS_PROGRAM_WITNESS_EMPTY \<Rightarrow> ''Witness program was passed an empty witness''
      | SCRIPT_ERR_WITNESS_PROGRAM_MISMATCH \<Rightarrow> ''Witness program hash mismatch''
      | SCRIPT_ERR_WITNESS_MALLEATED \<Rightarrow> ''Witness requires empty scriptSig''
      | SCRIPT_ERR_WITNESS_MALLEATED_P2SH \<Rightarrow> ''Witness requires only-redeemscript scriptSig''
      | SCRIPT_ERR_WITNESS_UNEXPECTED \<Rightarrow> ''Witness provided for non-witness script''
      | SCRIPT_ERR_WITNESS_PUBKEYTYPE \<Rightarrow> ''Using non-compressed keys in segwit''
      | SCRIPT_ERR_SCHNORR_SIG_SIZE \<Rightarrow> ''Invalid Schnorr signature size''
      | SCRIPT_ERR_SCHNORR_SIG_HASHTYPE \<Rightarrow> ''Invalid Schnorr signature hash type''
      | SCRIPT_ERR_SCHNORR_SIG \<Rightarrow> ''Invalid Schnorr signature''
      | SCRIPT_ERR_TAPROOT_WRONG_CONTROL_SIZE \<Rightarrow> ''Invalid Taproot control block size''
      | SCRIPT_ERR_TAPSCRIPT_VALIDATION_WEIGHT \<Rightarrow> ''Too much signature validation relative to witness weight''
      | SCRIPT_ERR_TAPSCRIPT_CHECKMULTISIG \<Rightarrow> ''OP_CHECKMULTISIG(VERIFY) is not available in tapscript''
      | SCRIPT_ERR_TAPSCRIPT_MINIMALIF \<Rightarrow> ''OP_IF/NOTIF argument must be minimal in tapscript''
      | SCRIPT_ERR_OP_CODESEPARATOR \<Rightarrow> ''Using OP_CODESEPARATOR in non-witness script''
      | SCRIPT_ERR_SIG_FINDANDDELETE \<Rightarrow> ''Signature is found in scriptCode''
      | _ \<Rightarrow> ''unknown error'')"

datatype script_failure = Script_err ScriptError | Script_assert

abbreviation (input) script_error :: "ScriptError \<Rightarrow> script_failure + 'a" where "script_error e \<equiv> Inl (Script_err e)"

definition SCRIPT_VERIFY_STRICTENC :: u32 where "SCRIPT_VERIFY_STRICTENC = push_bit 1 1"
definition SCRIPT_VERIFY_DERSIG :: u32 where "SCRIPT_VERIFY_DERSIG = push_bit 2 1"
definition SCRIPT_VERIFY_LOW_S :: u32 where "SCRIPT_VERIFY_LOW_S = push_bit 3 1"
definition SCRIPT_VERIFY_NULLDUMMY :: u32 where "SCRIPT_VERIFY_NULLDUMMY = push_bit 4 1"
definition SCRIPT_VERIFY_SIGPUSHONLY :: u32 where "SCRIPT_VERIFY_SIGPUSHONLY = push_bit 5 1"
definition SCRIPT_VERIFY_MINIMALDATA :: u32 where "SCRIPT_VERIFY_MINIMALDATA = push_bit 6 1"
definition SCRIPT_VERIFY_DISCOURAGE_UPGRADABLE_NOPS :: u32 where "SCRIPT_VERIFY_DISCOURAGE_UPGRADABLE_NOPS = push_bit 7 1"
definition SCRIPT_VERIFY_CLEANSTACK :: u32 where "SCRIPT_VERIFY_CLEANSTACK = push_bit 8 1"
definition SCRIPT_VERIFY_CHECKLOCKTIMEVERIFY :: u32 where "SCRIPT_VERIFY_CHECKLOCKTIMEVERIFY = push_bit 9 1"
definition SCRIPT_VERIFY_CHECKSEQUENCEVERIFY :: u32 where "SCRIPT_VERIFY_CHECKSEQUENCEVERIFY = push_bit 10 1"
definition SCRIPT_VERIFY_DISCOURAGE_UPGRADABLE_WITNESS_PROGRAM :: u32 where "SCRIPT_VERIFY_DISCOURAGE_UPGRADABLE_WITNESS_PROGRAM = push_bit 12 1"
definition SCRIPT_VERIFY_MINIMALIF :: u32 where "SCRIPT_VERIFY_MINIMALIF = push_bit 13 1"
definition SCRIPT_VERIFY_NULLFAIL :: u32 where "SCRIPT_VERIFY_NULLFAIL = push_bit 14 1"
definition SCRIPT_VERIFY_WITNESS_PUBKEYTYPE :: u32 where "SCRIPT_VERIFY_WITNESS_PUBKEYTYPE = push_bit 15 1"
definition SCRIPT_VERIFY_CONST_SCRIPTCODE :: u32 where "SCRIPT_VERIFY_CONST_SCRIPTCODE = push_bit 16 1"
definition SCRIPT_VERIFY_TAPROOT :: u32 where "SCRIPT_VERIFY_TAPROOT = push_bit 17 1"
definition SCRIPT_VERIFY_DISCOURAGE_UPGRADABLE_TAPROOT_VERSION :: u32 where "SCRIPT_VERIFY_DISCOURAGE_UPGRADABLE_TAPROOT_VERSION = push_bit 18 1"
definition SCRIPT_VERIFY_DISCOURAGE_OP_SUCCESS :: u32 where "SCRIPT_VERIFY_DISCOURAGE_OP_SUCCESS = push_bit 19 1"
definition SCRIPT_VERIFY_DISCOURAGE_UPGRADABLE_PUBKEYTYPE :: u32 where "SCRIPT_VERIFY_DISCOURAGE_UPGRADABLE_PUBKEYTYPE = push_bit 20 1"

datatype SigVersion = SIGVERSION_BASE | WITNESS_V0 | TAPROOT | TAPSCRIPT

definition SIGHASH_ALL :: int where "SIGHASH_ALL = 1"
definition SIGHASH_NONE :: int where "SIGHASH_NONE = 2"
definition SIGHASH_SINGLE :: int where "SIGHASH_SINGLE = 3"
definition SIGHASH_ANYONECANPAY :: int where "SIGHASH_ANYONECANPAY = 0x80"
definition SIGHASH_DEFAULT :: int where "SIGHASH_DEFAULT = 0"
definition SIGHASH_OUTPUT_MASK :: int where "SIGHASH_OUTPUT_MASK = 3"
definition SIGHASH_INPUT_MASK :: int where "SIGHASH_INPUT_MASK = 0x80"

record ScriptExecutionData =
  m_tapleaf_hash_init :: bool
  m_tapleaf_hash :: uint256
  m_codeseparator_pos_init :: bool
  m_codeseparator_pos :: u32
  m_annex_init :: bool
  m_annex_present :: bool
  m_annex_hash :: uint256
  m_validation_weight_left_init :: bool
  m_validation_weight_left :: int
  m_output_hash :: "uint256 option"

definition ScriptExecutionData_default :: ScriptExecutionData where
  "ScriptExecutionData_default = \<lparr>m_tapleaf_hash_init = False, m_tapleaf_hash = uint256_null, m_codeseparator_pos_init = False,
     m_codeseparator_pos = 0, m_annex_init = False, m_annex_present = False, m_annex_hash = uint256_null,
     m_validation_weight_left_init = False, m_validation_weight_left = 0, m_output_hash = None\<rparr>"

definition VALIDATION_WEIGHT_PER_SIGOP_PASSED :: int where "VALIDATION_WEIGHT_PER_SIGOP_PASSED = 50"
definition VALIDATION_WEIGHT_OFFSET :: int where "VALIDATION_WEIGHT_OFFSET = 50"

text \<open>
  The hash functions of \<^verbatim>\<open>crypto/\<close> and the operations of the elliptic curve library: verification of ECDSA and Schnorr signatures
  (key, hash, signature), the check for a low S value and the check of a tweaked key (output key, internal key, root, parity).
\<close>

record crypto =
  sha256 :: "bytes \<Rightarrow> bytes"
  ripemd160 :: "bytes \<Rightarrow> bytes"
  sha1 :: "bytes \<Rightarrow> bytes"
  ecdsa_verify :: "bytes \<Rightarrow> uint256 \<Rightarrow> bytes \<Rightarrow> bool"
  schnorr_verify :: "bytes \<Rightarrow> uint256 \<Rightarrow> bytes \<Rightarrow> bool"
  CheckLowS :: "bytes \<Rightarrow> bool"
  CheckTapTweak :: "bytes \<Rightarrow> bytes \<Rightarrow> uint256 \<Rightarrow> bool \<Rightarrow> bool"

text \<open>The class \<^verbatim>\<open>BaseSignatureChecker\<close>. A Schnorr check may store the hash of an output in the execution data.\<close>

record BaseSignatureChecker =
  CheckECDSASignature :: "bytes \<Rightarrow> bytes \<Rightarrow> CScript \<Rightarrow> SigVersion \<Rightarrow> script_failure + bool"
  CheckSchnorrSignature :: "bytes \<Rightarrow> bytes \<Rightarrow> SigVersion \<Rightarrow> ScriptExecutionData \<Rightarrow> script_failure + ScriptExecutionData"
  CheckLockTime :: "int \<Rightarrow> bool"
  CheckSequence :: "int \<Rightarrow> bool"

subsection \<open>Encodings\<close>

fun CastToBool :: "bytes \<Rightarrow> bool" where
  "CastToBool [] = False"
| "CastToBool (b # vch) = (if b \<noteq> 0 then \<not> (vch = [] \<and> b = 0x80) else CastToBool vch)"

definition IsCompressedOrUncompressedPubKey :: "bytes \<Rightarrow> bool" where
  "IsCompressedOrUncompressedPubKey vchPubKey =
     (if length vchPubKey < PUBKEY_COMPRESSED_SIZE then False
      else if vchPubKey ! 0 = 0x04 then length vchPubKey = PUBKEY_SIZE
      else if vchPubKey ! 0 = 0x02 \<or> vchPubKey ! 0 = 0x03 then length vchPubKey = PUBKEY_COMPRESSED_SIZE
      else False)"

definition IsCompressedPubKey :: "bytes \<Rightarrow> bool" where
  "IsCompressedPubKey vchPubKey =
     (if length vchPubKey \<noteq> PUBKEY_COMPRESSED_SIZE then False
      else \<not> (vchPubKey ! 0 \<noteq> 0x02 \<and> vchPubKey ! 0 \<noteq> 0x03))"

definition IsValidSignatureEncoding :: "bytes \<Rightarrow> bool" where
  "IsValidSignatureEncoding sig =
     (if length sig < 9 then False
      else if length sig > 73 then False
      else if sig ! 0 \<noteq> 0x30 then False
      else if unat (sig ! 1) \<noteq> length sig - 3 then False
      else let lenR = unat (sig ! 3) in
        if 5 + lenR \<ge> length sig then False
        else let lenS = unat (sig ! (5 + lenR)) in
          if lenR + lenS + 7 \<noteq> length sig then False
          else if sig ! 2 \<noteq> 0x02 then False
          else if lenR = 0 then False
          else if sig ! 4 AND 0x80 \<noteq> 0 then False
          else if lenR > 1 \<and> sig ! 4 = 0 \<and> sig ! 5 AND 0x80 = 0 then False
          else if sig ! (lenR + 4) \<noteq> 0x02 then False
          else if lenS = 0 then False
          else if sig ! (lenR + 6) AND 0x80 \<noteq> 0 then False
          else if lenS > 1 \<and> sig ! (lenR + 6) = 0 \<and> sig ! (lenR + 7) AND 0x80 = 0 then False
          else True)"

definition IsLowDERSignature :: "crypto \<Rightarrow> bytes \<Rightarrow> script_failure + unit" where
  "IsLowDERSignature cr vchSig =
     (if \<not> IsValidSignatureEncoding vchSig then script_error SCRIPT_ERR_SIG_DER
      else if \<not> CheckLowS cr (butlast vchSig) then script_error SCRIPT_ERR_SIG_HIGH_S
      else Inr ())"

definition IsDefinedHashtypeSignature :: "bytes \<Rightarrow> bool" where
  "IsDefinedHashtypeSignature vchSig =
     (if length vchSig = 0 then False
      else let nHashType = uint (last vchSig) AND NOT SIGHASH_ANYONECANPAY
           in \<not> (nHashType < SIGHASH_ALL \<or> nHashType > SIGHASH_SINGLE))"

definition CheckSignatureEncoding :: "crypto \<Rightarrow> bytes \<Rightarrow> u32 \<Rightarrow> script_failure + unit" where
  "CheckSignatureEncoding cr vchSig flags =
     (if length vchSig = 0 then Inr ()
      else if flags AND (SCRIPT_VERIFY_DERSIG OR SCRIPT_VERIFY_LOW_S OR SCRIPT_VERIFY_STRICTENC) \<noteq> 0 \<and> \<not> IsValidSignatureEncoding vchSig
      then script_error SCRIPT_ERR_SIG_DER
      else ebind (if flags AND SCRIPT_VERIFY_LOW_S \<noteq> 0 then IsLowDERSignature cr vchSig else Inr ()) (\<lambda>_.
        if flags AND SCRIPT_VERIFY_STRICTENC \<noteq> 0 \<and> \<not> IsDefinedHashtypeSignature vchSig then script_error SCRIPT_ERR_SIG_HASHTYPE
        else Inr ()))"

definition CheckPubKeyEncoding :: "bytes \<Rightarrow> u32 \<Rightarrow> SigVersion \<Rightarrow> script_failure + unit" where
  "CheckPubKeyEncoding vchPubKey flags sigversion =
     (if flags AND SCRIPT_VERIFY_STRICTENC \<noteq> 0 \<and> \<not> IsCompressedOrUncompressedPubKey vchPubKey then script_error SCRIPT_ERR_PUBKEYTYPE
      else if flags AND SCRIPT_VERIFY_WITNESS_PUBKEYTYPE \<noteq> 0 \<and> sigversion = WITNESS_V0 \<and> \<not> IsCompressedPubKey vchPubKey
      then script_error SCRIPT_ERR_WITNESS_PUBKEYTYPE
      else Inr ())"

subsection \<open>Removing a signature from a script\<close>

text \<open>The inner loop skips the occurrences of the non-empty pattern at the current position and counts them.\<close>

function skip_matches :: "bytes \<Rightarrow> bytes \<Rightarrow> nat \<Rightarrow> bytes \<times> nat" where
  "skip_matches b pc nFound =
     (if b \<noteq> [] \<and> length pc \<ge> length b \<and> take (length b) pc = b then skip_matches b (drop (length b) pc) (nFound + 1) else (pc, nFound))"
  by pat_completeness auto
termination by (relation "measure (\<lambda>(b, pc, n). length pc)") (auto simp: neq_Nil_conv)

declare skip_matches.simps [simp del]

lemma skip_matches_le: "skip_matches b pc n = (pc', n') \<Longrightarrow> length pc' \<le> length pc"
  by (induction b pc n rule: skip_matches.induct) (subst (asm) (2) skip_matches.simps, force split: if_splits)

function find_delete :: "bytes \<Rightarrow> bytes \<Rightarrow> nat \<Rightarrow> bytes \<Rightarrow> nat \<times> bytes" where
  "find_delete b pc nFound result =
     (let (pc, nFound) = skip_matches b pc nFound in
      case GetScriptOp pc of None \<Rightarrow> (nFound, result @ pc)
      | Some (opcode, vch, pc') \<Rightarrow> find_delete b pc' nFound (result @ take (length pc - length pc') pc))"
  by pat_completeness auto
termination
proof (relation "measure (\<lambda>(b, pc, n, r). length pc)", goal_cases)
  case (2 b pc nFound result x pc1 n1 y opcode z vch pc')
  then have "length pc1 \<le> length pc" using skip_matches_le [of b pc nFound pc1 n1] by simp
  moreover have "length pc' < length pc1" using 2 GetScriptOp_less [of pc1 opcode vch pc'] by simp
  ultimately show ?case by simp
qed simp

declare find_delete.simps [simp del]

definition FindAndDelete :: "CScript \<Rightarrow> CScript \<Rightarrow> nat \<times> CScript" where
  "FindAndDelete script b =
     (if b = [] then (0, script)
      else let (nFound, result) = find_delete b script 0 [] in (nFound, if nFound > 0 then result else script))"

subsection \<open>The condition stack\<close>

record ConditionStack =
  m_stack_size :: u32
  m_first_false_pos :: u32

definition NO_FALSE :: u32 where "NO_FALSE = 0xffffffff"

definition ConditionStack_new :: ConditionStack where "ConditionStack_new = \<lparr>m_stack_size = 0, m_first_false_pos = NO_FALSE\<rparr>"

definition cond_empty :: "ConditionStack \<Rightarrow> bool" where "cond_empty c \<longleftrightarrow> m_stack_size c = 0"
definition all_true :: "ConditionStack \<Rightarrow> bool" where "all_true c \<longleftrightarrow> m_first_false_pos c = NO_FALSE"

definition cond_push_back :: "ConditionStack \<Rightarrow> bool \<Rightarrow> ConditionStack" where
  "cond_push_back c f =
     (let c = (if m_first_false_pos c = NO_FALSE \<and> \<not> f then c\<lparr>m_first_false_pos := m_stack_size c\<rparr> else c)
      in c\<lparr>m_stack_size := m_stack_size c + 1\<rparr>)"

definition cond_pop_back :: "ConditionStack \<Rightarrow> ConditionStack option" where
  "cond_pop_back c =
     (if m_stack_size c = 0 then None
      else let c = c\<lparr>m_stack_size := m_stack_size c - 1\<rparr>
           in Some (if m_first_false_pos c = m_stack_size c then c\<lparr>m_first_false_pos := NO_FALSE\<rparr> else c))"

definition toggle_top :: "ConditionStack \<Rightarrow> ConditionStack option" where
  "toggle_top c =
     (if m_stack_size c = 0 then None
      else Some (if m_first_false_pos c = NO_FALSE then c\<lparr>m_first_false_pos := m_stack_size c - 1\<rparr>
                 else if m_first_false_pos c = m_stack_size c - 1 then c\<lparr>m_first_false_pos := NO_FALSE\<rparr>
                 else c))"

subsection \<open>Signature checks\<close>

definition EvalChecksigPreTapscript ::
  "crypto \<Rightarrow> bytes \<Rightarrow> bytes \<Rightarrow> bytes \<Rightarrow> u32 \<Rightarrow> BaseSignatureChecker \<Rightarrow> SigVersion \<Rightarrow> script_failure + bool" where
  "EvalChecksigPreTapscript cr vchSig vchPubKey pbegincodehash flags checker sigversion =
     (if \<not> (sigversion = SIGVERSION_BASE \<or> sigversion = WITNESS_V0) then Inl Script_assert
      else let (found, scriptCode) = (if sigversion = SIGVERSION_BASE then FindAndDelete pbegincodehash (push_data vchSig) else (0, pbegincodehash))
        in if found > 0 \<and> flags AND SCRIPT_VERIFY_CONST_SCRIPTCODE \<noteq> 0 then script_error SCRIPT_ERR_SIG_FINDANDDELETE
           else ebind (CheckSignatureEncoding cr vchSig flags) (\<lambda>_.
             ebind (CheckPubKeyEncoding vchPubKey flags sigversion) (\<lambda>_.
             ebind (CheckECDSASignature checker vchSig vchPubKey scriptCode sigversion) (\<lambda>fSuccess.
             if \<not> fSuccess \<and> flags AND SCRIPT_VERIFY_NULLFAIL \<noteq> 0 \<and> length vchSig > 0 then script_error SCRIPT_ERR_SIG_NULLFAIL
             else Inr fSuccess))))"

definition EvalChecksigTapscript ::
  "bytes \<Rightarrow> bytes \<Rightarrow> ScriptExecutionData \<Rightarrow> u32 \<Rightarrow> BaseSignatureChecker \<Rightarrow> SigVersion
     \<Rightarrow> script_failure + bool \<times> ScriptExecutionData" where
  "EvalChecksigTapscript sig pubkey execdata flags checker sigversion =
     (if sigversion \<noteq> TAPSCRIPT then Inl Script_assert
      else let success = (sig \<noteq> []) in
        ebind (if success
               then if \<not> m_validation_weight_left_init execdata then Inl Script_assert
                    else let execdata = execdata\<lparr>m_validation_weight_left := m_validation_weight_left execdata - VALIDATION_WEIGHT_PER_SIGOP_PASSED\<rparr>
                         in if m_validation_weight_left execdata < 0 then script_error SCRIPT_ERR_TAPSCRIPT_VALIDATION_WEIGHT
                            else Inr execdata
               else Inr execdata) (\<lambda>execdata.
        if length pubkey = 0 then script_error SCRIPT_ERR_PUBKEYTYPE
        else if length pubkey = 32
        then if success then ebind (CheckSchnorrSignature checker sig pubkey sigversion execdata) (\<lambda>execdata. Inr (success, execdata))
             else Inr (success, execdata)
        else if flags AND SCRIPT_VERIFY_DISCOURAGE_UPGRADABLE_PUBKEYTYPE \<noteq> 0
        then script_error SCRIPT_ERR_DISCOURAGE_UPGRADABLE_PUBKEYTYPE
        else Inr (success, execdata)))"

definition EvalChecksig ::
  "crypto \<Rightarrow> bytes \<Rightarrow> bytes \<Rightarrow> bytes \<Rightarrow> ScriptExecutionData \<Rightarrow> u32 \<Rightarrow> BaseSignatureChecker \<Rightarrow> SigVersion
     \<Rightarrow> script_failure + bool \<times> ScriptExecutionData" where
  "EvalChecksig cr sig pubkey pbegincodehash execdata flags checker sigversion =
     (case sigversion of
        TAPSCRIPT \<Rightarrow> EvalChecksigTapscript sig pubkey execdata flags checker sigversion
      | TAPROOT \<Rightarrow> Inl Script_assert
      | _ \<Rightarrow> ebind (EvalChecksigPreTapscript cr sig pubkey pbegincodehash flags checker sigversion) (\<lambda>success. Inr (success, execdata)))"

subsection \<open>Opcodes that change only the stack\<close>

type_synonym stack = "bytes list"

definition vchFalse :: bytes where "vchFalse = []"
definition vchTrue :: bytes where "vchTrue = [1]"

definition stack_bool :: "bool \<Rightarrow> bytes" where "stack_bool f = (if f then vchTrue else vchFalse)"

abbreviation (input) stack_error :: "script_failure + 'a" where "stack_error \<equiv> script_error SCRIPT_ERR_INVALID_STACK_OPERATION"

text \<open>A number from the stack; the exception of a malformed one ends the script.\<close>

definition stack_num :: "bytes \<Rightarrow> u32 \<Rightarrow> nat \<Rightarrow> script_failure + int" where
  "stack_num vch flags nMaxNumSize =
     (case CScriptNum vch (flags AND SCRIPT_VERIFY_MINIMALDATA \<noteq> 0) nMaxNumSize of
        Inl _ \<Rightarrow> script_error SCRIPT_ERR_UNKNOWN_ERROR | Inr n \<Rightarrow> Inr n)"

definition fits_num :: "int \<Rightarrow> bool" where "fits_num n \<longleftrightarrow> - (2 ^ 63) \<le> n \<and> n < 2 ^ 63"

definition num_add :: "int \<Rightarrow> int \<Rightarrow> script_failure + int" where
  "num_add a b = (if fits_num (a + b) then Inr (a + b) else Inl Script_assert)"

definition num_sub :: "int \<Rightarrow> int \<Rightarrow> script_failure + int" where
  "num_sub a b = (if fits_num (a - b) then Inr (a - b) else Inl Script_assert)"

definition num_neg :: "int \<Rightarrow> script_failure + int" where
  "num_neg a = (if a = - (2 ^ 63) then Inl Script_assert else Inr (- a))"

definition push_number :: "opcodetype \<Rightarrow> stack \<Rightarrow> stack" where
  "push_number opcode stack = scriptnum_serialize (uint opcode - (uint OP_1 - 1)) # stack"

definition op_checklocktime :: "u32 \<Rightarrow> BaseSignatureChecker \<Rightarrow> stack \<Rightarrow> script_failure + unit" where
  "op_checklocktime flags checker stack =
     (if flags AND SCRIPT_VERIFY_CHECKLOCKTIMEVERIFY = 0 then Inr ()
      else case stack of [] \<Rightarrow> stack_error
      | vch # _ \<Rightarrow> ebind (stack_num vch flags 5) (\<lambda>lock.
          if lock < 0 then script_error SCRIPT_ERR_NEGATIVE_LOCKTIME
          else if \<not> CheckLockTime checker lock then script_error SCRIPT_ERR_UNSATISFIED_LOCKTIME
          else Inr ()))"

definition op_checksequence :: "u32 \<Rightarrow> BaseSignatureChecker \<Rightarrow> stack \<Rightarrow> script_failure + unit" where
  "op_checksequence flags checker stack =
     (if flags AND SCRIPT_VERIFY_CHECKSEQUENCEVERIFY = 0 then Inr ()
      else case stack of [] \<Rightarrow> stack_error
      | vch # _ \<Rightarrow> ebind (stack_num vch flags 5) (\<lambda>sequence.
          if sequence < 0 then script_error SCRIPT_ERR_NEGATIVE_LOCKTIME
          else if sequence AND uint SEQUENCE_LOCKTIME_DISABLE_FLAG \<noteq> 0 then Inr ()
          else if \<not> CheckSequence checker sequence then script_error SCRIPT_ERR_UNSATISFIED_LOCKTIME
          else Inr ()))"

definition op_verify :: "stack \<Rightarrow> script_failure + stack" where
  "op_verify stack = (case stack of [] \<Rightarrow> stack_error
     | vch # st \<Rightarrow> if CastToBool vch then Inr st else script_error SCRIPT_ERR_VERIFY)"

text \<open>The top of the stack is the last number of the comments of the code and the first element of the list.\<close>

definition op_2drop :: "stack \<Rightarrow> script_failure + stack" where
  "op_2drop stack = (case stack of x2 # x1 # st \<Rightarrow> Inr st | _ \<Rightarrow> stack_error)"

definition op_2dup :: "stack \<Rightarrow> script_failure + stack" where
  "op_2dup stack = (case stack of x2 # x1 # st \<Rightarrow> Inr (x2 # x1 # stack) | _ \<Rightarrow> stack_error)"

definition op_3dup :: "stack \<Rightarrow> script_failure + stack" where
  "op_3dup stack = (case stack of x3 # x2 # x1 # st \<Rightarrow> Inr (x3 # x2 # x1 # stack) | _ \<Rightarrow> stack_error)"

definition op_2over :: "stack \<Rightarrow> script_failure + stack" where
  "op_2over stack = (case stack of x4 # x3 # x2 # x1 # st \<Rightarrow> Inr (x2 # x1 # stack) | _ \<Rightarrow> stack_error)"

definition op_2rot :: "stack \<Rightarrow> script_failure + stack" where
  "op_2rot stack = (case stack of x6 # x5 # x4 # x3 # x2 # x1 # st \<Rightarrow> Inr (x2 # x1 # x6 # x5 # x4 # x3 # st) | _ \<Rightarrow> stack_error)"

definition op_2swap :: "stack \<Rightarrow> script_failure + stack" where
  "op_2swap stack = (case stack of x4 # x3 # x2 # x1 # st \<Rightarrow> Inr (x2 # x1 # x4 # x3 # st) | _ \<Rightarrow> stack_error)"

definition op_ifdup :: "stack \<Rightarrow> script_failure + stack" where
  "op_ifdup stack = (case stack of [] \<Rightarrow> stack_error | vch # st \<Rightarrow> Inr (if CastToBool vch then vch # stack else stack))"

definition op_depth :: "stack \<Rightarrow> stack" where "op_depth stack = scriptnum_serialize (int (length stack)) # stack"

definition op_drop :: "stack \<Rightarrow> script_failure + stack" where
  "op_drop stack = (case stack of [] \<Rightarrow> stack_error | x # st \<Rightarrow> Inr st)"

definition op_dup :: "stack \<Rightarrow> script_failure + stack" where
  "op_dup stack = (case stack of [] \<Rightarrow> stack_error | x # st \<Rightarrow> Inr (x # stack))"

definition op_nip :: "stack \<Rightarrow> script_failure + stack" where
  "op_nip stack = (case stack of x2 # x1 # st \<Rightarrow> Inr (x2 # st) | _ \<Rightarrow> stack_error)"

definition op_over :: "stack \<Rightarrow> script_failure + stack" where
  "op_over stack = (case stack of x2 # x1 # st \<Rightarrow> Inr (x1 # stack) | _ \<Rightarrow> stack_error)"

definition op_pick_roll :: "u32 \<Rightarrow> opcodetype \<Rightarrow> stack \<Rightarrow> script_failure + stack" where
  "op_pick_roll flags opcode stack =
     (if length stack < 2 then stack_error
      else ebind (stack_num (hd stack) flags 4) (\<lambda>bn.
        let n = getint bn; stack = tl stack
        in if n < 0 \<or> n \<ge> int (length stack) then stack_error
           else let vch = stack ! nat n;
                    stack = (if opcode = OP_ROLL then take (nat n) stack @ drop (nat n + 1) stack else stack)
                in Inr (vch # stack)))"

definition op_rot :: "stack \<Rightarrow> script_failure + stack" where
  "op_rot stack = (case stack of x3 # x2 # x1 # st \<Rightarrow> Inr (x1 # x3 # x2 # st) | _ \<Rightarrow> stack_error)"

definition op_swap :: "stack \<Rightarrow> script_failure + stack" where
  "op_swap stack = (case stack of x2 # x1 # st \<Rightarrow> Inr (x1 # x2 # st) | _ \<Rightarrow> stack_error)"

definition op_tuck :: "stack \<Rightarrow> script_failure + stack" where
  "op_tuck stack = (case stack of x2 # x1 # st \<Rightarrow> Inr (x2 # x1 # x2 # st) | _ \<Rightarrow> stack_error)"

definition op_size :: "stack \<Rightarrow> script_failure + stack" where
  "op_size stack = (case stack of [] \<Rightarrow> stack_error | x # st \<Rightarrow> Inr (scriptnum_serialize (int (length x)) # stack))"

definition op_equal :: "opcodetype \<Rightarrow> stack \<Rightarrow> script_failure + stack" where
  "op_equal opcode stack =
     (case stack of vch2 # vch1 # st \<Rightarrow>
        let fEqual = (vch1 = vch2)
        in if opcode = OP_EQUALVERIFY then if fEqual then Inr st else script_error SCRIPT_ERR_EQUALVERIFY
           else Inr (stack_bool fEqual # st)
      | _ \<Rightarrow> stack_error)"

definition op_unary :: "u32 \<Rightarrow> opcodetype \<Rightarrow> stack \<Rightarrow> script_failure + stack" where
  "op_unary flags opcode stack =
     (case stack of [] \<Rightarrow> stack_error
      | vch # st \<Rightarrow> ebind (stack_num vch flags 4) (\<lambda>bn.
          ebind (if opcode = OP_1ADD then num_add bn 1
                 else if opcode = OP_1SUB then num_sub bn 1
                 else if opcode = OP_NEGATE then num_neg bn
                 else if opcode = OP_ABS then if bn < 0 then num_neg bn else Inr bn
                 else if opcode = OP_NOT then Inr (of_bool (bn = 0))
                 else if opcode = OP_0NOTEQUAL then Inr (of_bool (bn \<noteq> 0))
                 else Inl Script_assert) (\<lambda>bn.
          Inr (scriptnum_serialize bn # st))))"

definition op_binary :: "u32 \<Rightarrow> opcodetype \<Rightarrow> stack \<Rightarrow> script_failure + stack" where
  "op_binary flags opcode stack =
     (case stack of vch2 # vch1 # st \<Rightarrow>
        ebind (stack_num vch1 flags 4) (\<lambda>bn1. ebind (stack_num vch2 flags 4) (\<lambda>bn2.
        ebind (if opcode = OP_ADD then Inr (bn1 + bn2)
               else if opcode = OP_SUB then Inr (bn1 - bn2)
               else if opcode = OP_BOOLAND then Inr (of_bool (bn1 \<noteq> 0 \<and> bn2 \<noteq> 0))
               else if opcode = OP_BOOLOR then Inr (of_bool (bn1 \<noteq> 0 \<or> bn2 \<noteq> 0))
               else if opcode = OP_NUMEQUAL \<or> opcode = OP_NUMEQUALVERIFY then Inr (of_bool (bn1 = bn2))
               else if opcode = OP_NUMNOTEQUAL then Inr (of_bool (bn1 \<noteq> bn2))
               else if opcode = OP_LESSTHAN then Inr (of_bool (bn1 < bn2))
               else if opcode = OP_GREATERTHAN then Inr (of_bool (bn1 > bn2))
               else if opcode = OP_LESSTHANOREQUAL then Inr (of_bool (bn1 \<le> bn2))
               else if opcode = OP_GREATERTHANOREQUAL then Inr (of_bool (bn1 \<ge> bn2))
               else if opcode = OP_MIN then Inr (if bn1 < bn2 then bn1 else bn2)
               else if opcode = OP_MAX then Inr (if bn1 > bn2 then bn1 else bn2)
               else Inl Script_assert) (\<lambda>bn.
        let result = scriptnum_serialize bn
        in if opcode = OP_NUMEQUALVERIFY then if CastToBool result then Inr st else script_error SCRIPT_ERR_NUMEQUALVERIFY
           else Inr (result # st))))
      | _ \<Rightarrow> stack_error)"

definition op_within :: "u32 \<Rightarrow> stack \<Rightarrow> script_failure + stack" where
  "op_within flags stack =
     (case stack of vch3 # vch2 # vch1 # st \<Rightarrow>
        ebind (stack_num vch1 flags 4) (\<lambda>bn1. ebind (stack_num vch2 flags 4) (\<lambda>bn2. ebind (stack_num vch3 flags 4) (\<lambda>bn3.
        Inr (stack_bool (bn2 \<le> bn1 \<and> bn1 < bn3) # st))))
      | _ \<Rightarrow> stack_error)"

text \<open>The combinations of hash functions \<^verbatim>\<open>CHash160\<close> and \<^verbatim>\<open>CHash256\<close>.\<close>

definition CHash160 :: "crypto \<Rightarrow> bytes \<Rightarrow> bytes" where "CHash160 cr vch = ripemd160 cr (sha256 cr vch)"
definition CHash256 :: "crypto \<Rightarrow> bytes \<Rightarrow> bytes" where "CHash256 cr vch = sha256 cr (sha256 cr vch)"

definition op_digest :: "crypto \<Rightarrow> opcodetype \<Rightarrow> stack \<Rightarrow> script_failure + stack" where
  "op_digest cr opcode stack =
     (case stack of [] \<Rightarrow> stack_error
      | vch # st \<Rightarrow>
          let vchHash = (if opcode = OP_RIPEMD160 then ripemd160 cr vch
                         else if opcode = OP_SHA1 then sha1 cr vch
                         else if opcode = OP_SHA256 then sha256 cr vch
                         else if opcode = OP_HASH160 then CHash160 cr vch
                         else if opcode = OP_HASH256 then CHash256 cr vch
                         else replicate 32 0)
          in Inr (vchHash # st))"

subsection \<open>The state of an evaluation\<close>

text \<open>The positions in the script are the remaining bytes; \<^verbatim>\<open>pend\<close> is the end of the script, so \<open>pbegincodehash\<close> is the script code.\<close>

record eval_state =
  es_stack :: stack
  es_altstack :: stack
  vfExec :: ConditionStack
  nOpCount :: int
  pbegincodehash :: bytes
  es_execdata :: ScriptExecutionData
  opcode_pos :: u32

abbreviation on_stack :: "(stack \<Rightarrow> script_failure + stack) \<Rightarrow> eval_state \<Rightarrow> script_failure + eval_state" where
  "on_stack f st \<equiv> ebind (f (es_stack st)) (\<lambda>stack. Inr (st\<lparr>es_stack := stack\<rparr>))"

definition op_if :: "u32 \<Rightarrow> SigVersion \<Rightarrow> bool \<Rightarrow> opcodetype \<Rightarrow> eval_state \<Rightarrow> script_failure + eval_state" where
  "op_if flags sigversion fExec opcode st =
     (if \<not> fExec then Inr (st\<lparr>vfExec := cond_push_back (vfExec st) False\<rparr>)
      else case es_stack st of [] \<Rightarrow> script_error SCRIPT_ERR_UNBALANCED_CONDITIONAL
      | vch # stack \<Rightarrow>
          if sigversion = TAPSCRIPT \<and> (length vch > 1 \<or> (length vch = 1 \<and> vch ! 0 \<noteq> 1))
          then script_error SCRIPT_ERR_TAPSCRIPT_MINIMALIF
          else if sigversion = WITNESS_V0 \<and> flags AND SCRIPT_VERIFY_MINIMALIF \<noteq> 0 \<and> (length vch > 1 \<or> (length vch = 1 \<and> vch ! 0 \<noteq> 1))
          then script_error SCRIPT_ERR_MINIMALIF
          else let fValue = CastToBool vch;
                   fValue = (if opcode = OP_NOTIF then \<not> fValue else fValue)
               in Inr (st\<lparr>es_stack := stack, vfExec := cond_push_back (vfExec st) fValue\<rparr>))"

definition op_else :: "eval_state \<Rightarrow> script_failure + eval_state" where
  "op_else st =
     (if cond_empty (vfExec st) then script_error SCRIPT_ERR_UNBALANCED_CONDITIONAL
      else case toggle_top (vfExec st) of None \<Rightarrow> Inl Script_assert | Some c \<Rightarrow> Inr (st\<lparr>vfExec := c\<rparr>))"

definition op_endif :: "eval_state \<Rightarrow> script_failure + eval_state" where
  "op_endif st =
     (if cond_empty (vfExec st) then script_error SCRIPT_ERR_UNBALANCED_CONDITIONAL
      else case cond_pop_back (vfExec st) of None \<Rightarrow> Inl Script_assert | Some c \<Rightarrow> Inr (st\<lparr>vfExec := c\<rparr>))"

definition op_toaltstack :: "eval_state \<Rightarrow> script_failure + eval_state" where
  "op_toaltstack st =
     (case es_stack st of [] \<Rightarrow> stack_error
      | vch # stack \<Rightarrow> Inr (st\<lparr>es_altstack := vch # es_altstack st, es_stack := stack\<rparr>))"

definition op_fromaltstack :: "eval_state \<Rightarrow> script_failure + eval_state" where
  "op_fromaltstack st =
     (case es_altstack st of [] \<Rightarrow> script_error SCRIPT_ERR_INVALID_ALTSTACK_OPERATION
      | vch # altstack \<Rightarrow> Inr (st\<lparr>es_stack := vch # es_stack st, es_altstack := altstack\<rparr>))"

definition op_codeseparator :: "bytes \<Rightarrow> eval_state \<Rightarrow> eval_state" where
  "op_codeseparator pc st =
     st\<lparr>pbegincodehash := pc, es_execdata := es_execdata st\<lparr>m_codeseparator_pos := opcode_pos st\<rparr>\<rparr>"

definition op_checksig ::
  "crypto \<Rightarrow> u32 \<Rightarrow> BaseSignatureChecker \<Rightarrow> SigVersion \<Rightarrow> opcodetype \<Rightarrow> eval_state \<Rightarrow> script_failure + eval_state" where
  "op_checksig cr flags checker sigversion opcode st =
     (case es_stack st of vchPubKey # vchSig # stack \<Rightarrow>
        ebind (EvalChecksig cr vchSig vchPubKey (pbegincodehash st) (es_execdata st) flags checker sigversion) (\<lambda>(fSuccess, execdata).
          let st = st\<lparr>es_execdata := execdata\<rparr>
          in if opcode = OP_CHECKSIGVERIFY
             then if fSuccess then Inr (st\<lparr>es_stack := stack\<rparr>) else script_error SCRIPT_ERR_CHECKSIGVERIFY
             else Inr (st\<lparr>es_stack := stack_bool fSuccess # stack\<rparr>))
      | _ \<Rightarrow> stack_error)"

definition op_checksigadd ::
  "crypto \<Rightarrow> u32 \<Rightarrow> BaseSignatureChecker \<Rightarrow> SigVersion \<Rightarrow> eval_state \<Rightarrow> script_failure + eval_state" where
  "op_checksigadd cr flags checker sigversion st =
     (if sigversion = SIGVERSION_BASE \<or> sigversion = WITNESS_V0 then script_error SCRIPT_ERR_BAD_OPCODE
      else case es_stack st of pubkey # n # sig # stack \<Rightarrow>
        ebind (stack_num n flags 4) (\<lambda>num.
        ebind (EvalChecksig cr sig pubkey (pbegincodehash st) (es_execdata st) flags checker sigversion) (\<lambda>(success, execdata).
          Inr (st\<lparr>es_execdata := execdata, es_stack := scriptnum_serialize (num + (if success then 1 else 0)) # stack\<rparr>)))
      | _ \<Rightarrow> stack_error)"

subsection \<open>Multiple signatures\<close>

fun delete_signatures :: "u32 \<Rightarrow> SigVersion \<Rightarrow> bytes list \<Rightarrow> CScript \<Rightarrow> script_failure + CScript" where
  "delete_signatures flags sigversion [] scriptCode = Inr scriptCode"
| "delete_signatures flags sigversion (vchSig # sigs) scriptCode =
     (if sigversion = SIGVERSION_BASE
      then let (found, scriptCode) = FindAndDelete scriptCode (push_data vchSig)
           in if found > 0 \<and> flags AND SCRIPT_VERIFY_CONST_SCRIPTCODE \<noteq> 0 then script_error SCRIPT_ERR_SIG_FINDANDDELETE
              else delete_signatures flags sigversion sigs scriptCode
      else delete_signatures flags sigversion sigs scriptCode)"

text \<open>The loop ends without success as soon as fewer keys than signatures are left.\<close>

fun multisig_loop ::
  "crypto \<Rightarrow> u32 \<Rightarrow> BaseSignatureChecker \<Rightarrow> SigVersion \<Rightarrow> CScript \<Rightarrow> bytes list \<Rightarrow> bytes list \<Rightarrow> script_failure + bool" where
  "multisig_loop cr flags checker sigversion scriptCode [] keys = Inr True"
| "multisig_loop cr flags checker sigversion scriptCode (vchSig # sigs) [] = Inr False"
| "multisig_loop cr flags checker sigversion scriptCode (vchSig # sigs) (vchPubKey # keys) =
     ebind (CheckSignatureEncoding cr vchSig flags) (\<lambda>_.
     ebind (CheckPubKeyEncoding vchPubKey flags sigversion) (\<lambda>_.
     ebind (CheckECDSASignature checker vchSig vchPubKey scriptCode sigversion) (\<lambda>fOk.
     let sigs' = (if fOk then sigs else vchSig # sigs)
     in if length sigs' > length keys then Inr False
        else multisig_loop cr flags checker sigversion scriptCode sigs' keys)))"

text \<open>Removal of the arguments, the topmost first; the signatures are reached when \<^verbatim>\<open>ikey2\<close> is zero.\<close>

fun multisig_cleanup :: "u32 \<Rightarrow> bool \<Rightarrow> nat \<Rightarrow> nat \<Rightarrow> stack \<Rightarrow> script_failure + stack" where
  "multisig_cleanup flags fSuccess 0 ikey2 stack = Inr stack"
| "multisig_cleanup flags fSuccess (Suc i) ikey2 [] = script_error SCRIPT_ERR_UNKNOWN_ERROR"
| "multisig_cleanup flags fSuccess (Suc i) ikey2 (vch # stack) =
     (if \<not> fSuccess \<and> flags AND SCRIPT_VERIFY_NULLFAIL \<noteq> 0 \<and> ikey2 = 0 \<and> length vch > 0 then script_error SCRIPT_ERR_SIG_NULLFAIL
      else multisig_cleanup flags fSuccess i (ikey2 - 1) stack)"

definition multisig_counts :: "u32 \<Rightarrow> stack \<Rightarrow> int \<Rightarrow> script_failure + nat \<times> nat \<times> int" where
  "multisig_counts flags stack ops =
     (if length stack < 1 then stack_error
      else ebind (stack_num (stack ! 0) flags 4) (\<lambda>bn. let nKeysCount = getint bn in
        if nKeysCount < 0 \<or> nKeysCount > int MAX_PUBKEYS_PER_MULTISIG then script_error SCRIPT_ERR_PUBKEY_COUNT
        else let ops = ops + nKeysCount; nKeys = nat nKeysCount
        in if ops > int MAX_OPS_PER_SCRIPT then script_error SCRIPT_ERR_OP_COUNT
        else if length stack < nKeys + 2 then stack_error
        else ebind (stack_num (stack ! (nKeys + 1)) flags 4) (\<lambda>bn. let nSigsCount = getint bn in
          if nSigsCount < 0 \<or> nSigsCount > nKeysCount then script_error SCRIPT_ERR_SIG_COUNT
          else if length stack < nKeys + nat nSigsCount + 3 then stack_error
          else Inr (nKeys, nat nSigsCount, ops))))"

definition op_checkmultisig ::
  "crypto \<Rightarrow> u32 \<Rightarrow> BaseSignatureChecker \<Rightarrow> SigVersion \<Rightarrow> opcodetype \<Rightarrow> eval_state \<Rightarrow> script_failure + eval_state" where
  "op_checkmultisig cr flags checker sigversion opcode st =
     (if sigversion = TAPSCRIPT then script_error SCRIPT_ERR_TAPSCRIPT_CHECKMULTISIG
      else ebind (multisig_counts flags (es_stack st) (nOpCount st)) (\<lambda>(nKeysCount, nSigsCount, ops).
        let keys = take nKeysCount (drop 1 (es_stack st));
            sigs = take nSigsCount (drop (nKeysCount + 2) (es_stack st))
        in ebind (delete_signatures flags sigversion sigs (pbegincodehash st)) (\<lambda>scriptCode.
           ebind (multisig_loop cr flags checker sigversion scriptCode sigs keys) (\<lambda>fSuccess.
           ebind (multisig_cleanup flags fSuccess (nKeysCount + nSigsCount + 2) (nKeysCount + 2) (es_stack st)) (\<lambda>stack.
           case stack of [] \<Rightarrow> stack_error
           | dummy # stack \<Rightarrow>
               if flags AND SCRIPT_VERIFY_NULLDUMMY \<noteq> 0 \<and> length dummy > 0 then script_error SCRIPT_ERR_SIG_NULLDUMMY
               else let st = st\<lparr>nOpCount := ops\<rparr>
                    in if opcode = OP_CHECKMULTISIGVERIFY
                       then if fSuccess then Inr (st\<lparr>es_stack := stack\<rparr>) else script_error SCRIPT_ERR_CHECKMULTISIGVERIFY
                       else Inr (st\<lparr>es_stack := stack_bool fSuccess # stack\<rparr>))))))"

subsection \<open>The interpreter loop\<close>

definition disabled_opcode :: "opcodetype \<Rightarrow> bool" where
  "disabled_opcode opcode \<longleftrightarrow>
     opcode = OP_CAT \<or> opcode = OP_SUBSTR \<or> opcode = OP_LEFT \<or> opcode = OP_RIGHT \<or> opcode = OP_INVERT \<or> opcode = OP_AND \<or>
     opcode = OP_OR \<or> opcode = OP_XOR \<or> opcode = OP_2MUL \<or> opcode = OP_2DIV \<or> opcode = OP_MUL \<or> opcode = OP_DIV \<or>
     opcode = OP_MOD \<or> opcode = OP_LSHIFT \<or> opcode = OP_RSHIFT"

definition exec_control ::
  "u32 \<Rightarrow> BaseSignatureChecker \<Rightarrow> SigVersion \<Rightarrow> bool \<Rightarrow> opcodetype \<Rightarrow> eval_state \<Rightarrow> (script_failure + eval_state) option" where
  "exec_control flags checker sigversion fExec opcode st =
     (if opcode = OP_1NEGATE \<or> (OP_1 \<le> opcode \<and> opcode \<le> OP_16) then Some (Inr (st\<lparr>es_stack := push_number opcode (es_stack st)\<rparr>))
      else if opcode = OP_NOP then Some (Inr st)
      else if opcode = OP_CHECKLOCKTIMEVERIFY then Some (ebind (op_checklocktime flags checker (es_stack st)) (\<lambda>_. Inr st))
      else if opcode = OP_CHECKSEQUENCEVERIFY then Some (ebind (op_checksequence flags checker (es_stack st)) (\<lambda>_. Inr st))
      else if opcode = OP_NOP1 \<or> (OP_NOP4 \<le> opcode \<and> opcode \<le> OP_NOP10)
      then Some (if flags AND SCRIPT_VERIFY_DISCOURAGE_UPGRADABLE_NOPS \<noteq> 0 then script_error SCRIPT_ERR_DISCOURAGE_UPGRADABLE_NOPS else Inr st)
      else if opcode = OP_IF \<or> opcode = OP_NOTIF then Some (op_if flags sigversion fExec opcode st)
      else if opcode = OP_ELSE then Some (op_else st)
      else if opcode = OP_ENDIF then Some (op_endif st)
      else if opcode = OP_VERIFY then Some (on_stack op_verify st)
      else if opcode = OP_RETURN then Some (script_error SCRIPT_ERR_OP_RETURN)
      else None)"

definition exec_stack :: "u32 \<Rightarrow> opcodetype \<Rightarrow> eval_state \<Rightarrow> (script_failure + eval_state) option" where
  "exec_stack flags opcode st =
     (if opcode = OP_TOALTSTACK then Some (op_toaltstack st)
      else if opcode = OP_FROMALTSTACK then Some (op_fromaltstack st)
      else if opcode = OP_2DROP then Some (on_stack op_2drop st)
      else if opcode = OP_2DUP then Some (on_stack op_2dup st)
      else if opcode = OP_3DUP then Some (on_stack op_3dup st)
      else if opcode = OP_2OVER then Some (on_stack op_2over st)
      else if opcode = OP_2ROT then Some (on_stack op_2rot st)
      else if opcode = OP_2SWAP then Some (on_stack op_2swap st)
      else if opcode = OP_IFDUP then Some (on_stack op_ifdup st)
      else if opcode = OP_DEPTH then Some (on_stack (\<lambda>stack. Inr (op_depth stack)) st)
      else if opcode = OP_DROP then Some (on_stack op_drop st)
      else if opcode = OP_DUP then Some (on_stack op_dup st)
      else if opcode = OP_NIP then Some (on_stack op_nip st)
      else if opcode = OP_OVER then Some (on_stack op_over st)
      else if opcode = OP_PICK \<or> opcode = OP_ROLL then Some (on_stack (op_pick_roll flags opcode) st)
      else if opcode = OP_ROT then Some (on_stack op_rot st)
      else if opcode = OP_SWAP then Some (on_stack op_swap st)
      else if opcode = OP_TUCK then Some (on_stack op_tuck st)
      else if opcode = OP_SIZE then Some (on_stack op_size st)
      else None)"

definition exec_compute ::
  "crypto \<Rightarrow> u32 \<Rightarrow> BaseSignatureChecker \<Rightarrow> SigVersion \<Rightarrow> bytes \<Rightarrow> opcodetype \<Rightarrow> eval_state \<Rightarrow> (script_failure + eval_state) option" where
  "exec_compute cr flags checker sigversion pc opcode st =
     (if opcode = OP_EQUAL \<or> opcode = OP_EQUALVERIFY then Some (on_stack (op_equal opcode) st)
      else if opcode = OP_1ADD \<or> opcode = OP_1SUB \<or> opcode = OP_NEGATE \<or> opcode = OP_ABS \<or> opcode = OP_NOT \<or> opcode = OP_0NOTEQUAL
      then Some (on_stack (op_unary flags opcode) st)
      else if opcode = OP_ADD \<or> opcode = OP_SUB \<or> (OP_BOOLAND \<le> opcode \<and> opcode \<le> OP_MAX) then Some (on_stack (op_binary flags opcode) st)
      else if opcode = OP_WITHIN then Some (on_stack (op_within flags) st)
      else if OP_RIPEMD160 \<le> opcode \<and> opcode \<le> OP_HASH256 then Some (on_stack (op_digest cr opcode) st)
      else if opcode = OP_CODESEPARATOR then Some (Inr (op_codeseparator pc st))
      else if opcode = OP_CHECKSIG \<or> opcode = OP_CHECKSIGVERIFY then Some (op_checksig cr flags checker sigversion opcode st)
      else if opcode = OP_CHECKSIGADD then Some (op_checksigadd cr flags checker sigversion st)
      else if opcode = OP_CHECKMULTISIG \<or> opcode = OP_CHECKMULTISIGVERIFY then Some (op_checkmultisig cr flags checker sigversion opcode st)
      else None)"

text \<open>The \<^verbatim>\<open>switch\<close>; its default is a bad opcode.\<close>

definition exec_opcode ::
  "crypto \<Rightarrow> u32 \<Rightarrow> BaseSignatureChecker \<Rightarrow> SigVersion \<Rightarrow> bool \<Rightarrow> bytes \<Rightarrow> opcodetype \<Rightarrow> eval_state \<Rightarrow> script_failure + eval_state" where
  "exec_opcode cr flags checker sigversion fExec pc opcode st =
     (case exec_control flags checker sigversion fExec opcode st of Some r \<Rightarrow> r
      | None \<Rightarrow> (case exec_stack flags opcode st of Some r \<Rightarrow> r
      | None \<Rightarrow> (case exec_compute cr flags checker sigversion pc opcode st of Some r \<Rightarrow> r
      | None \<Rightarrow> script_error SCRIPT_ERR_BAD_OPCODE)))"

text \<open>One iteration, after the instruction was read.\<close>

definition eval_step ::
  "crypto \<Rightarrow> u32 \<Rightarrow> BaseSignatureChecker \<Rightarrow> SigVersion \<Rightarrow> opcodetype \<Rightarrow> bytes \<Rightarrow> bytes \<Rightarrow> eval_state \<Rightarrow> script_failure + eval_state" where
  "eval_step cr flags checker sigversion opcode vchPushValue pc st =
     (let fExec = all_true (vfExec st); pre_tapscript = (sigversion = SIGVERSION_BASE \<or> sigversion = WITNESS_V0) in
      if length vchPushValue > MAX_SCRIPT_ELEMENT_SIZE then script_error SCRIPT_ERR_PUSH_SIZE
      else let st = (if pre_tapscript \<and> opcode > OP_16 then st\<lparr>nOpCount := nOpCount st + 1\<rparr> else st) in
      if pre_tapscript \<and> opcode > OP_16 \<and> nOpCount st > int MAX_OPS_PER_SCRIPT then script_error SCRIPT_ERR_OP_COUNT
      else if disabled_opcode opcode then script_error SCRIPT_ERR_DISABLED_OPCODE
      else if opcode = OP_CODESEPARATOR \<and> sigversion = SIGVERSION_BASE \<and> flags AND SCRIPT_VERIFY_CONST_SCRIPTCODE \<noteq> 0
      then script_error SCRIPT_ERR_OP_CODESEPARATOR
      else ebind (if fExec \<and> opcode \<le> OP_PUSHDATA4
                  then if flags AND SCRIPT_VERIFY_MINIMALDATA \<noteq> 0 \<and> \<not> CheckMinimalPush vchPushValue opcode
                       then script_error SCRIPT_ERR_MINIMALDATA
                       else Inr (st\<lparr>es_stack := vchPushValue # es_stack st\<rparr>)
                  else if fExec \<or> (OP_IF \<le> opcode \<and> opcode \<le> OP_ENDIF)
                  then exec_opcode cr flags checker sigversion fExec pc opcode st
                  else Inr st) (\<lambda>st.
        if length (es_stack st) + length (es_altstack st) > MAX_STACK_SIZE then script_error SCRIPT_ERR_STACK_SIZE
        else Inr (st\<lparr>opcode_pos := opcode_pos st + 1\<rparr>)))"

function eval_loop ::
  "crypto \<Rightarrow> u32 \<Rightarrow> BaseSignatureChecker \<Rightarrow> SigVersion \<Rightarrow> bytes \<Rightarrow> eval_state \<Rightarrow> script_failure + eval_state" where
  "eval_loop cr flags checker sigversion pc st =
     (if pc = [] then Inr st
      else case GetScriptOp pc of None \<Rightarrow> script_error SCRIPT_ERR_BAD_OPCODE
      | Some (opcode, vchPushValue, pc') \<Rightarrow>
          ebind (eval_step cr flags checker sigversion opcode vchPushValue pc' st) (\<lambda>st.
          eval_loop cr flags checker sigversion pc' st))"
  by pat_completeness auto
termination by (relation "measure (\<lambda>(cr, flags, checker, sigversion, pc, st). length pc)") (auto dest: GetScriptOp_less)

declare eval_loop.simps [simp del]

definition EvalScript ::
  "crypto \<Rightarrow> stack \<Rightarrow> CScript \<Rightarrow> u32 \<Rightarrow> BaseSignatureChecker \<Rightarrow> SigVersion \<Rightarrow> ScriptExecutionData
     \<Rightarrow> script_failure + stack \<times> ScriptExecutionData" where
  "EvalScript cr stack script flags checker sigversion execdata =
     (if \<not> (sigversion = SIGVERSION_BASE \<or> sigversion = WITNESS_V0 \<or> sigversion = TAPSCRIPT) then Inl Script_assert
      else if (sigversion = SIGVERSION_BASE \<or> sigversion = WITNESS_V0) \<and> length script > MAX_SCRIPT_SIZE
      then script_error SCRIPT_ERR_SCRIPT_SIZE
      else let execdata = execdata\<lparr>m_codeseparator_pos := 0xFFFFFFFF, m_codeseparator_pos_init := True\<rparr>;
               st = \<lparr>es_stack = stack, es_altstack = [], vfExec = ConditionStack_new, nOpCount = 0, pbegincodehash = script,
                     es_execdata = execdata, opcode_pos = 0\<rparr>
           in ebind (eval_loop cr flags checker sigversion script st) (\<lambda>st.
              if \<not> cond_empty (vfExec st) then script_error SCRIPT_ERR_UNBALANCED_CONDITIONAL
              else Inr (es_stack st, es_execdata st)))"

subsection \<open>Stricter computations\<close>

text \<open>One computation is stricter than another if its results are results of the other; it may fail more often.\<close>

definition stricter :: "'e + 'a \<Rightarrow> 'e + 'a \<Rightarrow> bool" where
  "stricter m n \<longleftrightarrow> (\<forall>x. m = Inr x \<longrightarrow> n = Inr x)"

definition flags_subset :: "u32 \<Rightarrow> u32 \<Rightarrow> bool" where
  "flags_subset f g \<longleftrightarrow> f AND g = f"

named_theorems strict_intros

lemma stricter_refl [strict_intros, simp]: "stricter m m"
  by (simp add: stricter_def)

lemma stricter_Inl [simp]: "stricter (Inl e) n"
  by (simp add: stricter_def)

lemma stricter_bind [strict_intros]:
  "stricter m n \<Longrightarrow> (\<And>x. m = Inr x \<Longrightarrow> stricter (f x) (g x)) \<Longrightarrow> stricter (ebind m f) (ebind n g)"
  by (cases m) (auto simp: stricter_def)

lemma stricter_guard [strict_intros]:
  "(c' \<Longrightarrow> c) \<Longrightarrow> (\<not> c \<Longrightarrow> stricter a b) \<Longrightarrow> stricter (if c then Inl e else a) (if c' then Inl e' else b)"
  by (auto simp: stricter_def)

lemma stricter_if [strict_intros]:
  "(c \<Longrightarrow> stricter a b) \<Longrightarrow> (\<not> c \<Longrightarrow> stricter a' b') \<Longrightarrow> stricter (if c then a else a') (if c then b else b')"
  by simp

lemma stricter_case_list [strict_intros]:
  "stricter a b \<Longrightarrow> (\<And>x xs. stricter (f x xs) (g x xs)) \<Longrightarrow> stricter (case_list a f st) (case_list b g st)"
  by (cases st) simp_all

lemma stricter_case_prod [strict_intros]: "(\<And>x y. stricter (f x y) (g x y)) \<Longrightarrow> stricter (case_prod f p) (case_prod g p)"
  by (cases p) simp

lemma stricter_Let [strict_intros]: "(\<And>x. stricter (f x) (g x)) \<Longrightarrow> stricter (Let m f) (Let m g)"
  by (simp add: Let_def)

lemma flag_subsetD: "flags_subset f g \<Longrightarrow> f AND x \<noteq> 0 \<Longrightarrow> g AND x \<noteq> 0"
  unfolding flags_subset_def proof
  assume f: "f AND g = f" "f AND x \<noteq> 0" "g AND x = 0"
  have "f AND x = f AND (g AND x)" using f(1) by (metis and.assoc)
  then show False using f by simp
qed

lemma flag_subset0: "flags_subset f g \<Longrightarrow> g AND x = 0 \<Longrightarrow> f AND x = 0"
  using flag_subsetD by blast

lemma stricter_stack_num [strict_intros]: "flags_subset f g \<Longrightarrow> stricter (stack_num v g n) (stack_num v f n)"
  using flag_subset0 [of f g SCRIPT_VERIFY_MINIMALDATA] by (auto simp: stricter_def stack_num_def CScriptNum_def split: if_splits)

lemma stricter_locktime [strict_intros]:
  assumes "flags_subset f g"
  shows "stricter (op_checklocktime g checker st) (op_checklocktime f checker st)"
    "stricter (op_checksequence g checker st) (op_checksequence f checker st)"
  using stricter_stack_num [OF assms] flag_subset0 [OF assms]
  by (fastforce simp: op_checklocktime_def op_checksequence_def stricter_def ebind_eq_Inr split: list.splits if_splits)+

lemma stricter_op_if [strict_intros]:
  "flags_subset f g \<Longrightarrow> stricter (op_if g v e oc st) (op_if f v e oc st)"
  by (auto simp: op_if_def stricter_def dest: flag_subset0 split: list.splits if_splits)

lemma stricter_op_pick_roll [strict_intros]:
  "flags_subset f g \<Longrightarrow> stricter (op_pick_roll g oc st) (op_pick_roll f oc st)"
  unfolding op_pick_roll_def by (intro strict_intros)

lemma stricter_op_unary [strict_intros]:
  "flags_subset f g \<Longrightarrow> stricter (op_unary g oc st) (op_unary f oc st)"
  unfolding op_unary_def by (intro strict_intros)

lemma stricter_op_binary [strict_intros]:
  "flags_subset f g \<Longrightarrow> stricter (op_binary g oc st) (op_binary f oc st)"
  unfolding op_binary_def by (intro strict_intros)

lemma stricter_op_within [strict_intros]:
  "flags_subset f g \<Longrightarrow> stricter (op_within g st) (op_within f st)"
  unfolding op_within_def by (intro strict_intros)

lemma stricter_CheckSignatureEncoding [strict_intros]:
  "flags_subset f g \<Longrightarrow> stricter (CheckSignatureEncoding cr sig g) (CheckSignatureEncoding cr sig f)"
  unfolding CheckSignatureEncoding_def
  by (intro strict_intros) (auto simp: stricter_def dest: flag_subsetD)

lemma stricter_CheckPubKeyEncoding [strict_intros]:
  "flags_subset f g \<Longrightarrow> stricter (CheckPubKeyEncoding key g v) (CheckPubKeyEncoding key f v)"
  unfolding CheckPubKeyEncoding_def by (intro strict_intros) (auto dest: flag_subsetD)

lemma stricter_EvalChecksigPreTapscript [strict_intros]:
  "flags_subset f g \<Longrightarrow> stricter (EvalChecksigPreTapscript cr sig key code g checker v) (EvalChecksigPreTapscript cr sig key code f checker v)"
  unfolding EvalChecksigPreTapscript_def Let_def split_beta by (intro strict_intros) (auto dest: flag_subsetD)

lemma stricter_EvalChecksigTapscript [strict_intros]:
  "flags_subset f g \<Longrightarrow> stricter (EvalChecksigTapscript sig key ed g checker v) (EvalChecksigTapscript sig key ed f checker v)"
  unfolding EvalChecksigTapscript_def Let_def by (intro strict_intros) (auto dest: flag_subsetD)

lemma stricter_EvalChecksig [strict_intros]:
  "flags_subset f g \<Longrightarrow> stricter (EvalChecksig cr sig key code ed g checker v) (EvalChecksig cr sig key code ed f checker v)"
  unfolding EvalChecksig_def by (cases v) (auto intro!: strict_intros)

lemma stricter_op_checksig [strict_intros]:
  "flags_subset f g \<Longrightarrow> stricter (op_checksig cr g checker v oc st) (op_checksig cr f checker v oc st)"
  unfolding op_checksig_def by (intro strict_intros)

lemma stricter_op_checksigadd [strict_intros]:
  "flags_subset f g \<Longrightarrow> stricter (op_checksigadd cr g checker v st) (op_checksigadd cr f checker v st)"
  unfolding op_checksigadd_def by (intro strict_intros)

lemma stricter_delete_signatures [strict_intros]:
  "flags_subset f g \<Longrightarrow> stricter (delete_signatures g v sigs code) (delete_signatures f v sigs code)"
proof (induction sigs arbitrary: code)
  case (Cons sig sigs)
  then show ?case unfolding delete_signatures.simps Let_def split_beta by (intro strict_intros Cons.IH) (auto dest: flag_subsetD)
qed simp

lemma stricter_multisig_loop [strict_intros]:
  "flags_subset f g \<Longrightarrow> stricter (multisig_loop cr g checker v code sigs keys) (multisig_loop cr f checker v code sigs keys)"
proof (induction keys arbitrary: sigs)
  case Nil
  show ?case by (cases sigs) simp_all
next
  case (Cons key keys)
  show ?case
  proof (cases sigs)
    case (Cons sig sigs')
    show ?thesis unfolding Cons multisig_loop.simps by (intro strict_intros Cons.IH Cons.prems)
  qed simp
qed

lemma stricter_multisig_cleanup [strict_intros]:
  "flags_subset f g \<Longrightarrow> stricter (multisig_cleanup g ok i ikey st) (multisig_cleanup f ok i ikey st)"
  by (induction g ok i ikey st rule: multisig_cleanup.induct) (auto dest: flag_subset0)

lemma stricter_multisig_counts [strict_intros]:
  "flags_subset f g \<Longrightarrow> stricter (multisig_counts g st ops) (multisig_counts f st ops)"
  unfolding multisig_counts_def Let_def by (intro strict_intros)

lemma stricter_op_checkmultisig [strict_intros]:
  "flags_subset f g \<Longrightarrow> stricter (op_checkmultisig cr g checker v oc st) (op_checkmultisig cr f checker v oc st)"
  unfolding op_checkmultisig_def by (intro strict_intros) (auto dest: flag_subsetD)

definition stricter_opt :: "('e + 'a) option \<Rightarrow> ('e + 'a) option \<Rightarrow> bool" where
  "stricter_opt m n \<longleftrightarrow> rel_option stricter m n"

lemma stricter_opt_intros:
  "stricter_opt None None" "stricter a b \<Longrightarrow> stricter_opt (Some a) (Some b)"
  "(c \<Longrightarrow> stricter_opt m n) \<Longrightarrow> (\<not> c \<Longrightarrow> stricter_opt m' n') \<Longrightarrow> stricter_opt (if c then m else m') (if c then n else n')"
  by (auto simp: stricter_opt_def)

lemma stricter_exec_control:
  "flags_subset f g \<Longrightarrow> stricter_opt (exec_control g checker v e oc st) (exec_control f checker v e oc st)"
  unfolding exec_control_def by (intro stricter_opt_intros strict_intros) (auto dest: flag_subsetD)

lemma stricter_exec_stack: "flags_subset f g \<Longrightarrow> stricter_opt (exec_stack g oc st) (exec_stack f oc st)"
  unfolding exec_stack_def by (intro stricter_opt_intros strict_intros)

lemma stricter_exec_compute:
  "flags_subset f g \<Longrightarrow> stricter_opt (exec_compute cr g checker v pc oc st) (exec_compute cr f checker v pc oc st)"
  unfolding exec_compute_def by (intro stricter_opt_intros strict_intros)

lemma stricter_exec_opcode [strict_intros]:
  assumes "flags_subset f g"
  shows "stricter (exec_opcode cr g checker v e pc oc st) (exec_opcode cr f checker v e pc oc st)"
  using stricter_exec_control [OF assms, of checker v e oc st] stricter_exec_stack [OF assms, of oc st]
    stricter_exec_compute [OF assms, of cr checker v pc oc st]
  by (auto simp: exec_opcode_def stricter_opt_def rel_option_iff split: option.splits)

lemma stricter_eval_step [strict_intros]:
  "flags_subset f g \<Longrightarrow> stricter (eval_step cr g checker v oc d pc st) (eval_step cr f checker v oc d pc st)"
  unfolding eval_step_def Let_def by (intro strict_intros) (auto dest: flag_subsetD)

lemma stricter_eval_loop [strict_intros]:
  "flags_subset f g \<Longrightarrow> stricter (eval_loop cr g checker v pc st) (eval_loop cr f checker v pc st)"
proof (induction cr g checker v pc st rule: eval_loop.induct)
  case (1 cr g checker v pc st)
  show ?case
  proof (cases "GetScriptOp pc")
    case None
    then show ?thesis unfolding eval_loop.simps [where pc = pc] by simp
  next
    case (Some r)
    then obtain oc d pc' where r: "GetScriptOp pc = Some (oc, d, pc')" by (cases r) auto
    show ?thesis unfolding eval_loop.simps [where pc = pc] r option.case prod.case
    proof (intro stricter_if stricter_bind stricter_refl)
      show "stricter (eval_step cr g checker v oc d pc' st) (eval_step cr f checker v oc d pc' st)"
        by (rule stricter_eval_step [OF 1(2)])
      show "stricter (eval_loop cr g checker v pc' st') (eval_loop cr f checker v pc' st')" if "pc \<noteq> []" "eval_step cr g checker v oc d pc' st = Inr st'" for st'
        by (rule 1(1) [OF that(1) r refl refl that(2) 1(2)])
    qed
  qed
qed

lemma stricter_EvalScript [strict_intros]:
  "flags_subset f g \<Longrightarrow> stricter (EvalScript cr stack script g checker v ed) (EvalScript cr stack script f checker v ed)"
  unfolding EvalScript_def Let_def by (intro strict_intros)

subsection \<open>Evaluation without failed assertions\<close>

text \<open>A computation is safe if it fails no assertion and its result satisfies the postcondition.\<close>

definition safe :: "('a \<Rightarrow> bool) \<Rightarrow> script_failure + 'a \<Rightarrow> bool" where
  "safe Q r \<longleftrightarrow> (case r of Inl f \<Rightarrow> f \<noteq> Script_assert | Inr x \<Rightarrow> Q x)"

definition execdata_ok :: "SigVersion \<Rightarrow> ScriptExecutionData \<Rightarrow> bool" where
  "execdata_ok v ed \<longleftrightarrow> (v = TAPSCRIPT \<longrightarrow> m_tapleaf_hash_init ed \<and> m_codeseparator_pos_init ed \<and> m_annex_init ed \<and> m_validation_weight_left_init ed)"

definition checker_ok :: "SigVersion \<Rightarrow> BaseSignatureChecker \<Rightarrow> bool" where
  "checker_ok v checker \<longleftrightarrow>
     (v = SIGVERSION_BASE \<or> v = WITNESS_V0 \<longrightarrow> (\<forall>sig key code. safe (\<lambda>_. True) (CheckECDSASignature checker sig key code v))) \<and>
     (v = TAPSCRIPT \<longrightarrow> (\<forall>sig key ed. length key = 32 \<and> execdata_ok TAPSCRIPT ed \<longrightarrow>
        safe (execdata_ok TAPSCRIPT) (CheckSchnorrSignature checker sig key TAPSCRIPT ed)))"

definition crypto_ok :: "crypto \<Rightarrow> bool" where
  "crypto_ok cr \<longleftrightarrow> (\<forall>b. length (sha256 cr b) = 32 \<and> length (ripemd160 cr b) = 20 \<and> length (sha1 cr b) = 20)"

definition small_stack :: "stack \<Rightarrow> bool" where
  "small_stack st \<longleftrightarrow> (\<forall>x \<in> set st. length x \<le> MAX_SCRIPT_ELEMENT_SIZE)"

definition eval_ok :: "SigVersion \<Rightarrow> eval_state \<Rightarrow> bool" where
  "eval_ok v st \<longleftrightarrow> small_stack (es_stack st) \<and> small_stack (es_altstack st) \<and> execdata_ok v (es_execdata st) \<and> nOpCount st \<le> int MAX_OPS_PER_SCRIPT"

named_theorems safe_intros

lemma safe_simps [simp]: "safe Q (Inl f) \<longleftrightarrow> f \<noteq> Script_assert" "safe Q (Inr x) \<longleftrightarrow> Q x"
  by (simp_all add: safe_def)

lemma safe_bind: "safe P m \<Longrightarrow> (\<And>x. P x \<Longrightarrow> safe Q (f x)) \<Longrightarrow> safe Q (ebind m f)"
  by (cases m) auto

lemma safe_if [safe_intros]: "(c \<Longrightarrow> safe Q a) \<Longrightarrow> (\<not> c \<Longrightarrow> safe Q b) \<Longrightarrow> safe Q (if c then a else b)"
  by simp

lemma safe_case_list [safe_intros]:
  "(st = [] \<Longrightarrow> safe Q a) \<Longrightarrow> (\<And>x xs. st = x # xs \<Longrightarrow> safe Q (f x xs)) \<Longrightarrow> safe Q (case_list a f st)"
  by (cases st) simp_all

lemma safe_case_prod [safe_intros]: "(\<And>x y. p = (x, y) \<Longrightarrow> safe Q (f x y)) \<Longrightarrow> safe Q (case_prod f p)"
  by (cases p) simp

lemma safe_mono: "safe P m \<Longrightarrow> (\<And>x. P x \<Longrightarrow> Q x) \<Longrightarrow> safe Q m"
  by (cases m) auto

lemma small_stack_simps [simp]:
  "small_stack []" "small_stack (x # st) \<longleftrightarrow> length x \<le> MAX_SCRIPT_ELEMENT_SIZE \<and> small_stack st"
  by (auto simp: small_stack_def)

lemma number_small: "\<bar>v\<bar> < 2 ^ 63 \<Longrightarrow> length (scriptnum_serialize v) \<le> MAX_SCRIPT_ELEMENT_SIZE"
  using serialize_facts(2) [of v] by (cases "v = 0") (auto simp: scriptnum_serialize_def MAX_SCRIPT_ELEMENT_SIZE_def)

lemma stack_bool_small [simp]: "length (stack_bool b) \<le> MAX_SCRIPT_ELEMENT_SIZE"
  by (simp add: stack_bool_def vchTrue_def vchFalse_def MAX_SCRIPT_ELEMENT_SIZE_def)

lemma safe_stack_num: "0 < n \<Longrightarrow> n \<le> 8 \<Longrightarrow> safe (\<lambda>v. \<bar>v\<bar> < 2 ^ (8 * n - 1)) (stack_num vch flags n)"
  using CScriptNum_range [of n vch "flags AND SCRIPT_VERIFY_MINIMALDATA \<noteq> 0"] by (auto simp: stack_num_def split: sum.split)

lemma safe_stack_num4: "safe (\<lambda>v. \<bar>v\<bar> < 2 ^ 31) (stack_num vch flags 4)"
  using safe_stack_num [of 4 vch flags] by simp

lemma safe_stack_num5: "safe (\<lambda>v. True) (stack_num vch flags 5)"
  by (rule safe_mono [OF safe_stack_num]) simp_all

lemmas safe_num_binds [safe_intros] = safe_bind [OF safe_stack_num4] safe_bind [OF safe_stack_num5]

lemma safe_locktime:
  "safe (\<lambda>_. True) (op_checklocktime flags checker st)" "safe (\<lambda>_. True) (op_checksequence flags checker st)"
  unfolding op_checklocktime_def op_checksequence_def by - (intro safe_intros; simp)+

lemma safe_shuffles:
  assumes "small_stack st"
  shows "safe small_stack (op_verify st)" "safe small_stack (op_2drop st)" "safe small_stack (op_2dup st)"
    "safe small_stack (op_3dup st)" "safe small_stack (op_2over st)" "safe small_stack (op_2rot st)"
    "safe small_stack (op_2swap st)" "safe small_stack (op_ifdup st)" "safe small_stack (op_drop st)"
    "safe small_stack (op_dup st)" "safe small_stack (op_nip st)" "safe small_stack (op_over st)"
    "safe small_stack (op_rot st)" "safe small_stack (op_swap st)" "safe small_stack (op_tuck st)"
    "safe small_stack (op_equal oc st)"
  unfolding op_verify_def op_2drop_def op_2dup_def op_3dup_def op_2over_def op_2rot_def op_2swap_def op_ifdup_def op_drop_def
    op_dup_def op_nip_def op_over_def op_rot_def op_swap_def op_tuck_def op_equal_def Let_def
  using assms by - (intro safe_intros; simp)+

lemma safe_op_size:
  "small_stack st \<Longrightarrow> safe small_stack (op_size st)"
  unfolding op_size_def
proof (intro safe_intros)
  fix x xs
  assume st: "small_stack st" "st = x # xs"
  then have "\<bar>int (length x)\<bar> < 2 ^ 63" by (simp add: MAX_SCRIPT_ELEMENT_SIZE_def)
  with st show "safe small_stack (Inr (scriptnum_serialize (int (length x)) # st))" by (simp add: number_small)
qed simp

lemma safe_op_pick_roll:
  assumes "small_stack st"
  shows "safe small_stack (op_pick_roll flags oc st)"
proof -
  have "small_stack (tl st)" using assms by (cases st) simp_all
  then have "length (tl st ! n) \<le> MAX_SCRIPT_ELEMENT_SIZE" "small_stack (take n (tl st) @ drop (n + 1) (tl st))" if "n < length (tl st)" for n
    using that unfolding small_stack_def by (auto dest: in_set_takeD in_set_dropD)
  with \<open>small_stack (tl st)\<close> show ?thesis
    unfolding op_pick_roll_def Let_def by (intro safe_intros) (auto simp: nat_less_iff)
qed

lemma safe_op_unary:
  "small_stack st \<Longrightarrow> oc \<in> {OP_1ADD, OP_1SUB, OP_NEGATE, OP_ABS, OP_NOT, OP_0NOTEQUAL} \<Longrightarrow> safe small_stack (op_unary flags oc st)"
  unfolding op_unary_def num_add_def num_sub_def num_neg_def fits_num_def
  by (intro safe_case_list safe_num_binds safe_bind [where P = "\<lambda>v. \<bar>v\<bar> < 2 ^ 63"])
    (auto intro!: number_small split: if_splits)

lemma safe_op_binary:
  assumes "small_stack st" "oc = OP_ADD \<or> oc = OP_SUB \<or> (OP_BOOLAND \<le> oc \<and> oc \<le> OP_MAX)"
  shows "safe small_stack (op_binary flags oc st)"
proof -
  have "oc \<in> {147, 148, 154, 155, 156, 157, 158, 159, 160, 161, 162, 163, 164}"
  proof -
    have "uint oc = 147 \<or> uint oc = 148 \<or> (154 \<le> uint oc \<and> uint oc \<le> 164)"
      using assms(2) by (auto simp: word_le_def)
    then have "uint oc \<in> {147, 148, 154, 155, 156, 157, 158, 159, 160, 161, 162, 163, 164}"
      unfolding insert_iff empty_iff by presburger
    then show ?thesis by (simp add: word_uint_eq_iff)
  qed
  then show ?thesis using assms(1) unfolding op_binary_def Let_def
    by (intro safe_case_list safe_num_binds safe_bind [where P = "\<lambda>v. \<bar>v\<bar> < 2 ^ 63"])
      (auto intro!: number_small)
qed

lemma safe_op_within: "small_stack st \<Longrightarrow> safe small_stack (op_within flags st)"
  unfolding op_within_def by (intro safe_intros) auto

lemma safe_op_digest: "crypto_ok cr \<Longrightarrow> small_stack st \<Longrightarrow> safe small_stack (op_digest cr oc st)"
  unfolding op_digest_def Let_def
  by (intro safe_intros) (auto simp: crypto_ok_def CHash160_def CHash256_def MAX_SCRIPT_ELEMENT_SIZE_def)

lemma on_stack_safe:
  "eval_ok v st \<Longrightarrow> safe small_stack (f (es_stack st)) \<Longrightarrow> safe (eval_ok v) (on_stack f st)"
  by (rule safe_bind) (simp_all add: eval_ok_def)

lemma execdata_ok_simps [simp]:
  "execdata_ok v (ed\<lparr>m_codeseparator_pos := p\<rparr>) = execdata_ok v ed"
  "execdata_ok v (ed\<lparr>m_validation_weight_left := w\<rparr>) = execdata_ok v ed"
  by (simp_all add: execdata_ok_def)

lemma safe_CheckSignatureEncoding: "safe (\<lambda>_. True) (CheckSignatureEncoding cr sig flags)"
  unfolding CheckSignatureEncoding_def IsLowDERSignature_def
  by (intro safe_if safe_bind [where P = "\<lambda>_. True"]) simp_all

lemma safe_CheckPubKeyEncoding: "safe (\<lambda>_. True) (CheckPubKeyEncoding key flags v)"
  unfolding CheckPubKeyEncoding_def by (intro safe_if) simp_all

lemma safe_EvalChecksigPreTapscript:
  assumes "checker_ok v checker" "v = SIGVERSION_BASE \<or> v = WITNESS_V0"
  shows "safe (\<lambda>_. True) (EvalChecksigPreTapscript cr sig key code flags checker v)"
proof -
  have "safe (\<lambda>_. True) (CheckECDSASignature checker sig key code v)" for code
    using assms unfolding checker_ok_def by blast
  note binds = safe_bind [OF safe_CheckSignatureEncoding] safe_bind [OF safe_CheckPubKeyEncoding] safe_bind [OF this]
  show ?thesis unfolding EvalChecksigPreTapscript_def Let_def using assms(2)
    by (intro safe_if safe_case_prod binds) simp_all
qed

lemma safe_EvalChecksigTapscript:
  assumes "checker_ok TAPSCRIPT checker" "execdata_ok TAPSCRIPT ed"
  shows "safe (\<lambda>(b, ed). execdata_ok TAPSCRIPT ed) (EvalChecksigTapscript sig key ed flags checker TAPSCRIPT)"
proof -
  have c: "safe (execdata_ok TAPSCRIPT) (CheckSchnorrSignature checker sig key TAPSCRIPT ed)" if "length key = 32" "execdata_ok TAPSCRIPT ed" for ed
    using assms that unfolding checker_ok_def by blast
  have w: "m_validation_weight_left_init ed" using assms(2) by (simp add: execdata_ok_def)
  show ?thesis unfolding EvalChecksigTapscript_def Let_def
    by (intro safe_if safe_bind [where P = "execdata_ok TAPSCRIPT"]) (simp_all add: assms c w)
qed

lemma safe_EvalChecksig:
  assumes "checker_ok v checker" "execdata_ok v ed" "v \<noteq> TAPROOT"
  shows "safe (\<lambda>(b, ed). execdata_ok v ed) (EvalChecksig cr sig key code ed flags checker v)"
proof (cases v)
  case TAPSCRIPT
  then show ?thesis using safe_EvalChecksigTapscript [of checker ed] assms by (simp add: EvalChecksig_def)
qed (use safe_EvalChecksigPreTapscript [OF assms(1)] assms in
  \<open>simp_all add: EvalChecksig_def safe_bind [where P = "\<lambda>_. True"]\<close>)

lemma safe_op_checksig:
  assumes "checker_ok v checker" "eval_ok v st" "v \<noteq> TAPROOT"
  shows "safe (eval_ok v) (op_checksig cr flags checker v oc st)"
proof -
  have ed: "execdata_ok v (es_execdata st)" using assms(2) by (simp add: eval_ok_def)
  show ?thesis unfolding op_checksig_def Let_def
    by (intro safe_case_list safe_bind [OF safe_EvalChecksig [OF assms(1) ed assms(3)]])
      (use assms(2) in \<open>auto simp: eval_ok_def\<close>)
qed

lemma safe_op_checksigadd:
  assumes "checker_ok v checker" "eval_ok v st" "v \<noteq> TAPROOT"
  shows "safe (eval_ok v) (op_checksigadd cr flags checker v st)"
proof -
  have ed: "execdata_ok v (es_execdata st)" using assms(2) by (simp add: eval_ok_def)
  show ?thesis unfolding op_checksigadd_def
    by (intro safe_if safe_case_list safe_num_binds safe_bind [OF safe_EvalChecksig [OF assms(1) ed assms(3)]])
      (use assms(2) in \<open>auto simp: eval_ok_def intro!: number_small\<close>)
qed

lemma safe_delete_signatures: "safe (\<lambda>_. True) (delete_signatures flags v sigs code)"
  by (induction sigs arbitrary: code) (auto split: prod.split)

lemma safe_multisig_loop:
  assumes "checker_ok v checker" "v = SIGVERSION_BASE \<or> v = WITNESS_V0"
  shows "safe (\<lambda>_. True) (multisig_loop cr flags checker v code sigs keys)"
proof (induction keys arbitrary: sigs)
  case Nil
  show ?case by (cases sigs) simp_all
next
  case (Cons key keys)
  have "safe (\<lambda>_. True) (CheckECDSASignature checker sig key code v)" for sig
    using assms unfolding checker_ok_def by blast
  note binds = safe_bind [OF safe_CheckSignatureEncoding] safe_bind [OF safe_CheckPubKeyEncoding] safe_bind [OF this]
  show ?case
  proof (cases sigs)
    case (Cons sig sigs')
    show ?thesis unfolding Cons multisig_loop.simps Let_def by (intro safe_if binds Cons.IH) simp
  qed simp
qed

lemma safe_multisig_cleanup: "small_stack st \<Longrightarrow> safe small_stack (multisig_cleanup flags ok i ikey st)"
  by (induction flags ok i ikey st rule: multisig_cleanup.induct) auto

lemma safe_multisig_counts:
  "safe (\<lambda>(nKeys, nSigs, n). n \<le> int MAX_OPS_PER_SCRIPT \<and> nSigs \<le> nKeys \<and> nKeys + nSigs + 3 \<le> length st) (multisig_counts flags st ops)"
  unfolding multisig_counts_def Let_def by (intro safe_if safe_num_binds) auto

lemma safe_op_checkmultisig:
  assumes "checker_ok v checker" "eval_ok v st" "v \<noteq> TAPROOT"
  shows "safe (eval_ok v) (op_checkmultisig cr flags checker v oc st)"
proof -
  have v: "v = SIGVERSION_BASE \<or> v = WITNESS_V0" if "v \<noteq> TAPSCRIPT" using that assms(3) by (cases v) simp_all
  have st: "small_stack (es_stack st)" using assms(2) by (simp add: eval_ok_def)
  show ?thesis unfolding op_checkmultisig_def Let_def
    by (intro safe_if safe_case_prod safe_case_list safe_bind [OF safe_multisig_counts] safe_bind [OF safe_delete_signatures]
        safe_bind [OF safe_multisig_loop [OF assms(1) v]] safe_bind [OF safe_multisig_cleanup [OF st]])
      (use assms(2) in \<open>auto simp: eval_ok_def\<close>)
qed

definition safe_opt :: "('a \<Rightarrow> bool) \<Rightarrow> (script_failure + 'a) option \<Rightarrow> bool" where
  "safe_opt Q m \<longleftrightarrow> pred_option (safe Q) m"

lemma safe_opt_intros:
  "safe_opt Q None" "safe Q a \<Longrightarrow> safe_opt Q (Some a)"
  "(c \<Longrightarrow> safe_opt Q m) \<Longrightarrow> (\<not> c \<Longrightarrow> safe_opt Q n) \<Longrightarrow> safe_opt Q (if c then m else n)"
  by (auto simp: safe_opt_def)

lemma safe_op_if: "eval_ok v st \<Longrightarrow> safe (eval_ok v) (op_if flags v e oc st)"
  unfolding op_if_def Let_def by (intro safe_if safe_case_list) (auto simp: eval_ok_def)

lemma safe_else_endif: "eval_ok v st \<Longrightarrow> safe (eval_ok v) (op_else st)" "eval_ok v st \<Longrightarrow> safe (eval_ok v) (op_endif st)"
  by (simp_all add: op_else_def op_endif_def cond_empty_def toggle_top_def cond_pop_back_def Let_def eval_ok_def)

lemma safe_altstack: "eval_ok v st \<Longrightarrow> safe (eval_ok v) (op_toaltstack st)" "eval_ok v st \<Longrightarrow> safe (eval_ok v) (op_fromaltstack st)"
  by (auto simp: op_toaltstack_def op_fromaltstack_def eval_ok_def split: list.split)

lemma push_number_small: "small_stack st \<Longrightarrow> small_stack (push_number oc st)"
proof -
  have "0 \<le> uint oc \<and> uint oc < 256" using uint_bounded [of oc] by simp
  then have "\<bar>uint oc - 80\<bar> < 256" by linarith
  then have "\<bar>uint oc - 80\<bar> < 2 ^ 63" by simp
  then show "small_stack st \<Longrightarrow> small_stack (push_number oc st)" unfolding push_number_def by (simp add: number_small)
qed

lemma safe_exec_control:
  assumes "eval_ok v st"
  shows "safe_opt (eval_ok v) (exec_control flags checker v e oc st)"
proof -
  note rules = safe_op_if [OF assms] safe_else_endif [OF assms] on_stack_safe [OF assms] safe_bind [OF safe_locktime(1)] safe_bind [OF safe_locktime(2)]
  have "small_stack (es_stack st)" using assms by (simp add: eval_ok_def)
  then have "safe small_stack (op_verify (es_stack st))" by (rule safe_shuffles)
  then show ?thesis unfolding exec_control_def
    by (intro safe_opt_intros safe_if rules) (use assms in \<open>simp_all add: eval_ok_def push_number_small\<close>)
qed

lemma safe_exec_stack:
  assumes "eval_ok v st" "length (es_stack st) < 2 ^ 62"
  shows "safe_opt (eval_ok v) (exec_stack flags oc st)"
proof -
  have st: "small_stack (es_stack st)" using assms by (simp add: eval_ok_def)
  have "safe small_stack (Inr (op_depth (es_stack st)))" using st assms(2) by (simp add: op_depth_def number_small)
  note rules = safe_altstack [OF assms(1)] on_stack_safe [OF assms(1)] safe_shuffles [OF st] safe_op_size [OF st] safe_op_pick_roll [OF st] this
  show ?thesis unfolding exec_stack_def by (intro safe_opt_intros rules)
qed

lemma safe_exec_compute:
  assumes "eval_ok v st" "checker_ok v checker" "crypto_ok cr" "v \<noteq> TAPROOT"
  shows "safe_opt (eval_ok v) (exec_compute cr flags checker v pc oc st)"
proof -
  have st: "small_stack (es_stack st)" using assms by (simp add: eval_ok_def)
  have cs: "safe (eval_ok v) (Inr (op_codeseparator pc st))" using assms(1) by (simp add: op_codeseparator_def eval_ok_def)
  note rules = on_stack_safe [OF assms(1)] safe_shuffles [OF st] safe_op_unary [OF st] safe_op_binary [OF st] safe_op_within [OF st]
    safe_op_digest [OF assms(3) st] safe_op_checksig [OF assms(2,1,4)] safe_op_checksigadd [OF assms(2,1,4)] safe_op_checkmultisig [OF assms(2,1,4)] cs
  show ?thesis unfolding exec_compute_def by (intro safe_opt_intros rules) auto
qed

lemma safe_exec_opcode:
  assumes "eval_ok v st" "length (es_stack st) < 2 ^ 62" "checker_ok v checker" "crypto_ok cr" "v \<noteq> TAPROOT"
  shows "safe (eval_ok v) (exec_opcode cr flags checker v e pc oc st)"
  using safe_exec_control [OF assms(1), of flags checker e oc] safe_exec_stack [OF assms(1,2), of flags oc]
    safe_exec_compute [OF assms(1,3,4,5), of flags pc oc]
  by (auto simp: exec_opcode_def safe_opt_def split: option.split)

definition stacks_size :: "eval_state \<Rightarrow> nat" where "stacks_size st = length (es_stack st) + length (es_altstack st)"

lemma safe_eval_step:
  assumes "eval_ok v st" "length (es_stack st) < 2 ^ 62" "checker_ok v checker" "crypto_ok cr" "v \<noteq> TAPROOT"
  shows "safe (\<lambda>st. eval_ok v st \<and> stacks_size st \<le> MAX_STACK_SIZE) (eval_step cr flags checker v oc d pc st)"
proof -
  let ?st = "if (v = SIGVERSION_BASE \<or> v = WITNESS_V0) \<and> oc > OP_16 then st\<lparr>nOpCount := nOpCount st + 1\<rparr> else st"
  have len: "length (es_stack ?st) < 2 ^ 62" using assms(2) by simp
  have ok: "eval_ok v ?st" if "\<not> ((v = SIGVERSION_BASE \<or> v = WITNESS_V0) \<and> oc > OP_16 \<and> nOpCount ?st > int MAX_OPS_PER_SCRIPT)"
    using assms(1) that by (auto simp: eval_ok_def)
  show ?thesis unfolding eval_step_def Let_def
  proof (intro safe_if safe_bind [where P = "eval_ok v"])
    assume "\<not> ((v = SIGVERSION_BASE \<or> v = WITNESS_V0) \<and> oc > OP_16 \<and> nOpCount ?st > int MAX_OPS_PER_SCRIPT)"
    then show "safe (eval_ok v) (exec_opcode cr flags checker v (all_true (vfExec st)) pc oc ?st)"
      by (intro safe_exec_opcode ok len assms)
  next
    assume "\<not> ((v = SIGVERSION_BASE \<or> v = WITNESS_V0) \<and> oc > OP_16 \<and> nOpCount ?st > int MAX_OPS_PER_SCRIPT)"
    then show "safe (eval_ok v) (Inr ?st)" using ok by simp
  next
    assume "\<not> ((v = SIGVERSION_BASE \<or> v = WITNESS_V0) \<and> oc > OP_16 \<and> nOpCount ?st > int MAX_OPS_PER_SCRIPT)"
      "\<not> length d > MAX_SCRIPT_ELEMENT_SIZE"
    then show "safe (eval_ok v) (Inr (?st\<lparr>es_stack := d # es_stack ?st\<rparr>))" using ok by (simp add: eval_ok_def)
  qed (simp_all add: eval_ok_def stacks_size_def)
qed

lemma safe_eval_loop:
  assumes "checker_ok v checker" "crypto_ok cr" "v \<noteq> TAPROOT" "eval_ok v st" "length (es_stack st) < 2 ^ 62"
  shows "safe (\<lambda>st'. eval_ok v st' \<and> (pc \<noteq> [] \<longrightarrow> stacks_size st' \<le> MAX_STACK_SIZE)) (eval_loop cr flags checker v pc st)"
  using assms(4,5)
proof (induction "length pc" arbitrary: pc st rule: less_induct)
  case less
  show ?case
  proof (cases "GetScriptOp pc")
    case None
    then show ?thesis using less.prems by (simp add: eval_loop.simps [where pc = pc])
  next
    case (Some r)
    then obtain oc d pc' where r: "GetScriptOp pc = Some (oc, d, pc')" by (cases r) auto
    have "safe (\<lambda>st'. eval_ok v st' \<and> (pc \<noteq> [] \<longrightarrow> stacks_size st' \<le> MAX_STACK_SIZE)) (eval_loop cr flags checker v pc' st')"
      if st': "eval_ok v st' \<and> stacks_size st' \<le> MAX_STACK_SIZE" for st'
    proof (cases "pc' = []")
      case True
      then show ?thesis using st' by (simp add: eval_loop.simps)
    next
      case False
      have "length (es_stack st') < 2 ^ 62" using st' by (simp add: stacks_size_def MAX_STACK_SIZE_def)
      from less.hyps [OF GetScriptOp_less [OF r] conjunct1 [OF st'] this] show ?thesis by (rule safe_mono) (use False in simp_all)
    qed
    then have "safe (\<lambda>st'. eval_ok v st' \<and> (pc \<noteq> [] \<longrightarrow> stacks_size st' \<le> MAX_STACK_SIZE))
        (ebind (eval_step cr flags checker v oc d pc' st) (eval_loop cr flags checker v pc'))"
      by (rule safe_bind [OF safe_eval_step [OF less.prems assms(1-3)]])
    moreover have "pc \<noteq> []" using GetScriptOp_less [OF r] by auto
    ultimately show ?thesis by (simp add: eval_loop.simps [where pc = pc] r)
  qed
qed

lemma safe_EvalScript:
  assumes "checker_ok v checker" "crypto_ok cr" "v \<noteq> TAPROOT" "small_stack stack" "length stack < 2 ^ 62" "execdata_ok v (ed\<lparr>m_codeseparator_pos_init := True\<rparr>)"
  shows "safe (\<lambda>(stack', ed'). small_stack stack' \<and> execdata_ok v ed' \<and> (script \<noteq> [] \<longrightarrow> length stack' \<le> MAX_STACK_SIZE))
    (EvalScript cr stack script flags checker v ed)"
proof -
  define st where "st = \<lparr>es_stack = stack, es_altstack = [], vfExec = ConditionStack_new, nOpCount = 0, pbegincodehash = script,
    es_execdata = ed\<lparr>m_codeseparator_pos := 0xFFFFFFFF, m_codeseparator_pos_init := True\<rparr>, opcode_pos = 0\<rparr>"
  have "eval_ok v st" "length (es_stack st) < 2 ^ 62" using assms by (simp_all add: st_def eval_ok_def execdata_ok_def)
  note loop = safe_eval_loop [OF assms(1-3) this, of script flags]
  have v: "v = SIGVERSION_BASE \<or> v = WITNESS_V0 \<or> v = TAPSCRIPT" using assms(3) by (cases v) simp_all
  show ?thesis unfolding EvalScript_def Let_def st_def [symmetric]
    by (intro safe_if safe_bind [OF loop]) (use v in \<open>auto simp: eval_ok_def stacks_size_def\<close>)
qed

subsection \<open>The condition stack as a list\<close>

datatype cond_op = Cond_push bool | Cond_pop | Cond_toggle

fun cond_step :: "cond_op \<Rightarrow> ConditionStack \<Rightarrow> ConditionStack option" where
  "cond_step (Cond_push f) c = Some (cond_push_back c f)"
| "cond_step Cond_pop c = cond_pop_back c"
| "cond_step Cond_toggle c = toggle_top c"

fun cond_spec :: "cond_op \<Rightarrow> bool list \<Rightarrow> bool list option" where
  "cond_spec (Cond_push f) bs = Some (bs @ [f])"
| "cond_spec Cond_pop bs = (if bs = [] then None else Some (butlast bs))"
| "cond_spec Cond_toggle bs = (if bs = [] then None else Some (butlast bs @ [\<not> last bs]))"

fun run_ops :: "('o \<Rightarrow> 's \<Rightarrow> 's option) \<Rightarrow> 'o list \<Rightarrow> 's \<Rightarrow> 's option" where
  "run_ops f [] s = Some s"
| "run_ops f (x # xs) s = Option.bind (f x s) (run_ops f xs)"

definition cond_repr :: "ConditionStack \<Rightarrow> bool list \<Rightarrow> bool" where
  "cond_repr c bs \<longleftrightarrow> length bs < 2 ^ 32 - 1 \<and> m_stack_size c = word_of_nat (length bs) \<and>
     m_first_false_pos c = (if list_all id bs then NO_FALSE else word_of_nat (length (takeWhile id bs)))"

lemma word32_eq: "m < 2 ^ 32 \<Longrightarrow> n < 2 ^ 32 \<Longrightarrow> (word_of_nat m :: u32) = word_of_nat n \<longleftrightarrow> m = n"
  by (simp add: word_of_nat_eq_iff take_bit_nat_eq_self)

lemma cond_repr_obs:
  assumes "cond_repr c bs"
  shows "cond_empty c \<longleftrightarrow> bs = []" "all_true c \<longleftrightarrow> list_all id bs"
proof -
  have "length bs < 2 ^ 32 - 1" using assms by (simp add: cond_repr_def)
  moreover have "length (takeWhile id bs) \<le> length bs" by (rule length_takeWhile_le)
  moreover have n: "NO_FALSE = word_of_nat (2 ^ 32 - 1)" by (simp add: NO_FALSE_def)
  ultimately show "cond_empty c \<longleftrightarrow> bs = []" "all_true c \<longleftrightarrow> list_all id bs"
    using assms word32_eq [of "length bs" 0] word32_eq [of "length (takeWhile id bs)" "2 ^ 32 - 1"]
    by (auto simp: cond_repr_def cond_empty_def all_true_def)
qed

lemma all_id: "list_all id bs \<longleftrightarrow> False \<notin> set bs"
  by (induction bs) auto

lemma takeWhile_false: "False \<in> set bs \<Longrightarrow> length (takeWhile id bs) < length bs"
  by (induction bs) auto

lemma takeWhile_all: "False \<notin> set bs \<Longrightarrow> takeWhile id bs = bs"
  by (induction bs) auto

lemma takeWhile_in: "False \<in> set cs \<Longrightarrow> takeWhile id (cs @ bs) = takeWhile id cs"
  by (induction cs) auto

lemma takeWhile_out: "False \<notin> set cs \<Longrightarrow> takeWhile id (cs @ [b]) = (if b then cs @ [b] else cs)"
  by (induction cs) auto

lemma cond_push_repr: "cond_repr c bs \<Longrightarrow> length bs + 1 < 2 ^ 32 - 1 \<Longrightarrow> cond_repr (cond_push_back c f) (bs @ [f])"
  using cond_repr_obs(2) [of c bs]
  by (auto simp: cond_repr_def cond_push_back_def all_true_def all_id takeWhile_all Let_def takeWhile_append)

lemma cond_last_repr:
  assumes "cond_repr c bs" "bs \<noteq> []"
  obtains cs b where "bs = cs @ [b]" "m_stack_size c - 1 = word_of_nat (length cs)" "m_stack_size c \<noteq> 0" "length cs + 1 < 2 ^ 32 - 1"
    "m_first_false_pos c = NO_FALSE \<longleftrightarrow> False \<notin> set bs"
    "m_first_false_pos c = word_of_nat (length cs) \<longleftrightarrow> \<not> b \<and> False \<notin> set cs"
proof -
  obtain cs b where bs: "bs = cs @ [b]" using assms(2) by (cases bs rule: rev_cases) auto
  have len: "length cs + 1 < 2 ^ 32 - 1" using assms(1) bs by (simp add: cond_repr_def)
  have size: "m_stack_size c = word_of_nat (length cs) + 1" using assms(1) bs by (simp add: cond_repr_def)
  have nz: "m_stack_size c \<noteq> 0" using cond_repr_obs(1) [OF assms(1)] assms(2) by (simp add: cond_empty_def)
  have all: "m_first_false_pos c = NO_FALSE \<longleftrightarrow> False \<notin> set bs"
    using cond_repr_obs(2) [OF assms(1)] by (simp add: all_true_def all_id)
  have "m_first_false_pos c = word_of_nat (length cs) \<longleftrightarrow> \<not> b \<and> False \<notin> set cs"
  proof (cases "False \<in> set bs")
    case True
    then have pos: "m_first_false_pos c = word_of_nat (length (takeWhile id bs))" using assms(1) by (simp add: cond_repr_def all_id)
    have "length (takeWhile id bs) < 2 ^ 32" using takeWhile_false [OF True] len bs by simp
    then have "m_first_false_pos c = word_of_nat (length cs) \<longleftrightarrow> length (takeWhile id bs) = length cs"
      unfolding pos using len by (intro word32_eq) simp_all
    also have "\<dots> \<longleftrightarrow> \<not> b \<and> False \<notin> set cs"
      using True bs takeWhile_false [of cs] by (auto simp: takeWhile_append takeWhile_all)
    finally show ?thesis .
  next
    case False
    have "(2 ^ 32 - 1 :: nat) \<noteq> length cs" using len by simp
    then have "NO_FALSE \<noteq> word_of_nat (length cs)"
      using word32_eq [of "2 ^ 32 - 1" "length cs"] len by (simp add: NO_FALSE_def)
    then show ?thesis using all False bs by auto
  qed
  with that [OF bs _ nz len all] size show thesis by simp
qed

lemma cond_step_repr:
  assumes "cond_repr c bs" "length bs + 1 < 2 ^ 32 - 1"
  shows "rel_option cond_repr (cond_step x c) (cond_spec x bs)"
proof (cases "bs = []")
  case True
  then have "m_stack_size c = 0" using assms(1) by (simp add: cond_repr_def)
  then show ?thesis using True cond_push_repr [OF assms] by (cases x) (simp_all add: cond_pop_back_def toggle_top_def)
next
  case False
  from cond_last_repr [OF assms(1) False] obtain cs b where l: "bs = cs @ [b]" "m_stack_size c - 1 = word_of_nat (length cs)"
    "m_stack_size c \<noteq> 0" "length cs + 1 < 2 ^ 32 - 1" "m_first_false_pos c = NO_FALSE \<longleftrightarrow> False \<notin> set bs"
    "m_first_false_pos c = word_of_nat (length cs) \<longleftrightarrow> \<not> b \<and> False \<notin> set cs" by metis
  have repr: "m_stack_size c = word_of_nat (length bs)"
    "False \<in> set bs \<Longrightarrow> m_first_false_pos c = word_of_nat (length (takeWhile id bs))"
    using assms(1) by (simp_all add: cond_repr_def all_id)
  show ?thesis
  proof (cases x)
    case (Cond_push f)
    then show ?thesis using cond_push_repr [OF assms] by simp
  next
    case Cond_pop
    have "cond_repr (if m_first_false_pos c = word_of_nat (length cs) then c\<lparr>m_stack_size := word_of_nat (length cs), m_first_false_pos := NO_FALSE\<rparr>
        else c\<lparr>m_stack_size := word_of_nat (length cs)\<rparr>) cs"
      using l(1,4,5,6) repr(2) by (auto simp: cond_repr_def all_id takeWhile_append)
    then show ?thesis using l(1-3) Cond_pop by (simp add: cond_pop_back_def Let_def)
  next
    case Cond_toggle
    have "cond_repr (if m_first_false_pos c = NO_FALSE then c\<lparr>m_first_false_pos := word_of_nat (length cs)\<rparr>
        else if m_first_false_pos c = word_of_nat (length cs) then c\<lparr>m_first_false_pos := NO_FALSE\<rparr> else c) (cs @ [\<not> b])"
    proof (cases "False \<in> set cs")
      case True
      then show ?thesis using l(1,4,5,6) repr by (simp add: cond_repr_def all_id takeWhile_in)
    next
      case False
      then show ?thesis using l(1,4,5,6) repr by (cases b) (simp_all add: cond_repr_def all_id takeWhile_out)
    qed
    then show ?thesis using l(3) unfolding Cond_toggle l(1)
      by (simp only: cond_step.simps cond_spec.simps toggle_top_def l(2) if_False append_is_Nil_conv list.distinct simp_thms
          butlast_snoc last_snoc option.rel_inject)
  qed
qed

lemma cond_spec_length: "cond_spec x bs = Some bs' \<Longrightarrow> length bs' \<le> length bs + 1"
  by (cases x) (auto split: if_splits)

lemma run_cond_repr:
  "cond_repr c bs \<Longrightarrow> length bs + length xs < 2 ^ 32 - 1 \<Longrightarrow> rel_option cond_repr (run_ops cond_step xs c) (run_ops cond_spec xs bs)"
proof (induction xs arbitrary: c bs)
  case (Cons x xs)
  have "rel_option cond_repr (cond_step x c) (cond_spec x bs)" by (rule cond_step_repr) (use Cons.prems in simp_all)
  then show ?case
  proof (cases rule: option.rel_cases)
    case (Some c' bs')
    have "length bs' + length xs < 2 ^ 32 - 1" using cond_spec_length [OF Some(2)] Cons.prems(2) by simp
    then show ?thesis using Cons.IH [OF Some(3)] Some(1,2) by simp
  qed simp
qed simp

lemma cond_new_repr: "cond_repr ConditionStack_new []"
  by (simp add: cond_repr_def ConditionStack_new_def)

subsection \<open>Multiple signatures\<close>

lemma multisig_loop_iff:
  assumes "\<And>sig. sig \<in> set sigs \<Longrightarrow> CheckSignatureEncoding cr sig flags = Inr ()"
    "\<And>key. key \<in> set keys \<Longrightarrow> CheckPubKeyEncoding key flags v = Inr ()"
    "\<And>sig key. sig \<in> set sigs \<Longrightarrow> key \<in> set keys \<Longrightarrow> CheckECDSASignature checker sig key code v = Inr (valid sig key)"
  shows "multisig_loop cr flags checker v code sigs keys = Inr (\<exists>ks. subseq ks keys \<and> list_all2 valid sigs ks)"
  using assms
proof (induction keys arbitrary: sigs)
  case Nil
  show ?case by (cases sigs) (auto dest: list_emb_Nil2)
next
  case (Cons key keys)
  show ?case
  proof (cases sigs)
    case Nil
    have "subseq [] (key # keys) \<and> list_all2 valid [] []" by simp
    then have "\<exists>ks. subseq ks (key # keys) \<and> list_all2 valid [] ks" by (rule exI)
    then show ?thesis unfolding Nil multisig_loop.simps by simp
  next
    case sigs: (Cons sig sigs')
    let ?s = "if valid sig key then sigs' else sig # sigs'"
    have IH: "multisig_loop cr flags checker v code ?s keys = Inr (\<exists>ks. subseq ks keys \<and> list_all2 valid ?s ks)"
      by (rule Cons.IH) (use Cons.prems sigs in \<open>auto split: if_splits\<close>)
    have iff: "(\<exists>ks. subseq ks (key # keys) \<and> list_all2 valid (sig # sigs') ks) \<longleftrightarrow> (\<exists>ks. subseq ks keys \<and> list_all2 valid ?s ks)"
    proof
      assume "\<exists>ks. subseq ks (key # keys) \<and> list_all2 valid (sig # sigs') ks"
      then obtain k ks where ks: "subseq (k # ks) (key # keys)" "valid sig k" "list_all2 valid sigs' ks"
        by (auto simp: list_all2_Cons1)
      show "\<exists>ks. subseq ks keys \<and> list_all2 valid ?s ks"
      proof (cases "valid sig key")
        case True
        then show ?thesis using ks(1,3) subseq_Cons' [of k ks keys] by (auto split: if_splits)
      next
        case False
        then have "subseq (k # ks) keys" using ks(1,2) by (auto split: if_splits)
        then show ?thesis using ks False by auto
      qed
    next
      assume "\<exists>ks. subseq ks keys \<and> list_all2 valid ?s ks"
      then obtain ks where ks: "subseq ks keys" "list_all2 valid ?s ks" by blast
      show "\<exists>ks. subseq ks (key # keys) \<and> list_all2 valid (sig # sigs') ks"
      proof (cases "valid sig key")
        case True
        then show ?thesis using ks by (intro exI [of _ "key # ks"]) simp
      next
        case False
        then show ?thesis using ks by (intro exI [of _ ks]) (auto intro: list_emb_Cons)
      qed
    qed
    have "length sigs \<le> length keys" if "subseq ks keys" "list_all2 valid sigs ks" for ks sigs
      using that list_emb_length [OF that(1)] list_all2_lengthD [OF that(2)] by simp
    then have "\<not> (\<exists>ks. subseq ks keys \<and> list_all2 valid ?s ks)" if "length ?s > length keys" using that not_le by blast
    with iff IH show ?thesis using Cons.prems sigs by (auto simp: Let_def)
  qed
qed

subsection \<open>Encoding of signatures\<close>

text \<open>A positive number of a signature in its shortest form, and a signature with the type of its hash.\<close>

definition der_number :: "bytes \<Rightarrow> bool" where
  "der_number R \<longleftrightarrow> R \<noteq> [] \<and> R ! 0 AND 0x80 = 0 \<and> \<not> (length R > 1 \<and> R ! 0 = 0 \<and> R ! 1 AND 0x80 = 0)"

definition der_signature :: "bytes \<Rightarrow> bytes \<Rightarrow> u8 \<Rightarrow> bytes" where
  "der_signature R S hashtype =
     [0x30, word_of_nat (length R + length S + 4), 0x02, word_of_nat (length R)] @ R @ [0x02, word_of_nat (length S)] @ S @ [hashtype]"

lemma der_signature_length [simp]: "length (der_signature R S t) = length R + length S + 7"
  by (simp add: der_signature_def)

lemma der_signature_nth:
  "der_signature R S t ! 0 = 0x30" "der_signature R S t ! 1 = word_of_nat (length R + length S + 4)"
  "der_signature R S t ! 2 = 0x02" "der_signature R S t ! 3 = word_of_nat (length R)"
  "i < length R \<Longrightarrow> der_signature R S t ! (4 + i) = R ! i"
  "der_signature R S t ! (length R + 4) = 0x02" "der_signature R S t ! (5 + length R) = word_of_nat (length S)"
  "i < length S \<Longrightarrow> der_signature R S t ! (length R + 6 + i) = S ! i"
  by (simp_all add: der_signature_def nth_append nth_Cons' eval_nat_numeral)

lemma unat_word8: "n < 256 \<Longrightarrow> unat (word_of_nat n :: u8) = n"
  by (simp add: unat_of_nat take_bit_nat_eq_self)

lemma der_signature_valid:
  assumes "der_number R" "der_number S" "length R + length S + 7 \<le> 73"
  shows "IsValidSignatureEncoding (der_signature R S t)"
proof -
  let ?sig = "der_signature R S t"
  have pos: "0 < length R" "0 < length S" using assms by (auto simp: der_number_def)
  have r: "?sig ! 4 = R ! 0" "length R > 1 \<Longrightarrow> ?sig ! 5 = R ! 1"
    using der_signature_nth(5) [of 0 R S t] der_signature_nth(5) [of 1 R S t] pos by simp_all
  have s: "?sig ! (length R + 6) = S ! 0" "length S > 1 \<Longrightarrow> ?sig ! (length R + 7) = S ! 1"
    using der_signature_nth(8) [of 0 S R t] der_signature_nth(8) [of 1 S R t] pos by (simp_all add: add.commute)
  have len: "unat (?sig ! 1) = length ?sig - 3" "unat (?sig ! 3) = length R" "unat (?sig ! (5 + length R)) = length S"
    using assms(3) unat_word8 [of "length R + length S + 4"] unat_word8 [of "length R"] unat_word8 [of "length S"]
    by (simp_all only: der_signature_nth der_signature_length)
  have size: "\<not> length ?sig < 9" "\<not> length ?sig > 73" "\<not> 5 + length R \<ge> length ?sig" "length R + length S + 7 = length ?sig"
    "length R \<noteq> 0" "length S \<noteq> 0"
    using assms(3) pos unfolding der_signature_length by linarith+
  have numbers: "?sig ! 4 AND 0x80 = 0" "\<not> (length R > 1 \<and> ?sig ! 4 = 0 \<and> ?sig ! 5 AND 0x80 = 0)"
    "?sig ! (length R + 6) AND 0x80 = 0" "\<not> (length S > 1 \<and> ?sig ! (length R + 6) = 0 \<and> ?sig ! (length R + 7) AND 0x80 = 0)"
    using assms(1,2) r s unfolding der_number_def by auto
  show ?thesis unfolding IsValidSignatureEncoding_def Let_def len der_signature_nth(1,3,6)
    by (simp only: size numbers simp_thms if_False)
qed

lemma split_at: "n \<le> length xs \<Longrightarrow> \<exists>ys zs. xs = ys @ zs \<and> length ys = n"
  by (metis append_take_drop_id length_take min.absorb2)

lemma length_two: "2 \<le> length xs \<Longrightarrow> \<exists>a b ys. xs = a # b # ys"
  by (metis One_nat_def Suc_1 Suc_le_length_iff)

lemma valid_signature_der:
  assumes "IsValidSignatureEncoding sig"
  obtains R S t where "sig = der_signature R S t" "der_number R" "der_number S" "length R + length S + 7 \<le> 73"
proof -
  let ?r = "unat (sig ! 3)"
  let ?s = "unat (sig ! (5 + ?r))"
  have v: "9 \<le> length sig" "length sig \<le> 73" "sig ! 0 = 0x30" "unat (sig ! 1) = length sig - 3" "5 + ?r < length sig"
    "?r + ?s + 7 = length sig" "sig ! 2 = 0x02" "?r \<noteq> 0" "sig ! 4 AND 0x80 = 0" "\<not> (?r > 1 \<and> sig ! 4 = 0 \<and> sig ! 5 AND 0x80 = 0)"
    "sig ! (?r + 4) = 0x02" "?s \<noteq> 0" "sig ! (?r + 6) AND 0x80 = 0" "\<not> (?s > 1 \<and> sig ! (?r + 6) = 0 \<and> sig ! (?r + 7) AND 0x80 = 0)"
    using assms unfolding IsValidSignatureEncoding_def Let_def by (auto split: if_splits)
  obtain a b c d rest where sig: "sig = a # b # c # d # rest"
    using v(1) length_two [of sig] length_two [of "drop 2 sig"] by (auto simp: numeral_2_eq_2)
  have d: "?r = unat d" by (simp add: sig)
  have "unat d \<le> length rest" using v(6) unfolding d by (simp add: sig)
  then obtain R rest2 where R: "rest = R @ rest2" "length R = unat d" using split_at by metis
  have "2 \<le> length rest2" using v(6) unfolding d by (simp add: sig R)
  then obtain e f rest3 where e: "rest2 = e # f # rest3" using length_two by blast
  have f: "?s = unat f" unfolding d by (simp add: sig R e nth_append)
  have total: "unat d + unat f + 7 = length sig" using v(6) f d by linarith
  then have "unat f \<le> length rest3" by (simp add: sig R e)
  then obtain S rest4 where S: "rest3 = S @ rest4" "length S = unat f" using split_at by metis
  have "length rest4 = 1" using total by (simp add: sig R e S)
  then obtain t where t: "rest4 = [t]" by (auto simp: length_Suc_conv)
  have len: "length sig = length R + length S + 7" using R S by (simp add: sig e t)
  have bytes: "b = word_of_nat (length R + length S + 4)" "d = word_of_nat (length R)" "f = word_of_nat (length S)"
  proof -
    have "unat b = length R + length S + 4" using v(4) len by (simp add: sig)
    then have "word_of_nat (unat b) = (word_of_nat (length R + length S + 4) :: u8)" by (rule arg_cong)
    then show "b = word_of_nat (length R + length S + 4)" by simp
    show "d = word_of_nat (length R)" "f = word_of_nat (length S)" unfolding R(2) S(2) by simp_all
  qed
  have eq: "sig = der_signature R S t"
  proof -
    have "a = 0x30" "c = 0x02" using v(3,7) by (simp_all add: sig)
    moreover have "e = 0x02" using v(11) unfolding d R(2) [symmetric] by (simp add: sig R(1) e nth_append)
    ultimately show ?thesis unfolding sig R(1) e S(1) t der_signature_def bytes(1) by (simp add: R(2) S(2))
  qed
  have rs: "?r = length R" "?s = length S" using d f R S by simp_all
  have s2: "unat (sig ! (5 + length R)) = length S" using rs(2) unfolding rs(1) .
  have pos: "0 < length R" "0 < length S" using v(8,12) rs by simp_all
  have "sig ! 4 = R ! 0" "length R > 1 \<Longrightarrow> sig ! 5 = R ! 1" "sig ! (length R + 6) = S ! 0" "length S > 1 \<Longrightarrow> sig ! (length R + 7) = S ! 1"
    using der_signature_nth(5) [of 0 R S t] der_signature_nth(5) [of 1 R S t] der_signature_nth(8) [of 0 S R t]
      der_signature_nth(8) [of 1 S R t] pos unfolding eq by (simp_all add: add.commute)
  then have "der_number R" "der_number S" using v(9,10,13,14) pos unfolding rs(1) s2 der_number_def by auto
  with that [OF eq] v(2) len show thesis by simp
qed

subsection \<open>Properties\<close>

text \<open>An instance for the examples: a signature is valid if it is the key.\<close>

definition sample_checker :: BaseSignatureChecker where
  "sample_checker = \<lparr>CheckECDSASignature = (\<lambda>sig key code v. Inr (sig = key)),
     CheckSchnorrSignature = (\<lambda>sig key v ed. if sig = key then Inr ed else script_error SCRIPT_ERR_SCHNORR_SIG),
     CheckLockTime = (\<lambda>n. True), CheckSequence = (\<lambda>n. True)\<rparr>"

definition sample_crypto :: crypto where
  "sample_crypto = \<lparr>sha256 = (\<lambda>b. take 32 (b @ replicate 32 0)), ripemd160 = (\<lambda>b. take 20 (b @ replicate 20 0)),
     sha1 = (\<lambda>b. take 20 (b @ replicate 20 1)), ecdsa_verify = (\<lambda>key h sig. sig = key), schnorr_verify = (\<lambda>key h sig. sig = key),
     CheckLowS = (\<lambda>sig. True), CheckTapTweak = (\<lambda>q p root parity. q = p)\<rparr>"

lemma sample_ok: "checker_ok v sample_checker" "crypto_ok sample_crypto"
  by (auto simp: checker_ok_def sample_checker_def crypto_ok_def sample_crypto_def)



text \<open>
  C9: the condition stack, which holds only its size and the position of the first false value, behaves as the list of all values.
  After any sequence of pushes, pops and toggles it has failed an assertion exactly if the list was empty at a pop or toggle;
  otherwise it tells whether the list is empty and whether all its values are true.
\<close>

theorem condition_stack_refines:
  assumes "length ops < 2 ^ 32 - 1"
  shows "case (run_ops cond_step ops ConditionStack_new, run_ops cond_spec ops []) of
      (Some c, Some values) \<Rightarrow> (cond_empty c \<longleftrightarrow> values = []) \<and> (all_true c \<longleftrightarrow> list_all id values)
    | (None, None) \<Rightarrow> True
    | _ \<Rightarrow> False"
proof -
  have "rel_option cond_repr (run_ops cond_step ops ConditionStack_new) (run_ops cond_spec ops [])"
    using run_cond_repr [OF cond_new_repr] assms by simp
  then show ?thesis by (cases rule: option.rel_cases) (auto simp: cond_repr_obs)
qed

theorem condition_stack_refines_witness:
  "map_option all_true (run_ops cond_step [Cond_push True, Cond_push False, Cond_toggle, Cond_pop] ConditionStack_new) = Some True"
  using condition_stack_refines [of "[Cond_push True, Cond_push False, Cond_toggle, Cond_pop]"]
  by (auto split: option.splits)

text \<open>
  C8: the greedy loop of \<^verbatim>\<open>OP_CHECKMULTISIG\<close> is complete. Where the encodings pass, it succeeds exactly if the signatures, in
  their order, are valid for some of the keys in the order of the keys, although it tries every key once only and stops early.
\<close>

theorem checkmultisig_in_order:
  assumes "\<forall>sig \<in> set sigs. CheckSignatureEncoding cr sig flags = Inr ()" "\<forall>key \<in> set keys. CheckPubKeyEncoding key flags v = Inr ()"
    "\<forall>sig \<in> set sigs. \<forall>key \<in> set keys. CheckECDSASignature checker sig key code v = Inr (valid sig key)"
  shows "multisig_loop cr flags checker v code sigs keys = Inr (\<exists>ks. subseq ks keys \<and> list_all2 valid sigs ks)"
  using assms by (intro multisig_loop_iff) auto

theorem checkmultisig_in_order_witness:
  "multisig_loop sample_crypto 0 sample_checker SIGVERSION_BASE [] [[1], [3]] [[1], [2], [3]] =
   Inr (\<exists>ks. subseq ks [[1], [2], [3 :: u8]] \<and> list_all2 (=) [[1], [3]] ks)"
  by (rule checkmultisig_in_order)
    (simp_all add: CheckSignatureEncoding_def CheckPubKeyEncoding_def sample_checker_def)


end
