(* ===== verification/Script_Verify.thy ===== *)
theory Script_Verify
  imports Script_Eval
begin

text \<open>
  Signature hashes, the signature checker of a transaction and the verification of an input, the second half of
  \<^verbatim>\<open>src/src/script/interpreter.cpp\<close>. The hash writer \<^verbatim>\<open>CHashWriter\<close> is the bytes written to it. A witness is the list of its
  elements with the top of the stack last, as in the code; evaluation starts from its reverse.
\<close>

subsection \<open>Serialization of a transaction for a signature\<close>

text \<open>
  \<^verbatim>\<open>GetOp\<close> moves the iterator also when it fails: past the opcode and, if it can be read, past the size of the push.
\<close>

definition failed_pos :: "bytes \<Rightarrow> bytes" where
  "failed_pos it =
     (case it of [] \<Rightarrow> []
      | opcode # it \<Rightarrow> (case read_push_size opcode it of None \<Rightarrow> it | Some (nSize, it) \<Rightarrow> it))"

function count_codeseparators :: "bytes \<Rightarrow> nat" where
  "count_codeseparators it =
     (case GetScriptOp it of None \<Rightarrow> 0
      | Some (opcode, vch, it') \<Rightarrow> (if opcode = OP_CODESEPARATOR then 1 else 0) + count_codeseparators it')"
  by pat_completeness auto
termination by (relation "measure length") (auto dest: GetScriptOp_less)

function write_script_code :: "bytes \<Rightarrow> bytes \<Rightarrow> bytes" where
  "write_script_code itBegin it =
     (case GetScriptOp it of
        None \<Rightarrow> if itBegin \<noteq> [] then take (length itBegin - length (failed_pos it)) itBegin else []
      | Some (opcode, vch, it') \<Rightarrow>
          if opcode = OP_CODESEPARATOR then take (length itBegin - length it' - 1) itBegin @ write_script_code it' it'
          else write_script_code itBegin it')"
  by pat_completeness auto
termination by (relation "measure (\<lambda>(b, it). length it)") (auto dest: GetScriptOp_less)

declare count_codeseparators.simps [simp del] write_script_code.simps [simp del]

definition SerializeScriptCode :: "CScript \<Rightarrow> bytes" where
  "SerializeScriptCode scriptCode =
     WriteCompactSize (word_of_nat (length scriptCode - count_codeseparators scriptCode)) @ write_script_code scriptCode scriptCode"

definition fAnyoneCanPay :: "int \<Rightarrow> bool" where "fAnyoneCanPay nHashType \<longleftrightarrow> nHashType AND SIGHASH_ANYONECANPAY \<noteq> 0"
definition fHashSingle :: "int \<Rightarrow> bool" where "fHashSingle nHashType \<longleftrightarrow> nHashType AND 0x1f = SIGHASH_SINGLE"
definition fHashNone :: "int \<Rightarrow> bool" where "fHashNone nHashType \<longleftrightarrow> nHashType AND 0x1f = SIGHASH_NONE"

definition SerializeInput :: "CTransaction \<Rightarrow> CScript \<Rightarrow> nat \<Rightarrow> int \<Rightarrow> nat \<Rightarrow> bytes" where
  "SerializeInput txTo scriptCode nIn nHashType nInput =
     (let nInput = (if fAnyoneCanPay nHashType then nIn else nInput); txin = vin txTo ! nInput
      in ser_COutPoint (prevout txin) @
         (if nInput \<noteq> nIn then ser_bytes [] else SerializeScriptCode scriptCode) @
         (if nInput \<noteq> nIn \<and> (fHashSingle nHashType \<or> fHashNone nHashType) then ser_writedata32 0 else ser_writedata32 (nSequence txin)))"

definition SerializeOutput :: "CTransaction \<Rightarrow> nat \<Rightarrow> int \<Rightarrow> nat \<Rightarrow> bytes" where
  "SerializeOutput txTo nIn nHashType nOutput =
     (if fHashSingle nHashType \<and> nOutput \<noteq> nIn then ser_CTxOut CTxOut_null else ser_CTxOut (vout txTo ! nOutput))"

definition CTransactionSignatureSerializer :: "CTransaction \<Rightarrow> CScript \<Rightarrow> nat \<Rightarrow> int \<Rightarrow> bytes" where
  "CTransactionSignatureSerializer txTo scriptCode nIn nHashType =
     (let nInputs = (if fAnyoneCanPay nHashType then 1 else length (vin txTo));
          nOutputs = (if fHashNone nHashType then 0 else if fHashSingle nHashType then nIn + 1 else length (vout txTo))
      in ser_writedata32 (tx_nVersion txTo) @
         (if sint (tx_nVersion txTo) < 3 then ser_writedata32 (tx_nTime txTo) else []) @
         WriteCompactSize (word_of_nat nInputs) @
         concat (map (SerializeInput txTo scriptCode nIn nHashType) [0..<nInputs]) @
         WriteCompactSize (word_of_nat nOutputs) @
         concat (map (SerializeOutput txTo nIn nHashType) [0..<nOutputs]) @
         ser_writedata32 (nLockTime txTo))"

subsection \<open>Precomputed hashes\<close>

definition SHA256Uint256 :: "crypto \<Rightarrow> uint256 \<Rightarrow> uint256" where "SHA256Uint256 cr h = sha256 cr h"

definition GetPrevoutsSHA256 :: "crypto \<Rightarrow> CTransaction \<Rightarrow> uint256" where
  "GetPrevoutsSHA256 cr txTo = sha256 cr (concat (map (\<lambda>txin. ser_COutPoint (prevout txin)) (vin txTo)))"

definition GetSequencesSHA256 :: "crypto \<Rightarrow> CTransaction \<Rightarrow> uint256" where
  "GetSequencesSHA256 cr txTo = sha256 cr (concat (map (\<lambda>txin. ser_writedata32 (nSequence txin)) (vin txTo)))"

definition GetOutputsSHA256 :: "crypto \<Rightarrow> CTransaction \<Rightarrow> uint256" where
  "GetOutputsSHA256 cr txTo = sha256 cr (concat (map ser_CTxOut (vout txTo)))"

definition GetSpentAmountsSHA256 :: "crypto \<Rightarrow> CTxOut list \<Rightarrow> uint256" where
  "GetSpentAmountsSHA256 cr outputs_spent = sha256 cr (concat (map (\<lambda>txout. ser_CAmount (nValue txout)) outputs_spent))"

definition GetSpentScriptsSHA256 :: "crypto \<Rightarrow> CTxOut list \<Rightarrow> uint256" where
  "GetSpentScriptsSHA256 cr outputs_spent = sha256 cr (concat (map (\<lambda>txout. ser_bytes (scriptPubKey txout)) outputs_spent))"

record PrecomputedTransactionData =
  m_prevouts_single_hash :: uint256
  m_sequences_single_hash :: uint256
  m_outputs_single_hash :: uint256
  m_spent_amounts_single_hash :: uint256
  m_spent_scripts_single_hash :: uint256
  m_bip341_taproot_ready :: bool
  hashPrevouts :: uint256
  hashSequence :: uint256
  hashOutputs :: uint256
  m_bip143_segwit_ready :: bool
  m_spent_outputs :: "CTxOut list"
  m_spent_outputs_ready :: bool

definition PrecomputedTransactionData_default :: PrecomputedTransactionData where
  "PrecomputedTransactionData_default = \<lparr>m_prevouts_single_hash = uint256_null, m_sequences_single_hash = uint256_null,
     m_outputs_single_hash = uint256_null, m_spent_amounts_single_hash = uint256_null, m_spent_scripts_single_hash = uint256_null,
     m_bip341_taproot_ready = False, hashPrevouts = uint256_null, hashSequence = uint256_null, hashOutputs = uint256_null,
     m_bip143_segwit_ready = False, m_spent_outputs = [], m_spent_outputs_ready = False\<rparr>"

text \<open>The search for witnesses of inputs, with the outputs spent by the remaining inputs (none if they are not ready).\<close>

fun witness_features :: "CTxIn list \<Rightarrow> CTxOut list \<Rightarrow> bool \<Rightarrow> bool \<Rightarrow> bool \<times> bool" where
  "witness_features [] spent segwit taproot = (segwit, taproot)"
| "witness_features (txin # ins) spent segwit taproot =
     (if segwit \<and> taproot then (segwit, taproot)
      else if scriptWitness txin \<noteq> []
      then if spent \<noteq> [] \<and> length (scriptPubKey (hd spent)) = 2 + WITNESS_V1_TAPROOT_SIZE \<and> scriptPubKey (hd spent) ! 0 = OP_1
           then witness_features ins (tl spent) segwit True
           else witness_features ins (tl spent) True taproot
      else witness_features ins (tl spent) segwit taproot)"

definition Precomputed_Init ::
  "crypto \<Rightarrow> CTransaction \<Rightarrow> CTxOut list \<Rightarrow> bool \<Rightarrow> PrecomputedTransactionData \<Rightarrow> script_failure + PrecomputedTransactionData" where
  "Precomputed_Init cr txTo spent_outputs force d =
     (if m_spent_outputs_ready d then Inl Script_assert
      else let d = d\<lparr>m_spent_outputs := spent_outputs\<rparr> in
      if spent_outputs \<noteq> [] \<and> length spent_outputs \<noteq> length (vin txTo) then Inl Script_assert
      else let d = (if spent_outputs \<noteq> [] then d\<lparr>m_spent_outputs_ready := True\<rparr> else d);
               (segwit, taproot) = witness_features (vin txTo) spent_outputs force force;
               d = (if segwit \<or> taproot
                    then d\<lparr>m_prevouts_single_hash := GetPrevoutsSHA256 cr txTo, m_sequences_single_hash := GetSequencesSHA256 cr txTo,
                           m_outputs_single_hash := GetOutputsSHA256 cr txTo\<rparr>
                    else d);
               d = (if segwit
                    then d\<lparr>hashPrevouts := SHA256Uint256 cr (m_prevouts_single_hash d), hashSequence := SHA256Uint256 cr (m_sequences_single_hash d),
                           hashOutputs := SHA256Uint256 cr (m_outputs_single_hash d), m_bip143_segwit_ready := True\<rparr>
                    else d);
               d = (if taproot
                    then d\<lparr>m_spent_amounts_single_hash := GetSpentAmountsSHA256 cr (m_spent_outputs d),
                           m_spent_scripts_single_hash := GetSpentScriptsSHA256 cr (m_spent_outputs d), m_bip341_taproot_ready := True\<rparr>
                    else d)
           in Inr d)"

subsection \<open>Signature hashes\<close>

definition TaggedHash :: "crypto \<Rightarrow> string \<Rightarrow> bytes" where
  "TaggedHash cr tag = (let taghash = sha256 cr (map of_char tag) in taghash @ taghash)"

definition HASHER_TAPSIGHASH :: "crypto \<Rightarrow> bytes" where "HASHER_TAPSIGHASH cr = TaggedHash cr ''TapSighash''"
definition HASHER_TAPLEAF :: "crypto \<Rightarrow> bytes" where "HASHER_TAPLEAF cr = TaggedHash cr ''TapLeaf''"
definition HASHER_TAPBRANCH :: "crypto \<Rightarrow> bytes" where "HASHER_TAPBRANCH cr = TaggedHash cr ''TapBranch''"

datatype MissingDataBehavior = ASSERT_FAIL | MDB_FAIL

text \<open>The result \<^verbatim>\<open>false\<close> is \<^term>\<open>False\<close>.\<close>

definition HandleMissingData :: "MissingDataBehavior \<Rightarrow> script_failure + bool" where
  "HandleMissingData mdb = (case mdb of ASSERT_FAIL \<Rightarrow> Inl Script_assert | MDB_FAIL \<Rightarrow> Inr False)"

text \<open>\<^term>\<open>Inr None\<close> is the result \<^verbatim>\<open>false\<close>; otherwise the hash and the execution data with the hash of the output.\<close>

definition SignatureHashSchnorr ::
  "crypto \<Rightarrow> ScriptExecutionData \<Rightarrow> CTransaction \<Rightarrow> nat \<Rightarrow> u8 \<Rightarrow> SigVersion \<Rightarrow> PrecomputedTransactionData \<Rightarrow> MissingDataBehavior
     \<Rightarrow> script_failure + (uint256 \<times> ScriptExecutionData) option" where
  "SignatureHashSchnorr cr execdata tx_to in_pos hash_type sigversion d mdb =
     (if sigversion \<noteq> TAPROOT \<and> sigversion \<noteq> TAPSCRIPT then Inl Script_assert
      else let ext_flag = (if sigversion = TAPROOT then 0 else 1 :: u8) in
      if \<not> in_pos < length (vin tx_to) then Inl Script_assert
      else if \<not> (m_bip341_taproot_ready d \<and> m_spent_outputs_ready d) then ebind (HandleMissingData mdb) (\<lambda>_. Inr None)
      else let output_type = (if uint hash_type = SIGHASH_DEFAULT then SIGHASH_ALL else uint hash_type AND SIGHASH_OUTPUT_MASK);
               input_type = uint hash_type AND SIGHASH_INPUT_MASK in
      if \<not> (hash_type \<le> 0x03 \<or> (hash_type \<ge> 0x81 \<and> hash_type \<le> 0x83)) then Inr None
      else if \<not> m_annex_init execdata then Inl Script_assert
      else let have_annex = m_annex_present execdata;
               spend_type = push_bit 1 ext_flag + (if have_annex then 1 else 0) in
      if output_type = SIGHASH_SINGLE \<and> in_pos \<ge> length (vout tx_to) then Inr None
      else let execdata = (if output_type = SIGHASH_SINGLE \<and> m_output_hash execdata = None
                           then execdata\<lparr>m_output_hash := Some (sha256 cr (ser_CTxOut (vout tx_to ! in_pos)))\<rparr> else execdata) in
      if sigversion = TAPSCRIPT \<and> \<not> (m_tapleaf_hash_init execdata \<and> m_codeseparator_pos_init execdata) then Inl Script_assert
      else Inr (Some (sha256 cr (HASHER_TAPSIGHASH cr @ [0] @ [hash_type] @
             ser_writedata32 (tx_nVersion tx_to) @ ser_writedata32 (nLockTime tx_to) @
             (if input_type \<noteq> SIGHASH_ANYONECANPAY
              then m_prevouts_single_hash d @ m_spent_amounts_single_hash d @ m_spent_scripts_single_hash d @ m_sequences_single_hash d
              else []) @
             (if output_type = SIGHASH_ALL then m_outputs_single_hash d else []) @
             [spend_type] @
             (if input_type = SIGHASH_ANYONECANPAY
              then ser_COutPoint (prevout (vin tx_to ! in_pos)) @ ser_CTxOut (m_spent_outputs d ! in_pos) @
                   ser_writedata32 (nSequence (vin tx_to ! in_pos))
              else ser_writedata32 (word_of_nat in_pos)) @
             (if have_annex then m_annex_hash execdata else []) @
             (if output_type = SIGHASH_SINGLE then the (m_output_hash execdata) else []) @
             (if sigversion = TAPSCRIPT
              then m_tapleaf_hash execdata @ [0] @ ser_writedata32 (m_codeseparator_pos execdata) else [])), execdata)))"

definition SignatureHash_v0 ::
  "crypto \<Rightarrow> CScript \<Rightarrow> CTransaction \<Rightarrow> nat \<Rightarrow> int \<Rightarrow> int \<Rightarrow> PrecomputedTransactionData option \<Rightarrow> uint256" where
  "SignatureHash_v0 cr scriptCode txTo nIn nHashType amount data =
     (let ready = (case data of None \<Rightarrow> False | Some d \<Rightarrow> m_bip143_segwit_ready d);
          hPrevouts = (if \<not> fAnyoneCanPay nHashType
                       then if ready then hashPrevouts (the data) else SHA256Uint256 cr (GetPrevoutsSHA256 cr txTo)
                       else uint256_null);
          hSequence = (if \<not> fAnyoneCanPay nHashType \<and> \<not> fHashSingle nHashType \<and> \<not> fHashNone nHashType
                       then if ready then hashSequence (the data) else SHA256Uint256 cr (GetSequencesSHA256 cr txTo)
                       else uint256_null);
          hOutputs = (if \<not> fHashSingle nHashType \<and> \<not> fHashNone nHashType
                      then if ready then hashOutputs (the data) else SHA256Uint256 cr (GetOutputsSHA256 cr txTo)
                      else if fHashSingle nHashType \<and> nIn < length (vout txTo) then CHash256 cr (ser_CTxOut (vout txTo ! nIn))
                      else uint256_null)
      in CHash256 cr (ser_writedata32 (tx_nVersion txTo) @
           (if sint (tx_nVersion txTo) < 3 then ser_writedata32 (tx_nTime txTo) else []) @
           hPrevouts @ hSequence @ ser_COutPoint (prevout (vin txTo ! nIn)) @ ser_bytes scriptCode @ ser_CAmount amount @
           ser_writedata32 (nSequence (vin txTo ! nIn)) @ hOutputs @ ser_writedata32 (nLockTime txTo) @ ser_writedata32 (word_of_int nHashType)))"

definition uint256_ONE :: uint256 where "uint256_ONE = 1 # replicate 31 0"

definition SignatureHash ::
  "crypto \<Rightarrow> CScript \<Rightarrow> CTransaction \<Rightarrow> nat \<Rightarrow> int \<Rightarrow> int \<Rightarrow> SigVersion \<Rightarrow> PrecomputedTransactionData option \<Rightarrow> script_failure + uint256" where
  "SignatureHash cr scriptCode txTo nIn nHashType amount sigversion data =
     (if \<not> nIn < length (vin txTo) then Inl Script_assert
      else if sigversion = WITNESS_V0 then Inr (SignatureHash_v0 cr scriptCode txTo nIn nHashType amount data)
      else if fHashSingle nHashType \<and> nIn \<ge> length (vout txTo) then Inr uint256_ONE
      else Inr (CHash256 cr (CTransactionSignatureSerializer txTo scriptCode nIn nHashType @ ser_writedata32 (word_of_int nHashType))))"

subsection \<open>The signature checker of a transaction\<close>

text \<open>
  \<^verbatim>\<open>GenericTransactionSignatureChecker\<close>: the transaction, the index and the amount of the input, the precomputed hashes (\<^term>\<open>None\<close> for a null
  pointer) and the reaction to missing data.
\<close>

record tx_checker =
  txTo :: CTransaction
  m_mdb :: MissingDataBehavior
  chk_nIn :: nat
  chk_amount :: int
  txdata :: "PrecomputedTransactionData option"

definition tx_CheckECDSASignature :: "crypto \<Rightarrow> tx_checker \<Rightarrow> bytes \<Rightarrow> bytes \<Rightarrow> CScript \<Rightarrow> SigVersion \<Rightarrow> script_failure + bool" where
  "tx_CheckECDSASignature cr c vchSigIn vchPubKey scriptCode sigversion =
     (if \<not> ValidSize vchPubKey then Inr False
      else if vchSigIn = [] then Inr False
      else let nHashType = uint (last vchSigIn); vchSig = butlast vchSigIn in
      if sigversion = WITNESS_V0 \<and> chk_amount c < 0 then HandleMissingData (m_mdb c)
      else ebind (SignatureHash cr scriptCode (txTo c) (chk_nIn c) nHashType (chk_amount c) sigversion (txdata c)) (\<lambda>sighash.
        Inr (ecdsa_verify cr vchPubKey sighash vchSig)))"

definition tx_CheckSchnorrSignature ::
  "crypto \<Rightarrow> tx_checker \<Rightarrow> bytes \<Rightarrow> bytes \<Rightarrow> SigVersion \<Rightarrow> ScriptExecutionData \<Rightarrow> script_failure + ScriptExecutionData" where
  "tx_CheckSchnorrSignature cr c sig pubkey_in sigversion execdata =
     (if \<not> (sigversion = TAPROOT \<or> sigversion = TAPSCRIPT) then Inl Script_assert
      else if length pubkey_in \<noteq> 32 then Inl Script_assert
      else if length sig \<noteq> 64 \<and> length sig \<noteq> 65 then script_error SCRIPT_ERR_SCHNORR_SIG_SIZE
      else if length sig = 65 \<and> uint (last sig) = SIGHASH_DEFAULT then script_error SCRIPT_ERR_SCHNORR_SIG_HASHTYPE
      else let hashtype = (if length sig = 65 then last sig else word_of_int SIGHASH_DEFAULT);
               sig = (if length sig = 65 then butlast sig else sig) in
      case txdata c of None \<Rightarrow> ebind (HandleMissingData (m_mdb c)) (\<lambda>_. script_error SCRIPT_ERR_UNKNOWN_ERROR)
      | Some d \<Rightarrow>
          ebind (SignatureHashSchnorr cr execdata (txTo c) (chk_nIn c) hashtype sigversion d (m_mdb c)) (\<lambda>r.
          case r of None \<Rightarrow> script_error SCRIPT_ERR_SCHNORR_SIG_HASHTYPE
          | Some (sighash, execdata) \<Rightarrow>
              if \<not> schnorr_verify cr pubkey_in sighash sig then script_error SCRIPT_ERR_SCHNORR_SIG else Inr execdata))"

definition tx_CheckLockTime :: "tx_checker \<Rightarrow> int \<Rightarrow> bool" where
  "tx_CheckLockTime c lock =
     (let txLock = uint (nLockTime (txTo c)) in
      if \<not> ((txLock < LOCKTIME_THRESHOLD \<and> lock < LOCKTIME_THRESHOLD) \<or> (txLock \<ge> LOCKTIME_THRESHOLD \<and> lock \<ge> LOCKTIME_THRESHOLD))
      then False
      else if lock > txLock then False
      else if SEQUENCE_FINAL = nSequence (vin (txTo c) ! chk_nIn c) then False
      else True)"

definition tx_CheckSequence :: "tx_checker \<Rightarrow> int \<Rightarrow> bool" where
  "tx_CheckSequence c sequence =
     (let txToSequence = uint (nSequence (vin (txTo c) ! chk_nIn c)) in
      if tx_nVersion (txTo c) < 2 then False
      else if txToSequence AND uint SEQUENCE_LOCKTIME_DISABLE_FLAG \<noteq> 0 then False
      else let nLockTimeMask = uint (SEQUENCE_LOCKTIME_TYPE_FLAG OR SEQUENCE_LOCKTIME_MASK);
               txToSequenceMasked = txToSequence AND nLockTimeMask;
               nSequenceMasked = sequence AND nLockTimeMask;
               typeFlag = uint SEQUENCE_LOCKTIME_TYPE_FLAG in
      if \<not> ((txToSequenceMasked < typeFlag \<and> nSequenceMasked < typeFlag) \<or> (txToSequenceMasked \<ge> typeFlag \<and> nSequenceMasked \<ge> typeFlag))
      then False
      else if nSequenceMasked > txToSequenceMasked then False
      else True)"

definition TransactionSignatureChecker :: "crypto \<Rightarrow> tx_checker \<Rightarrow> BaseSignatureChecker" where
  "TransactionSignatureChecker cr c =
     \<lparr>CheckECDSASignature = tx_CheckECDSASignature cr c, CheckSchnorrSignature = tx_CheckSchnorrSignature cr c,
      CheckLockTime = tx_CheckLockTime c, CheckSequence = tx_CheckSequence c\<rparr>"

subsection \<open>Witness programs\<close>

text \<open>The search for an \<^verbatim>\<open>OP_SUCCESS\<close>: \<^term>\<open>Inr True\<close> if the script succeeds at once.\<close>

function scan_op_success :: "u32 \<Rightarrow> bytes \<Rightarrow> script_failure + bool" where
  "scan_op_success flags pc =
     (if pc = [] then Inr False
      else case GetScriptOp pc of None \<Rightarrow> script_error SCRIPT_ERR_BAD_OPCODE
      | Some (opcode, vch, pc') \<Rightarrow>
          if IsOpSuccess opcode
          then if flags AND SCRIPT_VERIFY_DISCOURAGE_OP_SUCCESS \<noteq> 0 then script_error SCRIPT_ERR_DISCOURAGE_OP_SUCCESS else Inr True
          else scan_op_success flags pc')"
  by pat_completeness auto
termination by (relation "measure (\<lambda>(f, pc). length pc)") (auto dest: GetScriptOp_less)

declare scan_op_success.simps [simp del]

definition ExecuteWitnessScript ::
  "crypto \<Rightarrow> stack \<Rightarrow> CScript \<Rightarrow> u32 \<Rightarrow> SigVersion \<Rightarrow> BaseSignatureChecker \<Rightarrow> ScriptExecutionData \<Rightarrow> script_failure + unit" where
  "ExecuteWitnessScript cr stack exec_script flags sigversion checker execdata =
     ebind (if sigversion = TAPSCRIPT then scan_op_success flags exec_script else Inr False) (\<lambda>succeeds.
     if succeeds then Inr ()
     else if sigversion = TAPSCRIPT \<and> length stack > MAX_STACK_SIZE then script_error SCRIPT_ERR_STACK_SIZE
     else if list_ex (\<lambda>elem. length elem > MAX_SCRIPT_ELEMENT_SIZE) stack then script_error SCRIPT_ERR_PUSH_SIZE
     else ebind (EvalScript cr stack exec_script flags checker sigversion execdata) (\<lambda>(stack, execdata).
       if length stack \<noteq> 1 then script_error SCRIPT_ERR_CLEANSTACK
       else if \<not> CastToBool (hd stack) then script_error SCRIPT_ERR_EVAL_FALSE
       else Inr ()))"

definition ANNEX_TAG :: u8 where "ANNEX_TAG = 0x50"
definition TAPROOT_LEAF_MASK :: u8 where "TAPROOT_LEAF_MASK = 0xfe"
definition TAPROOT_LEAF_TAPSCRIPT :: u8 where "TAPROOT_LEAF_TAPSCRIPT = 0xc0"
definition TAPROOT_CONTROL_BASE_SIZE :: nat where "TAPROOT_CONTROL_BASE_SIZE = 33"
definition TAPROOT_CONTROL_NODE_SIZE :: nat where "TAPROOT_CONTROL_NODE_SIZE = 32"
definition TAPROOT_CONTROL_MAX_NODE_COUNT :: nat where "TAPROOT_CONTROL_MAX_NODE_COUNT = 128"
definition TAPROOT_CONTROL_MAX_SIZE :: nat where
  "TAPROOT_CONTROL_MAX_SIZE = TAPROOT_CONTROL_BASE_SIZE + TAPROOT_CONTROL_NODE_SIZE * TAPROOT_CONTROL_MAX_NODE_COUNT"

definition ComputeTapleafHash :: "crypto \<Rightarrow> u8 \<Rightarrow> CScript \<Rightarrow> uint256" where
  "ComputeTapleafHash cr leaf_version script = sha256 cr (HASHER_TAPLEAF cr @ [leaf_version] @ ser_bytes script)"

fun lexicographical_compare :: "bytes \<Rightarrow> bytes \<Rightarrow> bool" where
  "lexicographical_compare xs [] = False"
| "lexicographical_compare [] (y # ys) = True"
| "lexicographical_compare (x # xs) (y # ys) = (if x < y then True else if y < x then False else lexicographical_compare xs ys)"

definition tapbranch :: "crypto \<Rightarrow> bytes \<Rightarrow> uint256 \<Rightarrow> nat \<Rightarrow> uint256" where
  "tapbranch cr control k i =
     (let node = take TAPROOT_CONTROL_NODE_SIZE (drop (TAPROOT_CONTROL_BASE_SIZE + TAPROOT_CONTROL_NODE_SIZE * i) control)
      in sha256 cr (HASHER_TAPBRANCH cr @ (if lexicographical_compare k node then k @ node else node @ k)))"

definition ComputeTaprootMerkleRoot :: "crypto \<Rightarrow> bytes \<Rightarrow> uint256 \<Rightarrow> uint256" where
  "ComputeTaprootMerkleRoot cr control tapleaf_hash =
     (let path_len = (length control - TAPROOT_CONTROL_BASE_SIZE) div TAPROOT_CONTROL_NODE_SIZE
      in foldl (tapbranch cr control) tapleaf_hash [0..<path_len])"

definition VerifyTaprootCommitment :: "crypto \<Rightarrow> bytes \<Rightarrow> bytes \<Rightarrow> uint256 \<Rightarrow> script_failure + bool" where
  "VerifyTaprootCommitment cr control program tapleaf_hash =
     (if \<not> length control \<ge> TAPROOT_CONTROL_BASE_SIZE \<or> \<not> length program \<ge> 32 then Inl Script_assert
      else let p = take (TAPROOT_CONTROL_BASE_SIZE - 1) (drop 1 control);
               merkle_root = ComputeTaprootMerkleRoot cr control tapleaf_hash
           in Inr (CheckTapTweak cr program p merkle_root (control ! 0 AND 1 \<noteq> 0)))"

definition verify_witness_v0 ::
  "crypto \<Rightarrow> bytes list \<Rightarrow> bytes \<Rightarrow> u32 \<Rightarrow> BaseSignatureChecker \<Rightarrow> script_failure + unit" where
  "verify_witness_v0 cr witness program flags checker =
     (if length program = WITNESS_V0_SCRIPTHASH_SIZE
      then if witness = [] then script_error SCRIPT_ERR_WITNESS_PROGRAM_WITNESS_EMPTY
           else let exec_script = last witness; stack = butlast witness
                in if sha256 cr exec_script \<noteq> program then script_error SCRIPT_ERR_WITNESS_PROGRAM_MISMATCH
                   else ExecuteWitnessScript cr (rev stack) exec_script flags WITNESS_V0 checker ScriptExecutionData_default
      else if length program = WITNESS_V0_KEYHASH_SIZE
      then if length witness \<noteq> 2 then script_error SCRIPT_ERR_WITNESS_PROGRAM_MISMATCH
           else let exec_script = [OP_DUP, OP_HASH160] @ push_data program @ [OP_EQUALVERIFY, OP_CHECKSIG]
                in ExecuteWitnessScript cr (rev witness) exec_script flags WITNESS_V0 checker ScriptExecutionData_default
      else script_error SCRIPT_ERR_WITNESS_PROGRAM_WRONG_LENGTH)"

definition verify_taproot_script ::
  "crypto \<Rightarrow> bytes list \<Rightarrow> bytes list \<Rightarrow> bytes \<Rightarrow> u32 \<Rightarrow> BaseSignatureChecker \<Rightarrow> ScriptExecutionData \<Rightarrow> script_failure + unit" where
  "verify_taproot_script cr witness stack program flags checker execdata =
     (let control = last stack; stack = butlast stack; exec_script = last stack; stack = butlast stack in
      if length control < TAPROOT_CONTROL_BASE_SIZE \<or> length control > TAPROOT_CONTROL_MAX_SIZE \<or>
         (length control - TAPROOT_CONTROL_BASE_SIZE) mod TAPROOT_CONTROL_NODE_SIZE \<noteq> 0
      then script_error SCRIPT_ERR_TAPROOT_WRONG_CONTROL_SIZE
      else let execdata = execdata\<lparr>m_tapleaf_hash := ComputeTapleafHash cr (control ! 0 AND TAPROOT_LEAF_MASK) exec_script\<rparr> in
      ebind (VerifyTaprootCommitment cr control program (m_tapleaf_hash execdata)) (\<lambda>committed.
      if \<not> committed then script_error SCRIPT_ERR_WITNESS_PROGRAM_MISMATCH
      else let execdata = execdata\<lparr>m_tapleaf_hash_init := True\<rparr> in
      if control ! 0 AND TAPROOT_LEAF_MASK = TAPROOT_LEAF_TAPSCRIPT
      then ExecuteWitnessScript cr (rev stack) exec_script flags TAPSCRIPT checker
             (execdata\<lparr>m_validation_weight_left := int (length (VectorFormatter_ser ser_bytes witness)) + VALIDATION_WEIGHT_OFFSET,
                       m_validation_weight_left_init := True\<rparr>)
      else if flags AND SCRIPT_VERIFY_DISCOURAGE_UPGRADABLE_TAPROOT_VERSION \<noteq> 0
      then script_error SCRIPT_ERR_DISCOURAGE_UPGRADABLE_TAPROOT_VERSION
      else Inr ()))"

definition verify_taproot ::
  "crypto \<Rightarrow> bytes list \<Rightarrow> bytes \<Rightarrow> u32 \<Rightarrow> BaseSignatureChecker \<Rightarrow> script_failure + unit" where
  "verify_taproot cr witness program flags checker =
     (if flags AND SCRIPT_VERIFY_TAPROOT = 0 then Inr ()
      else if witness = [] then script_error SCRIPT_ERR_WITNESS_PROGRAM_WITNESS_EMPTY
      else let annex = length witness \<ge> 2 \<and> last witness \<noteq> [] \<and> last witness ! 0 = ANNEX_TAG;
               stack = (if annex then butlast witness else witness);
               execdata = (if annex
                           then ScriptExecutionData_default\<lparr>m_annex_hash := sha256 cr (ser_bytes (last witness)), m_annex_present := True\<rparr>
                           else ScriptExecutionData_default\<lparr>m_annex_present := False\<rparr>);
               execdata = execdata\<lparr>m_annex_init := True\<rparr>
           in if length stack = 1
              then ebind (CheckSchnorrSignature checker (hd stack) program TAPROOT execdata) (\<lambda>_. Inr ())
              else verify_taproot_script cr witness stack program flags checker execdata)"

definition VerifyWitnessProgram ::
  "crypto \<Rightarrow> bytes list \<Rightarrow> nat \<Rightarrow> bytes \<Rightarrow> u32 \<Rightarrow> BaseSignatureChecker \<Rightarrow> bool \<Rightarrow> script_failure + unit" where
  "VerifyWitnessProgram cr witness witversion program flags checker is_p2sh =
     (if witversion = 0 then verify_witness_v0 cr witness program flags checker
      else if witversion = 1 \<and> length program = WITNESS_V1_TAPROOT_SIZE \<and> \<not> is_p2sh then verify_taproot cr witness program flags checker
      else if flags AND SCRIPT_VERIFY_DISCOURAGE_UPGRADABLE_WITNESS_PROGRAM \<noteq> 0
      then script_error SCRIPT_ERR_DISCOURAGE_UPGRADABLE_WITNESS_PROGRAM
      else Inr ())"

subsection \<open>Verification of an input\<close>

text \<open>Evaluation of a script of the base version, as the second overload of \<^verbatim>\<open>EvalScript\<close>; the result must be true.\<close>

definition EvalScript_base :: "crypto \<Rightarrow> stack \<Rightarrow> CScript \<Rightarrow> u32 \<Rightarrow> BaseSignatureChecker \<Rightarrow> script_failure + stack" where
  "EvalScript_base cr stack script flags checker =
     ebind (EvalScript cr stack script flags checker SIGVERSION_BASE ScriptExecutionData_default) (\<lambda>(stack, execdata). Inr stack)"

definition eval_true :: "stack \<Rightarrow> script_failure + unit" where
  "eval_true stack = (if stack = [] then script_error SCRIPT_ERR_EVAL_FALSE
     else if \<not> CastToBool (hd stack) then script_error SCRIPT_ERR_EVAL_FALSE else Inr ())"

text \<open>The two witness steps return the stack, resized to its bottom element after a witness program, and \<^verbatim>\<open>hadWitness\<close>.\<close>

definition verify_bare_witness ::
  "crypto \<Rightarrow> CScript \<Rightarrow> CScript \<Rightarrow> bytes list \<Rightarrow> u32 \<Rightarrow> BaseSignatureChecker \<Rightarrow> stack \<Rightarrow> script_failure + stack \<times> bool" where
  "verify_bare_witness cr script_sig script_pubkey witness flags checker stack =
     (if flags AND SCRIPT_VERIFY_WITNESS = 0 then Inr (stack, False)
      else case IsWitnessProgram script_pubkey of None \<Rightarrow> Inr (stack, False)
      | Some (witnessversion, witnessprogram) \<Rightarrow>
          if script_sig \<noteq> [] then script_error SCRIPT_ERR_WITNESS_MALLEATED
          else ebind (VerifyWitnessProgram cr witness witnessversion witnessprogram flags checker False) (\<lambda>_. Inr ([last stack], True)))"

definition verify_p2sh_witness ::
  "crypto \<Rightarrow> CScript \<Rightarrow> CScript \<Rightarrow> bytes list \<Rightarrow> u32 \<Rightarrow> BaseSignatureChecker \<Rightarrow> stack \<Rightarrow> bool \<Rightarrow> script_failure + stack \<times> bool" where
  "verify_p2sh_witness cr script_sig pubKey2 witness flags checker stack hadWitness =
     (if flags AND SCRIPT_VERIFY_WITNESS = 0 then Inr (stack, hadWitness)
      else case IsWitnessProgram pubKey2 of None \<Rightarrow> Inr (stack, hadWitness)
      | Some (witnessversion, witnessprogram) \<Rightarrow>
          if script_sig \<noteq> push_data pubKey2 then script_error SCRIPT_ERR_WITNESS_MALLEATED_P2SH
          else ebind (VerifyWitnessProgram cr witness witnessversion witnessprogram flags checker True) (\<lambda>_. Inr ([last stack], True)))"

definition verify_p2sh ::
  "crypto \<Rightarrow> CScript \<Rightarrow> CScript \<Rightarrow> bytes list \<Rightarrow> u32 \<Rightarrow> BaseSignatureChecker \<Rightarrow> stack \<Rightarrow> stack \<times> bool \<Rightarrow> script_failure + stack \<times> bool" where
  "verify_p2sh cr script_sig script_pubkey witness flags checker stackCopy = (\<lambda>(stack, hadWitness).
     if flags AND SCRIPT_VERIFY_P2SH = 0 \<or> \<not> IsPayToScriptHash script_pubkey then Inr (stack, hadWitness)
     else if \<not> IsPushOnly script_sig then script_error SCRIPT_ERR_SIG_PUSHONLY
     else case stackCopy of [] \<Rightarrow> Inl Script_assert
     | pubKey2 # stack \<Rightarrow>
         ebind (EvalScript_base cr stack pubKey2 flags checker) (\<lambda>stack.
         ebind (eval_true stack) (\<lambda>_.
         verify_p2sh_witness cr script_sig pubKey2 witness flags checker stack hadWitness)))"

definition VerifyScript ::
  "crypto \<Rightarrow> CScript \<Rightarrow> CScript \<Rightarrow> bytes list \<Rightarrow> u32 \<Rightarrow> BaseSignatureChecker \<Rightarrow> script_failure + unit" where
  "VerifyScript cr script_sig script_pubkey witness flags checker =
     (if flags AND SCRIPT_VERIFY_SIGPUSHONLY \<noteq> 0 \<and> \<not> IsPushOnly script_sig then script_error SCRIPT_ERR_SIG_PUSHONLY
      else ebind (EvalScript_base cr [] script_sig flags checker) (\<lambda>stackCopy.
      ebind (EvalScript_base cr stackCopy script_pubkey flags checker) (\<lambda>stack.
      ebind (eval_true stack) (\<lambda>_.
      ebind (verify_bare_witness cr script_sig script_pubkey witness flags checker stack) (\<lambda>r.
      ebind (verify_p2sh cr script_sig script_pubkey witness flags checker stackCopy r) (\<lambda>(stack, hadWitness).
      if flags AND SCRIPT_VERIFY_CLEANSTACK \<noteq> 0 \<and> (flags AND SCRIPT_VERIFY_P2SH = 0 \<or> flags AND SCRIPT_VERIFY_WITNESS = 0)
      then Inl Script_assert
      else if flags AND SCRIPT_VERIFY_CLEANSTACK \<noteq> 0 \<and> length stack \<noteq> 1 then script_error SCRIPT_ERR_CLEANSTACK
      else if flags AND SCRIPT_VERIFY_WITNESS \<noteq> 0 \<and> flags AND SCRIPT_VERIFY_P2SH = 0 then Inl Script_assert
      else if flags AND SCRIPT_VERIFY_WITNESS \<noteq> 0 \<and> \<not> hadWitness \<and> witness \<noteq> [] then script_error SCRIPT_ERR_WITNESS_UNEXPECTED
      else Inr ()))))))"

subsection \<open>More flags accept fewer inputs\<close>

lemma stricter_if_left: "(c \<Longrightarrow> stricter a b) \<Longrightarrow> (\<not> c \<Longrightarrow> stricter a' b) \<Longrightarrow> stricter (if c then a else a') b"
  by simp

lemma stricter_scan_op_success [strict_intros]:
  "flags_subset f g \<Longrightarrow> stricter (scan_op_success g pc) (scan_op_success f pc)"
proof (induction "length pc" arbitrary: pc rule: less_induct)
  case less
  show ?case
  proof (cases "GetScriptOp pc")
    case None
    then show ?thesis by (simp add: scan_op_success.simps [where pc = pc])
  next
    case (Some r)
    then obtain oc d pc' where r: "GetScriptOp pc = Some (oc, d, pc')" by (cases r) auto
    have "stricter (scan_op_success g pc') (scan_op_success f pc')" by (rule less.hyps [OF GetScriptOp_less [OF r] less.prems])
    then show ?thesis using flag_subset0 [OF less.prems]
      unfolding scan_op_success.simps [where pc = pc] r option.case prod.case by (auto simp: stricter_def)
  qed
qed

lemma stricter_ExecuteWitnessScript [strict_intros]:
  "flags_subset f g \<Longrightarrow> stricter (ExecuteWitnessScript cr st script g v checker ed) (ExecuteWitnessScript cr st script f v checker ed)"
  unfolding ExecuteWitnessScript_def by (intro strict_intros)

lemma stricter_verify_witness_v0 [strict_intros]:
  "flags_subset f g \<Longrightarrow> stricter (verify_witness_v0 cr w p g checker) (verify_witness_v0 cr w p f checker)"
  unfolding verify_witness_v0_def Let_def by (intro strict_intros)

lemma stricter_verify_taproot_script [strict_intros]:
  "flags_subset f g \<Longrightarrow> stricter (verify_taproot_script cr w st p g checker ed) (verify_taproot_script cr w st p f checker ed)"
  unfolding verify_taproot_script_def Let_def by (intro strict_intros) (auto dest: flag_subsetD)

lemma stricter_unit: "stricter m (Inr ())"
  by (simp add: stricter_def)

lemma stricter_verify_taproot [strict_intros]:
  assumes "flags_subset f g"
  shows "stricter (verify_taproot cr w p g checker) (verify_taproot cr w p f checker)"
proof (cases "f AND SCRIPT_VERIFY_TAPROOT = 0")
  case True
  then show ?thesis by (simp add: verify_taproot_def [where flags = f] stricter_unit)
next
  case False
  then have "g AND SCRIPT_VERIFY_TAPROOT \<noteq> 0" by (rule flag_subsetD [OF assms])
  with False show ?thesis unfolding verify_taproot_def Let_def
    by (simp only: if_False) (intro strict_intros assms)
qed

lemma stricter_VerifyWitnessProgram [strict_intros]:
  "flags_subset f g \<Longrightarrow> stricter (VerifyWitnessProgram cr w n p g checker b) (VerifyWitnessProgram cr w n p f checker b)"
  unfolding VerifyWitnessProgram_def by (intro strict_intros) (auto dest: flag_subsetD)

lemma stricter_EvalScript_base [strict_intros]:
  "flags_subset f g \<Longrightarrow> stricter (EvalScript_base cr st script g checker) (EvalScript_base cr st script f checker)"
  unfolding EvalScript_base_def by (intro strict_intros)

lemma stricterD: "stricter m n \<Longrightarrow> m = Inr x \<Longrightarrow> n = Inr x"
  by (simp add: stricter_def)

lemma stricter_bare_witness:
  assumes "flags_subset f g" "f AND SCRIPT_VERIFY_WITNESS \<noteq> 0"
  shows "stricter (verify_bare_witness cr sc pk w g checker st) (verify_bare_witness cr sc pk w f checker st)"
  using assms(2) flag_subsetD [OF assms] stricter_VerifyWitnessProgram [OF assms(1)]
  by (fastforce simp: verify_bare_witness_def stricter_def split: option.splits)

lemma stricter_p2sh_witness:
  assumes "flags_subset f g" "f AND SCRIPT_VERIFY_WITNESS \<noteq> 0"
  shows "stricter (verify_p2sh_witness cr sc pk w g checker st b) (verify_p2sh_witness cr sc pk w f checker st b)"
  using assms(2) flag_subsetD [OF assms] stricter_VerifyWitnessProgram [OF assms(1)]
  by (fastforce simp: verify_p2sh_witness_def stricter_def split: option.splits)

lemma stricter_p2sh:
  assumes "flags_subset f g" "f AND SCRIPT_VERIFY_WITNESS \<noteq> 0" "f AND SCRIPT_VERIFY_P2SH \<noteq> 0"
  shows "stricter (verify_p2sh cr sc pk w g checker st r) (verify_p2sh cr sc pk w f checker st r)"
  using assms(3) flag_subsetD [OF assms(1,3)] unfolding verify_p2sh_def
  by simp (intro strict_intros stricter_p2sh_witness assms)

text \<open>Without the witness flag the redeem script still evaluates to true.\<close>

lemma p2sh_without_witness:
  assumes "flags_subset f g" "f AND SCRIPT_VERIFY_WITNESS = 0" "verify_p2sh cr sc pk w g checker st r = Inr r'"
  shows "\<exists>r''. verify_p2sh cr sc pk w f checker st (s, b) = Inr r''"
proof (cases "f AND SCRIPT_VERIFY_P2SH = 0 \<or> \<not> IsPayToScriptHash pk")
  case True
  then show ?thesis by (simp add: verify_p2sh_def)
next
  case False
  then have "g AND SCRIPT_VERIFY_P2SH \<noteq> 0" using flag_subsetD [OF assms(1)] by blast
  with False assms(3) obtain pubKey2 st' where st: "st = pubKey2 # st'" "IsPushOnly sc"
    and "ebind (EvalScript_base cr st' pubKey2 g checker) (\<lambda>stack. ebind (eval_true stack) (\<lambda>_.
      verify_p2sh_witness cr sc pubKey2 w g checker stack (snd r))) = Inr r'"
    by (cases r) (auto simp: verify_p2sh_def split: if_splits list.splits)
  then obtain s' where "EvalScript_base cr st' pubKey2 g checker = Inr s'" "eval_true s' = Inr ()" by (auto simp: ebind_eq_Inr)
  moreover then have "EvalScript_base cr st' pubKey2 f checker = Inr s'" using stricter_EvalScript_base [OF assms(1)] by (blast dest: stricterD)
  ultimately show ?thesis using False assms(2) st by (simp add: verify_p2sh_def verify_p2sh_witness_def)
qed

definition flags_valid :: "u32 \<Rightarrow> bool" where
  "flags_valid flags \<longleftrightarrow> (flags AND SCRIPT_VERIFY_CLEANSTACK \<noteq> 0 \<longrightarrow> flags AND SCRIPT_VERIFY_WITNESS \<noteq> 0) \<and>
     (flags AND SCRIPT_VERIFY_WITNESS \<noteq> 0 \<longrightarrow> flags AND SCRIPT_VERIFY_P2SH \<noteq> 0)"

lemma VerifyScript_subset:
  assumes sub: "flags_subset f g" and valid: "flags_valid f" and ok: "VerifyScript cr sc pk w g checker = Inr ()"
  shows "VerifyScript cr sc pk w f checker = Inr ()"
proof -
  obtain st0 st r st' had where push: "\<not> (g AND SCRIPT_VERIFY_SIGPUSHONLY \<noteq> 0 \<and> \<not> IsPushOnly sc)"
    and e1: "EvalScript_base cr [] sc g checker = Inr st0" and e2: "EvalScript_base cr st0 pk g checker = Inr st"
    and t: "eval_true st = Inr ()" and b: "verify_bare_witness cr sc pk w g checker st = Inr r"
    and p: "verify_p2sh cr sc pk w g checker st0 r = Inr (st', had)"
    and clean: "g AND SCRIPT_VERIFY_CLEANSTACK \<noteq> 0 \<Longrightarrow> length st' = 1"
    and unexpected: "g AND SCRIPT_VERIFY_WITNESS \<noteq> 0 \<Longrightarrow> had \<or> w = []"
    using ok unfolding VerifyScript_def by (auto simp: ebind_eq_Inr split: if_splits)
  have push': "\<not> (f AND SCRIPT_VERIFY_SIGPUSHONLY \<noteq> 0 \<and> \<not> IsPushOnly sc)" using push flag_subsetD [OF sub] by blast
  have e1': "EvalScript_base cr [] sc f checker = Inr st0" and e2': "EvalScript_base cr st0 pk f checker = Inr st"
    using stricter_EvalScript_base [OF sub] e1 e2 by (blast dest: stricterD)+
  show ?thesis
  proof (cases "f AND SCRIPT_VERIFY_WITNESS = 0")
    case True
    then have "f AND SCRIPT_VERIFY_CLEANSTACK = 0" using valid by (auto simp: flags_valid_def)
    moreover have "verify_bare_witness cr sc pk w f checker st = Inr (st, False)" using True by (simp add: verify_bare_witness_def)
    moreover obtain st'' had' where "verify_p2sh cr sc pk w f checker st0 (st, False) = Inr (st'', had')"
      using p2sh_without_witness [OF sub True p] by (metis surj_pair)
    ultimately show ?thesis using True push' e1' e2' t by (simp add: VerifyScript_def)
  next
    case False
    have p2sh: "f AND SCRIPT_VERIFY_P2SH \<noteq> 0" using False valid by (auto simp: flags_valid_def)
    have "verify_bare_witness cr sc pk w f checker st = Inr r" by (rule stricterD [OF stricter_bare_witness [OF sub False] b])
    moreover have "verify_p2sh cr sc pk w f checker st0 r = Inr (st', had)" by (rule stricterD [OF stricter_p2sh [OF sub False p2sh] p])
    moreover have "had \<or> w = []" using unexpected flag_subsetD [OF sub False] by blast
    moreover have "f AND SCRIPT_VERIFY_CLEANSTACK = 0 \<or> length st' = 1" using clean flag_subsetD [OF sub] by blast
    ultimately show ?thesis using push' e1' e2' t False p2sh unfolding VerifyScript_def by auto
  qed
qed

subsection \<open>Verification without failed assertions\<close>

definition stack_ok :: "stack \<Rightarrow> bool" where "stack_ok st \<longleftrightarrow> small_stack st \<and> length st < 2 ^ 62"

lemma stack_ok_Cons: "stack_ok (x # st) \<Longrightarrow> stack_ok st"
  by (simp add: stack_ok_def)

lemma safe_EvalScript_base:
  assumes "checker_ok SIGVERSION_BASE checker" "crypto_ok cr" "stack_ok st"
  shows "safe stack_ok (EvalScript_base cr st script flags checker)"
proof (cases "script = []")
  case True
  then show ?thesis using assms(3)
    by (simp add: EvalScript_base_def EvalScript_def eval_loop.simps ConditionStack_new_def cond_empty_def MAX_SCRIPT_SIZE_def)
next
  case False
  have "safe (\<lambda>(st', ed'). small_stack st' \<and> execdata_ok SIGVERSION_BASE ed' \<and> (script \<noteq> [] \<longrightarrow> length st' \<le> MAX_STACK_SIZE))
      (EvalScript cr st script flags checker SIGVERSION_BASE ScriptExecutionData_default)"
    by (rule safe_EvalScript) (use assms in \<open>simp_all add: stack_ok_def execdata_ok_def\<close>)
  then show ?thesis unfolding EvalScript_base_def
    by (rule safe_bind) (auto simp: False stack_ok_def MAX_STACK_SIZE_def)
qed

lemma safe_scan_op_success: "safe (\<lambda>_. True) (scan_op_success flags pc)"
proof (induction "length pc" arbitrary: pc rule: less_induct)
  case less
  show ?case
  proof (cases "GetScriptOp pc")
    case None
    then show ?thesis by (simp add: scan_op_success.simps [where pc = pc])
  next
    case (Some r)
    then obtain oc d pc' where r: "GetScriptOp pc = Some (oc, d, pc')" by (cases r) auto
    show ?thesis using less.hyps [OF GetScriptOp_less [OF r]]
      unfolding scan_op_success.simps [where pc = pc] r option.case prod.case by simp
  qed
qed

lemma safe_ExecuteWitnessScript:
  assumes "checker_ok v checker" "crypto_ok cr" "v = WITNESS_V0 \<or> v = TAPSCRIPT" "length st < 2 ^ 62"
    "execdata_ok v (ed\<lparr>m_codeseparator_pos_init := True\<rparr>)"
  shows "safe (\<lambda>_. True) (ExecuteWitnessScript cr st script flags v checker ed)"
proof -
  have eval: "safe (\<lambda>_. True) (EvalScript cr st script flags checker v ed)" if "small_stack st"
    by (rule safe_mono [OF safe_EvalScript]) (use assms that in auto)
  have "safe (\<lambda>_. True) (if v = TAPSCRIPT then scan_op_success flags script else Inr False)" by (simp add: safe_scan_op_success)
  note scan = safe_bind [OF this]
  show ?thesis unfolding ExecuteWitnessScript_def
    by (intro scan safe_if safe_case_prod safe_bind [OF eval]) (auto simp: small_stack_def list_ex_iff)
qed

lemma safe_verify_witness_v0:
  assumes "checker_ok WITNESS_V0 checker" "crypto_ok cr" "length w < 2 ^ 62"
  shows "safe (\<lambda>_. True) (verify_witness_v0 cr w p flags checker)"
proof -
  have "safe (\<lambda>_. True) (ExecuteWitnessScript cr st script flags WITNESS_V0 checker ScriptExecutionData_default)" if "length st < 2 ^ 62" for st script
    by (rule safe_ExecuteWitnessScript) (use assms that in \<open>simp_all add: execdata_ok_def\<close>)
  then show ?thesis unfolding verify_witness_v0_def Let_def using assms(3) by (intro safe_if) simp_all
qed

lemma safe_verify_taproot_script:
  assumes "checker_ok TAPSCRIPT checker" "crypto_ok cr" "length st < 2 ^ 62" "length p = 32" "m_annex_init ed"
  shows "safe (\<lambda>_. True) (verify_taproot_script cr w st p flags checker ed)"
proof -
  have exec: "safe (\<lambda>_. True) (ExecuteWitnessScript cr (rev (butlast (butlast st))) script flags TAPSCRIPT checker
      (ed\<lparr>m_tapleaf_hash := h, m_tapleaf_hash_init := True, m_validation_weight_left := n, m_validation_weight_left_init := True\<rparr>))" for script h n
    by (rule safe_ExecuteWitnessScript) (use assms in \<open>simp_all add: execdata_ok_def\<close>)
  have commit: "safe (\<lambda>_. True) (VerifyTaprootCommitment cr control p h)" if "\<not> length control < TAPROOT_CONTROL_BASE_SIZE" for control h
    using that assms(4) by (simp add: VerifyTaprootCommitment_def)
  show ?thesis unfolding verify_taproot_script_def Let_def
    by (intro safe_if safe_bind [OF commit]) (simp_all add: exec)
qed

lemma safe_verify_taproot:
  assumes "checker_ok TAPSCRIPT checker" "\<And>sig ed. m_annex_init ed \<Longrightarrow> safe (\<lambda>_. True) (CheckSchnorrSignature checker sig p TAPROOT ed)"
    "crypto_ok cr" "length w < 2 ^ 62" "length p = 32"
  shows "safe (\<lambda>_. True) (verify_taproot cr w p flags checker)"
proof -
  note script = safe_verify_taproot_script [OF assms(1,3)]
  show ?thesis unfolding verify_taproot_def Let_def
    by (intro safe_if safe_bind [OF assms(2)] script) (use assms(4,5) in auto)
qed

text \<open>The checker is used for a Schnorr signature only for the program of a taproot output with a witness.\<close>

definition schnorr_ok :: "BaseSignatureChecker \<Rightarrow> CScript \<Rightarrow> bytes list \<Rightarrow> bool" where
  "schnorr_ok checker pk w \<longleftrightarrow> w \<noteq> [] \<and> length pk = 34 \<and> pk ! 0 = OP_1 \<longrightarrow>
     checker_ok TAPSCRIPT checker \<and>
     (\<forall>sig p ed. length p = 32 \<and> m_annex_init ed \<longrightarrow> safe (\<lambda>_. True) (CheckSchnorrSignature checker sig p TAPROOT ed))"

lemma IsWitnessProgram_taproot: "IsWitnessProgram s = Some (1, p) \<Longrightarrow> length p = 32 \<Longrightarrow> length s = 34 \<and> s ! 0 = OP_1"
proof -
  assume p: "IsWitnessProgram s = Some (1, p)" "length p = 32"
  then have s: "length s = 34" "DecodeOP_N (s ! 0) = Some 1"
    by (auto simp: IsWitnessProgram_def DecodeOP_N_def not_less split: if_splits)
  then have "unat (s ! 0) = 81" by (auto simp: DecodeOP_N_def split: if_splits)
  then show ?thesis using s by (simp add: word_unat_eq_iff)
qed

lemma safe_VerifyWitnessProgram:
  assumes "checker_ok WITNESS_V0 checker" "crypto_ok cr" "length w < 2 ^ 62"
    "n = 1 \<Longrightarrow> \<not> b \<Longrightarrow> length p = 32 \<Longrightarrow> w \<noteq> [] \<Longrightarrow> schnorr_ok checker pk w \<and> length pk = 34 \<and> pk ! 0 = OP_1"
  shows "safe (\<lambda>_. True) (VerifyWitnessProgram cr w n p flags checker b)"
proof -
  have "safe (\<lambda>_. True) (verify_taproot cr w p flags checker)" if "n = 1" "\<not> b" "length p = 32"
  proof (cases "w = []")
    case True
    then show ?thesis by (simp add: verify_taproot_def)
  next
    case False
    with assms(4) [OF that this] show ?thesis
      by (intro safe_verify_taproot) (use assms that in \<open>auto simp: schnorr_ok_def\<close>)
  qed
  then show ?thesis unfolding VerifyWitnessProgram_def
    by (intro safe_if safe_verify_witness_v0 assms) (auto simp: WITNESS_V1_TAPROOT_SIZE_def)
qed

lemma p2sh_needs_stack:
  assumes "IsPayToScriptHash pk"
  shows "EvalScript_base cr [] pk flags checker \<noteq> Inr st"
proof -
  obtain rest where pk: "pk = OP_HASH160 # rest" using assms by (cases pk) (auto simp: IsPayToScriptHash_def)
  have op: "exec_opcode cr flags checker SIGVERSION_BASE e pc OP_HASH160 s = stack_error" if "es_stack s = []" for e pc s
    using that by (simp add: exec_opcode_def exec_control_def exec_stack_def exec_compute_def op_digest_def)
  have "eval_step cr flags checker SIGVERSION_BASE OP_HASH160 [] rest s \<noteq> Inr s'" if "es_stack s = []" "all_true (vfExec s)" for s s'
    using that by (simp add: eval_step_def disabled_opcode_def op Let_def)
  then show ?thesis unfolding EvalScript_base_def EvalScript_def pk eval_loop.simps [where pc = "_ # _"]
    by (auto simp: GetScriptOp_nonpush ConditionStack_new_def all_true_def ebind_eq_Inr Let_def)
qed

lemma safe_VerifyScript:
  assumes base: "checker_ok SIGVERSION_BASE checker" and v0: "checker_ok WITNESS_V0 checker" and cr: "crypto_ok cr"
    and flags: "flags_valid flags" and schnorr: "schnorr_ok checker pk w" and len: "length w < 2 ^ 62"
  shows "safe (\<lambda>_. True) (VerifyScript cr sc pk w flags checker)"
proof -
  note eval = safe_EvalScript_base [OF base cr]
  have truth: "safe (\<lambda>_. True) (eval_true st)" for st by (simp add: eval_true_def)
  have bare: "safe (\<lambda>_. True) (verify_bare_witness cr sc pk w flags checker st)" for st
  proof (cases "IsWitnessProgram pk")
    case (Some r)
    then obtain n p where r: "IsWitnessProgram pk = Some (n, p)" by (cases r) auto
    have "safe (\<lambda>_. True) (VerifyWitnessProgram cr w n p flags checker False)"
      by (rule safe_VerifyWitnessProgram [OF v0 cr len, where pk = pk]) (use r schnorr IsWitnessProgram_taproot in auto)
    note prog = safe_bind [OF this]
    show ?thesis unfolding verify_bare_witness_def r option.case prod.case by (intro safe_if prog) simp_all
  qed (simp add: verify_bare_witness_def)
  have p2shw: "safe (\<lambda>_. True) (verify_p2sh_witness cr sc pk2 w flags checker st b)" for pk2 st b
  proof (cases "IsWitnessProgram pk2")
    case (Some r)
    then obtain n p where r: "IsWitnessProgram pk2 = Some (n, p)" by (cases r) auto
    have "safe (\<lambda>_. True) (VerifyWitnessProgram cr w n p flags checker True)"
      by (rule safe_VerifyWitnessProgram [OF v0 cr len, where pk = pk]) simp
    note prog = safe_bind [OF this]
    show ?thesis unfolding verify_p2sh_witness_def r option.case prod.case by (intro safe_if prog) simp_all
  qed (simp add: verify_p2sh_witness_def)
  have p2sh: "safe (\<lambda>_. True) (verify_p2sh cr sc pk w flags checker st0 r)"
    if "stack_ok st0" "IsPayToScriptHash pk \<Longrightarrow> st0 \<noteq> []" for st0 r
    unfolding verify_p2sh_def
    by (intro safe_case_prod safe_if safe_case_list safe_bind [OF eval] safe_bind [OF truth] p2shw)
      (use that stack_ok_Cons in auto)
  have run: "safe (\<lambda>_. True) (ebind (EvalScript_base cr st0 pk flags checker) k)"
    if "stack_ok st0" "\<And>st. (IsPayToScriptHash pk \<Longrightarrow> st0 \<noteq> []) \<Longrightarrow> safe (\<lambda>_. True) (k st)" for st0 and k :: "stack \<Rightarrow> script_failure + unit"
    using eval [OF that(1), of pk flags] that(2) p2sh_needs_stack [of pk cr flags checker]
    by (cases "EvalScript_base cr st0 pk flags checker") auto
  have start: "stack_ok []" by (simp add: stack_ok_def)
  show ?thesis unfolding VerifyScript_def
    by (intro safe_if safe_bind [OF eval [OF start]] run safe_bind [OF truth] safe_bind [OF bare] safe_bind [OF p2sh] safe_case_prod)
      (use flags in \<open>auto simp: flags_valid_def\<close>)
qed

subsection \<open>Precomputed hashes\<close>

lemma witness_features_keep: "segwit \<Longrightarrow> fst (witness_features ins spent segwit taproot)" "taproot \<Longrightarrow> snd (witness_features ins spent segwit taproot)"
  by (induction ins spent segwit taproot rule: witness_features.induct) auto

lemma witness_features_taproot:
  "i < length ins \<Longrightarrow> length spent = length ins \<Longrightarrow> scriptWitness (ins ! i) \<noteq> [] \<Longrightarrow> length (scriptPubKey (spent ! i)) = 34 \<Longrightarrow>
   scriptPubKey (spent ! i) ! 0 = OP_1 \<Longrightarrow> snd (witness_features ins spent segwit taproot)"
proof (induction ins spent segwit taproot arbitrary: i rule: witness_features.induct)
  case (2 txin ins spent segwit taproot)
  obtain out spent' where spent: "spent = out # spent'" using "2.prems"(2) by (cases spent) auto
  show ?case
  proof (cases i)
    case 0
    with "2.prems"(3-5) spent show ?thesis by (auto simp: WITNESS_V1_TAPROOT_SIZE_def intro: witness_features_keep)
  next
    case (Suc j)
    with "2.prems" spent have "j < length ins" "length (tl spent) = length ins" "scriptWitness (ins ! j) \<noteq> []"
      "length (scriptPubKey (tl spent ! j)) = 34" "scriptPubKey (tl spent ! j) ! 0 = OP_1" by auto
    then show ?thesis using "2.IH" [of j] by (auto simp: WITNESS_V1_TAPROOT_SIZE_def)
  qed
qed simp

lemma Precomputed_Init_facts:
  assumes "Precomputed_Init cr tx spent force PrecomputedTransactionData_default = Inr d"
  shows "spent \<noteq> [] \<Longrightarrow> length spent = length (vin tx)" "m_spent_outputs d = spent" "m_spent_outputs_ready d \<longleftrightarrow> spent \<noteq> []"
    "m_bip341_taproot_ready d \<longleftrightarrow> snd (witness_features (vin tx) spent force force)"
    "m_bip143_segwit_ready d \<Longrightarrow> hashPrevouts d = SHA256Uint256 cr (GetPrevoutsSHA256 cr tx)"
    "m_bip143_segwit_ready d \<Longrightarrow> hashSequence d = SHA256Uint256 cr (GetSequencesSHA256 cr tx)"
    "m_bip143_segwit_ready d \<Longrightarrow> hashOutputs d = SHA256Uint256 cr (GetOutputsSHA256 cr tx)"
  using assms
  by (auto simp: Precomputed_Init_def PrecomputedTransactionData_default_def Let_def split: if_splits prod.splits)

lemma Precomputed_Init_defined:
  "spent = [] \<or> length spent = length (vin tx) \<Longrightarrow> \<exists>d. Precomputed_Init cr tx spent force PrecomputedTransactionData_default = Inr d"
  by (auto simp: Precomputed_Init_def PrecomputedTransactionData_default_def Let_def split: prod.split)

lemma SignatureHash_precomputed:
  assumes "Precomputed_Init cr tx spent force PrecomputedTransactionData_default = Inr d"
  shows "SignatureHash cr code tx i t amount v (Some d) = SignatureHash cr code tx i t amount v None"
  using Precomputed_Init_facts(5-7) [OF assms] unfolding SignatureHash_def SignatureHash_v0_def Let_def by auto

subsection \<open>The checker of a transaction keeps its contract\<close>

lemma safe_SignatureHash: "i < length (vin tx) \<Longrightarrow> safe (\<lambda>_. True) (SignatureHash cr code tx i t amount v d)"
  by (simp add: SignatureHash_def)

lemma safe_tx_CheckECDSASignature:
  assumes "chk_nIn c < length (vin (txTo c))" "0 \<le> chk_amount c"
  shows "safe (\<lambda>_. True) (tx_CheckECDSASignature cr c sig key code v)"
  unfolding tx_CheckECDSASignature_def Let_def
  by (intro safe_if safe_bind [OF safe_SignatureHash [OF assms(1)]]) (use assms(2) in simp_all)

lemma safe_SignatureHashSchnorr:
  assumes "i < length (vin tx)" "m_bip341_taproot_ready d" "m_spent_outputs_ready d" "m_annex_init ed" "v = TAPROOT \<or> v = TAPSCRIPT"
    "execdata_ok v ed"
  shows "safe (\<lambda>r. \<forall>h ed'. r = Some (h, ed') \<longrightarrow> execdata_ok v ed') (SignatureHashSchnorr cr ed tx i t v d mdb)"
  using assms by (auto simp: SignatureHashSchnorr_def Let_def execdata_ok_def)

lemma safe_tx_CheckSchnorrSignature:
  assumes "chk_nIn c < length (vin (txTo c))" "txdata c = Some d" "m_bip341_taproot_ready d" "m_spent_outputs_ready d" "m_annex_init ed"
    "v = TAPROOT \<or> v = TAPSCRIPT" "execdata_ok v ed" "length key = 32"
  shows "safe (execdata_ok v) (tx_CheckSchnorrSignature cr c sig key v ed)"
proof -
  note hash = safe_bind [OF safe_SignatureHashSchnorr [OF assms(1,3-7)]]
  show ?thesis unfolding tx_CheckSchnorrSignature_def Let_def assms(2) option.case
    by (intro safe_if hash) (use assms(6,8) in \<open>auto split: option.split\<close>)
qed

lemma tx_checker_ok:
  assumes "chk_nIn c < length (vin (txTo c))" "0 \<le> chk_amount c"
  shows "checker_ok SIGVERSION_BASE (TransactionSignatureChecker cr c)" "checker_ok WITNESS_V0 (TransactionSignatureChecker cr c)"
  by (simp_all add: checker_ok_def TransactionSignatureChecker_def safe_tx_CheckECDSASignature [OF assms])

lemma tx_schnorr_ok:
  assumes "Precomputed_Init cr tx spent force PrecomputedTransactionData_default = Inr d" "i < length (vin tx)" "spent \<noteq> []"
    and c: "c = \<lparr>txTo = tx, m_mdb = mdb, chk_nIn = i, chk_amount = amount, txdata = Some d\<rparr>"
  shows "schnorr_ok (TransactionSignatureChecker cr c) (scriptPubKey (spent ! i)) (scriptWitness (vin tx ! i))"
  unfolding schnorr_ok_def
proof
  assume a: "scriptWitness (vin tx ! i) \<noteq> [] \<and> length (scriptPubKey (spent ! i)) = 34 \<and> scriptPubKey (spent ! i) ! 0 = OP_1"
  have ready: "m_bip341_taproot_ready d" "m_spent_outputs_ready d"
    using Precomputed_Init_facts [OF assms(1)] witness_features_taproot [of i "vin tx" spent] assms(2,3) a by auto
  have s: "safe (execdata_ok v) (tx_CheckSchnorrSignature cr c sig key v ed)"
    if "m_annex_init ed" "v = TAPROOT \<or> v = TAPSCRIPT" "execdata_ok v ed" "length key = 32" for v sig key ed
    by (rule safe_tx_CheckSchnorrSignature [where d = d]) (use that ready assms(2) c in simp_all)
  have "checker_ok TAPSCRIPT (TransactionSignatureChecker cr c)"
    using s [of _ TAPSCRIPT] by (simp add: checker_ok_def TransactionSignatureChecker_def execdata_ok_def)
  moreover have "safe (\<lambda>_. True) (tx_CheckSchnorrSignature cr c sig p TAPROOT ed)" if "length p = 32" "m_annex_init ed" for sig p ed
    by (rule safe_mono [OF s]) (use that in \<open>simp_all add: execdata_ok_def\<close>)
  ultimately show "checker_ok TAPSCRIPT (TransactionSignatureChecker cr c) \<and>
      (\<forall>sig p ed. length p = 32 \<and> m_annex_init ed \<longrightarrow> safe (\<lambda>_. True) (CheckSchnorrSignature (TransactionSignatureChecker cr c) sig p TAPROOT ed))"
    by (simp add: TransactionSignatureChecker_def)
qed

subsection \<open>Locks of a transaction\<close>

lemma tx_CheckLockTime_iff:
  "tx_CheckLockTime c lock \<longleftrightarrow> (uint (nLockTime (txTo c)) < LOCKTIME_THRESHOLD \<longleftrightarrow> lock < LOCKTIME_THRESHOLD) \<and>
     lock \<le> uint (nLockTime (txTo c)) \<and> nSequence (vin (txTo c) ! chk_nIn c) \<noteq> SEQUENCE_FINAL"
  by (auto simp: tx_CheckLockTime_def Let_def)

subsection \<open>Payment to the hash of a public key\<close>

lemma eval_loop_step:
  "GetScriptOp pc = Some (oc, d, pc') \<Longrightarrow> eval_loop cr f c v pc st = ebind (eval_step cr f c v oc d pc' st) (eval_loop cr f c v pc')"
proof -
  assume r: "GetScriptOp pc = Some (oc, d, pc')"
  then have "pc \<noteq> []" using GetScriptOp_less by fastforce
  then show ?thesis by (simp add: eval_loop.simps [where pc = pc] r)
qed

lemma eval_loop_end [simp]: "eval_loop cr f c v [] st = Inr st"
  by (simp add: eval_loop.simps)

lemma small_push: "length d \<le> 75 \<Longrightarrow> push_data d = word_of_nat (length d) # d"
  by (simp add: push_data_def)

lemma small_push_op:
  assumes "length d \<le> 75"
  shows "unat (word_of_nat (length d) :: u8) = length d" "GetScriptOp (push_data d @ rest) = Some (word_of_nat (length d), d, rest)"
proof -
  show u: "unat (word_of_nat (length d) :: u8) = length d" using assms by (intro unat_word_of_nat) simp
  then show "GetScriptOp (push_data d @ rest) = Some (word_of_nat (length d), d, rest)" using assms
    by (simp add: small_push GetScriptOp_def read_push_size_def word_less_nat_alt word_le_nat_alt)
qed

lemma eval_step_push:
  assumes "2 \<le> length d" "length d \<le> 75" "all_true (vfExec st)" "stacks_size st < MAX_STACK_SIZE"
  shows "eval_step cr f c v (word_of_nat (length d)) d pc st = Inr (st\<lparr>es_stack := d # es_stack st, opcode_pos := opcode_pos st + 1\<rparr>)"
proof -
  define oc where "oc = (word_of_nat (length d) :: u8)"
  have u: "unat oc = length d" unfolding oc_def by (rule small_push_op(1) [OF assms(2)])
  have "\<not> oc > OP_16" "oc \<le> OP_PUSHDATA4" "\<not> disabled_opcode oc" "oc \<noteq> OP_CODESEPARATOR"
    using u assms(2) by (auto simp: word_less_nat_alt word_le_nat_alt disabled_opcode_def)
  moreover have "CheckMinimalPush d oc" using u assms(1,2) by (auto simp: CheckMinimalPush_def)
  ultimately show ?thesis using assms
    unfolding oc_def [symmetric] by (simp add: eval_step_def MAX_SCRIPT_ELEMENT_SIZE_def stacks_size_def Let_def)
qed

text \<open>The script finds no copy of the signature in the script of the output.\<close>

lemma skip_none: "pc = [] \<or> hd pc \<noteq> hd b \<Longrightarrow> b \<noteq> [] \<Longrightarrow> skip_matches b pc n = (pc, n)"
  by (cases pc; cases b) (auto simp: skip_matches.simps)

lemma find_delete_step:
  "hd pc \<noteq> hd b \<Longrightarrow> b \<noteq> [] \<Longrightarrow> GetScriptOp pc = Some (oc, d, pc') \<Longrightarrow> fst (find_delete b pc n res) = fst (find_delete b pc' n (res @ take (length pc - length pc') pc))"
  by (subst find_delete.simps) (simp add: skip_none)

lemma find_delete_end: "b \<noteq> [] \<Longrightarrow> fst (find_delete b [] n res) = n"
  by (subst find_delete.simps) (simp add: skip_none GetScriptOp_def)

definition p2pkh :: "bytes \<Rightarrow> CScript" where
  "p2pkh h = [OP_DUP, OP_HASH160] @ push_data h @ [OP_EQUALVERIFY, OP_CHECKSIG]"

lemma p2pkh_ops:
  assumes "length h = 20"
  shows "GetScriptOp (p2pkh h) = Some (OP_DUP, [], OP_HASH160 # push_data h @ [OP_EQUALVERIFY, OP_CHECKSIG])"
    "GetScriptOp (OP_HASH160 # push_data h @ [OP_EQUALVERIFY, OP_CHECKSIG]) = Some (OP_HASH160, [], push_data h @ [OP_EQUALVERIFY, OP_CHECKSIG])"
    "GetScriptOp (push_data h @ [OP_EQUALVERIFY, OP_CHECKSIG]) = Some (0x14, h, [OP_EQUALVERIFY, OP_CHECKSIG])"
    "GetScriptOp [OP_EQUALVERIFY, OP_CHECKSIG] = Some (OP_EQUALVERIFY, [], [OP_CHECKSIG])"
    "GetScriptOp [OP_CHECKSIG] = Some (OP_CHECKSIG, [], [])"
  using small_push_op(2) [of h "[OP_EQUALVERIFY, OP_CHECKSIG]"] assms by (simp_all add: p2pkh_def GetScriptOp_nonpush)

lemma p2pkh_no_signature:
  assumes "length h = 20" "2 \<le> length sig" "length sig \<le> 75" "length sig \<noteq> 20"
  shows "FindAndDelete (p2pkh h) (push_data sig) = (0, p2pkh h)"
proof -
  let ?b = "push_data sig"
  have ne: "x \<noteq> hd ?b" if "unat x \<noteq> length sig" for x
    using that small_push_op(1) [OF assms(3)] by (auto simp: small_push assms(3))
  have "hd (p2pkh h) \<noteq> hd ?b" "hd (OP_HASH160 # r) \<noteq> hd ?b" "hd (OP_EQUALVERIFY # r) \<noteq> hd ?b" "hd (OP_CHECKSIG # r) \<noteq> hd ?b"
    "hd (push_data h @ r) \<noteq> hd ?b" for r
    by (rule ne, use assms in \<open>simp add: p2pkh_def small_push\<close>)+
  then have "fst (find_delete ?b (p2pkh h) 0 []) = 0"
    using find_delete_step [OF _ push_data_ne p2pkh_ops(1) [OF assms(1)]] find_delete_step [OF _ push_data_ne p2pkh_ops(2) [OF assms(1)]]
      find_delete_step [OF _ push_data_ne p2pkh_ops(3) [OF assms(1)]] find_delete_step [OF _ push_data_ne p2pkh_ops(4) [OF assms(1)]]
      find_delete_step [OF _ push_data_ne p2pkh_ops(5) [OF assms(1)]] find_delete_end [OF push_data_ne]
    by metis
  then show ?thesis by (auto simp: FindAndDelete_def split: prod.splits)
qed

lemma eval_dup:
  assumes "all_true (vfExec st)" "nOpCount st < 200" "es_stack st = x # s" "stacks_size st < 999"
  shows "eval_step cr f c SIGVERSION_BASE OP_DUP [] pc st =
    Inr (st\<lparr>es_stack := x # x # s, nOpCount := nOpCount st + 1, opcode_pos := opcode_pos st + 1\<rparr>)"
  using assms by (simp add: eval_step_def Let_def disabled_opcode_def exec_opcode_def exec_control_def exec_stack_def op_dup_def
      MAX_OPS_PER_SCRIPT_def MAX_STACK_SIZE_def stacks_size_def)

lemma eval_hash160:
  assumes "all_true (vfExec st)" "nOpCount st < 200" "es_stack st = x # s" "stacks_size st < 999"
  shows "eval_step cr f c SIGVERSION_BASE OP_HASH160 [] pc st =
    Inr (st\<lparr>es_stack := CHash160 cr x # s, nOpCount := nOpCount st + 1, opcode_pos := opcode_pos st + 1\<rparr>)"
  using assms by (simp add: eval_step_def Let_def disabled_opcode_def exec_opcode_def exec_control_def exec_stack_def exec_compute_def
      op_digest_def MAX_OPS_PER_SCRIPT_def MAX_STACK_SIZE_def stacks_size_def)

lemma eval_equalverify:
  assumes "all_true (vfExec st)" "nOpCount st < 200" "es_stack st = y # x # s" "stacks_size st < 999"
  shows "eval_step cr f c SIGVERSION_BASE OP_EQUALVERIFY [] pc st =
    (if x = y then Inr (st\<lparr>es_stack := s, nOpCount := nOpCount st + 1, opcode_pos := opcode_pos st + 1\<rparr>)
     else script_error SCRIPT_ERR_EQUALVERIFY)"
  using assms by (simp add: eval_step_def Let_def disabled_opcode_def exec_opcode_def exec_control_def exec_stack_def exec_compute_def
      op_equal_def MAX_OPS_PER_SCRIPT_def MAX_STACK_SIZE_def stacks_size_def)

lemma eval_checksig:
  assumes "all_true (vfExec st)" "nOpCount st < 200" "es_stack st = key # sig # s" "stacks_size st < 999"
  shows "eval_step cr f c SIGVERSION_BASE OP_CHECKSIG [] pc st =
    ebind (EvalChecksigPreTapscript cr sig key (pbegincodehash st) f c SIGVERSION_BASE) (\<lambda>ok.
      Inr (st\<lparr>es_stack := stack_bool ok # s, nOpCount := nOpCount st + 1, opcode_pos := opcode_pos st + 1\<rparr>))"
  using assms by (cases "EvalChecksigPreTapscript cr sig key (pbegincodehash st) f c SIGVERSION_BASE")
    (simp_all add: eval_step_def Let_def disabled_opcode_def exec_opcode_def exec_control_def exec_stack_def exec_compute_def
      op_checksig_def EvalChecksig_def MAX_OPS_PER_SCRIPT_def MAX_STACK_SIZE_def stacks_size_def)

lemma eval_p2pkh:
  assumes "length h = 20"
  shows "EvalScript_base cr [key, sig] (p2pkh h) f c =
    (if CHash160 cr key = h
     then ebind (EvalChecksigPreTapscript cr sig key (p2pkh h) f c SIGVERSION_BASE) (\<lambda>ok. Inr [stack_bool ok])
     else script_error SCRIPT_ERR_EQUALVERIFY)"
proof -
  have len: "\<not> length (p2pkh h) > MAX_SCRIPT_SIZE" using assms by (simp add: p2pkh_def small_push MAX_SCRIPT_SIZE_def)
  note steps = eval_loop_step [OF p2pkh_ops(1) [OF assms]] eval_loop_step [OF p2pkh_ops(2) [OF assms]]
    eval_loop_step [OF p2pkh_ops(3) [OF assms]] eval_loop_step [OF p2pkh_ops(4) [OF assms]] eval_loop_step [OF p2pkh_ops(5) [OF assms]]
  note push = eval_step_push [of h, simplified assms, simplified]
  show ?thesis unfolding EvalScript_base_def EvalScript_def Let_def steps
    using len by (cases "EvalChecksigPreTapscript cr sig key (p2pkh h) f c SIGVERSION_BASE")
      (simp_all add: eval_dup eval_hash160 push eval_equalverify eval_checksig all_true_def ConditionStack_new_def cond_empty_def
        stacks_size_def MAX_STACK_SIZE_def)
qed

lemma eval_two_pushes:
  assumes "2 \<le> length sig" "length sig \<le> 75" "2 \<le> length key" "length key \<le> 75"
  shows "EvalScript_base cr [] (push_data sig @ push_data key) f c = Inr [key, sig]"
proof -
  have len: "\<not> length (push_data sig @ push_data key) > MAX_SCRIPT_SIZE" using assms by (simp add: small_push MAX_SCRIPT_SIZE_def)
  have op2: "GetScriptOp (push_data key) = Some (word_of_nat (length key), key, [])" using small_push_op(2) [OF assms(4), of "[]"] by simp
  note steps = eval_loop_step [OF small_push_op(2) [OF assms(2), of "push_data key"]] eval_loop_step [OF op2]
  show ?thesis unfolding EvalScript_base_def EvalScript_def Let_def steps
    using len assms by (simp add: eval_step_push all_true_def ConditionStack_new_def cond_empty_def stacks_size_def MAX_STACK_SIZE_def)
qed

lemma CastToBool_stack_bool [simp]: "CastToBool (stack_bool b) = b"
  by (simp add: stack_bool_def vchTrue_def vchFalse_def)

lemma VerifyScript_p2pkh:
  assumes "flags_valid flags" "length h = 20" "2 \<le> length sig" "length sig \<le> 75" "length sig \<noteq> 20" "2 \<le> length key" "length key \<le> 75"
  shows "VerifyScript cr (push_data sig @ push_data key) (p2pkh h) [] flags checker = Inr () \<longleftrightarrow>
    CHash160 cr key = h \<and> CheckSignatureEncoding cr sig flags = Inr () \<and> CheckPubKeyEncoding key flags SIGVERSION_BASE = Inr () \<and>
    CheckECDSASignature checker sig key (p2pkh h) SIGVERSION_BASE = Inr True"
proof -
  have push: "IsPushOnly (push_data sig @ push_data key)" using IsPushOnly_pushes [of "[sig, key]"] assms by (simp add: pushes_ok_def)
  have wp: "IsWitnessProgram (p2pkh h) = None" using assms(2) by (simp add: IsWitnessProgram_def p2pkh_def small_push)
  have sh: "\<not> IsPayToScriptHash (p2pkh h)" using assms(2) by (simp add: IsPayToScriptHash_def p2pkh_def small_push)
  have clean: "\<not> (flags AND SCRIPT_VERIFY_CLEANSTACK \<noteq> 0 \<and> (flags AND SCRIPT_VERIFY_P2SH = 0 \<or> flags AND SCRIPT_VERIFY_WITNESS = 0))"
    "\<not> (flags AND SCRIPT_VERIFY_WITNESS \<noteq> 0 \<and> flags AND SCRIPT_VERIFY_P2SH = 0)" using assms(1) by (auto simp: flags_valid_def)
  have check: "EvalChecksigPreTapscript cr sig key (p2pkh h) flags checker SIGVERSION_BASE = Inr True \<longleftrightarrow>
      CheckSignatureEncoding cr sig flags = Inr () \<and> CheckPubKeyEncoding key flags SIGVERSION_BASE = Inr () \<and>
      CheckECDSASignature checker sig key (p2pkh h) SIGVERSION_BASE = Inr True"
    using assms by (auto simp: EvalChecksigPreTapscript_def p2pkh_no_signature ebind_eq_Inr split: if_splits)
  have "VerifyScript cr (push_data sig @ push_data key) (p2pkh h) [] flags checker = Inr () \<longleftrightarrow>
      CHash160 cr key = h \<and> EvalChecksigPreTapscript cr sig key (p2pkh h) flags checker SIGVERSION_BASE = Inr True"
    using push wp sh clean assms
    by (cases "EvalChecksigPreTapscript cr sig key (p2pkh h) flags checker SIGVERSION_BASE")
      (auto simp: VerifyScript_def eval_two_pushes eval_p2pkh verify_bare_witness_def verify_p2sh_def eval_true_def)
  then show ?thesis using check by simp
qed

lemma ser32_inj: "ser_writedata32 a = ser_writedata32 b \<Longrightarrow> a = b"
  using codec32.unser_iff [of "ser_writedata32 a @ []" a "[]"] codec32.unser_iff [of "ser_writedata32 b @ []" b "[]"] by simp

subsection \<open>Properties\<close>

definition sample_out :: CTxOut where "sample_out = \<lparr>nValue = 5, scriptPubKey = [OP_1]\<rparr>"

definition sample_spend :: CTransaction where
  "sample_spend = \<lparr>vin = [\<lparr>prevout = COutPoint_null, scriptSig = [], nSequence = 0, scriptWitness = []\<rparr>], vout = [sample_out], tx_nVersion = 1,
     tx_nTime = 7, nLockTime = 0\<rparr>"







text \<open>
  C20: precomputation is transparent. The hash that a signature commits to is the same with the hashes that \<^verbatim>\<open>PrecomputedTransactionData\<close>
  holds after \<^verbatim>\<open>Init\<close> and without them, for every script, hash type and version.
\<close>

theorem precomputed_hashes_agree:
  assumes "Precomputed_Init cr tx spent force PrecomputedTransactionData_default = Inr d"
  shows "SignatureHash cr code tx i hashtype amount v (Some d) = SignatureHash cr code tx i hashtype amount v None"
  by (rule SignatureHash_precomputed [OF assms])

theorem precomputed_hashes_agree_witness:
  "\<exists>d. Precomputed_Init sample_crypto sample_spend [] True PrecomputedTransactionData_default = Inr d \<and>
     SignatureHash sample_crypto [] sample_spend 0 1 5 WITNESS_V0 (Some d) = SignatureHash sample_crypto [] sample_spend 0 1 5 WITNESS_V0 None"
  using precomputed_hashes_agree [of sample_crypto sample_spend "[]" True] Precomputed_Init_defined [of "[]" sample_spend sample_crypto True] by auto

text \<open>
  C21: signatures of taproot inputs do not cover the time of the transaction. For a transaction with a time, the serialization that
  other signatures cover contains it, but the hash for a Schnorr signature and the data it is computed from do not change with it.
\<close>

theorem schnorr_ignores_time:
  assumes "sint (tx_nVersion tx) < 3" "t \<noteq> tx_nTime tx"
  shows "CTransactionSignatureSerializer (tx\<lparr>tx_nTime := t\<rparr>) code i hashtype \<noteq> CTransactionSignatureSerializer tx code i hashtype \<and>
    Precomputed_Init cr (tx\<lparr>tx_nTime := t\<rparr>) spent force pre = Precomputed_Init cr tx spent force pre \<and>
    SignatureHashSchnorr cr execdata (tx\<lparr>tx_nTime := t\<rparr>) i hash_type v d mdb = SignatureHashSchnorr cr execdata tx i hash_type v d mdb"
proof (intro conjI)
  have len: "length (ser_writedata32 x) = 4" for x by (simp add: ser_writedata32_def)
  show "CTransactionSignatureSerializer (tx\<lparr>tx_nTime := t\<rparr>) code i hashtype \<noteq> CTransactionSignatureSerializer tx code i hashtype"
    using assms ser32_inj [of t "tx_nTime tx"] by (auto simp: CTransactionSignatureSerializer_def Let_def len)
  have same: "vin (tx\<lparr>tx_nTime := t\<rparr>) = vin tx" "vout (tx\<lparr>tx_nTime := t\<rparr>) = vout tx" "tx_nVersion (tx\<lparr>tx_nTime := t\<rparr>) = tx_nVersion tx"
    "nLockTime (tx\<lparr>tx_nTime := t\<rparr>) = nLockTime tx" by simp_all
  show "Precomputed_Init cr (tx\<lparr>tx_nTime := t\<rparr>) spent force pre = Precomputed_Init cr tx spent force pre"
    unfolding Precomputed_Init_def GetPrevoutsSHA256_def GetSequencesSHA256_def GetOutputsSHA256_def same by (rule refl)
  show "SignatureHashSchnorr cr execdata (tx\<lparr>tx_nTime := t\<rparr>) i hash_type v d mdb = SignatureHashSchnorr cr execdata tx i hash_type v d mdb"
    unfolding SignatureHashSchnorr_def same by (rule refl)
qed

theorem schnorr_ignores_time_witness:
  "SignatureHashSchnorr sample_crypto ScriptExecutionData_default (sample_spend\<lparr>tx_nTime := 8\<rparr>) 0 0 TAPROOT PrecomputedTransactionData_default MDB_FAIL =
   SignatureHashSchnorr sample_crypto ScriptExecutionData_default sample_spend 0 0 TAPROOT PrecomputedTransactionData_default MDB_FAIL"
  using schnorr_ignores_time [of sample_spend 8 "[]" 0 0 sample_crypto "[]" False PrecomputedTransactionData_default ScriptExecutionData_default 0 TAPROOT
      PrecomputedTransactionData_default MDB_FAIL] by (simp add: sample_spend_def)

end
