(* ===== verification/Spec2Isabelle.thy ===== *)
theory Spec2Isabelle
  imports Connect Check_Block Script_Verify
begin

text \<open>
  Verification of the consensus code of the Nowp node, a Bitcoin-derived node with proof of work and proof of stake. All
  paths are relative to \<^verbatim>\<open>src/src/\<close>.

  \<^bold>\<open>The program and the theories.\<close> Blocks arrive as bytes, are decoded, joined to the tree of known blocks, checked against
  the difficulty rules and the proof-of-work or proof-of-stake protocol, and connected to the set of unspent outputs, which is
  kept in caches over a database. The theories follow that path.

  \<^item> \<^verbatim>\<open>Nowp_Prelude\<close>: machine integers (\<open>u8\<close>, \<open>u32\<close>, \<open>u64\<close>), little-endian readings of word lists, truncating division.
  \<^item> \<^verbatim>\<open>Arith_Uint\<close>, \<^verbatim>\<open>Compact_Bits\<close>: \<^verbatim>\<open>base_uint\<close> of \<^verbatim>\<open>arith_uint256.h/.cpp\<close> as a list of 32-bit limbs, with the loops of the code;
    the lemmas show that they compute arithmetic modulo two to the width, that division is exact and throws exactly on zero,
    and that the compact encoding is stable and loses less than one part in \<open>2 ^ 15\<close>.
  \<^item> \<^verbatim>\<open>Serialize\<close>, \<^verbatim>\<open>Primitives\<close>: \<^verbatim>\<open>serialize.h\<close>, \<^verbatim>\<open>primitives/transaction.h\<close>, \<^verbatim>\<open>primitives/block.h\<close>. A reader maps the remaining bytes to
    an error or a value and the rest. The locales \<open>serializer\<close> and \<open>codec\<close> state when a writer and a reader belong together and
    are interpreted for every format; the formats are shown to be canonical.
  \<^item> \<^verbatim>\<open>Script\<close>, \<^verbatim>\<open>Compressor\<close>: script numbers, instruction decoding, signature operation counts and standard shapes
    (\<^verbatim>\<open>script/script.h/.cpp\<close>), the compressed formats of coins and undo records (\<^verbatim>\<open>compressor.h/.cpp\<close>, \<^verbatim>\<open>undo.h\<close>).
  \<^item> \<^verbatim>\<open>Block_Index\<close>: \<^verbatim>\<open>chain.h/.cpp\<close>. A pointer is a number, the heap a function from pointers to \<open>CBlockIndex\<close> records, a null
    pointer \<open>None\<close>. \<open>wf_store\<close> says that heights count the blocks below and skip pointers lead to ancestors; the skip list, the
    active chain, forks and locators are shown to compute what following \<^verbatim>\<open>pprev\<close> computes.
  \<^item> \<^verbatim>\<open>Bignum\<close>, \<^verbatim>\<open>Chain_Params\<close>, \<^verbatim>\<open>Pow\<close>: \<^verbatim>\<open>bignum.h\<close>, the consensus parameters of \<^verbatim>\<open>chainparams.cpp\<close>, and \<^verbatim>\<open>pow.cpp\<close>: both retargeting
    rules and the check of a hash.
  \<^item> \<^verbatim>\<open>Ghost_Rider\<close>, \<^verbatim>\<open>Powcache\<close>: the composition of the proof-of-work hash (\<^verbatim>\<open>hash.h\<close>, \<^verbatim>\<open>hash_selection.cpp\<close>) and its cache
    (\<^verbatim>\<open>util/unordered_lru_cache.h\<close>, \<^verbatim>\<open>primitives/powcache.cpp\<close>); the locale \<open>value_cache\<close> is the contract of a cache.
  \<^item> \<^verbatim>\<open>Kernel\<close>: \<^verbatim>\<open>kernel.cpp\<close>, the election of the stake modifier and the kernel protocol.
  \<^item> \<^verbatim>\<open>Coins\<close>, \<^verbatim>\<open>Connect\<close>: \<^verbatim>\<open>coins.h/.cpp\<close>, the coin database of \<^verbatim>\<open>txdb.cpp\<close>, and the changes \<^verbatim>\<open>ConnectBlock\<close> and
    \<^verbatim>\<open>DisconnectBlock\<close> of \<^verbatim>\<open>validation.cpp\<close> make to the coins. The locale \<open>coins_view\<close> is the contract of a view,
    \<open>coins_cache\<close> of a cache over a view; they are interpreted for the cache of the tip over the database and for the view of
    a block over that cache.
  \<^item> \<^verbatim>\<open>Merkle\<close>: \<^verbatim>\<open>consensus/merkle.cpp\<close> and \<^verbatim>\<open>merkleblock.h/.cpp\<close>. The lemmas show that a root without mutation flag
    determines the transaction ids up to a collision of the hash, and that partial trees are extracted as built and prove only
    transactions of the block.
  \<^item> \<^verbatim>\<open>Tx_Verify\<close>: \<^verbatim>\<open>consensus/tx_check.cpp\<close>, \<^verbatim>\<open>consensus/tx_verify.cpp\<close>, weights, coin age and fees; the lemmas characterise
    the accepted transactions, the relative locks and, in \<open>coins_cache\<close>, the fee that \<^verbatim>\<open>CheckTxInputs\<close> computes from the coins.
  \<^item> \<^verbatim>\<open>Standard\<close>: \<^verbatim>\<open>script/standard.h/.cpp\<close>, recognition and construction of the standard scripts and their destinations.
  \<^item> \<^verbatim>\<open>Check_Block\<close>: the checks of \<^verbatim>\<open>validation.cpp\<close> on headers and blocks (\<^verbatim>\<open>CheckBlock\<close>, \<^verbatim>\<open>ContextualCheckBlockHeader\<close>,
    \<^verbatim>\<open>ContextualCheckBlock\<close>), witness commitments and the block reward. The record \<open>node_env\<close> holds the parameters and the code
    outside the model; the flag \<^verbatim>\<open>fChecked\<close> of a block and the proof-of-work cache are passed explicitly.
  \<^item> \<^verbatim>\<open>Script_Eval\<close>, \<^verbatim>\<open>Script_Verify\<close>: \<^verbatim>\<open>script/interpreter.h/.cpp\<close>. \<open>eval_state\<close> holds the local variables of \<^verbatim>\<open>EvalScript\<close>; one
    definition models each opcode or group of opcodes, \<open>exec_opcode\<close> the switch and \<open>eval_loop\<close> the loop. Signature hashes, the
    signature checker, witness programs and \<^verbatim>\<open>VerifyScript\<close> follow. \<open>stricter\<close> relates computations of which one fails more often,
    \<open>safe\<close> says that no assertion fails; both have rules for every construct and carry the proofs that flags only restrict and that
    no script, witness or transaction makes an assertion fail.

  \<^bold>\<open>Errors, loops and bounds.\<close> A thrown exception, a failed assertion and a null dereference are values of an error type
  (\<open>Inl e\<close>) or \<open>None\<close>. Loops are structural recursion, recursion with a termination proof, or \<open>while_option\<close> and
  \<open>partial_function\<close>, for which the lemmas show that a result is returned on every well-formed tree; no fuel is used.
  Unsigned integers keep their width; signed ones are integers, with the range stated where the code can leave it.

  \<^bold>\<open>Parameters.\<close> Code outside the sources or of libraries is an argument: the double SHA-256 of a message, the individual
  hashes of Ghost Rider, parsing of public keys, OpenSSL's number formats, random numbers, the size estimate of a
  database batch, script verification and the transaction index.

  \<^bold>\<open>Not modelled.\<close> Networking, wallet, user interface, RPC and threads (input and output around the modelled functions), LevelDB and
  other vendored libraries, and the parts of the modelled files that print or log.
\<close>

end
